(* ===== verification/Prelude.thy ===== *)
theory Prelude
  imports Main "HOL-Library.Multiset"
begin

text \<open>
  Shared vocabulary of the development: the run-time failures of Go as values of a sum
  type, indexing and slicing of Go slices with their bounds checks, the two loop shapes
  the sources use (\<open>for\<close> with state, \<open>for\<close> with \<open>break\<close>), and the generic lemmas on
  them that every component uses. The collection \<open>go_simps\<close> rewrites operations that
  are in bounds to the list functions of the library.

  The locale \<open>transition_system\<close> is the interface every state machine of the
  development is an instance of: an initial state, a step relation and an invariant kept
  by every step.
\<close>

named_theorems go_simps "Go slice operations and loops whose bounds are known"

section \<open>Failures and results\<close>

text \<open>
  A Go run-time panic (index out of range, nil dereference, integer division by zero, a failed type assertion, an
  explicit \<open>panic\<close>) and \<open>log.Fatalf\<close> both end the process, \<open>t.Fatalf\<close> of the testing package ends
  the test: nothing after them runs, so a failed operation has no resulting state.
\<close>

datatype go_error =
    IndexOutOfRange
  | NilDereference
  | DivideByZero
  | TypeAssertion
  | GoPanic string
  | LogFatal string
  | TestFatal string

type_synonym 'a res = "go_error + 'a"

definition rbind :: "'a res \<Rightarrow> ('a \<Rightarrow> 'b res) \<Rightarrow> 'b res" where
  "rbind m f = (case m of Inl e \<Rightarrow> Inl e | Inr x \<Rightarrow> f x)"

definition is_ok :: "'a res \<Rightarrow> bool" where
  "is_ok m = (case m of Inl e \<Rightarrow> False | Inr x \<Rightarrow> True)"

section \<open>Slices\<close>

text \<open>\<open>a[i]\<close>, \<open>a[i] = v\<close>, \<open>a[:i]\<close> and \<open>a[i:]\<close>. A slice is its list of elements; the
  capacity beyond the length is never used by the sources.\<close>

definition go_nth :: "'a list \<Rightarrow> int \<Rightarrow> 'a res" where
  "go_nth xs i = (if 0 \<le> i \<and> i < int (length xs) then Inr (xs ! nat i) else Inl IndexOutOfRange)"

definition go_upd :: "'a list \<Rightarrow> int \<Rightarrow> 'a \<Rightarrow> 'a list res" where
  "go_upd xs i v =
     (if 0 \<le> i \<and> i < int (length xs) then Inr (xs[nat i := v]) else Inl IndexOutOfRange)"

definition go_take :: "'a list \<Rightarrow> int \<Rightarrow> 'a list res" where
  "go_take xs i = (if 0 \<le> i \<and> i \<le> int (length xs) then Inr (take (nat i) xs) else Inl IndexOutOfRange)"

definition go_drop :: "'a list \<Rightarrow> int \<Rightarrow> 'a list res" where
  "go_drop xs i = (if 0 \<le> i \<and> i \<le> int (length xs) then Inr (drop (nat i) xs) else Inl IndexOutOfRange)"

definition len :: "'a list \<Rightarrow> int" where
  "len xs = int (length xs)"

section \<open>Numbers as strings\<close>

fun digitsOf :: "nat \<Rightarrow> string" where
  "digitsOf n = (if n < 10 then [char_of (48 + n)] else digitsOf (n div 10) @ [char_of (48 + n mod 10)])"

declare digitsOf.simps [simp del]

text \<open>\<open>strconv.Itoa\<close>.\<close>

definition Itoa :: "int \<Rightarrow> string" where
  "Itoa n = (if n < 0 then ''-'' @ digitsOf (nat (- n)) else digitsOf (nat n))"

section \<open>Loops\<close>

text \<open>
  \<open>for_each is f s\<close>: a \<open>for\<close> loop over the given indices that threads a state.
  \<open>for_break is d p\<close>: a \<open>for\<close> loop that stops at the first index where \<open>p\<close> holds and
  otherwise runs out with the loop variable at \<open>d\<close>.
\<close>

primrec for_each :: "'i list \<Rightarrow> ('i \<Rightarrow> 's \<Rightarrow> 's res) \<Rightarrow> 's \<Rightarrow> 's res" where
  "for_each [] f s = Inr s"
| "for_each (i # is) f s = rbind (f i s) (for_each is f)"

primrec for_break :: "'i list \<Rightarrow> 'i \<Rightarrow> ('i \<Rightarrow> bool res) \<Rightarrow> 'i res" where
  "for_break [] d p = Inr d"
| "for_break (i # is) d p = rbind (p i) (\<lambda>b. if b then Inr i else for_break is d p)"

text \<open>\<open>indices a b\<close> are the values of \<open>i\<close> in \<open>for i := a; i < b; i++\<close>.\<close>

definition indices :: "int \<Rightarrow> int \<Rightarrow> int list" where
  "indices a b = map (\<lambda>k. a + int k) [0..<nat (b - a)]"

section \<open>Lemmas on numbers as strings\<close>

text \<open>The digits of a number are digits, and the number can be read from them.\<close>

definition isDigit :: "char \<Rightarrow> bool" where
  "isDigit c = (48 \<le> (of_char c :: nat) \<and> (of_char c :: nat) \<le> 57)"

definition readDigits :: "string \<Rightarrow> nat" where
  "readDigits ds = foldl (\<lambda>a c. 10 * a + (of_char c - 48)) 0 ds"

lemma digitsOf_digits: "c \<in> set (digitsOf n) \<Longrightarrow> isDigit c"
proof (induction n rule: digitsOf.induct)
  case (1 n)
  show ?case
  proof (cases "n < 10")
    case False
    then show ?thesis using 1 by (subst (asm) (2) digitsOf.simps) (auto simp: isDigit_def)
  qed (use 1(2) in \<open>subst (asm) digitsOf.simps, auto simp: isDigit_def\<close>)
qed

lemma readDigits_digitsOf: "readDigits (digitsOf n) = n"
proof (induction n rule: digitsOf.induct)
  case (1 n)
  then show ?case
    by (cases "n < 10") (simp_all add: digitsOf.simps [of n] readDigits_def)
qed

lemma digitsOf_inj: "digitsOf m = digitsOf n \<longleftrightarrow> m = n"
  by (metis readDigits_digitsOf)

lemma digitsOf_nonempty [simp]: "digitsOf n \<noteq> []"
  by (simp add: digitsOf.simps)

lemma minus_no_digit: "\<not> isDigit (CHR ''-'')"
  by (simp add: isDigit_def)

lemma Itoa_inj: "Itoa a = Itoa b \<longleftrightarrow> a = b"
proof -
  have "CHR ''-'' \<notin> set (digitsOf n)" for n using digitsOf_digits minus_no_digit by blast
  then have "digitsOf n \<noteq> CHR ''-'' # xs" for n xs by (metis list.set_intros(1))
  then show ?thesis by (auto simp: Itoa_def digitsOf_inj dest: sym)
qed

section \<open>Lemmas on results, slices and loops\<close>

lemma rbind_Inr [simp]: "rbind (Inr x) f = f x"
  by (simp add: rbind_def)

lemma rbind_Inl [simp]: "rbind (Inl e) f = Inl e"
  by (simp add: rbind_def)

lemma rbind_eq_Inr: "rbind m f = Inr y \<longleftrightarrow> (\<exists>x. m = Inr x \<and> f x = Inr y)"
  by (cases m) auto

lemma rbind_ok_cases:
  assumes "rbind m f = Inr y"
  obtains x where "m = Inr x" "f x = Inr y"
  using assms by (auto simp: rbind_eq_Inr)

lemma rbind_assoc: "rbind (rbind m f) g = rbind m (\<lambda>x. rbind (f x) g)"
  by (simp add: rbind_def split: sum.splits)

lemma rbind_if [simp]: "rbind (if b then x else y) f = (if b then rbind x f else rbind y f)"
  by simp

lemma is_ok_simps [simp]: "is_ok (Inr x)" "\<not> is_ok (Inl e)"
  by (simp_all add: is_ok_def)

lemma is_ok_iff: "is_ok m \<longleftrightarrow> (\<exists>x. m = Inr x)"
  by (cases m) auto

text \<open>
  Partial correctness: every result an operation can have satisfies \<open>P\<close>. The rules walk
  through a composition without looking at the intermediate results.
\<close>

definition post :: "('a \<Rightarrow> bool) \<Rightarrow> 'a res \<Rightarrow> bool" where
  "post P m = (\<forall>x. m = Inr x \<longrightarrow> P x)"

named_theorems post_rules "rules for partial correctness"

lemma post_Inr [post_rules]: "P x \<Longrightarrow> post P (Inr x)"
  by (simp add: post_def)

lemma post_Inl [post_rules]: "post P (Inl e)"
  by (simp add: post_def)

lemma post_rbind [post_rules]: "(\<And>x. post P (f x)) \<Longrightarrow> post P (rbind m f)"
  by (auto simp: post_def rbind_eq_Inr)

lemma post_if [post_rules]: "post P x \<Longrightarrow> post P y \<Longrightarrow> post P (if b then x else y)"
  by simp

lemma post_Let [post_rules]: "(\<And>x. post P (f x)) \<Longrightarrow> post P (Let x f)"
  by simp

lemma postD: "m = Inr x \<Longrightarrow> post P m \<Longrightarrow> P x"
  by (simp add: post_def)

lemma post_rbind_result: "post Q m \<Longrightarrow> (\<And>x. Q x \<Longrightarrow> post P (f x)) \<Longrightarrow> post P (rbind m f)"
  by (auto simp: post_def rbind_eq_Inr)

lemma case_done: "(case m of Inl e \<Rightarrow> False | Inr None \<Rightarrow> False | Inr (Some x) \<Rightarrow> P x) \<longleftrightarrow> (\<exists>x. m = Inr (Some x) \<and> P x)"
  by (auto split: sum.splits option.splits)

lemma case_ok: "(case m of Inl e \<Rightarrow> False | Inr x \<Rightarrow> P x) \<longleftrightarrow> (\<exists>x. m = Inr x \<and> P x)"
  by (auto split: sum.splits)

lemma case_option_ex: "(case m of None \<Rightarrow> False | Some x \<Rightarrow> P x) \<Longrightarrow> \<exists>x. m = Some x \<and> P x"
  by (cases m) auto

lemma go_nth_in [go_simps]: "0 \<le> i \<Longrightarrow> i < int (length xs) \<Longrightarrow> go_nth xs i = Inr (xs ! nat i)"
  by (simp add: go_nth_def)

lemma go_nth_int [go_simps]: "k < length xs \<Longrightarrow> go_nth xs (int k) = Inr (xs ! k)"
  by (simp add: go_nth_def)

lemma go_upd_in [go_simps]: "0 \<le> i \<Longrightarrow> i < int (length xs) \<Longrightarrow> go_upd xs i v = Inr (xs[nat i := v])"
  by (simp add: go_upd_def)

lemma go_take_in [go_simps]: "0 \<le> i \<Longrightarrow> i \<le> int (length xs) \<Longrightarrow> go_take xs i = Inr (take (nat i) xs)"
  by (simp add: go_take_def)

lemma go_drop_in [go_simps]: "0 \<le> i \<Longrightarrow> i \<le> int (length xs) \<Longrightarrow> go_drop xs i = Inr (drop (nat i) xs)"
  by (simp add: go_drop_def)

lemma go_nth_Inr: "go_nth xs i = Inr x \<Longrightarrow> 0 \<le> i \<and> i < int (length xs) \<and> x = xs ! nat i"
  by (auto simp: go_nth_def split: if_splits)

lemma go_upd_Inr: "go_upd xs i v = Inr ys \<Longrightarrow> 0 \<le> i \<and> i < int (length xs) \<and> ys = xs[nat i := v]"
  by (auto simp: go_upd_def split: if_splits)

lemma indices_empty [simp]: "b \<le> a \<Longrightarrow> indices a b = []"
  by (simp add: indices_def)

lemma indices_Cons: "a < b \<Longrightarrow> indices a b = a # indices (a + 1) b"
proof -
  assume "a < b"
  then have n: "nat (b - a) = Suc (nat (b - (a + 1)))" by simp
  show ?thesis
    unfolding indices_def n
    by (simp add: upt_conv_Cons map_Suc_upt [symmetric] algebra_simps del: upt_Suc)
qed

lemma set_indices [simp]: "set (indices a b) = {a..<b}"
proof -
  have "(\<lambda>k. a + int k) ` {0..<nat (b - a)} = {a..<b}"
  proof (intro set_eqI iffI)
    fix x assume "x \<in> {a..<b}"
    then show "x \<in> (\<lambda>k. a + int k) ` {0..<nat (b - a)}"
      by (intro image_eqI [of _ _ "nat (x - a)"]) auto
  qed auto
  then show ?thesis by (simp add: indices_def)
qed

lemma length_indices [simp]: "length (indices a b) = nat (b - a)"
  by (simp add: indices_def)

lemma for_each_ok:
  assumes "\<And>i s. i \<in> set is \<Longrightarrow> f i s = Inr (g i s)"
  shows "for_each is f s = Inr (fold g is s)"
  using assms by (induction "is" arbitrary: s) auto

lemma for_each_stable:
  assumes "\<And>i. i \<in> set is \<Longrightarrow> f i s = Inr s"
  shows "for_each is f s = Inr s"
  using assms by (induction "is") auto

lemma for_each_append: "for_each (is @ js) f s = rbind (for_each is f s) (for_each js f)"
  by (induction "is" arbitrary: s) (auto simp: rbind_def split: sum.splits)

lemma for_each_cong:
  "is = js \<Longrightarrow> (\<And>i s. i \<in> set js \<Longrightarrow> f i s = g i s) \<Longrightarrow> for_each is f s = for_each js g s"
proof (induction "is" arbitrary: s js)
  case (Cons i "is")
  then have "for_each is f = for_each is g" by (intro ext) (auto intro: Cons.IH)
  with Cons show ?case by auto
qed simp

lemma indices_snoc: "indices 0 (len (xs @ [x])) = indices 0 (len xs) @ [len xs]"
  by (simp add: indices_def len_def nat_add_distrib)

lemma for_each_snoc: "for_each (is @ [i]) f s = rbind (for_each is f s) (f i)"
  by (induction "is" arbitrary: s) (auto simp: rbind_def split: sum.splits)

lemma for_each_indices_nth:
  "for_each (indices 0 (len xs)) (\<lambda>i s. rbind (go_nth xs i) (\<lambda>x. f x s)) s = for_each xs f s"
proof (induction xs arbitrary: s rule: rev_induct)
  case (snoc x xs)
  have "for_each (indices 0 (len xs)) (\<lambda>i s. rbind (go_nth (xs @ [x]) i) (\<lambda>x. f x s)) s =
      for_each (indices 0 (len xs)) (\<lambda>i s. rbind (go_nth xs i) (\<lambda>x. f x s)) s"
    by (intro for_each_cong) (auto simp: go_nth_def len_def nth_append)
  then show ?case using snoc unfolding indices_snoc by (simp add: for_each_snoc go_nth_def len_def)
qed (simp add: len_def)

lemma for_each_inv:
  assumes "for_each is f s = Inr t" and "P s"
    and "\<And>i s t. i \<in> set is \<Longrightarrow> P s \<Longrightarrow> f i s = Inr t \<Longrightarrow> P t"
  shows "P t"
  using assms
proof (induction "is" arbitrary: s)
  case Nil
  then show ?case by simp
next
  case (Cons i "is")
  from Cons.prems(1) obtain u where u: "f i s = Inr u" "for_each is f u = Inr t"
    by (auto elim: rbind_ok_cases)
  moreover have "P u" using Cons.prems(2,3) u(1) by (meson list.set_intros(1))
  ultimately show ?case using Cons.IH Cons.prems(3) by (meson list.set_intros(2))
qed

text \<open>A loop that appends one value per element collects a segment of the slice.\<close>

lemma for_each_collect:
  assumes "0 \<le> a" "a \<le> b" "b \<le> len xs"
  shows "for_each (indices a b) (\<lambda>i ms. rbind (go_nth xs i) (\<lambda>e. Inr (ms @ [f e]))) acc =
    Inr (acc @ map f (take (nat (b - a)) (drop (nat a) xs)))"
  using assms
proof (induction "nat (b - a)" arbitrary: a acc)
  case 0
  then show ?case by simp
next
  case (Suc n)
  then have lt: "a < b" "nat a < length xs" by (auto simp: len_def)
  have n: "nat (b - a) = Suc (nat (b - (a + 1)))" "nat (a + 1) = Suc (nat a)"
    using lt Suc.prems by auto
  have "for_each (indices (a + 1) b) (\<lambda>i ms. rbind (go_nth xs i) (\<lambda>e. Inr (ms @ [f e])))
          (acc @ [f (xs ! nat a)]) =
        Inr ((acc @ [f (xs ! nat a)]) @ map f (take (nat (b - (a + 1))) (drop (nat (a + 1)) xs)))"
    using Suc lt by (intro Suc.hyps) auto
  then show ?case
    using lt Suc.prems
    by (simp add: indices_Cons go_nth_in n Cons_nth_drop_Suc [symmetric] del: nat_add_distrib)
qed

text \<open>A loop that records the result of each index.\<close>

lemma for_each_record:
  assumes "\<And>i. i \<in> set is \<Longrightarrow> f i = Inr (g i)"
  shows "for_each is (\<lambda>i out. rbind (f i) (\<lambda>m. Inr (out @ [(i, m)]))) acc =
    Inr (acc @ map (\<lambda>i. (i, g i)) is)"
  using assms by (induction "is" arbitrary: acc) auto

lemma find_Some_in: "find P xs = Some x \<Longrightarrow> x \<in> set xs \<and> P x"
  by (induction xs) (auto split: if_splits)

lemma for_break_ok:
  assumes "\<And>i. i \<in> set is \<Longrightarrow> p i = Inr (q i)"
  shows "for_break is d p = Inr (case find q is of None \<Rightarrow> d | Some i \<Rightarrow> i)"
  using assms by (induction "is") auto

lemma for_break_none:
  assumes "\<And>i. i \<in> set is \<Longrightarrow> p i = Inr False"
  shows "for_break is d p = Inr d"
  using assms by (induction "is") auto

text \<open>The first index of \<open>a..<b\<close> where the test holds is found.\<close>

lemma for_break_first:
  assumes "a \<le> k" "k < b" "p k = Inr True"
    and "\<And>i. a \<le> i \<Longrightarrow> i < k \<Longrightarrow> p i = Inr False"
  shows "for_break (indices a b) d p = Inr k"
  using assms
proof (induction "nat (k - a)" arbitrary: a)
  case 0
  then have "a = k" by simp
  with 0 show ?case by (simp add: indices_Cons)
next
  case (Suc n)
  then have "a < k" by simp
  then have "p a = Inr False" using Suc.prems by simp
  moreover have "for_break (indices (a + 1) b) d p = Inr k"
    using Suc \<open>a < k\<close> by (intro Suc.hyps) auto
  ultimately show ?case using Suc.prems \<open>a < k\<close> by (simp add: indices_Cons)
qed

lemma for_break_indices_none:
  assumes "\<And>i. a \<le> i \<Longrightarrow> i < b \<Longrightarrow> p i = Inr False"
  shows "for_break (indices a b) d p = Inr d"
  using assms by (intro for_break_none) auto

text \<open>What a terminated search says: the index it stopped at satisfies the test.\<close>

lemma for_break_cases:
  assumes "for_break is d p = Inr k"
  shows "(k \<in> set is \<and> p k = Inr True) \<or> k = d"
  using assms by (induction "is") (auto simp: rbind_eq_Inr split: if_splits)

lemma distinct_split:
  assumes "distinct xs" "xs = A @ e # B" "xs = A' @ e # B'"
  shows "A = A' \<and> B = B'"
proof -
  have "e \<notin> set A" "e \<notin> set B" using assms(1,2) by auto
  then show ?thesis using assms(2,3) append_Cons_eq_iff [of e A B A' B'] by simp
qed

lemma distinct_map_comp: "distinct (map (\<lambda>x. g (f x)) xs) \<Longrightarrow> distinct (map f xs)"
  by (induction xs) force+

lemma distinct_map_update:
  assumes "distinct (map f xs)" "p < length xs" "f y = f (xs ! p)"
  shows "distinct (map f (xs[p := y]))"
proof -
  have "map f (xs[p := y]) = map f xs"
    using assms(2,3) by (metis list_update_id map_update)
  with assms(1) show ?thesis by simp
qed

section \<open>Transition systems\<close>

inductive reach :: "('s \<Rightarrow> bool) \<Rightarrow> ('s \<Rightarrow> 's \<Rightarrow> bool) \<Rightarrow> 's \<Rightarrow> bool"
  for init :: "'s \<Rightarrow> bool" and step :: "'s \<Rightarrow> 's \<Rightarrow> bool" where
  reach_init: "init s \<Longrightarrow> reach init step s"
| reach_step: "reach init step s \<Longrightarrow> step s t \<Longrightarrow> reach init step t"

locale transition_system =
  fixes init :: "'s \<Rightarrow> bool"
    and step :: "'s \<Rightarrow> 's \<Rightarrow> bool"
    and inv :: "'s \<Rightarrow> bool"
  assumes inv_init: "init s \<Longrightarrow> inv s"
    and inv_step: "inv s \<Longrightarrow> step s t \<Longrightarrow> inv t"
begin

lemma inv_reach: "reach init step s \<Longrightarrow> inv s"
  by (induction rule: reach.induct) (blast intro: inv_init inv_step)+

lemma inv_run: "step\<^sup>*\<^sup>* s t \<Longrightarrow> inv s \<Longrightarrow> inv t"
  by (induction rule: rtranclp.induct) (blast intro: inv_step)+

end

lemma reach_mono:
  assumes "reach init step s"
    and "\<And>s t. reach init step s \<Longrightarrow> step s t \<Longrightarrow> step' s t"
  shows "reach init step' s"
  using assms(1)
proof induction
  case (reach_init s)
  then show ?case by (rule reach.reach_init)
next
  case (reach_step s t)
  with assms(2) show ?case by (blast intro: reach.reach_step)
qed

section \<open>Majorities\<close>

text \<open>Two sets that each hold more than half of the same finite set meet.\<close>

lemma majorities_meet:
  assumes "finite E" "S \<subseteq> E" "T \<subseteq> E"
    and "card E < 2 * card S" "card E < 2 * card T"
  shows "\<exists>x. x \<in> S \<and> x \<in> T"
proof (rule ccontr)
  assume "\<nexists>x. x \<in> S \<and> x \<in> T"
  then have "card (S \<union> T) = card S + card T"
    using assms by (intro card_Un_disjoint) (auto intro: finite_subset)
  moreover have "card (S \<union> T) \<le> card E"
    using assms by (intro card_mono) auto
  ultimately show False using assms(4,5) by linarith
qed

text \<open>
  In a sorted list the element at position \<open>k\<close> is the largest value that \<open>n - k\<close> elements
  reach; at the position the code uses this is the largest value a majority reaches.
\<close>

definition reached :: "int list \<Rightarrow> int \<Rightarrow> nat" where
  "reached xs v = length (filter (\<lambda>x. v \<le> x) xs)"

lemma reached_sort: "reached (sort xs) v = reached xs v"
  unfolding reached_def by (metis mset_filter mset_sort size_mset)

lemma reached_card: "reached xs v = card {i. i < length xs \<and> v \<le> xs ! i}"
  unfolding reached_def by (rule length_filter_conv_card)

lemma sorted_reached:
  assumes "sorted ys" "k < length ys"
  shows "v \<le> ys ! k \<longleftrightarrow> length ys - k \<le> reached ys v"
proof
  assume v: "v \<le> ys ! k"
  have "v \<le> ys ! i" if "k \<le> i" "i < length ys" for i
    using v sorted_nth_mono [OF assms(1) that] by (rule order_trans)
  then have "{k..<length ys} \<subseteq> {i. i < length ys \<and> v \<le> ys ! i}" by auto
  then have "card {k..<length ys} \<le> card {i. i < length ys \<and> v \<le> ys ! i}"
    by (intro card_mono) auto
  then show "length ys - k \<le> reached ys v" by (simp add: reached_card)
next
  assume r: "length ys - k \<le> reached ys v"
  show "v \<le> ys ! k"
  proof (rule ccontr)
    assume "\<not> v \<le> ys ! k"
    then have "{i. i < length ys \<and> v \<le> ys ! i} \<subseteq> {Suc k..<length ys}"
      using assms sorted_nth_mono [OF assms(1)]
      by (auto simp: Suc_le_eq) (meson assms(2) dual_order.trans leI)
    then have "card {i. i < length ys \<and> v \<le> ys ! i} \<le> card {Suc k..<length ys}"
      by (intro card_mono) auto
    with r assms show False by (simp add: reached_card)
  qed
qed

lemma median_majority:
  assumes "xs \<noteq> []"
  shows "v \<le> sort xs ! ((length xs + 1) div 2 - 1) \<longleftrightarrow> length xs < 2 * reached xs v"
proof -
  let ?n = "length xs" and ?k = "(length xs + 1) div 2 - 1"
  have n: "0 < ?n" using assms by simp
  then have k: "?k < ?n" by linarith
  have "v \<le> sort xs ! ?k \<longleftrightarrow> ?n - ?k \<le> reached xs v"
    using sorted_reached [of "sort xs" ?k v] k by (simp add: reached_sort)
  also have "\<dots> \<longleftrightarrow> ?n < 2 * reached xs v"
    using n by presburger
  finally show ?thesis .
qed

end
