(* ===== verification/RaftState.thy ===== *)
theory RaftState
  imports Prelude "HOL-Library.Word"
begin

text \<open>
  The data of a Raft peer (\<open>raft/raft.go\<close>), its stable storage
  (\<open>raft/persister.go\<close>), the log look-ups of \<open>raft/tools.go\<close> and saving and restoring
  the persistent state. Commands are of any type \<open>'c\<close>; the nil command is \<open>None\<close>.

  Go's \<open>int\<close> is modelled by unbounded integers: terms and log indices only grow by one
  at a time, so they stay far below the width of the machine type.

  The main facts: on a well-formed log (entries numbered consecutively from the entry
  after the snapshot) the linear search \<open>findIndex\<close> is a subtraction, and restoring what
  was persisted gives the persisted state back.
\<close>

section \<open>Data\<close>

type_synonym bytes = "8 word list"

record 'c LogEntry =
  Term :: int
  Index :: int
  Command :: 'c

record 'c ApplyMsg =
  CommandValid :: bool
  aCommand :: "'c option"
  CommandIndex :: int
  SnapshotValid :: bool
  Snapshot :: bytes
  SnapshotTerm :: int
  SnapshotIndex :: int

text \<open>
  What \<open>labgob\<close> writes for the two kinds of values the persistent state holds: an encoder
  appends values to a buffer, a decoder reads the next value and fails when there is none
  or when it has the wrong type.
\<close>

datatype 'c gob = GobInt int | GobLog "'c LogEntry list"

record 'c Persister =
  raftstate :: "'c gob list"
  psnapshot :: bytes

text \<open>
  The peer. \<open>peers\<close> is the number of end points. Mutexes and the condition variable are
  not data of the peer: every operation below is one critical section of \<open>rf.mu\<close>.
  \<open>applyGo\<close> holds the argument of every goroutine started with
  \<open>go rf.putApplyChBuffer(msgs)\<close>, in the order they were started.
\<close>

record 'c Raft =
  peers :: int
  persister :: "'c Persister"
  me :: int
  dead :: int
  currentTerm :: int
  votedFor :: int
  log :: "'c LogEntry list"
  commitIndex :: int
  lastApplied :: int
  nextIndex :: "int list"
  matchIndex :: "int list"
  role :: int
  lastHeartbeatTime :: int
  electionTimeout :: int
  voteCnt :: int
  curLeader :: int
  applyChBuffer :: "'c ApplyMsg list"
  applyGo :: "'c ApplyMsg list list"
  snapshot :: bytes
  snapshotIndex :: int
  snapshotTerm :: int

section \<open>Stable storage\<close>

definition MakePersister :: "'c Persister" where
  "MakePersister = \<lparr>raftstate = [], psnapshot = []\<rparr>"

text \<open>\<open>clone\<close> copies a byte slice; on values it is the identity.\<close>

definition Copy :: "'c Persister \<Rightarrow> 'c Persister" where
  "Copy ps = (MakePersister :: 'c Persister)\<lparr>raftstate := raftstate ps, psnapshot := psnapshot ps\<rparr>"

definition ReadRaftState :: "'c Persister \<Rightarrow> 'c gob list" where
  "ReadRaftState ps = raftstate ps"

definition Save :: "'c Persister \<Rightarrow> 'c gob list \<Rightarrow> bytes \<Rightarrow> 'c Persister" where
  "Save ps rstate snap = ps\<lparr>raftstate := rstate, psnapshot := snap\<rparr>"

definition ReadSnapshot :: "'c Persister \<Rightarrow> bytes" where
  "ReadSnapshot ps = psnapshot ps"

definition SnapshotSize :: "'c Persister \<Rightarrow> int" where
  "SnapshotSize ps = len (psnapshot ps)"

section \<open>Look-ups in the log\<close>

text \<open>\<open>findIndex\<close>: the position of the entry with the given index, \<open>-1\<close> if there is none.\<close>

definition findIndex :: "'c Raft \<Rightarrow> int \<Rightarrow> int res" where
  "findIndex rf target =
     for_break (indices 0 (len (log rf))) (-1)
       (\<lambda>i. rbind (go_nth (log rf) i) (\<lambda>e. Inr (Index e = target)))"

definition getLastLogIndexAndTerm :: "'c Raft \<Rightarrow> int \<times> int" where
  "getLastLogIndexAndTerm rf =
     (if log rf \<noteq> [] then (Index (last (log rf)), Term (last (log rf)))
      else (snapshotIndex rf, snapshotTerm rf))"

definition GetState :: "'c Raft \<Rightarrow> int \<times> bool" where
  "GetState rf = (currentTerm rf, role rf = 2)"

definition Kill :: "'c Raft \<Rightarrow> 'c Raft" where
  "Kill rf = rf\<lparr>dead := 1\<rparr>"

definition killed :: "'c Raft \<Rightarrow> bool" where
  "killed rf = (dead rf = 1)"

section \<open>Persistence\<close>

definition persist :: "'c Raft \<Rightarrow> 'c Raft" where
  "persist rf =
     rf\<lparr>persister := Save (persister rf)
          [GobInt (currentTerm rf), GobInt (votedFor rf), GobLog (log rf),
           GobInt (snapshotIndex rf), GobInt (snapshotTerm rf)]
          (snapshot rf)\<rparr>"

fun DecodeInt :: "'c gob list \<Rightarrow> (int \<times> 'c gob list) option" where
  "DecodeInt (GobInt n # rest) = Some (n, rest)"
| "DecodeInt _ = None"

fun DecodeLog :: "'c gob list \<Rightarrow> ('c LogEntry list \<times> 'c gob list) option" where
  "DecodeLog (GobLog l # rest) = Some (l, rest)"
| "DecodeLog _ = None"

definition decodeState :: "'c gob list \<Rightarrow> (int \<times> int \<times> 'c LogEntry list \<times> int \<times> int) option" where
  "decodeState d0 =
     Option.bind (DecodeInt d0) (\<lambda>(ct, d1).
     Option.bind (DecodeInt d1) (\<lambda>(vf, d2).
     Option.bind (DecodeLog d2) (\<lambda>(lg, d3).
     Option.bind (DecodeInt d3) (\<lambda>(si, d4).
     Option.bind (DecodeInt d4) (\<lambda>(st, d5). Some (ct, vf, lg, si, st))))))"

definition readPersist :: "'c Raft \<Rightarrow> 'c gob list \<Rightarrow> 'c Raft" where
  "readPersist rf data =
     (if data = [] then rf
      else case decodeState data of
             None \<Rightarrow> rf
           | Some (ct, vf, lg, si, st) \<Rightarrow>
               rf\<lparr>currentTerm := ct, votedFor := vf, log := lg,
                  snapshotIndex := si, snapshotTerm := st\<rparr>)"

definition readPersistSnapshot :: "'c Raft \<Rightarrow> bytes \<Rightarrow> 'c Raft" where
  "readPersistSnapshot rf data = rf\<lparr>snapshot := data\<rparr>"

section \<open>Well-formed logs\<close>

text \<open>Entries numbered consecutively from \<open>base + 1\<close>.\<close>

definition contiguous :: "int \<Rightarrow> 'c LogEntry list \<Rightarrow> bool" where
  "contiguous base es = (\<forall>k < length es. Index (es ! k) = base + 1 + int k)"

definition log_ok :: "'c Raft \<Rightarrow> bool" where
  "log_ok rf = (-1 \<le> snapshotIndex rf \<and> contiguous (snapshotIndex rf) (log rf))"

definition lastIndex :: "'c Raft \<Rightarrow> int" where
  "lastIndex rf = snapshotIndex rf + int (length (log rf))"

text \<open>The entry stored under an index, if the log still holds it.\<close>

definition entry_at :: "'c Raft \<Rightarrow> int \<Rightarrow> 'c LogEntry option" where
  "entry_at rf i =
     (if snapshotIndex rf < i \<and> i \<le> lastIndex rf
      then Some (log rf ! nat (i - snapshotIndex rf - 1)) else None)"

lemma contiguous_Nil [simp]: "contiguous b []"
  by (simp add: contiguous_def)

lemma contiguous_Cons [simp]:
  "contiguous b (e # es) \<longleftrightarrow> Index e = b + 1 \<and> contiguous (b + 1) es"
  by (auto simp: contiguous_def nth_Cons split: nat.splits)

lemma contiguous_append:
  "contiguous b (xs @ ys) \<longleftrightarrow> contiguous b xs \<and> contiguous (b + int (length xs)) ys"
  by (induction xs arbitrary: b) (auto simp: algebra_simps)

lemma contiguous_nth: "contiguous b es \<Longrightarrow> k < length es \<Longrightarrow> Index (es ! k) = b + 1 + int k"
  by (simp add: contiguous_def)

lemma contiguous_take: "contiguous b es \<Longrightarrow> contiguous b (take k es)"
  by (simp add: contiguous_def)

lemma contiguous_drop: "contiguous b es \<Longrightarrow> k \<le> length es \<Longrightarrow> contiguous (b + int k) (drop k es)"
  by (simp add: contiguous_def algebra_simps)

lemma contiguous_last: "contiguous b es \<Longrightarrow> es \<noteq> [] \<Longrightarrow> Index (last es) = b + int (length es)"
  by (simp add: last_conv_nth contiguous_def of_nat_diff Suc_le_eq)

section \<open>Facts\<close>

text \<open>The linear search for an index in consecutively numbered entries is a subtraction.\<close>

lemma search_contiguous:
  assumes "contiguous b es"
  shows "for_break (indices 0 (len es)) d (\<lambda>i. rbind (go_nth es i) (\<lambda>e. Inr (Index e = t))) =
    Inr (if b < t \<and> t \<le> b + len es then t - b - 1 else d)"
proof -
  have test: "rbind (go_nth es i) (\<lambda>e. Inr (Index e = t)) = Inr (b + 1 + i = t)"
    if "0 \<le> i" "i < len es" for i
    using that assms by (simp add: go_nth_in len_def contiguous_nth)
  show ?thesis
  proof (cases "b < t \<and> t \<le> b + len es")
    case True
    then have "for_break (indices 0 (len es)) d (\<lambda>i. rbind (go_nth es i) (\<lambda>e. Inr (Index e = t)))
        = Inr (t - b - 1)"
      by (intro for_break_first) (auto simp: test)
    with True show ?thesis by simp
  next
    case False
    then have "for_break (indices 0 (len es)) d (\<lambda>i. rbind (go_nth es i) (\<lambda>e. Inr (Index e = t)))
        = Inr d"
      by (intro for_break_indices_none) (auto simp: test)
    with False show ?thesis by auto
  qed
qed

lemma findIndex_ok: "log_ok rf \<Longrightarrow> findIndex rf t =
    Inr (if snapshotIndex rf < t \<and> t \<le> lastIndex rf then t - snapshotIndex rf - 1 else -1)"
  by (simp add: findIndex_def log_ok_def lastIndex_def search_contiguous flip: len_def)

lemma getLast_fst: "log_ok rf \<Longrightarrow> fst (getLastLogIndexAndTerm rf) = lastIndex rf"
  by (auto simp: getLastLogIndexAndTerm_def log_ok_def lastIndex_def contiguous_last)

lemma getLast_snd: "snd (getLastLogIndexAndTerm rf) =
    (if log rf \<noteq> [] then Term (last (log rf)) else snapshotTerm rf)"
  by (simp add: getLastLogIndexAndTerm_def)

lemma snapshot_le_lastIndex: "snapshotIndex rf \<le> lastIndex rf"
  by (simp add: lastIndex_def)

lemma entry_at_Index: "log_ok rf \<Longrightarrow> entry_at rf i = Some e \<Longrightarrow> Index e = i"
  by (auto simp: entry_at_def log_ok_def lastIndex_def contiguous_nth nat_less_iff split: if_splits)

lemma persist_fields [simp]:
  "peers (persist rf) = peers rf" "me (persist rf) = me rf" "dead (persist rf) = dead rf"
  "currentTerm (persist rf) = currentTerm rf" "votedFor (persist rf) = votedFor rf"
  "log (persist rf) = log rf" "commitIndex (persist rf) = commitIndex rf"
  "lastApplied (persist rf) = lastApplied rf" "nextIndex (persist rf) = nextIndex rf"
  "matchIndex (persist rf) = matchIndex rf" "role (persist rf) = role rf"
  "lastHeartbeatTime (persist rf) = lastHeartbeatTime rf"
  "electionTimeout (persist rf) = electionTimeout rf" "voteCnt (persist rf) = voteCnt rf"
  "curLeader (persist rf) = curLeader rf" "applyChBuffer (persist rf) = applyChBuffer rf"
  "applyGo (persist rf) = applyGo rf" "snapshot (persist rf) = snapshot rf"
  "snapshotIndex (persist rf) = snapshotIndex rf" "snapshotTerm (persist rf) = snapshotTerm rf"
  by (simp_all add: persist_def)

lemma log_ok_persist [simp]: "log_ok (persist rf) = log_ok rf"
  by (simp add: log_ok_def)

lemma lastIndex_persist [simp]: "lastIndex (persist rf) = lastIndex rf"
  by (simp add: lastIndex_def)

text \<open>The state on stable storage agrees with the peer's persistent fields.\<close>

definition persisted :: "'c Raft \<Rightarrow> bool" where
  "persisted rf =
     (decodeState (ReadRaftState (persister rf)) =
        Some (currentTerm rf, votedFor rf, log rf, snapshotIndex rf, snapshotTerm rf)
      \<and> ReadSnapshot (persister rf) = snapshot rf)"

lemma persisted_persist [simp]: "persisted (persist rf)"
  by (simp add: persisted_def persist_def Save_def ReadRaftState_def ReadSnapshot_def decodeState_def)

lemma readPersist_persisted:
  assumes "persisted rf"
  shows "readPersist rf0 (ReadRaftState (persister rf)) =
    rf0\<lparr>currentTerm := currentTerm rf, votedFor := votedFor rf, log := log rf,
        snapshotIndex := snapshotIndex rf, snapshotTerm := snapshotTerm rf\<rparr>"
proof -
  have "ReadRaftState (persister rf) \<noteq> []"
  proof
    assume "ReadRaftState (persister rf) = []"
    with assms show False by (simp add: persisted_def decodeState_def)
  qed
  with assms show ?thesis by (simp add: persisted_def readPersist_def)
qed

end
