(* ===== verification/RaftElection.thy ===== *)
theory RaftElection
  imports RaftState
begin

text \<open>
  Role changes (\<open>raft/serverStateTrans.go\<close>) and voting (\<open>raft/requestVoteRPC.go\<close>). Each
  definition is one critical section of \<open>rf.mu\<close>; the clock and the random number
  generator are arguments, and the requests a section sends are part of its result.
\<close>

section \<open>Messages\<close>

record RequestVoteArgs =
  rvTerm :: int
  CandidateId :: int
  LastLogIndex :: int
  LastLogTerm :: int

record RequestVoteReply =
  rvrTerm :: int
  VoteGranted :: bool

definition zeroRequestVoteReply :: RequestVoteReply where
  "zeroRequestVoteReply = \<lparr>rvrTerm = 0, VoteGranted = False\<rparr>"

section \<open>Role changes\<close>

definition toFollower :: "'c Raft \<Rightarrow> int \<Rightarrow> 'c Raft" where
  "toFollower rf term =
    (let prevTerm = currentTerm rf;
         rf1 = rf\<lparr>role := 0\<rparr> in
     if prevTerm < term then rf1\<lparr>votedFor := -1, currentTerm := term\<rparr> else rf1)"

text \<open>\<open>now\<close> is \<open>time.Now().UnixMilli()\<close>, \<open>rnd\<close> is \<open>rand.Intn(100)\<close>; the result lists the
  vote requests, one per other peer.\<close>

definition toCandidate ::
    "int \<Rightarrow> int \<Rightarrow> 'c Raft \<Rightarrow> 'c Raft \<times> (int \<times> RequestVoteArgs) list" where
  "toCandidate now rnd rf =
    (let rf1 = rf\<lparr>role := 1, currentTerm := currentTerm rf + 1, votedFor := me rf, voteCnt := 1,
                  electionTimeout := 200 + rnd, lastHeartbeatTime := now\<rparr>;
         (lastLogIndex, lastLogTerm) = getLastLogIndexAndTerm rf1;
         rf2 = persist rf1;
         requestVoteArgs = \<lparr>rvTerm = currentTerm rf1, CandidateId = me rf1,
                            LastLogIndex = lastLogIndex, LastLogTerm = lastLogTerm\<rparr>
     in (rf2, map (\<lambda>i. (i, requestVoteArgs)) (filter (\<lambda>i. i \<noteq> me rf) (indices 0 (peers rf)))))"

definition toLeader :: "'c Raft \<Rightarrow> 'c Raft res" where
  "toLeader rf =
    (let rf1 = rf\<lparr>role := 2\<rparr>;
         lastLogIndex = fst (getLastLogIndexAndTerm rf1);
         rf2 = rf1\<lparr>nextIndex := replicate (nat (peers rf)) (lastLogIndex + 1),
                   matchIndex := replicate (nat (peers rf)) (-1)\<rparr> in
     rbind (go_upd (matchIndex rf2) (me rf2) lastLogIndex) (\<lambda>mi.
     Inr (persist (rf2\<lparr>matchIndex := mi, votedFor := -1\<rparr>))))"

text \<open>One round of \<open>ticker\<close> decides whether to stand for election.\<close>

definition electionDue :: "int \<Rightarrow> 'c Raft \<Rightarrow> bool" where
  "electionDue now rf = (role rf \<noteq> 2 \<and> now - lastHeartbeatTime rf > electionTimeout rf)"

section \<open>Voting\<close>

text \<open>
  \<open>RequestVoteRequestHandler\<close>. The branch for a leader only fills in the reply: it does not
  return, so the checks below it still run. The deferred \<open>persist\<close> runs on every path.
\<close>

definition RequestVoteRequestHandler ::
    "int \<Rightarrow> 'c Raft \<Rightarrow> RequestVoteArgs \<Rightarrow> RequestVoteReply \<Rightarrow> 'c Raft \<times> RequestVoteReply" where
  "RequestVoteRequestHandler now rf args reply =
    (let rf1 = (if currentTerm rf < rvTerm args then toFollower rf (rvTerm args) else rf);
         reply1 = (if role rf1 = 2 then reply\<lparr>VoteGranted := False, rvrTerm := currentTerm rf1\<rparr>
                   else reply) in
     if currentTerm rf1 > rvTerm args then
       (persist rf1, reply1\<lparr>rvrTerm := currentTerm rf1, VoteGranted := False\<rparr>)
     else if votedFor rf1 \<noteq> -1 then
       (persist rf1, reply1\<lparr>rvrTerm := currentTerm rf1, VoteGranted := False\<rparr>)
     else
     let (lastLogIndex, lastLogTerm) = getLastLogIndexAndTerm rf1 in
     if lastLogTerm > LastLogTerm args \<or>
        (lastLogTerm = LastLogTerm args \<and> lastLogIndex > LastLogIndex args) then
       (persist rf1, reply1\<lparr>rvrTerm := currentTerm rf1, VoteGranted := False\<rparr>)
     else
       (persist (rf1\<lparr>lastHeartbeatTime := now, votedFor := CandidateId args\<rparr>),
        reply1\<lparr>rvrTerm := currentTerm rf1, VoteGranted := True\<rparr>))"

text \<open>
  \<open>RequestVoteResponseHandler\<close>: the new state, and whether the handler goes on to call
  \<open>toLeader\<close>, which is a critical section of its own.
\<close>

definition RequestVoteResponseHandler ::
    "'c Raft \<Rightarrow> RequestVoteArgs \<Rightarrow> RequestVoteReply \<Rightarrow> 'c Raft \<times> bool" where
  "RequestVoteResponseHandler rf args reply =
    (if role rf \<noteq> 1 then (rf, False)
     else if currentTerm rf > rvrTerm reply \<or> currentTerm rf > rvTerm args then (rf, False)
     else if currentTerm rf < rvrTerm reply then (toFollower rf (rvrTerm reply), False)
     else if VoteGranted reply then
       (let rf1 = rf\<lparr>voteCnt := voteCnt rf + 1\<rparr> in
        (rf1, voteCnt rf1 \<ge> peers rf1 div 2 + 1))
     else (rf, False))"

section \<open>Facts\<close>

lemma toFollower_fields [simp]:
  "peers (toFollower rf t) = peers rf" "me (toFollower rf t) = me rf"
  "dead (toFollower rf t) = dead rf" "log (toFollower rf t) = log rf"
  "commitIndex (toFollower rf t) = commitIndex rf" "lastApplied (toFollower rf t) = lastApplied rf"
  "nextIndex (toFollower rf t) = nextIndex rf" "matchIndex (toFollower rf t) = matchIndex rf"
  "role (toFollower rf t) = 0" "voteCnt (toFollower rf t) = voteCnt rf"
  "snapshot (toFollower rf t) = snapshot rf" "snapshotIndex (toFollower rf t) = snapshotIndex rf"
  "snapshotTerm (toFollower rf t) = snapshotTerm rf" "applyGo (toFollower rf t) = applyGo rf"
  "applyChBuffer (toFollower rf t) = applyChBuffer rf"
  "currentTerm (toFollower rf t) = max (currentTerm rf) t"
  "persister (toFollower rf t) = persister rf"
  by (simp_all add: toFollower_def Let_def)

lemma toFollower_votedFor:
  "votedFor (toFollower rf t) = (if currentTerm rf < t then -1 else votedFor rf)"
  by (simp add: toFollower_def)

lemma log_ok_toFollower [simp]: "log_ok (toFollower rf t) = log_ok rf"
  by (simp add: log_ok_def)

lemma lastIndex_toFollower [simp]: "lastIndex (toFollower rf t) = lastIndex rf"
  by (simp add: lastIndex_def)

lemma getLast_toFollower [simp]: "getLastLogIndexAndTerm (toFollower rf t) = getLastLogIndexAndTerm rf"
  by (simp add: getLastLogIndexAndTerm_def)

text \<open>The election restriction: the candidate's log is at least as up to date.\<close>

definition upToDate :: "'c Raft \<Rightarrow> RequestVoteArgs \<Rightarrow> bool" where
  "upToDate rf args =
    (snd (getLastLogIndexAndTerm rf) < LastLogTerm args \<or>
     snd (getLastLogIndexAndTerm rf) = LastLogTerm args \<and>
     fst (getLastLogIndexAndTerm rf) \<le> LastLogIndex args)"

text \<open>The vote in the term of the request: a newer term starts without one.\<close>

definition freeToVote :: "'c Raft \<Rightarrow> RequestVoteArgs \<Rightarrow> bool" where
  "freeToVote rf args =
    (currentTerm rf < rvTerm args \<or> currentTerm rf = rvTerm args \<and> votedFor rf = -1)"

lemma RequestVote_cases:
  "RequestVoteRequestHandler now rf args reply =
    (let rf1 = (if currentTerm rf < rvTerm args then toFollower rf (rvTerm args) else rf) in
     if freeToVote rf args \<and> upToDate rf args
     then (persist (rf1\<lparr>lastHeartbeatTime := now, votedFor := CandidateId args\<rparr>),
           reply\<lparr>rvrTerm := rvTerm args, VoteGranted := True\<rparr>)
     else (persist rf1,
           reply\<lparr>rvrTerm := max (currentTerm rf) (rvTerm args), VoteGranted := False\<rparr>))"
proof (cases "getLastLogIndexAndTerm rf")
  case (Pair li lt)
  then show ?thesis
    unfolding RequestVoteRequestHandler_def
    by (cases "currentTerm rf < rvTerm args")
       (auto simp: Let_def freeToVote_def upToDate_def toFollower_votedFor not_less max_def)
qed

lemma RequestVote_granted:
  "VoteGranted (snd (RequestVoteRequestHandler now rf args reply)) \<longleftrightarrow>
     freeToVote rf args \<and> upToDate rf args"
  by (simp add: RequestVote_cases Let_def)

lemma RequestVote_fields:
  fixes rf :: "'c Raft"
  defines "r \<equiv> \<lambda>now rf args reply. fst (RequestVoteRequestHandler now (rf :: 'c Raft) args reply)"
  shows "currentTerm (r now rf args reply) = max (currentTerm rf) (rvTerm args)"
    and "log (r now rf args reply) = log rf" "snapshotIndex (r now rf args reply) = snapshotIndex rf"
    and "commitIndex (r now rf args reply) = commitIndex rf" "me (r now rf args reply) = me rf"
    and "peers (r now rf args reply) = peers rf" "voteCnt (r now rf args reply) = voteCnt rf"
    and "role (r now rf args reply) = (if currentTerm rf < rvTerm args then 0 else role rf)"
    and "snapshotTerm (r now rf args reply) = snapshotTerm rf"
    and "nextIndex (r now rf args reply) = nextIndex rf" "matchIndex (r now rf args reply) = matchIndex rf"
    and "applyGo (r now rf args reply) = applyGo rf" "lastApplied (r now rf args reply) = lastApplied rf"
    and "persisted (r now rf args reply)" "snapshot (r now rf args reply) = snapshot rf"
    and "dead (r now rf args reply) = dead rf"
  by (auto simp: r_def RequestVote_cases Let_def)

lemma RequestVote_votedFor:
  "votedFor (fst (RequestVoteRequestHandler now rf args reply)) =
    (if freeToVote rf args \<and> upToDate rf args then CandidateId args
     else if currentTerm rf < rvTerm args then -1 else votedFor rf)"
  by (simp add: RequestVote_cases Let_def toFollower_votedFor)

lemma RequestVote_reply_term:
  "rvrTerm (snd (RequestVoteRequestHandler now rf args reply)) = max (currentTerm rf) (rvTerm args)"
  by (auto simp: RequestVote_cases Let_def freeToVote_def)

lemma toLeader_ok:
  assumes "0 \<le> me rf" "me rf < peers rf"
  shows "toLeader rf = Inr (persist (rf\<lparr>role := 2,
      nextIndex := replicate (nat (peers rf)) (fst (getLastLogIndexAndTerm rf) + 1),
      matchIndex := (replicate (nat (peers rf)) (-1))[nat (me rf) := fst (getLastLogIndexAndTerm rf)],
      votedFor := -1\<rparr>))"
  using assms
  by (simp add: toLeader_def Let_def go_upd_def getLastLogIndexAndTerm_def)

end
