(* ===== verification/RaftLog.thy ===== *)
theory RaftLog
  imports RaftState
begin

text \<open>
  Log replication (\<open>raft/logActivities.go\<close>): how a follower merges the entries of an
  AppendEntries request into its log, and how a leader reacts to the reply.

  \<open>merge_log\<close> is the rule of the Raft paper (delete from the first conflicting entry on,
  append what is missing); \<open>followerHandleLog_match\<close> shows which list the optimised
  routine of the code computes, and the properties of the root theory compare the two.
\<close>

section \<open>Messages\<close>

record 'c AppendEntriesArgs =
  aeTerm :: int
  LeaderId :: int
  PrevLogIndex :: int
  PrevLogTerm :: int
  Entries :: "'c LogEntry list"
  LeaderCommit :: int

record AppendEntriesReply =
  aerTerm :: int
  Success :: bool
  ServerId :: int
  XTerm :: int
  XIndex :: int
  XLen :: int

text \<open>A reply as \<open>AppendEntriesReply\<close> literal: all fields zero.\<close>

definition zeroAppendEntriesReply :: AppendEntriesReply where
  "zeroAppendEntriesReply =
     \<lparr>aerTerm = 0, Success = False, ServerId = 0, XTerm = 0, XIndex = 0, XLen = 0\<rparr>"

section \<open>The follower's side\<close>

text \<open>The search of lines 29 to 36: the position of the first entry after the snapshot.\<close>

definition findUncommitted :: "'c LogEntry list \<Rightarrow> int \<Rightarrow> int res" where
  "findUncommitted es si =
     for_break (indices 0 (len es)) (len es)
       (\<lambda>i. rbind (go_nth es i) (\<lambda>e. Inr (Index e = si + 1)))"

text \<open>Lines 51 to 55: replace the whole log at every position whose terms differ.\<close>

definition replaceLoop :: "'c LogEntry list \<Rightarrow> 'c LogEntry list \<Rightarrow> 'c LogEntry list res" where
  "replaceLoop lg newEntries =
     for_each (indices 0 (len newEntries))
       (\<lambda>i l. rbind (go_nth l i) (\<lambda>e. rbind (go_nth newEntries i) (\<lambda>n.
          Inr (if Term e \<noteq> Term n then newEntries else l)))) lg"

text \<open>Lines 128 to 133: cut the log at every position whose terms differ.\<close>

definition truncateStep ::
    "int \<Rightarrow> 'c LogEntry list \<Rightarrow> int \<Rightarrow> 'c LogEntry list \<Rightarrow> 'c LogEntry list res" where
  "truncateStep actualIndex es i l =
     rbind (go_nth l i) (\<lambda>e. rbind (go_nth es (i - actualIndex - 1)) (\<lambda>n.
     if Term e \<noteq> Term n
     then rbind (go_drop es (i - actualIndex - 1)) (\<lambda>remainingEntries.
          rbind (go_take l i) (\<lambda>p. Inr (p @ remainingEntries)))
     else Inr l))"

definition truncateLoop ::
    "'c LogEntry list \<Rightarrow> int \<Rightarrow> 'c LogEntry list \<Rightarrow> 'c LogEntry list res" where
  "truncateLoop lg actualIndex es =
     for_each (indices (actualIndex + 1) (actualIndex + 1 + len es)) (truncateStep actualIndex es) lg"

definition followerHandleLog ::
    "'c Raft \<Rightarrow> 'c AppendEntriesArgs \<Rightarrow> AppendEntriesReply \<Rightarrow> ('c Raft \<times> AppendEntriesReply) res" where
  "followerHandleLog rf args reply =
    (let prevLogIndex = fst (getLastLogIndexAndTerm rf) in
     if prevLogIndex < PrevLogIndex args then
       Inr (rf, reply\<lparr>XTerm := -1, XIndex := prevLogIndex + 1, XLen := len (log rf), Success := False\<rparr>)
     else
     rbind (findIndex rf (PrevLogIndex args)) (\<lambda>actualIndex.
     if actualIndex = -1 \<and> PrevLogIndex args \<noteq> -1 then
       rbind (findUncommitted (Entries args) (snapshotIndex rf)) (\<lambda>entriesActualStartIndex.
       if \<not> entriesActualStartIndex < len (Entries args) then
         Inr (rf, reply\<lparr>XTerm := -1, XIndex := -1, XLen := len (log rf), Success := True\<rparr>)
       else
         rbind (go_drop (Entries args) entriesActualStartIndex) (\<lambda>newEntries.
         rbind (if len (log rf) \<le> len newEntries then Inr newEntries
                else replaceLoop (log rf) newEntries) (\<lambda>lg.
         Inr (rf\<lparr>log := lg\<rparr>,
              reply\<lparr>XTerm := -1, XIndex := -1, XLen := len lg, Success := True\<rparr>))))
     else
     rbind (if PrevLogIndex args \<noteq> -1
            then rbind (go_nth (log rf) actualIndex) (\<lambda>e. Inr (Term e \<noteq> PrevLogTerm args))
            else Inr False) (\<lambda>conflict.
     if conflict then
       rbind (go_nth (log rf) actualIndex) (\<lambda>ce.
       let tarTerm = Term ce in
       rbind (for_break (indices 0 (actualIndex + 1)) (actualIndex + 1)
                (\<lambda>i. rbind (go_nth (log rf) i) (\<lambda>e. Inr (Term e = tarTerm)))) (\<lambda>startIndex.
       rbind (go_nth (log rf) startIndex) (\<lambda>se.
       rbind (go_take (log rf) actualIndex) (\<lambda>lg.
       Inr (rf\<lparr>log := lg\<rparr>,
            reply\<lparr>XTerm := tarTerm, XIndex := Index se, XLen := len lg, Success := False\<rparr>)))))
     else
       rbind (if (len (log rf) - 1) - actualIndex \<le> len (Entries args)
              then rbind (go_take (log rf) (actualIndex + 1)) (\<lambda>p. Inr (p @ Entries args))
              else truncateLoop (log rf) actualIndex (Entries args)) (\<lambda>lg.
       Inr (rf\<lparr>log := lg\<rparr>,
            reply\<lparr>XTerm := -1, XIndex := -1, XLen := len lg, Success := True\<rparr>)))))"

section \<open>The leader's side\<close>

definition leaderHandleLog ::
    "'c Raft \<Rightarrow> 'c AppendEntriesArgs \<Rightarrow> AppendEntriesReply \<Rightarrow> 'c Raft res" where
  "leaderHandleLog rf args reply =
    rbind (go_nth (nextIndex rf) (ServerId reply)) (\<lambda>nx.
    if PrevLogIndex args \<noteq> nx - 1 then Inr rf
    else if \<not> Success reply \<and> XTerm reply = -1 then
      rbind (go_upd (nextIndex rf) (ServerId reply) (XIndex reply)) (\<lambda>ni.
      Inr (rf\<lparr>nextIndex := ni\<rparr>))
    else if \<not> Success reply then
      rbind (for_break (rev (indices 0 (len (log rf)))) (-1)
               (\<lambda>i. rbind (go_nth (log rf) i) (\<lambda>e. Inr (Term e = XTerm reply)))) (\<lambda>k.
      if k \<noteq> -1 then
        rbind (go_nth (log rf) k) (\<lambda>e.
        rbind (go_upd (nextIndex rf) (ServerId reply) (Index e + 1)) (\<lambda>ni.
        Inr (rf\<lparr>nextIndex := ni\<rparr>)))
      else
        rbind (go_upd (nextIndex rf) (ServerId reply) (XIndex reply)) (\<lambda>ni.
        Inr (rf\<lparr>nextIndex := ni\<rparr>)))
    else
      rbind (go_upd (nextIndex rf) (ServerId reply) (PrevLogIndex args + len (Entries args) + 1)) (\<lambda>ni.
      rbind (go_nth ni (ServerId reply)) (\<lambda>nx'.
      rbind (go_upd (matchIndex rf) (ServerId reply) (nx' - 1)) (\<lambda>mi.
      Inr (rf\<lparr>nextIndex := ni, matchIndex := mi\<rparr>)))))"

section \<open>The paper's merge rule\<close>

fun merge_log :: "'c LogEntry list \<Rightarrow> 'c LogEntry list \<Rightarrow> 'c LogEntry list" where
  "merge_log [] new = new"
| "merge_log old [] = old"
| "merge_log (x # old) (y # new) =
     (if Term x \<noteq> Term y then y # new else x # merge_log old new)"

text \<open>Well-formed requests: the entries are numbered from the entry after \<open>PrevLogIndex\<close>.\<close>

definition args_ok :: "'c AppendEntriesArgs \<Rightarrow> bool" where
  "args_ok args = (-1 \<le> PrevLogIndex args \<and> contiguous (PrevLogIndex args) (Entries args))"

text \<open>Two lists agree where they overlap: the same term in the same place means the same entry.\<close>

definition same_term_same_entry :: "'c LogEntry list \<Rightarrow> 'c LogEntry list \<Rightarrow> bool" where
  "same_term_same_entry xs ys =
     (\<forall>k < min (length xs) (length ys). Term (xs ! k) = Term (ys ! k) \<longrightarrow> xs ! k = ys ! k)"

lemma merge_log_Nil2 [simp]: "merge_log old [] = old"
  by (cases old) auto

lemma same_term_same_entry_Cons:
  "same_term_same_entry (x # xs) (y # ys) \<longleftrightarrow>
     (Term x = Term y \<longrightarrow> x = y) \<and> same_term_same_entry xs ys"
  by (auto simp: same_term_same_entry_def nth_Cons less_Suc_eq_0_disj split: nat.splits)

lemma merge_log_shorter:
  "length old \<le> length new \<Longrightarrow> same_term_same_entry old new \<Longrightarrow> merge_log old new = new"
  by (induction old new rule: merge_log.induct) (auto simp: same_term_same_entry_Cons)

lemma merge_log_contiguous:
  "contiguous b old \<Longrightarrow> contiguous b new \<Longrightarrow> contiguous b (merge_log old new)"
  by (induction old new arbitrary: b rule: merge_log.induct) auto

lemma length_merge_log: "length new \<le> length (merge_log old new)"
  by (induction old new rule: merge_log.induct) auto

lemma merge_log_terms:
  "k < length new \<Longrightarrow> Term (merge_log old new ! k) = Term (new ! k)"
  by (induction old new arbitrary: k rule: merge_log.induct) (auto simp: nth_Cons split: nat.splits)

lemma merge_log_agree:
  "\<lbrakk>\<And>k. k < length new \<Longrightarrow> k < length old \<Longrightarrow> Term (old ! k) = Term (new ! k);
    length new \<le> length old\<rbrakk> \<Longrightarrow> merge_log old new = old"
proof (induction old new rule: merge_log.induct)
  case (3 x old y new)
  have "Term x = Term y" using "3.prems"(1) [of 0] by simp
  moreover have "merge_log old new = old"
    using "3.prems" \<open>Term x = Term y\<close> by (intro "3.IH") force+
  ultimately show ?case by simp
qed auto

section \<open>The loops\<close>

lemma findUncommitted_contiguous:
  assumes "contiguous b es" "b \<le> si"
  shows "findUncommitted es si = Inr (min (si - b) (len es))"
  using assms by (simp add: findUncommitted_def search_contiguous min_def)

lemma replaceLoop_eq:
  assumes "length new \<le> length lg"
  shows "replaceLoop lg new =
    Inr (if \<exists>k < length new. Term (lg ! k) \<noteq> Term (new ! k) then new else lg)"
proof -
  define f where "f = (\<lambda>i l. rbind (go_nth l i) (\<lambda>e. rbind (go_nth new i) (\<lambda>n.
          Inr (if Term e \<noteq> Term n then new else l))))"
  have stable: "for_each (indices a (len new)) f new = Inr new" if "0 \<le> a" for a
    using that by (intro for_each_stable) (auto simp: f_def go_nth_in len_def)
  have "for_each (indices a (len new)) f lg =
     Inr (if \<exists>k < length new. a \<le> int k \<and> Term (lg ! k) \<noteq> Term (new ! k) then new else lg)"
    if "0 \<le> a" "a \<le> len new" for a
    using that
  proof (induction "nat (len new - a)" arbitrary: a)
    case 0
    then show ?case by (auto simp: len_def)
  next
    case (Suc n)
    then have lt: "a < len new" by simp
    have step: "f a lg = Inr (if Term (lg ! nat a) \<noteq> Term (new ! nat a) then new else lg)"
      using Suc.prems lt assms by (simp add: f_def go_nth_in len_def)
    have ih: "for_each (indices (a + 1) (len new)) f lg =
       Inr (if \<exists>k < length new. a + 1 \<le> int k \<and> Term (lg ! k) \<noteq> Term (new ! k) then new else lg)"
      using Suc lt by (intro Suc.hyps) auto
    show ?case
    proof (cases "Term (lg ! nat a) = Term (new ! nat a)")
      case True
      then have "(\<exists>k < length new. a \<le> int k \<and> Term (lg ! k) \<noteq> Term (new ! k)) \<longleftrightarrow>
                 (\<exists>k < length new. a + 1 \<le> int k \<and> Term (lg ! k) \<noteq> Term (new ! k))"
        by (metis add1_zle_eq nat_int order_le_less zless_imp_add1_zle)
      with True step ih lt show ?thesis by (simp add: indices_Cons)
    next
      case False
      then have "\<exists>k < length new. a \<le> int k \<and> Term (lg ! k) \<noteq> Term (new ! k)"
        using Suc.prems lt by (intro exI [of _ "nat a"]) (auto simp: len_def)
      with False step lt stable [of "a + 1"] Suc.prems show ?thesis
        by (simp add: indices_Cons)
    qed
  qed
  from this [of 0] show ?thesis
    by (simp add: replaceLoop_def f_def len_def)
qed

lemma truncateLoop_gen:
  assumes "es = es1 @ es2" "length p = k + length es1" "length es2 < length old"
  shows "for_each (indices (int (k + length es1)) (int k + len es)) (truncateStep (int k - 1) es)
           (p @ old) = Inr (p @ merge_log old es2)"
  using assms
proof (induction es2 arbitrary: es1 p old)
  case Nil
  then show ?case by (simp add: len_def)
next
  case (Cons y ys)
  from Cons.prems obtain x old' where old: "old = x # old'" by (cases old) auto
  let ?f = "truncateStep (int k - 1) es" and ?i = "int (k + length es1)"
  have ind: "indices ?i (int k + len es) = ?i # indices (?i + 1) (int k + len es)"
    using Cons.prems by (intro indices_Cons) (simp add: len_def)
  have nth1: "go_nth (p @ old) ?i = Inr x"
    using Cons.prems old by (simp add: go_nth_def nat_int_add nth_append)
  have nth2: "go_nth es (?i - (int k - 1) - 1) = Inr y"
    using Cons.prems by (simp add: go_nth_def nth_append)
  show ?case
  proof (cases "Term x = Term y")
    case True
    have "for_each (indices (int (k + length (es1 @ [y]))) (int k + len es)) ?f ((p @ [x]) @ old')
        = Inr ((p @ [x]) @ merge_log old' ys)"
      using Cons.prems old by (intro Cons.IH) auto
    moreover have "?i + 1 = int (k + length (es1 @ [y]))" by simp
    moreover have "?f ?i (p @ old) = Inr (p @ old)"
      unfolding truncateStep_def nth1 nth2 using True by simp
    ultimately show ?thesis
      using True unfolding ind by (simp only: old for_each.simps rbind_Inr append_assoc) simp
  next
    case False
    have step: "?f ?i (p @ old) = Inr (p @ y # ys)"
      unfolding truncateStep_def nth1 nth2
      using False Cons.prems by (simp add: go_drop_def go_take_def nat_int_add)
    have stable: "for_each (indices (?i + 1) (int k + len es)) ?f (p @ y # ys) = Inr (p @ y # ys)"
    proof (rule for_each_stable)
      fix i assume "i \<in> set (indices (?i + 1) (int k + len es))"
      then have b: "?i + 1 \<le> i" "i < int k + len es" by auto
      have l: "length p = k + length es1" "es = es1 @ y # ys" using Cons.prems by auto
      have "\<not> nat i < length p" "\<not> nat (i - int k) < length es1"
        using b l by (auto simp: nat_less_iff)
      moreover have "nat i - length p = nat (i - int k) - length es1"
        using b l by (simp add: nat_diff_distrib')
      ultimately have "(p @ y # ys) ! nat i = es ! nat (i - int k)"
        by (simp add: nth_append l)
      then show "?f i (p @ y # ys) = Inr (p @ y # ys)"
        using b l by (simp add: truncateStep_def go_nth_def len_def)
    qed
    show ?thesis using False step stable unfolding ind by (simp add: old)
  qed
qed

lemma truncateLoop_eq:
  assumes "-1 \<le> a" "a < len lg" "len es < len lg - 1 - a"
  shows "truncateLoop lg a es =
    Inr (take (nat (a + 1)) lg @ merge_log (drop (nat (a + 1)) lg) es)"
proof -
  obtain k where a: "a = int k - 1"
    using assms(1) by (metis add.commute add_diff_cancel_left' diff_ge_0_iff_ge diff_minus_eq_add nonneg_int_cases)
  have "for_each (indices (int (k + length ([] :: 'a LogEntry list))) (int k + len es))
          (truncateStep (int k - 1) es) (take k lg @ drop k lg) =
        Inr (take k lg @ merge_log (drop k lg) es)"
    using assms a by (intro truncateLoop_gen) (auto simp: len_def)
  then show ?thesis by (simp add: truncateLoop_def a)
qed

section \<open>What the follower does, branch by branch\<close>

text \<open>The position in the log of the entry with index \<open>PrevLogIndex\<close>.\<close>

definition prevPos :: "'c Raft \<Rightarrow> 'c AppendEntriesArgs \<Rightarrow> nat" where
  "prevPos rf args = nat (PrevLogIndex args - snapshotIndex rf - 1)"

lemma prevPos_less:
  "\<lbrakk>snapshotIndex rf < PrevLogIndex args; PrevLogIndex args \<le> lastIndex rf\<rbrakk>
     \<Longrightarrow> prevPos rf args < length (log rf)"
  by (simp add: prevPos_def lastIndex_def nat_less_iff)

lemma followerHandleLog_short:
  assumes "log_ok rf" "lastIndex rf < PrevLogIndex args"
  shows "followerHandleLog rf args reply =
    Inr (rf, reply\<lparr>XTerm := -1, XIndex := lastIndex rf + 1, XLen := len (log rf), Success := False\<rparr>)"
  using assms by (simp add: followerHandleLog_def getLast_fst)

lemma followerHandleLog_snapshot:
  assumes ok: "log_ok rf" "args_ok args"
    and prev: "PrevLogIndex args \<le> snapshotIndex rf" "PrevLogIndex args \<noteq> -1"
  defines "new \<equiv> drop (nat (snapshotIndex rf - PrevLogIndex args)) (Entries args)"
  shows "followerHandleLog rf args reply =
    (let lg = (if new = [] then log rf
               else if length (log rf) \<le> length new \<or>
                       (\<exists>k < length new. Term (log rf ! k) \<noteq> Term (new ! k))
               then new else log rf)
     in Inr (rf\<lparr>log := lg\<rparr>, reply\<lparr>XTerm := -1, XIndex := -1, XLen := len lg, Success := True\<rparr>))"
proof -
  let ?s = "snapshotIndex rf - PrevLogIndex args"
  have len_new: "length new = length (Entries args) - nat ?s" by (simp add: new_def)
  have find: "findIndex rf (PrevLogIndex args) = Inr (-1)"
    using ok prev by (simp add: findIndex_ok)
  have unc: "findUncommitted (Entries args) (snapshotIndex rf) = Inr (min ?s (len (Entries args)))"
    using ok prev by (intro findUncommitted_contiguous) (auto simp: args_ok_def)
  have long: "\<not> lastIndex rf < PrevLogIndex args"
    using prev snapshot_le_lastIndex [of rf] by linarith
  show ?thesis
  proof (cases "new = []")
    case True
    then have "len (Entries args) \<le> ?s" using prev by (simp add: new_def len_def)
    then show ?thesis
      using True long ok prev
      by (simp add: followerHandleLog_def getLast_fst find unc min_def)
  next
    case False
    then have lt: "?s < len (Entries args)" using prev by (simp add: new_def len_def)
    have drop: "go_drop (Entries args) ?s = Inr new"
      using lt prev by (simp add: go_drop_def new_def len_def)
    show ?thesis
    proof (cases "length (log rf) \<le> length new")
      case True
      then show ?thesis
        using False long ok prev lt drop
        by (simp add: followerHandleLog_def getLast_fst find unc min_def len_def)
    next
      case shorter: False
      then have rl: "replaceLoop (log rf) new =
          Inr (if \<exists>k < length new. Term (log rf ! k) \<noteq> Term (new ! k) then new else log rf)"
        by (intro replaceLoop_eq) simp
      have "min ?s (len (Entries args)) = ?s" using lt by simp
      then show ?thesis
        using False long ok prev lt drop shorter
        by (simp add: followerHandleLog_def getLast_fst find unc rl len_def Let_def)
    qed
  qed
qed

lemma followerHandleLog_conflict:
  assumes ok: "log_ok rf"
    and prev: "snapshotIndex rf < PrevLogIndex args" "PrevLogIndex args \<le> lastIndex rf"
    and conflict: "Term (log rf ! prevPos rf args) \<noteq> PrevLogTerm args"
  obtains j where "j \<le> prevPos rf args" "Term (log rf ! j) = Term (log rf ! prevPos rf args)"
    and "\<forall>i < j. Term (log rf ! i) \<noteq> Term (log rf ! prevPos rf args)"
    and "followerHandleLog rf args reply =
      Inr (rf\<lparr>log := take (prevPos rf args) (log rf)\<rparr>,
           reply\<lparr>XTerm := Term (log rf ! prevPos rf args),
                 XIndex := snapshotIndex rf + 1 + int j,
                 XLen := int (prevPos rf args), Success := False\<rparr>)"
proof -
  let ?p = "prevPos rf args" and ?t = "Term (log rf ! prevPos rf args)"
  have plt: "?p < length (log rf)" using prev by (rule prevPos_less)
  have pint: "PrevLogIndex args - snapshotIndex rf - 1 = int ?p" using prev by (simp add: prevPos_def)
  define j where "j = (LEAST i. Term (log rf ! i) = ?t)"
  have j: "Term (log rf ! j) = ?t" "j \<le> ?p" "\<And>i. i < j \<Longrightarrow> Term (log rf ! i) \<noteq> ?t"
    unfolding j_def by (auto intro: LeastI Least_le dest: not_less_Least)
  have find: "findIndex rf (PrevLogIndex args) = Inr (int ?p)"
    using ok prev pint by (simp add: findIndex_ok)
  have start: "for_break (indices 0 (int ?p + 1)) (int ?p + 1)
                (\<lambda>i. rbind (go_nth (log rf) i) (\<lambda>e. Inr (Term e = ?t))) = Inr (int j)"
    using j plt by (intro for_break_first) (auto simp: go_nth_in nat_less_iff)
  have "Index (log rf ! j) = snapshotIndex rf + 1 + int j"
    using ok j(2) plt by (intro contiguous_nth) (auto simp: log_ok_def)
  then have "followerHandleLog rf args reply =
      Inr (rf\<lparr>log := take ?p (log rf)\<rparr>,
           reply\<lparr>XTerm := ?t, XIndex := snapshotIndex rf + 1 + int j, XLen := int ?p, Success := False\<rparr>)"
    using prev ok conflict plt j(2) start
    by (auto simp: followerHandleLog_def getLast_fst find go_nth_int go_take_def len_def Let_def
        log_ok_def)
  with j that show thesis by blast
qed

lemma followerHandleLog_match:
  assumes ok: "log_ok rf"
    and prev: "PrevLogIndex args \<le> lastIndex rf"
    and match: "PrevLogIndex args = -1 \<or>
      snapshotIndex rf < PrevLogIndex args \<and> Term (log rf ! prevPos rf args) = PrevLogTerm args"
  defines "k \<equiv> (if PrevLogIndex args = -1 then 0 else Suc (prevPos rf args))"
  defines "lg \<equiv> take k (log rf) @
      (if length (drop k (log rf)) \<le> length (Entries args) then Entries args
       else merge_log (drop k (log rf)) (Entries args))"
  shows "followerHandleLog rf args reply =
    Inr (rf\<lparr>log := lg\<rparr>, reply\<lparr>XTerm := -1, XIndex := -1, XLen := len lg, Success := True\<rparr>)"
proof -
  have kle: "k \<le> length (log rf)"
    using match prev prevPos_less [of rf args] by (auto simp: k_def Suc_le_eq)
  have find: "findIndex rf (PrevLogIndex args) = Inr (int k - 1)"
    using ok match prev by (auto simp: findIndex_ok k_def log_ok_def prevPos_def)
  have noconf: "(if PrevLogIndex args \<noteq> -1
            then rbind (go_nth (log rf) (int k - 1)) (\<lambda>e. Inr (Term e \<noteq> PrevLogTerm args))
            else Inr False) = Inr False"
    using match prev prevPos_less [of rf args] by (auto simp: k_def go_nth_int)
  have branch: "\<not> (int k - 1 = -1 \<and> PrevLogIndex args \<noteq> -1)"
    using match by (auto simp: k_def)
  have log': "(if (len (log rf) - 1) - (int k - 1) \<le> len (Entries args)
        then rbind (go_take (log rf) (int k - 1 + 1)) (\<lambda>p. Inr (p @ Entries args))
        else truncateLoop (log rf) (int k - 1) (Entries args)) = Inr lg"
  proof (cases "length (drop k (log rf)) \<le> length (Entries args)")
    case True
    then have "(len (log rf) - 1) - (int k - 1) \<le> len (Entries args)"
      using kle by (simp add: len_def)
    with True kle show ?thesis by (simp add: lg_def go_take_def len_def)
  next
    case False
    then have "truncateLoop (log rf) (int k - 1) (Entries args) =
        Inr (take k (log rf) @ merge_log (drop k (log rf)) (Entries args))"
      using kle truncateLoop_eq [of "int k - 1" "log rf" "Entries args"] by (simp add: len_def)
    moreover have "\<not> (len (log rf) - 1) - (int k - 1) \<le> len (Entries args)"
      using False kle by (simp add: len_def)
    ultimately show ?thesis using False by (simp add: lg_def)
  qed
  have "\<not> lastIndex rf < PrevLogIndex args" using prev by simp
  then show ?thesis
    unfolding followerHandleLog_def getLast_fst [OF ok] Let_def find rbind_Inr
    by (simp only: if_not_P [OF branch] noconf log' rbind_Inr if_False)
qed

section \<open>The abstract specification of the follower's step\<close>

text \<open>
  \<open>accepts\<close>: the consistency check of the paper, where everything the snapshot covers
  counts as matching. \<open>mergedLog\<close>: the log after an accepted request, with the entries
  that the snapshot covers left out.
\<close>

definition accepts :: "'c Raft \<Rightarrow> 'c AppendEntriesArgs \<Rightarrow> bool" where
  "accepts rf args =
     (PrevLogIndex args \<le> snapshotIndex rf \<or>
      PrevLogIndex args \<le> lastIndex rf \<and> Term (log rf ! prevPos rf args) = PrevLogTerm args)"

definition keptLog :: "'c Raft \<Rightarrow> 'c AppendEntriesArgs \<Rightarrow> 'c LogEntry list" where
  "keptLog rf args = take (nat (PrevLogIndex args - snapshotIndex rf)) (log rf)"

definition oldSuffix :: "'c Raft \<Rightarrow> 'c AppendEntriesArgs \<Rightarrow> 'c LogEntry list" where
  "oldSuffix rf args = drop (nat (PrevLogIndex args - snapshotIndex rf)) (log rf)"

definition newSuffix :: "'c Raft \<Rightarrow> 'c AppendEntriesArgs \<Rightarrow> 'c LogEntry list" where
  "newSuffix rf args = drop (nat (snapshotIndex rf - PrevLogIndex args)) (Entries args)"

definition mergedLog :: "'c Raft \<Rightarrow> 'c AppendEntriesArgs \<Rightarrow> 'c LogEntry list" where
  "mergedLog rf args = keptLog rf args @ merge_log (oldSuffix rf args) (newSuffix rf args)"

lemma merge_log_conflict:
  assumes "same_term_same_entry old new"
    and "k < length new" "k < length old" "Term (old ! k) \<noteq> Term (new ! k)"
  shows "merge_log old new = new"
  using assms
proof (induction old new arbitrary: k rule: merge_log.induct)
  case (3 x old y new)
  then show ?case
    by (cases k) (auto simp: same_term_same_entry_Cons)
qed auto

lemma merge_log_replace:
  assumes "same_term_same_entry old new"
  shows "merge_log old new =
    (if new = [] then old
     else if length old \<le> length new \<or> (\<exists>k < length new. Term (old ! k) \<noteq> Term (new ! k))
     then new else old)"
proof (cases "length old \<le> length new")
  case True
  with assms show ?thesis by (cases "new = []") (auto simp: merge_log_shorter)
next
  case longer: False
  show ?thesis
  proof (cases "\<exists>k < length new. Term (old ! k) \<noteq> Term (new ! k)")
    case True
    then obtain k where "k < length new" "Term (old ! k) \<noteq> Term (new ! k)" by blast
    with longer assms have "merge_log old new = new" by (intro merge_log_conflict) auto
    with True show ?thesis by auto
  next
    case False
    with longer have "merge_log old new = old" by (intro merge_log_agree) auto
    with longer False show ?thesis by auto
  qed
qed

lemma not_snapshot_pos:
  "snapshotIndex rf < PrevLogIndex args \<Longrightarrow>
     Suc (prevPos rf args) = nat (PrevLogIndex args - snapshotIndex rf)"
  by (simp add: prevPos_def)

text \<open>\<open>prefix_fits\<close>: a request that starts at the very first entry meets a log that does too.\<close>

definition prefix_fits :: "'c Raft \<Rightarrow> 'c AppendEntriesArgs \<Rightarrow> bool" where
  "prefix_fits rf args = (PrevLogIndex args = -1 \<longrightarrow> snapshotIndex rf = -1)"

lemma followerHandleLog_accept:
  assumes ok: "log_ok rf" "args_ok args" "prefix_fits rf args" and acc: "accepts rf args"
    and agree: "same_term_same_entry (oldSuffix rf args) (newSuffix rf args)"
  shows "followerHandleLog rf args reply =
    Inr (rf\<lparr>log := mergedLog rf args\<rparr>,
         reply\<lparr>XTerm := -1, XIndex := -1, XLen := len (mergedLog rf args), Success := True\<rparr>)"
proof (cases "PrevLogIndex args \<le> snapshotIndex rf \<and> PrevLogIndex args \<noteq> -1")
  case True
  have new: "newSuffix rf args = drop (nat (snapshotIndex rf - PrevLogIndex args)) (Entries args)"
    and old: "oldSuffix rf args = log rf" "keptLog rf args = []"
    using True by (simp_all add: newSuffix_def oldSuffix_def keptLog_def)
  have "merge_log (log rf) (newSuffix rf args) =
      (if newSuffix rf args = [] then log rf
       else if length (log rf) \<le> length (newSuffix rf args) \<or>
            (\<exists>k < length (newSuffix rf args). Term (log rf ! k) \<noteq> Term (newSuffix rf args ! k))
       then newSuffix rf args else log rf)"
    using agree unfolding old by (rule merge_log_replace)
  then have m: "mergedLog rf args =
      (if newSuffix rf args = [] then log rf
       else if length (log rf) \<le> length (newSuffix rf args) \<or>
            (\<exists>k < length (newSuffix rf args). Term (log rf ! k) \<noteq> Term (newSuffix rf args ! k))
       then newSuffix rf args else log rf)"
    by (simp add: mergedLog_def old)
  from followerHandleLog_snapshot [OF ok(1,2), of reply] True show ?thesis
    unfolding new [symmetric] Let_def m by blast
next
  case False
  define k where "k = (if PrevLogIndex args = -1 then 0 else Suc (prevPos rf args))"
  have prev: "PrevLogIndex args \<le> lastIndex rf"
    using acc snapshot_le_lastIndex [of rf] by (auto simp: accepts_def)
  have match: "PrevLogIndex args = -1 \<or>
      snapshotIndex rf < PrevLogIndex args \<and> Term (log rf ! prevPos rf args) = PrevLogTerm args"
    using False acc by (auto simp: accepts_def)
  have k: "k = nat (PrevLogIndex args - snapshotIndex rf)"
    using match ok(3) by (auto simp: k_def not_snapshot_pos prefix_fits_def)
  have new: "newSuffix rf args = Entries args"
    using match ok(3) by (auto simp: newSuffix_def prefix_fits_def)
  have "(if length (drop k (log rf)) \<le> length (Entries args) then Entries args
       else merge_log (drop k (log rf)) (Entries args)) = merge_log (drop k (log rf)) (Entries args)"
    using agree by (auto simp: oldSuffix_def new k [symmetric] intro!: merge_log_shorter [symmetric])
  then have "mergedLog rf args = take k (log rf) @
      (if length (drop k (log rf)) \<le> length (Entries args) then Entries args
       else merge_log (drop k (log rf)) (Entries args))"
    by (simp add: mergedLog_def keptLog_def oldSuffix_def new k)
  then show ?thesis
    using followerHandleLog_match [OF ok(1) prev match] by (simp add: k_def)
qed

lemma followerHandleLog_reject:
  assumes ok: "log_ok rf" "args_ok args" and rej: "\<not> accepts rf args"
  shows "\<exists>reply'. followerHandleLog rf args reply = Inr (rf\<lparr>log := take (prevPos rf args) (log rf)\<rparr>, reply')
    \<and> \<not> Success reply' \<and> aerTerm reply' = aerTerm reply \<and> ServerId reply' = ServerId reply
    \<and> XIndex reply' \<le> PrevLogIndex args \<and> snapshotIndex rf < XIndex reply'"
proof (cases "lastIndex rf < PrevLogIndex args")
  case True
  then have "length (log rf) \<le> prevPos rf args" by (simp add: prevPos_def lastIndex_def)
  then show ?thesis
    using True ok snapshot_le_lastIndex [of rf] by (simp add: followerHandleLog_short)
next
  case False
  with rej have prev: "snapshotIndex rf < PrevLogIndex args" "PrevLogIndex args \<le> lastIndex rf"
    and "Term (log rf ! prevPos rf args) \<noteq> PrevLogTerm args"
    by (auto simp: accepts_def)
  then obtain j where "j \<le> prevPos rf args"
    and "followerHandleLog rf args reply =
      Inr (rf\<lparr>log := take (prevPos rf args) (log rf)\<rparr>,
           reply\<lparr>XTerm := Term (log rf ! prevPos rf args),
                 XIndex := snapshotIndex rf + 1 + int j,
                 XLen := int (prevPos rf args), Success := False\<rparr>)"
    using followerHandleLog_conflict [OF ok(1)] by metis
  moreover have "int (prevPos rf args) = PrevLogIndex args - snapshotIndex rf - 1"
    using prev by (simp add: prevPos_def)
  ultimately show ?thesis by simp
qed

end
