(* ===== verification/RaftCommit.thy ===== *)
theory RaftCommit
  imports RaftLog
begin

text \<open>
  Committing (\<open>raft/logActivities.go\<close>): how leader and follower advance the commit index
  and hand the newly committed entries to the service. The median of the match indices is
  the largest index stored on a majority of the peers (\<open>median_majority\<close>), and the
  messages handed over are exactly the entries between the old and the new commit index.
\<close>

section \<open>Committing\<close>

definition commandMsg :: "'c LogEntry \<Rightarrow> 'c ApplyMsg" where
  "commandMsg e = \<lparr>CommandValid = True, aCommand = Some (Command e), CommandIndex = Index e + 1,
     SnapshotValid = False, Snapshot = [], SnapshotTerm = 0, SnapshotIndex = 0\<rparr>"

definition sendCommittedLogChannel :: "'c Raft \<Rightarrow> int \<Rightarrow> int \<Rightarrow> 'c Raft res" where
  "sendCommittedLogChannel rf prevCommitIndex curCommitIndex =
    rbind (if prevCommitIndex = -1 \<or> prevCommitIndex = snapshotIndex rf then Inr (-1, True)
           else rbind (for_break (indices 0 (len (log rf))) (len (log rf))
                  (\<lambda>i. rbind (go_nth (log rf) i) (\<lambda>e. Inr (Index e = prevCommitIndex))))
                (\<lambda>k. Inr (k, k < len (log rf)))) (\<lambda>(startIndex, found).
    if \<not> found then Inl (GoPanic ''should found startIndex'')
    else
      rbind (for_each (indices (startIndex + 1) (startIndex + (curCommitIndex - prevCommitIndex) + 1))
               (\<lambda>i ms. rbind (go_nth (log rf) i) (\<lambda>e. Inr (ms @ [commandMsg e]))) []) (\<lambda>applyMsgLs.
      Inr (rf\<lparr>applyGo := applyGo rf @ [applyMsgLs]\<rparr>)))"

definition leaderUpdateCommitIndex :: "'c Raft \<Rightarrow> 'c Raft res" where
  "leaderUpdateCommitIndex rf =
    (if log rf = [] \<and> snapshotIndex rf = -1 then Inr (persist rf)
     else
     let sortedMatchIndex = sort (matchIndex rf) in
     rbind (go_nth sortedMatchIndex ((peers rf + 1) div 2 - 1)) (\<lambda>majorityIndex.
     if majorityIndex = -1 then Inr (persist rf)
     else if \<not> majorityIndex > commitIndex rf then Inr (persist rf)
     else
     rbind (findIndex rf majorityIndex) (\<lambda>k.
     rbind (go_nth (log rf) k) (\<lambda>e.
     if Term e = currentTerm rf then
       let prevCommitIndex = commitIndex rf;
           rf' = rf\<lparr>commitIndex := majorityIndex, lastApplied := majorityIndex\<rparr> in
       rbind (sendCommittedLogChannel rf' prevCommitIndex (commitIndex rf')) (\<lambda>r. Inr (persist r))
     else Inr (persist rf)))))"

definition followerUpdateCommitIndex :: "'c Raft \<Rightarrow> int \<Rightarrow> 'c Raft res" where
  "followerUpdateCommitIndex rf leaderCommit =
    (if commitIndex rf \<ge> leaderCommit then Inr rf
     else
     let prevCommitIndex = commitIndex rf;
         lastLogIndex = fst (getLastLogIndexAndTerm rf);
         minCommitIndex = (if lastLogIndex < leaderCommit then lastLogIndex else leaderCommit);
         rf' = rf\<lparr>commitIndex := minCommitIndex, lastApplied := minCommitIndex\<rparr> in
     sendCommittedLogChannel rf' prevCommitIndex (commitIndex rf'))"

section \<open>The messages of a commit\<close>

text \<open>The entries with an index in \<open>a < i \<le> b\<close>, as messages to the service.\<close>

definition committedMsgs :: "'c Raft \<Rightarrow> int \<Rightarrow> int \<Rightarrow> 'c ApplyMsg list" where
  "committedMsgs rf a b =
     map commandMsg (take (nat (b - a)) (drop (nat (a - snapshotIndex rf)) (log rf)))"

lemma sendCommittedLogChannel_ok:
  assumes ok: "log_ok rf" and b: "snapshotIndex rf \<le> prev" "prev \<le> cur" "cur \<le> lastIndex rf"
  shows "sendCommittedLogChannel rf prev cur =
    Inr (rf\<lparr>applyGo := applyGo rf @ [committedMsgs rf prev cur]\<rparr>)"
proof -
  let ?k = "prev - snapshotIndex rf - 1"
  have start: "(if prev = -1 \<or> prev = snapshotIndex rf then Inr (-1, True)
           else rbind (for_break (indices 0 (len (log rf))) (len (log rf))
                  (\<lambda>i. rbind (go_nth (log rf) i) (\<lambda>e. Inr (Index e = prev))))
                (\<lambda>k. Inr (k, k < len (log rf)))) = Inr (?k, True)"
  proof (cases "prev = -1 \<or> prev = snapshotIndex rf")
    case True
    then show ?thesis using ok b by (auto simp: log_ok_def)
  next
    case False
    have "for_break (indices 0 (len (log rf))) (len (log rf))
            (\<lambda>i. rbind (go_nth (log rf) i) (\<lambda>e. Inr (Index e = prev))) = Inr ?k"
      using False ok b search_contiguous [of "snapshotIndex rf" "log rf" "len (log rf)" prev]
      by (simp add: log_ok_def lastIndex_def len_def)
    then show ?thesis using False b by (simp add: len_def lastIndex_def)
  qed
  have loop: "for_each (indices (?k + 1) (?k + (cur - prev) + 1))
       (\<lambda>i ms. rbind (go_nth (log rf) i) (\<lambda>e. Inr (ms @ [commandMsg e]))) [] =
     Inr (committedMsgs rf prev cur)"
    using b by (subst for_each_collect) (auto simp: committedMsgs_def len_def lastIndex_def)
  show ?thesis
    unfolding sendCommittedLogChannel_def start rbind_Inr prod.case loop by simp
qed

lemma length_committedMsgs:
  "\<lbrakk>snapshotIndex rf \<le> a; a \<le> b; b \<le> lastIndex rf\<rbrakk> \<Longrightarrow> length (committedMsgs rf a b) = nat (b - a)"
  by (simp add: committedMsgs_def lastIndex_def)

lemma committedMsgs_nth:
  assumes "log_ok rf" "snapshotIndex rf \<le> a" "a \<le> b" "b \<le> lastIndex rf" "k < nat (b - a)"
  shows "\<exists>e. entry_at rf (a + 1 + int k) = Some e \<and> committedMsgs rf a b ! k = commandMsg e
           \<and> CommandIndex (committedMsgs rf a b ! k) = a + 2 + int k"
proof -
  let ?j = "nat (a - snapshotIndex rf) + k"
  have j: "?j < length (log rf)" using assms by (auto simp: lastIndex_def)
  have "entry_at rf (a + 1 + int k) = Some (log rf ! ?j)"
  proof -
    have "nat (a + 1 + int k - snapshotIndex rf - 1) = ?j" using assms by simp
    then show ?thesis using assms by (simp add: entry_at_def lastIndex_def)
  qed
  moreover have "committedMsgs rf a b ! k = commandMsg (log rf ! ?j)"
    using assms j by (simp add: committedMsgs_def)
  moreover have "Index (log rf ! ?j) = a + 1 + int k"
    using assms j contiguous_nth [of "snapshotIndex rf" "log rf" ?j] by (simp add: log_ok_def)
  ultimately show ?thesis by (simp add: commandMsg_def)
qed

section \<open>The follower's commit index\<close>

lemma followerUpdateCommitIndex_stale:
  "leaderCommit \<le> commitIndex rf \<Longrightarrow> followerUpdateCommitIndex rf leaderCommit = Inr rf"
  by (simp add: followerUpdateCommitIndex_def)

lemma followerUpdateCommitIndex_ok:
  assumes "log_ok rf" "snapshotIndex rf \<le> commitIndex rf" "commitIndex rf \<le> lastIndex rf"
    and "commitIndex rf < leaderCommit"
  defines "c \<equiv> min (lastIndex rf) leaderCommit"
  shows "followerUpdateCommitIndex rf leaderCommit =
    Inr (rf\<lparr>commitIndex := c, lastApplied := c,
            applyGo := applyGo rf @ [committedMsgs rf (commitIndex rf) c]\<rparr>)"
proof -
  let ?rf' = "rf\<lparr>commitIndex := c, lastApplied := c\<rparr>"
  have ok': "log_ok ?rf'" "snapshotIndex ?rf' \<le> commitIndex rf" "commitIndex rf \<le> c" "c \<le> lastIndex ?rf'"
    using assms by (auto simp: log_ok_def lastIndex_def c_def)
  have "committedMsgs ?rf' (commitIndex rf) c = committedMsgs rf (commitIndex rf) c"
    by (simp add: committedMsgs_def)
  moreover have "(if lastIndex rf < leaderCommit then lastIndex rf else leaderCommit) = c"
    by (simp add: c_def)
  ultimately show ?thesis
    using sendCommittedLogChannel_ok [OF ok'] assms(1,4)
    by (simp add: followerUpdateCommitIndex_def getLast_fst Let_def)
qed

section \<open>The leader's commit index\<close>

text \<open>The match indices a leader keeps: one per peer, none beyond the end of its log.\<close>

definition match_ok :: "'c Raft \<Rightarrow> bool" where
  "match_ok rf = (0 < peers rf \<and> length (matchIndex rf) = nat (peers rf) \<and>
     (\<forall>m \<in> set (matchIndex rf). m \<le> lastIndex rf))"

definition majorityIndex :: "'c Raft \<Rightarrow> int" where
  "majorityIndex rf = sort (matchIndex rf) ! nat ((peers rf + 1) div 2 - 1)"

lemma majorityIndex_iff:
  assumes "match_ok rf"
  shows "v \<le> majorityIndex rf \<longleftrightarrow> peers rf < 2 * int (reached (matchIndex rf) v)"
proof -
  have ne: "matchIndex rf \<noteq> []" and n: "peers rf = int (length (matchIndex rf))"
    using assms by (auto simp: match_ok_def)
  have "nat ((peers rf + 1) div 2 - 1) = (length (matchIndex rf) + 1) div 2 - 1"
    unfolding n by (simp add: nat_diff_distrib' nat_div_distrib nat_add_distrib)
  then have "v \<le> majorityIndex rf \<longleftrightarrow> length (matchIndex rf) < 2 * reached (matchIndex rf) v"
    unfolding majorityIndex_def using median_majority [OF ne] by simp
  also have "\<dots> \<longleftrightarrow> peers rf < 2 * int (reached (matchIndex rf) v)"
    unfolding n by linarith
  finally show ?thesis .
qed

lemma majorityIndex_in: "match_ok rf \<Longrightarrow> majorityIndex rf \<in> set (matchIndex rf)"
proof -
  assume m: "match_ok rf"
  then have "nat ((peers rf + 1) div 2 - 1) < length (sort (matchIndex rf))"
    by (auto simp: match_ok_def)
  then have "majorityIndex rf \<in> set (sort (matchIndex rf))"
    unfolding majorityIndex_def by (rule nth_mem)
  then show ?thesis by simp
qed

lemma leaderUpdateCommitIndex_ok:
  assumes ok: "log_ok rf" "match_ok rf"
    and commit: "snapshotIndex rf \<le> commitIndex rf" "commitIndex rf \<le> lastIndex rf"
  defines "m \<equiv> majorityIndex rf"
  shows "leaderUpdateCommitIndex rf =
    (if commitIndex rf < m \<and> Term (the (entry_at rf m)) = currentTerm rf
     then Inr (persist (rf\<lparr>commitIndex := m, lastApplied := m,
            applyGo := applyGo rf @ [committedMsgs rf (commitIndex rf) m]\<rparr>))
     else Inr (persist rf))"
proof -
  have m_le: "m \<le> lastIndex rf" using majorityIndex_in ok by (auto simp: m_def match_ok_def)
  have nth: "go_nth (sort (matchIndex rf)) ((peers rf + 1) div 2 - 1) = Inr m"
    using ok by (auto simp: match_ok_def m_def majorityIndex_def go_nth_def)
  show ?thesis
  proof (cases "commitIndex rf < m")
    case False
    then show ?thesis by (simp add: leaderUpdateCommitIndex_def nth)
  next
    case True
    let ?k = "m - snapshotIndex rf - 1"
    have find: "findIndex rf m = Inr ?k" using ok commit True m_le by (simp add: findIndex_ok)
    have e: "entry_at rf m = Some (log rf ! nat ?k)"
      using commit True m_le by (simp add: entry_at_def)
    have ne: "(log rf = [] \<and> snapshotIndex rf = -1) = False" "m \<noteq> -1"
      using True commit m_le ok by (auto simp: lastIndex_def log_ok_def)
    have elem: "go_nth (log rf) ?k = Inr (log rf ! nat ?k)"
      using True commit m_le by (simp add: go_nth_def lastIndex_def)
    let ?rf' = "rf\<lparr>commitIndex := m, lastApplied := m\<rparr>"
    have "sendCommittedLogChannel ?rf' (commitIndex rf) m =
        Inr (?rf'\<lparr>applyGo := applyGo ?rf' @ [committedMsgs ?rf' (commitIndex rf) m]\<rparr>)"
      using ok commit True m_le
      by (intro sendCommittedLogChannel_ok) (auto simp: log_ok_def lastIndex_def)
    moreover have "committedMsgs ?rf' (commitIndex rf) m = committedMsgs rf (commitIndex rf) m"
      by (simp add: committedMsgs_def)
    ultimately show ?thesis
      using True ne(2) unfolding leaderUpdateCommitIndex_def ne(1)
      by (simp add: nth find elem e Let_def)
  qed
qed

end
