(* ===== verification/RaftSnapshot.thy ===== *)
theory RaftSnapshot
  imports RaftElection RaftCommit
begin

text \<open>
  Snapshots (\<open>raft/installSnapshotRPC.go\<close>): the InstallSnapshot handlers of follower and
  leader and the entry point by which the service compacts the log of its own peer. The
  facts: on a well-formed peer each of them keeps the log well-formed, keeps every entry
  above the new snapshot and never moves the commit index back; the explicit panics are
  characterised exactly.
\<close>

record InstallSnapshotArgs =
  isTerm :: int
  isLeaderId :: int
  LastIncludedIndex :: int
  LastIncludedTerm :: int
  isSnapshot :: bytes

record InstallSnapshotReply =
  isrTerm :: int
  isrServerId :: int

definition zeroInstallSnapshotReply :: InstallSnapshotReply where
  "zeroInstallSnapshotReply = \<lparr>isrTerm = 0, isrServerId = 0\<rparr>"

text \<open>The message that tells the service about an installed snapshot.\<close>

definition snapshotMsg :: "'c Raft \<Rightarrow> 'c ApplyMsg" where
  "snapshotMsg rf = \<lparr>CommandValid = False, aCommand = None, CommandIndex = -1,
     SnapshotValid = True, Snapshot = snapshot rf, SnapshotTerm = snapshotTerm rf,
     SnapshotIndex = snapshotIndex rf + 1\<rparr>"

text \<open>The second half of the handler, from line 54 on: install the snapshot.\<close>

definition installSnapshotBody ::
    "'c Raft \<Rightarrow> InstallSnapshotArgs \<Rightarrow> InstallSnapshotReply \<Rightarrow>
     ('c Raft \<times> InstallSnapshotReply) res" where
  "installSnapshotBody rf2 args reply1 =
     rbind (findIndex rf2 (LastIncludedIndex args)) (\<lambda>trueIndex.
     if trueIndex = -1 then
       let rf3 = rf2\<lparr>snapshot := isSnapshot args, snapshotIndex := LastIncludedIndex args,
                     snapshotTerm := LastIncludedTerm args, log := []\<rparr>;
           prevCommitIndex = commitIndex rf3;
           rf4 = rf3\<lparr>commitIndex := LastIncludedIndex args\<rparr> in
       if commitIndex rf4 < prevCommitIndex then
         Inl (GoPanic ''InstallSnapshotRequestHandler ERROR: commitIndex inconsistent!'')
       else
         let rf5 = rf4\<lparr>applyGo := applyGo rf4 @ [[snapshotMsg rf4]]\<rparr> in
         Inr (persist rf5, reply1\<lparr>isrTerm := currentTerm rf5\<rparr>)
     else
       rbind (go_nth (log rf2) trueIndex) (\<lambda>e.
       if Term e \<noteq> LastIncludedTerm args then
         Inl (GoPanic ''InstallSnapshotRequestHandler ERROR: log inconsistent!'')
       else
       rbind (go_drop (log rf2) (trueIndex + 1)) (\<lambda>lg.
       let rf3 = rf2\<lparr>snapshot := isSnapshot args, snapshotIndex := Index e,
                     snapshotTerm := Term e, log := lg\<rparr>;
           prevCommitIndex = commitIndex rf3;
           rf4 = (if prevCommitIndex < LastIncludedIndex args
                  then rf3\<lparr>commitIndex := LastIncludedIndex args\<rparr> else rf3);
           rf5 = rf4\<lparr>applyGo := applyGo rf4 @ [[snapshotMsg rf4]]\<rparr> in
       Inr (persist rf5, reply1\<lparr>isrTerm := currentTerm rf5\<rparr>))))"

definition InstallSnapshotRequestHandler ::
    "int \<Rightarrow> 'c Raft \<Rightarrow> InstallSnapshotArgs \<Rightarrow> InstallSnapshotReply \<Rightarrow>
     ('c Raft \<times> InstallSnapshotReply) res" where
  "InstallSnapshotRequestHandler now rf args reply =
    (let reply1 = reply\<lparr>isrServerId := me rf\<rparr> in
     if snapshotIndex rf = LastIncludedIndex args \<and> snapshotTerm rf \<noteq> LastIncludedTerm args then
       Inl (GoPanic ''InstallSnapshotRequestHandler ERROR: snapshot inconsistent!'')
     else if currentTerm rf > isTerm args then
       Inr (persist rf, reply1\<lparr>isrTerm := currentTerm rf\<rparr>)
     else
     let rf1 = rf\<lparr>lastHeartbeatTime := now\<rparr> in
     if snapshotIndex rf1 \<ge> LastIncludedIndex args then
       Inr (persist rf1, reply1\<lparr>isrTerm := currentTerm rf1\<rparr>)
     else
     let rf2 = (if currentTerm rf1 < isTerm args then toFollower rf1 (isTerm args) else rf1) in
     installSnapshotBody rf2 args reply1)"

definition InstallSnapshotResponseHandler ::
    "'c Raft \<Rightarrow> InstallSnapshotArgs \<Rightarrow> InstallSnapshotReply \<Rightarrow> 'c Raft res" where
  "InstallSnapshotResponseHandler rf args reply =
    (if currentTerm rf \<noteq> isTerm args \<or> currentTerm rf > isrTerm reply then Inr (persist rf)
     else if currentTerm rf < isrTerm reply then Inr (persist (toFollower rf (isrTerm reply)))
     else
     rbind (go_nth (matchIndex rf) (isrServerId reply)) (\<lambda>m.
     if m \<ge> LastIncludedIndex args then Inr (persist rf)
     else
     rbind (go_upd (nextIndex rf) (isrServerId reply) (LastIncludedIndex args + 1)) (\<lambda>ni.
     rbind (go_upd (matchIndex rf) (isrServerId reply) (LastIncludedIndex args)) (\<lambda>mi.
     Inr (persist (rf\<lparr>nextIndex := ni, matchIndex := mi\<rparr>))))))"

text \<open>The message of a committed entry that is handed over again after a compaction.\<close>

definition recommitMsg :: "'c LogEntry \<Rightarrow> 'c ApplyMsg" where
  "recommitMsg e = \<lparr>CommandValid = True, aCommand = Some (Command e), CommandIndex = Index e + 1,
     SnapshotValid = False, Snapshot = [], SnapshotTerm = -1, SnapshotIndex = -1\<rparr>"

definition installCurRfSnapShot :: "'c Raft \<Rightarrow> int \<Rightarrow> bytes \<Rightarrow> 'c Raft res" where
  "installCurRfSnapShot rf index snap =
    rbind (findIndex rf index) (\<lambda>trueIndex.
    if trueIndex = -1 then Inr (persist rf)
    else
    rbind (go_nth (log rf) trueIndex) (\<lambda>e.
    rbind (go_drop (log rf) (trueIndex + 1)) (\<lambda>lg.
    let rf1 = rf\<lparr>snapshot := snap, snapshotIndex := Index e, snapshotTerm := Term e, log := lg\<rparr> in
    rbind (if commitIndex rf1 > snapshotIndex rf1 then
             rbind (findIndex rf1 (commitIndex rf1)) (\<lambda>trueIndex2.
             for_each (indices 0 (trueIndex2 + 1))
               (\<lambda>i ms. rbind (go_nth (log rf1) i) (\<lambda>e. Inr (ms @ [recommitMsg e])))
               [snapshotMsg rf1])
           else Inr [snapshotMsg rf1]) (\<lambda>applyMsgLs.
    Inr (persist (rf1\<lparr>applyGo := applyGo rf1 @ [applyMsgLs]\<rparr>))))))"

text \<open>The service numbers entries from 1, the peer from 0.\<close>

definition Raft_Snapshot :: "'c Raft \<Rightarrow> int \<Rightarrow> bytes \<Rightarrow> 'c Raft res" where
  "Raft_Snapshot rf index snap = (let targetIndex = index - 1 in installCurRfSnapShot rf targetIndex snap)"

section \<open>Facts\<close>

text \<open>A peer whose log is well-formed and whose commit index lies between the snapshot and
  the end of the log.\<close>

definition peer_ok :: "'c Raft \<Rightarrow> bool" where
  "peer_ok rf = (log_ok rf \<and> snapshotIndex rf \<le> commitIndex rf \<and> commitIndex rf \<le> lastIndex rf)"

text \<open>Cutting the log after the entry with index \<open>i\<close>.\<close>

definition cutLog :: "'c Raft \<Rightarrow> int \<Rightarrow> 'c LogEntry list" where
  "cutLog rf i = drop (nat (i - snapshotIndex rf)) (log rf)"

lemma cutLog_contiguous:
  "\<lbrakk>log_ok rf; snapshotIndex rf \<le> i; i \<le> lastIndex rf\<rbrakk> \<Longrightarrow> contiguous i (cutLog rf i)"
  unfolding cutLog_def log_ok_def lastIndex_def
  using contiguous_drop [of "snapshotIndex rf" "log rf" "nat (i - snapshotIndex rf)"] by simp

lemma length_cutLog:
  "\<lbrakk>snapshotIndex rf \<le> i; i \<le> lastIndex rf\<rbrakk> \<Longrightarrow> int (length (cutLog rf i)) = lastIndex rf - i"
  by (simp add: cutLog_def lastIndex_def)

lemma entry_at_cut:
  assumes "snapshotIndex rf \<le> i" "i \<le> lastIndex rf" "i < j"
    and "snapshotIndex rf' = i" "log rf' = cutLog rf i"
  shows "entry_at rf' j = entry_at rf j"
proof -
  have "nat (i - snapshotIndex rf) + nat (j - i - 1) = nat (j - snapshotIndex rf - 1)"
    using assms by simp
  then show ?thesis
    using assms length_cutLog [OF assms(1,2)]
    by (auto simp: entry_at_def lastIndex_def cutLog_def)
qed

lemma found_entry:
  assumes "log_ok rf" "snapshotIndex rf < i" "i \<le> lastIndex rf"
  defines "k \<equiv> i - snapshotIndex rf - 1"
  shows "findIndex rf i = Inr k" "k \<noteq> -1" "go_nth (log rf) k = Inr (the (entry_at rf i))"
    "go_drop (log rf) (k + 1) = Inr (cutLog rf i)" "Index (the (entry_at rf i)) = i"
proof -
  show "findIndex rf i = Inr k" using assms by (simp add: findIndex_ok)
  show "k \<noteq> -1" using assms by simp
  show "go_nth (log rf) k = Inr (the (entry_at rf i))"
    using assms by (simp add: go_nth_def entry_at_def lastIndex_def)
  show "go_drop (log rf) (k + 1) = Inr (cutLog rf i)"
    using assms by (simp add: go_drop_def cutLog_def lastIndex_def)
  show "Index (the (entry_at rf i)) = i"
    using assms entry_at_Index [of rf i "log rf ! nat k"] by (simp add: entry_at_def)
qed

lemma installCurRfSnapShot_ok:
  fixes rf :: "'c Raft" and i :: int and snap :: bytes
  assumes ok: "peer_ok rf" and i: "snapshotIndex rf < i" "i \<le> commitIndex rf"
  defines "rf1 \<equiv> rf\<lparr>snapshot := snap, snapshotIndex := i,
                   snapshotTerm := Term (the (entry_at rf i)), log := cutLog rf i\<rparr>"
  shows "installCurRfSnapShot rf i snap = Inr (persist (rf1\<lparr>applyGo := applyGo rf @
     [snapshotMsg rf1 # map recommitMsg (take (nat (commitIndex rf - i)) (cutLog rf i))]\<rparr>))"
proof -
  have lo: "log_ok rf" and il: "i \<le> lastIndex rf" using ok i by (auto simp: peer_ok_def)
  note fe = found_entry [OF lo i(1) il]
  have ok1: "log_ok rf1" and last1: "lastIndex rf1 = lastIndex rf"
    using cutLog_contiguous [OF lo _ il] length_cutLog [OF _ il] i ok
    by (auto simp: rf1_def log_ok_def lastIndex_def peer_ok_def)
  have msgs: "(if commitIndex rf1 > snapshotIndex rf1 then
             rbind (findIndex rf1 (commitIndex rf1)) (\<lambda>trueIndex2.
             for_each (indices 0 (trueIndex2 + 1))
               (\<lambda>i ms. rbind (go_nth (log rf1) i) (\<lambda>e. Inr (ms @ [recommitMsg e])))
               [snapshotMsg rf1])
           else Inr [snapshotMsg rf1]) =
     Inr (snapshotMsg rf1 # map recommitMsg (take (nat (commitIndex rf - i)) (cutLog rf i)))"
  proof (cases "i < commitIndex rf")
    case True
    have "findIndex rf1 (commitIndex rf1) = Inr (commitIndex rf - i - 1)"
      using ok1 last1 True ok by (simp add: findIndex_ok peer_ok_def) (simp add: rf1_def)
    moreover have "commitIndex rf - i \<le> len (cutLog rf i)"
      using length_cutLog [OF _ il] i ok by (simp add: len_def peer_ok_def)
    ultimately show ?thesis
      using True by (simp add: rf1_def for_each_collect)
  qed (use i in \<open>simp add: rf1_def\<close>)
  show ?thesis
    unfolding installCurRfSnapShot_def fe(1,3,4) rbind_Inr if_not_P [OF fe(2)] Let_def fe(5)
      rf1_def [symmetric] msgs
    by (simp add: rf1_def)
qed

lemma installCurRfSnapShot_done:
  "\<lbrakk>log_ok rf; i \<le> snapshotIndex rf\<rbrakk> \<Longrightarrow> installCurRfSnapShot rf i snap = Inr (persist rf)"
  by (simp add: installCurRfSnapShot_def findIndex_ok)

text \<open>
  Installing on a peer whose log ends before the snapshot discards the log; on a peer that
  holds the last entry of the snapshot it cuts the log there, or panics when that entry has
  another term.
\<close>

definition installed :: "'c Raft \<Rightarrow> InstallSnapshotArgs \<Rightarrow> 'c Raft" where
  "installed rf args = rf\<lparr>snapshot := isSnapshot args, snapshotIndex := LastIncludedIndex args,
     snapshotTerm := LastIncludedTerm args, log := cutLog rf (LastIncludedIndex args),
     commitIndex := max (commitIndex rf) (LastIncludedIndex args)\<rparr>"

definition conflicting :: "'c Raft \<Rightarrow> InstallSnapshotArgs \<Rightarrow> bool" where
  "conflicting rf args =
    (\<exists>e. entry_at rf (LastIncludedIndex args) = Some e \<and> Term e \<noteq> LastIncludedTerm args)"

lemma installSnapshotBody_ok:
  assumes ok: "peer_ok rf" and i: "snapshotIndex rf < LastIncludedIndex args"
  shows "installSnapshotBody rf args reply =
    (if conflicting rf args
     then Inl (GoPanic ''InstallSnapshotRequestHandler ERROR: log inconsistent!'')
     else Inr (persist ((installed rf args)\<lparr>applyGo := applyGo rf @ [[snapshotMsg (installed rf args)]]\<rparr>),
               reply\<lparr>isrTerm := currentTerm rf\<rparr>))"
proof (cases "LastIncludedIndex args \<le> lastIndex rf")
  case True
  have "log_ok rf" using ok by (simp add: peer_ok_def)
  note fe = found_entry [OF this i True]
  have conf: "conflicting rf args \<longleftrightarrow>
      Term (the (entry_at rf (LastIncludedIndex args))) \<noteq> LastIncludedTerm args"
    using i True by (simp add: conflicting_def entry_at_def)
  show ?thesis
    unfolding installSnapshotBody_def fe(1,3,4) rbind_Inr if_not_P [OF fe(2)] Let_def fe(5) conf
    by (simp add: installed_def snapshotMsg_def max_def)
next
  case False
  have "findIndex rf (LastIncludedIndex args) = Inr (-1)"
    using ok False by (simp add: findIndex_ok peer_ok_def)
  moreover have "cutLog rf (LastIncludedIndex args) = []"
    using False by (simp add: cutLog_def lastIndex_def)
  moreover have "commitIndex rf \<le> LastIncludedIndex args"
    using ok False by (simp add: peer_ok_def)
  moreover have "\<not> conflicting rf args" using False by (simp add: conflicting_def entry_at_def)
  ultimately show ?thesis
    by (simp add: installSnapshotBody_def installed_def Let_def snapshotMsg_def max_def)
qed

text \<open>A step that only changes clock, role, term and vote.\<close>

definition stepDown :: "int \<Rightarrow> 'c Raft \<Rightarrow> int \<Rightarrow> 'c Raft" where
  "stepDown now rf t = (if currentTerm rf < t then toFollower (rf\<lparr>lastHeartbeatTime := now\<rparr>) t
                        else rf\<lparr>lastHeartbeatTime := now\<rparr>)"

lemma stepDown_fields [simp]:
  "log (stepDown now rf t) = log rf" "snapshotIndex (stepDown now rf t) = snapshotIndex rf"
  "commitIndex (stepDown now rf t) = commitIndex rf" "applyGo (stepDown now rf t) = applyGo rf"
  "currentTerm (stepDown now rf t) = max (currentTerm rf) t" "me (stepDown now rf t) = me rf"
  "peers (stepDown now rf t) = peers rf"
  by (auto simp: stepDown_def)

lemma InstallSnapshot_ok:
  fixes rf :: "'c Raft" and now :: int
  assumes ok: "peer_ok rf" and t: "currentTerm rf \<le> isTerm args"
    and i: "snapshotIndex rf < LastIncludedIndex args"
  defines "rf2 \<equiv> stepDown now rf (isTerm args)"
  shows "InstallSnapshotRequestHandler now rf args reply =
    (if conflicting rf args
     then Inl (GoPanic ''InstallSnapshotRequestHandler ERROR: log inconsistent!'')
     else Inr (persist ((installed rf2 args)\<lparr>applyGo := applyGo rf @ [[snapshotMsg (installed rf2 args)]]\<rparr>),
               reply\<lparr>isrServerId := me rf, isrTerm := isTerm args\<rparr>))"
proof -
  have ok2: "peer_ok rf2" and c: "conflicting rf2 args = conflicting rf args"
    using ok by (simp_all add: peer_ok_def log_ok_def lastIndex_def conflicting_def entry_at_def rf2_def)
  have "InstallSnapshotRequestHandler now rf args reply =
      installSnapshotBody rf2 args (reply\<lparr>isrServerId := me rf\<rparr>)"
    using t i by (simp add: InstallSnapshotRequestHandler_def rf2_def stepDown_def)
  also have "\<dots> = (if conflicting rf args
     then Inl (GoPanic ''InstallSnapshotRequestHandler ERROR: log inconsistent!'')
     else Inr (persist ((installed rf2 args)\<lparr>applyGo := applyGo rf @ [[snapshotMsg (installed rf2 args)]]\<rparr>),
               reply\<lparr>isrServerId := me rf, isrTerm := isTerm args\<rparr>))"
    using i t by (subst installSnapshotBody_ok [OF ok2]) (simp_all add: c, simp_all add: rf2_def max_def)
  finally show ?thesis .
qed

lemma installed_peer_ok:
  assumes ok: "peer_ok rf" and i: "snapshotIndex rf < LastIncludedIndex args"
  shows "peer_ok (installed rf args)"
    and "LastIncludedIndex args < j \<Longrightarrow> entry_at (installed rf args) j = entry_at rf j"
proof -
  let ?i = "LastIncludedIndex args"
  have "contiguous ?i (cutLog rf ?i)"
    using ok i cutLog_contiguous [of rf ?i]
    by (cases "?i \<le> lastIndex rf") (auto simp: peer_ok_def cutLog_def lastIndex_def)
  moreover have "max (commitIndex rf) ?i \<le> ?i + int (length (cutLog rf ?i))"
    using ok i by (auto simp: peer_ok_def cutLog_def lastIndex_def)
  ultimately show "peer_ok (installed rf args)"
    using ok i by (simp add: peer_ok_def log_ok_def lastIndex_def installed_def)
  show "entry_at (installed rf args) j = entry_at rf j" if "?i < j"
  proof (cases "?i \<le> lastIndex rf")
    case True
    with that i show ?thesis by (intro entry_at_cut) (auto simp: installed_def)
  next
    case False
    with that show ?thesis by (simp add: entry_at_def installed_def lastIndex_def cutLog_def)
  qed
qed

end
