(* ===== verification/RaftReplication.thy ===== *)
theory RaftReplication
  imports RaftSnapshot
begin

text \<open>
  The AppendEntries exchange (\<open>raft/appendEntriesRPC.go\<close>): the follower's request handler,
  the leader's response handler, and how a leader chooses between AppendEntries and
  InstallSnapshot for each peer. The facts: the follower never touches entries it has
  committed and never moves its commit index back as long as the request agrees with its
  committed entries; what a leader sends is well-formed.
\<close>

section \<open>Handlers\<close>

definition AppendEntriesRequestHandler ::
    "int \<Rightarrow> 'c Raft \<Rightarrow> 'c AppendEntriesArgs \<Rightarrow> AppendEntriesReply \<Rightarrow>
     ('c Raft \<times> AppendEntriesReply) res" where
  "AppendEntriesRequestHandler now rf args reply =
    (if aeTerm args < currentTerm rf then
       Inr (persist rf, reply\<lparr>aerTerm := currentTerm rf, Success := False\<rparr>)
     else
     let rf1 = (toFollower rf (aeTerm args))\<lparr>lastHeartbeatTime := now\<rparr>;
         reply1 = reply\<lparr>aerTerm := aeTerm args, Success := True, ServerId := me rf1\<rparr> in
     rbind (followerHandleLog rf1 args reply1) (\<lambda>(rf2, reply2).
     if \<not> Success reply2 then Inr (persist rf2, reply2)
     else
     rbind (followerUpdateCommitIndex rf2 (LeaderCommit args)) (\<lambda>rf3.
     Inr (persist rf3, reply2))))"

definition AppendEntriesResponseHandler ::
    "'c Raft \<Rightarrow> 'c AppendEntriesArgs \<Rightarrow> AppendEntriesReply \<Rightarrow> 'c Raft res" where
  "AppendEntriesResponseHandler rf args reply =
    (if currentTerm rf > aerTerm reply \<or> currentTerm rf > aeTerm args then Inr (persist rf)
     else if currentTerm rf < aerTerm reply then Inr (persist (toFollower rf (aerTerm reply)))
     else rbind (leaderHandleLog rf args reply) (\<lambda>rf'. Inr (persist rf')))"

section \<open>What the leader sends\<close>

datatype 'c outgoing =
    SendAppendEntries "'c AppendEntriesArgs"
  | SendInstallSnapshot InstallSnapshotArgs

text \<open>
  \<open>leaderSendAppendEntriesRPC\<close> copies the peer's state under the read lock and starts one
  goroutine per other peer; \<open>prepareRPC\<close> is what the goroutine for \<open>curI\<close> sends. The
  deep copies of the log and of the snapshot are the values themselves.
\<close>

definition prepareRPC :: "'c Raft \<Rightarrow> int \<Rightarrow> 'c outgoing res" where
  "prepareRPC rf curI =
    rbind (go_nth (nextIndex rf) curI) (\<lambda>nx.
    let prevLogIndex = nx - 1 in
    if prevLogIndex < snapshotIndex rf then
      Inr (SendInstallSnapshot \<lparr>isTerm = currentTerm rf, isLeaderId = me rf,
             LastIncludedIndex = snapshotIndex rf, LastIncludedTerm = snapshotTerm rf,
             isSnapshot = snapshot rf\<rparr>)
    else
    rbind (if prevLogIndex = snapshotIndex rf then Inr (snapshotTerm rf, log rf)
           else
           rbind (for_break (indices 0 (len (log rf))) (len (log rf))
                    (\<lambda>i. rbind (go_nth (log rf) i) (\<lambda>e. Inr (Index e = prevLogIndex)))) (\<lambda>k.
           if \<not> k < len (log rf) then Inl (GoPanic ''should found prevLogIndex'')
           else
           let actualIndex = k + 1 in
           rbind (go_nth (log rf) (actualIndex - 1)) (\<lambda>e.
           rbind (go_drop (log rf) actualIndex) (\<lambda>entries.
           Inr (Term e, entries))))) (\<lambda>(prevLogTerm, entries).
    Inr (SendAppendEntries \<lparr>aeTerm = currentTerm rf, LeaderId = me rf,
           PrevLogIndex = prevLogIndex, PrevLogTerm = prevLogTerm,
           Entries = entries, LeaderCommit = commitIndex rf\<rparr>)))"

definition leaderSendAppendEntriesRPC :: "'c Raft \<Rightarrow> (int \<times> 'c outgoing) list res" where
  "leaderSendAppendEntriesRPC rf =
    for_each (filter (\<lambda>i. i \<noteq> me rf) (indices 0 (peers rf)))
      (\<lambda>curI out. rbind (prepareRPC rf curI) (\<lambda>m. Inr (out @ [(curI, m)]))) []"

section \<open>What the leader sends is well-formed\<close>

text \<open>The next indices of a leader: none beyond the entry after its last one.\<close>

definition next_ok :: "'c Raft \<Rightarrow> bool" where
  "next_ok rf = (length (nextIndex rf) = nat (peers rf) \<and>
     (\<forall>n \<in> set (nextIndex rf). n \<le> lastIndex rf + 1))"

text \<open>The term of the entry with index \<open>i\<close>, where the snapshot stands for its last entry.\<close>

definition term_at :: "'c Raft \<Rightarrow> int \<Rightarrow> int" where
  "term_at rf i = (if i = snapshotIndex rf then snapshotTerm rf else Term (the (entry_at rf i)))"

lemma prepareRPC_append:
  assumes ok: "log_ok rf" and n: "go_nth (nextIndex rf) i = Inr n"
    and b: "snapshotIndex rf < n" "n \<le> lastIndex rf + 1"
  shows "prepareRPC rf i = Inr (SendAppendEntries \<lparr>aeTerm = currentTerm rf, LeaderId = me rf,
     PrevLogIndex = n - 1, PrevLogTerm = term_at rf (n - 1),
     Entries = cutLog rf (n - 1), LeaderCommit = commitIndex rf\<rparr>)"
proof (cases "n - 1 = snapshotIndex rf")
  case True
  then show ?thesis using n by (simp add: prepareRPC_def Let_def term_at_def cutLog_def)
next
  case False
  let ?k = "n - 2 - snapshotIndex rf"
  have loop: "for_break (indices 0 (len (log rf))) (len (log rf))
       (\<lambda>i. rbind (go_nth (log rf) i) (\<lambda>e. Inr (Index e = n - 1))) = Inr ?k"
    using False ok b search_contiguous [of "snapshotIndex rf" "log rf" "len (log rf)" "n - 1"]
    by (simp add: log_ok_def lastIndex_def len_def)
  have "snapshotIndex rf < n - 1" "n - 1 \<le> lastIndex rf" using False b by auto
  note found_entry(3,4) [OF ok this]
  moreover have "?k < len (log rf)" using b by (simp add: lastIndex_def len_def)
  ultimately show ?thesis
    using False b n loop
    by (simp add: prepareRPC_def Let_def term_at_def algebra_simps)
qed

lemma prepareRPC_snapshot:
  "\<lbrakk>go_nth (nextIndex rf) i = Inr n; n \<le> snapshotIndex rf\<rbrakk> \<Longrightarrow>
   prepareRPC rf i = Inr (SendInstallSnapshot \<lparr>isTerm = currentTerm rf, isLeaderId = me rf,
     LastIncludedIndex = snapshotIndex rf, LastIncludedTerm = snapshotTerm rf,
     isSnapshot = snapshot rf\<rparr>)"
  by (simp add: prepareRPC_def Let_def)

lemma prepareRPC_ok:
  assumes ok: "peer_ok rf" "next_ok rf" and i: "0 \<le> i" "i < peers rf"
  obtains (append) args where "prepareRPC rf i = Inr (SendAppendEntries args)" "args_ok args"
      "aeTerm args = currentTerm rf"
      "PrevLogIndex args + len (Entries args) = lastIndex rf"
      "LeaderCommit args \<le> PrevLogIndex args + len (Entries args)"
      "Entries args = cutLog rf (PrevLogIndex args)"
      "PrevLogTerm args = term_at rf (PrevLogIndex args)"
  | (install) args where "prepareRPC rf i = Inr (SendInstallSnapshot args)"
      "LastIncludedIndex args = snapshotIndex rf" "isTerm args = currentTerm rf"
      "LastIncludedTerm args = snapshotTerm rf"
proof -
  let ?n = "nextIndex rf ! nat i"
  have nth: "go_nth (nextIndex rf) i = Inr ?n" and le: "?n \<le> lastIndex rf + 1"
    using ok i by (auto simp: next_ok_def go_nth_def)
  show thesis
  proof (cases "?n \<le> snapshotIndex rf")
    case True
    from prepareRPC_snapshot [OF nth this] show thesis by (rule install) auto
  next
    case False
    have lo: "log_ok rf" using ok by (simp add: peer_ok_def)
    have "args_ok \<lparr>aeTerm = currentTerm rf, LeaderId = me rf, PrevLogIndex = ?n - 1,
         PrevLogTerm = term_at rf (?n - 1), Entries = cutLog rf (?n - 1), LeaderCommit = commitIndex rf\<rparr>"
      using lo False le cutLog_contiguous [OF lo, of "?n - 1"] by (simp add: args_ok_def log_ok_def)
    moreover have "?n - 1 + len (cutLog rf (?n - 1)) = lastIndex rf"
      using False le length_cutLog [of rf "?n - 1"] by (simp add: len_def)
    ultimately show thesis
      using prepareRPC_append [OF lo nth] False le ok(1)
      by (intro append) (auto simp: peer_ok_def)
  qed
qed

section \<open>The follower keeps what it has committed\<close>

text \<open>
  \<open>agrees_committed\<close>: wherever the request mentions an index the follower has committed
  and still holds, it mentions the same entry. This is what the leader completeness and the
  log matching property of Raft give for the requests of a legitimate leader.
\<close>

definition agrees_committed :: "'c Raft \<Rightarrow> 'c AppendEntriesArgs \<Rightarrow> bool" where
  "agrees_committed rf args =
    ((snapshotIndex rf < PrevLogIndex args \<and> PrevLogIndex args \<le> commitIndex rf \<longrightarrow>
       Term (log rf ! prevPos rf args) = PrevLogTerm args) \<and>
     (\<forall>k < length (Entries args). snapshotIndex rf < PrevLogIndex args + 1 + int k \<and>
        PrevLogIndex args + 1 + int k \<le> commitIndex rf \<longrightarrow>
        log rf ! nat (PrevLogIndex args + int k - snapshotIndex rf) = Entries args ! k))"

lemma merge_log_keeps:
  assumes "\<And>k. k < n \<Longrightarrow> k < length new \<Longrightarrow> Term (old ! k) = Term (new ! k)" "n \<le> length old"
  shows "take n (merge_log old new) = take n old"
  using assms
proof (induction old new arbitrary: n rule: merge_log.induct)
  case (3 x old y new)
  show ?case
  proof (cases n)
    case (Suc m)
    have "Term x = Term y" using "3.prems"(1) [of 0] Suc by simp
    moreover have "take m (merge_log old new) = take m old"
      using "3.prems" Suc \<open>Term x = Term y\<close> by (intro "3.IH") force+
    ultimately show ?thesis using Suc by simp
  qed simp
qed auto

text \<open>The suffix an accepted request leaves behind, whatever the entries are.\<close>

definition mergeResult :: "'c LogEntry list \<Rightarrow> 'c LogEntry list \<Rightarrow> 'c LogEntry list \<Rightarrow> bool" where
  "mergeResult old new X =
    (X = merge_log old new \<or>
     X = new \<and> (length old \<le> length new \<or>
                (\<exists>k < length new. k < length old \<and> Term (old ! k) \<noteq> Term (new ! k))))"

lemma mergeResult_keeps:
  assumes "mergeResult old new X" "n \<le> length old"
    and "\<And>k. k < n \<Longrightarrow> k < length new \<Longrightarrow> old ! k = new ! k"
  shows "take n X = take n old"
proof (cases "X = merge_log old new")
  case True
  with assms show ?thesis by (auto intro!: merge_log_keeps)
next
  case False
  with assms(1) have X: "X = new" and
    d: "length old \<le> length new \<or>
        (\<exists>k < length new. k < length old \<and> Term (old ! k) \<noteq> Term (new ! k))"
    by (auto simp: mergeResult_def)
  have "n \<le> length new"
    using d
  proof
    assume "\<exists>k < length new. k < length old \<and> Term (old ! k) \<noteq> Term (new ! k)"
    then obtain k where "k < length new" "Term (old ! k) \<noteq> Term (new ! k)" by blast
    then have "\<not> k < n" using assms(3) by auto
    with \<open>k < length new\<close> show ?thesis by simp
  qed (use assms(2) in simp)
  then show ?thesis
    using assms(2,3) X by (intro nth_equalityI) auto
qed

lemma mergeResult_contiguous:
  "\<lbrakk>mergeResult old new X; contiguous b old; contiguous b new\<rbrakk> \<Longrightarrow> contiguous b X"
  by (auto simp: mergeResult_def intro: merge_log_contiguous)

lemma mergeResult_terms:
  assumes "mergeResult old new X" "k < length new"
  shows "k < length X" "Term (X ! k) = Term (new ! k)"
  using assms length_merge_log [of new old] merge_log_terms [of k new old] by (auto simp: mergeResult_def)

lemma followerHandleLog_accept_gen:
  assumes ok: "log_ok rf" "args_ok args" "prefix_fits rf args" and acc: "accepts rf args"
  shows "\<exists>X reply'. followerHandleLog rf args reply = Inr (rf\<lparr>log := keptLog rf args @ X\<rparr>, reply')
    \<and> Success reply' \<and> aerTerm reply' = aerTerm reply \<and> ServerId reply' = ServerId reply
    \<and> mergeResult (oldSuffix rf args) (newSuffix rf args) X"
proof (cases "PrevLogIndex args \<le> snapshotIndex rf \<and> PrevLogIndex args \<noteq> -1")
  case True
  let ?new = "newSuffix rf args"
  have new: "?new = drop (nat (snapshotIndex rf - PrevLogIndex args)) (Entries args)"
    and old: "oldSuffix rf args = log rf" "keptLog rf args = []"
    using True by (simp_all add: newSuffix_def oldSuffix_def keptLog_def)
  define X where "X = (if ?new = [] then log rf
       else if length (log rf) \<le> length ?new \<or> (\<exists>k < length ?new. Term (log rf ! k) \<noteq> Term (?new ! k))
       then ?new else log rf)"
  have "mergeResult (log rf) ?new X"
  proof (cases "length (log rf) \<le> length ?new")
    case True
    then show ?thesis by (auto simp: mergeResult_def X_def)
  next
    case longer: False
    then have "merge_log (log rf) ?new = log rf"
      if "\<forall>k < length ?new. Term (log rf ! k) = Term (?new ! k)"
      using that by (intro merge_log_agree) auto
    with longer show ?thesis
      by (auto simp: mergeResult_def X_def)
  qed
  moreover have "followerHandleLog rf args reply =
      Inr (rf\<lparr>log := X\<rparr>, reply\<lparr>XTerm := -1, XIndex := -1, XLen := len X, Success := True\<rparr>)"
    using followerHandleLog_snapshot [OF ok(1,2), of reply] True
    unfolding new [symmetric] Let_def X_def by blast
  ultimately show ?thesis by (auto simp: old)
next
  case False
  define k where "k = (if PrevLogIndex args = -1 then 0 else Suc (prevPos rf args))"
  have prev: "PrevLogIndex args \<le> lastIndex rf"
    using acc snapshot_le_lastIndex [of rf] by (auto simp: accepts_def)
  have match: "PrevLogIndex args = -1 \<or>
      snapshotIndex rf < PrevLogIndex args \<and> Term (log rf ! prevPos rf args) = PrevLogTerm args"
    using False acc by (auto simp: accepts_def)
  have k: "k = nat (PrevLogIndex args - snapshotIndex rf)"
    using match ok(3) by (auto simp: k_def not_snapshot_pos prefix_fits_def)
  have new: "newSuffix rf args = Entries args"
    using match ok(3) by (auto simp: newSuffix_def prefix_fits_def)
  have old: "oldSuffix rf args = drop k (log rf)" "keptLog rf args = take k (log rf)"
    by (simp_all add: oldSuffix_def keptLog_def k)
  show ?thesis
    unfolding new old using followerHandleLog_match [OF ok(1) prev match, of reply]
    unfolding k_def [symmetric] by (auto simp: mergeResult_def)
qed

lemma suffix_contiguous:
  assumes "log_ok rf" "args_ok args" "PrevLogIndex args \<le> lastIndex rf"
  defines "b \<equiv> max (snapshotIndex rf) (PrevLogIndex args)"
  shows "contiguous (snapshotIndex rf) (keptLog rf args)" "contiguous b (oldSuffix rf args)"
    "contiguous b (newSuffix rf args)" "snapshotIndex rf + int (length (keptLog rf args)) = b"
    "int (length (oldSuffix rf args)) = lastIndex rf - b"
proof -
  let ?s = "snapshotIndex rf" and ?p = "PrevLogIndex args"
  have l: "contiguous ?s (log rf)" and e: "contiguous ?p (Entries args)"
    using assms by (auto simp: log_ok_def args_ok_def)
  have "nat (?p - ?s) \<le> length (log rf)" using assms(3) by (simp add: lastIndex_def)
  with l show "contiguous ?s (keptLog rf args)" "contiguous b (oldSuffix rf args)"
    using contiguous_take [OF l] contiguous_drop [OF l, of "nat (?p - ?s)"]
    by (auto simp: keptLog_def oldSuffix_def b_def max_def)
  show "contiguous b (newSuffix rf args)"
    using e contiguous_drop [OF e, of "nat (?s - ?p)"]
    by (cases "nat (?s - ?p) \<le> length (Entries args)") (auto simp: newSuffix_def b_def max_def)
  show "?s + int (length (keptLog rf args)) = b"
    using assms(3) by (auto simp: keptLog_def b_def lastIndex_def)
  show "int (length (oldSuffix rf args)) = lastIndex rf - b"
    using assms(3) by (auto simp: oldSuffix_def b_def lastIndex_def)
qed

text \<open>The number of committed entries the log still holds.\<close>

definition ncommitted :: "'c Raft \<Rightarrow> nat" where
  "ncommitted rf = nat (commitIndex rf - snapshotIndex rf)"

lemma ncommitted_le: "peer_ok rf \<Longrightarrow> ncommitted rf \<le> length (log rf)"
  by (auto simp: ncommitted_def peer_ok_def lastIndex_def)

lemma agrees_committed_suffix:
  assumes ok: "peer_ok rf" and prev: "PrevLogIndex args \<le> lastIndex rf"
    and ag: "agrees_committed rf args"
    and k: "k < ncommitted rf - length (keptLog rf args)" "k < length (newSuffix rf args)"
  shows "oldSuffix rf args ! k = newSuffix rf args ! k"
proof -
  let ?s = "snapshotIndex rf" and ?p = "PrevLogIndex args"
  let ?k' = "nat (?s - ?p) + k"
  have klog: "nat (?p - ?s) + k < length (log rf)"
    using k(1) ok prev by (auto simp: ncommitted_def keptLog_def peer_ok_def lastIndex_def)
  have "?k' < length (Entries args)" using k(2) by (simp add: newSuffix_def)
  moreover have "?s < ?p + 1 + int ?k'" by simp
  moreover have "?p + 1 + int ?k' \<le> commitIndex rf"
    using k(1) prev by (auto simp: ncommitted_def keptLog_def lastIndex_def)
  ultimately have "log rf ! nat (?p + int ?k' - ?s) = Entries args ! ?k'"
    using ag unfolding agrees_committed_def by blast
  moreover have "nat (?p + int ?k' - ?s) = nat (?p - ?s) + k" by linarith
  ultimately show ?thesis
    using klog k(2) by (simp add: oldSuffix_def newSuffix_def)
qed

text \<open>After an accepted request the log holds an entry of the right term at the previous index
  and at the index of every entry of the request that the snapshot does not cover.\<close>

definition stores :: "'c Raft \<Rightarrow> 'c AppendEntriesArgs \<Rightarrow> bool" where
  "stores rf args =
    ((\<forall>k < length (Entries args). snapshotIndex rf < PrevLogIndex args + 1 + int k \<longrightarrow>
       (\<exists>e. entry_at rf (PrevLogIndex args + 1 + int k) = Some e \<and> Term e = Term (Entries args ! k))) \<and>
     (snapshotIndex rf < PrevLogIndex args \<longrightarrow>
       (\<exists>e. entry_at rf (PrevLogIndex args) = Some e \<and> Term e = PrevLogTerm args)))"

lemma merged_stores:
  assumes acc: "accepts rf args"
    and X: "mergeResult (oldSuffix rf args) (newSuffix rf args) X"
    and rf': "log rf' = keptLog rf args @ X" "snapshotIndex rf' = snapshotIndex rf"
  shows "stores rf' args"
  unfolding stores_def
proof (intro conjI allI impI)
  have prev: "PrevLogIndex args \<le> lastIndex rf"
    using acc snapshot_le_lastIndex [of rf] by (auto simp: accepts_def)
  show "\<exists>e. entry_at rf' (PrevLogIndex args) = Some e \<and> Term e = PrevLogTerm args"
    if s: "snapshotIndex rf' < PrevLogIndex args"
  proof -
    have k: "prevPos rf args < length (keptLog rf args)"
      using s prev rf'(2) by (auto simp: prevPos_def keptLog_def lastIndex_def)
    then have "entry_at rf' (PrevLogIndex args) = Some (log rf' ! prevPos rf args)"
      using s rf' by (auto simp: entry_at_def lastIndex_def prevPos_def nat_less_iff)
    moreover have "log rf' ! prevPos rf args = log rf ! prevPos rf args"
      using k unfolding rf'(1) by (simp add: nth_append) (simp add: keptLog_def)
    ultimately show ?thesis using acc s rf'(2) by (auto simp: accepts_def)
  qed
  fix k assume k: "k < length (Entries args)" and i: "snapshotIndex rf' < PrevLogIndex args + 1 + int k"
  let ?s = "snapshotIndex rf" and ?p = "PrevLogIndex args"
  let ?k = "k - nat (?s - ?p)"
  have k': "?k < length (newSuffix rf args)" "newSuffix rf args ! ?k = Entries args ! k"
    using k i rf' by (auto simp: newSuffix_def)
  note t = mergeResult_terms [OF X k'(1)]
  have pos: "nat (?p + 1 + int k - ?s - 1) = length (keptLog rf args) + ?k"
    using prev i rf' by (auto simp: keptLog_def lastIndex_def)
  then have "?p + 1 + int k \<le> lastIndex rf'" using t(1) i rf' by (simp add: lastIndex_def)
  then have "entry_at rf' (?p + 1 + int k) = Some (log rf' ! nat (?p + 1 + int k - ?s - 1))"
    using i rf'(2) by (simp add: entry_at_def)
  then have "entry_at rf' (?p + 1 + int k) = Some (X ! ?k)"
    unfolding pos rf'(1) by (simp only: nth_append_length_plus)
  with t k' show "\<exists>e. entry_at rf' (?p + 1 + int k) = Some e \<and> Term e = Term (Entries args ! k)" by simp
qed

lemma stores_cong:
  "\<lbrakk>log rf' = log rf; snapshotIndex rf' = snapshotIndex rf\<rbrakk> \<Longrightarrow> stores rf' args = stores rf args"
  by (simp add: stores_def entry_at_def lastIndex_def)

lemma followerHandleLog_keeps:
  assumes ok: "peer_ok rf" "args_ok args" "prefix_fits rf args" and ag: "agrees_committed rf args"
  obtains lg reply' where "followerHandleLog rf args reply = Inr (rf\<lparr>log := lg\<rparr>, reply')"
    "Success reply' = accepts rf args" "aerTerm reply' = aerTerm reply" "ServerId reply' = ServerId reply"
    "contiguous (snapshotIndex rf) lg" "take (ncommitted rf) lg = take (ncommitted rf) (log rf)"
    "ncommitted rf \<le> length lg" "accepts rf args \<Longrightarrow> stores (rf\<lparr>log := lg\<rparr>) args"
proof (cases "accepts rf args")
  case True
  have lo: "log_ok rf" using ok by (simp add: peer_ok_def)
  have prev: "PrevLogIndex args \<le> lastIndex rf"
    using True snapshot_le_lastIndex [of rf] by (auto simp: accepts_def)
  obtain X reply' where r: "followerHandleLog rf args reply = Inr (rf\<lparr>log := keptLog rf args @ X\<rparr>, reply')"
    "Success reply'" "aerTerm reply' = aerTerm reply" "ServerId reply' = ServerId reply"
    "mergeResult (oldSuffix rf args) (newSuffix rf args) X"
    using followerHandleLog_accept_gen [OF lo ok(2,3) True] by blast
  let ?j = "length (keptLog rf args)" and ?n = "ncommitted rf"
  note sc = suffix_contiguous [OF lo ok(2) prev]
  have split: "log rf = keptLog rf args @ oldSuffix rf args"
    by (simp add: keptLog_def oldSuffix_def)
  have nl: "?n \<le> length (log rf)" using ok(1) by (rule ncommitted_le)
  then have nj: "?n - ?j \<le> length (oldSuffix rf args)" by (subst (asm) split) simp
  have keep: "take (?n - ?j) X = take (?n - ?j) (oldSuffix rf args)"
    using mergeResult_keeps [OF r(5) nj] agrees_committed_suffix [OF ok(1) prev ag] by blast
  then have take_eq: "take ?n (keptLog rf args @ X) = take ?n (log rf)"
    by (subst split) simp
  have "contiguous (snapshotIndex rf) (keptLog rf args @ X)"
    using sc mergeResult_contiguous [OF r(5) sc(2,3)] by (simp add: contiguous_append)
  moreover have "?n \<le> length (keptLog rf args @ X)"
    using arg_cong [OF take_eq, of length] nl by (simp add: min_def split: if_splits)
  moreover have "stores (rf\<lparr>log := keptLog rf args @ X\<rparr>) args"
    using merged_stores [OF True r(5)] by simp
  ultimately show thesis using that [OF r(1)] r(2-4) True take_eq by simp
next
  case False
  have lo: "log_ok rf" using ok by (simp add: peer_ok_def)
  obtain reply' where r: "followerHandleLog rf args reply =
      Inr (rf\<lparr>log := take (prevPos rf args) (log rf)\<rparr>, reply')" "\<not> Success reply'"
      "aerTerm reply' = aerTerm reply" "ServerId reply' = ServerId reply"
    using followerHandleLog_reject [OF lo ok(2) False] by blast
  have "ncommitted rf \<le> prevPos rf args"
    using False ag ok(1)
    by (auto simp: accepts_def agrees_committed_def ncommitted_def prevPos_def peer_ok_def)
  moreover have "ncommitted rf \<le> length (log rf)"
    using ok(1) by (rule ncommitted_le)
  ultimately show thesis
    using that [OF r(1)] r False lo by (simp add: contiguous_take log_ok_def min_def)
qed

lemma entry_at_committed:
  assumes "take (ncommitted rf) lg = take (ncommitted rf) (log rf)" "ncommitted rf \<le> length lg"
    and "peer_ok rf" "i \<le> commitIndex rf" "log rf' = lg" "snapshotIndex rf' = snapshotIndex rf"
  shows "entry_at rf' i = entry_at rf i"
proof (cases "snapshotIndex rf < i")
  case True
  have "nat (i - snapshotIndex rf - 1) < ncommitted rf" using True assms by (simp add: ncommitted_def)
  then have "lg ! nat (i - snapshotIndex rf - 1) = log rf ! nat (i - snapshotIndex rf - 1)"
    using assms(1) by (metis nth_take)
  moreover have "i \<le> snapshotIndex rf + int (length lg)"
    using assms True by (auto simp: ncommitted_def)
  ultimately show ?thesis using assms True by (simp add: entry_at_def lastIndex_def peer_ok_def)
qed (use assms in \<open>simp add: entry_at_def\<close>)

text \<open>The whole request handler: what it keeps and what it promises.\<close>

definition ae_post :: "'c Raft \<Rightarrow> 'c AppendEntriesArgs \<Rightarrow> 'c Raft \<Rightarrow> bool" where
  "ae_post rf args rf' =
    (peer_ok rf' \<and> persisted rf' \<and> currentTerm rf' = max (currentTerm rf) (aeTerm args)
     \<and> snapshotIndex rf' = snapshotIndex rf \<and> snapshotTerm rf' = snapshotTerm rf
     \<and> me rf' = me rf \<and> peers rf' = peers rf
     \<and> commitIndex rf \<le> commitIndex rf'
     \<and> (\<forall>i \<le> commitIndex rf. entry_at rf' i = entry_at rf i)
     \<and> (applyGo rf' = applyGo rf \<and> commitIndex rf' = commitIndex rf \<or>
        applyGo rf' = applyGo rf @ [committedMsgs rf' (commitIndex rf) (commitIndex rf')]))"

lemma followerUpdate_post:
  assumes "peer_ok rf"
  shows "\<exists>rf'. followerUpdateCommitIndex rf lc = Inr rf' \<and> peer_ok rf' \<and> log rf' = log rf
    \<and> commitIndex rf \<le> commitIndex rf' \<and> snapshotIndex rf' = snapshotIndex rf
    \<and> snapshotTerm rf' = snapshotTerm rf \<and> currentTerm rf' = currentTerm rf
    \<and> me rf' = me rf \<and> peers rf' = peers rf
    \<and> (applyGo rf' = applyGo rf \<and> commitIndex rf' = commitIndex rf \<or>
       applyGo rf' = applyGo rf @ [committedMsgs rf' (commitIndex rf) (commitIndex rf')])"
proof (cases "lc \<le> commitIndex rf")
  case True
  then show ?thesis using assms by (simp add: followerUpdateCommitIndex_stale)
next
  case False
  then show ?thesis
    using assms followerUpdateCommitIndex_ok [of rf lc]
    by (auto simp: peer_ok_def log_ok_def lastIndex_def committedMsgs_def)
qed

lemma entry_at_cong:
  "\<lbrakk>log rf' = log rf; snapshotIndex rf' = snapshotIndex rf\<rbrakk> \<Longrightarrow> entry_at rf' i = entry_at rf i"
  by (simp add: entry_at_def lastIndex_def)

lemma AppendEntries_post:
  assumes ok: "peer_ok rf" "args_ok args" "prefix_fits rf args" and ag: "agrees_committed rf args"
  shows "\<exists>rf' reply'. AppendEntriesRequestHandler now rf args reply = Inr (rf', reply')
    \<and> ae_post rf args rf' \<and> Success reply' = (currentTerm rf \<le> aeTerm args \<and> accepts rf args)
    \<and> (currentTerm rf \<le> aeTerm args \<longrightarrow> aerTerm reply' = aeTerm args \<and> ServerId reply' = me rf)
    \<and> (Success reply' \<longrightarrow> stores rf' args)"
proof (cases "aeTerm args < currentTerm rf")
  case True
  with ok show ?thesis
    by (auto simp: AppendEntriesRequestHandler_def ae_post_def peer_ok_def
        intro: entry_at_cong)
next
  case False
  let ?rf1 = "(toFollower rf (aeTerm args))\<lparr>lastHeartbeatTime := now\<rparr>"
  let ?r1 = "reply\<lparr>aerTerm := aeTerm args, Success := True, ServerId := me ?rf1\<rparr>"
  have ok1: "peer_ok ?rf1" "prefix_fits ?rf1 args" "agrees_committed ?rf1 args"
    and same: "accepts ?rf1 args = accepts rf args" "ncommitted ?rf1 = ncommitted rf"
    using ok ag
    by (simp_all add: peer_ok_def log_ok_def lastIndex_def prefix_fits_def agrees_committed_def
        prevPos_def accepts_def ncommitted_def)
  obtain lg reply' where h: "followerHandleLog ?rf1 args ?r1 = Inr (?rf1\<lparr>log := lg\<rparr>, reply')"
    "Success reply' = accepts rf args" "contiguous (snapshotIndex rf) lg"
    "take (ncommitted rf) lg = take (ncommitted rf) (log rf)" "ncommitted rf \<le> length lg"
    "aerTerm reply' = aeTerm args" "ServerId reply' = me rf"
    "accepts rf args \<Longrightarrow> stores (?rf1\<lparr>log := lg\<rparr>) args"
    by (rule followerHandleLog_keeps [OF ok1(1) ok(2) ok1(2,3), of ?r1]) (auto simp: same)
  let ?rf2 = "?rf1\<lparr>log := lg\<rparr>"
  have ok2: "peer_ok ?rf2"
    using ok(1) h by (auto simp: peer_ok_def log_ok_def lastIndex_def ncommitted_def)
  have ent: "entry_at rf' i = entry_at rf i"
    if "i \<le> commitIndex rf" "log rf' = lg" "snapshotIndex rf' = snapshotIndex rf" for rf' i
    using entry_at_committed [OF h(4,5) ok(1)] that by blast
  show ?thesis
  proof (cases "accepts rf args")
    case True
    obtain rf' where u: "followerUpdateCommitIndex ?rf2 (LeaderCommit args) = Inr rf'" "peer_ok rf'"
      "log rf' = lg" "commitIndex rf \<le> commitIndex rf'" "snapshotIndex rf' = snapshotIndex rf"
      "snapshotTerm rf' = snapshotTerm rf" "currentTerm rf' = max (currentTerm rf) (aeTerm args)"
      "me rf' = me rf" "peers rf' = peers rf"
      "applyGo rf' = applyGo rf \<and> commitIndex rf' = commitIndex rf \<or>
       applyGo rf' = applyGo rf @ [committedMsgs rf' (commitIndex rf) (commitIndex rf')]"
      using followerUpdate_post [OF ok2, of "LeaderCommit args"] by auto
    have "AppendEntriesRequestHandler now rf args reply = Inr (persist rf', reply')"
      using False h(1,2) u(1) True by (simp add: AppendEntriesRequestHandler_def Let_def)
    moreover have "ae_post rf args (persist rf')"
      using u ent [of _ "persist rf'"]
      by (simp add: ae_post_def peer_ok_def committedMsgs_def)
    moreover have "stores (persist rf') args"
      using h(8) [OF True] u(3,5) stores_cong [of "persist rf'" "?rf1\<lparr>log := lg\<rparr>" args] by simp
    ultimately show ?thesis using h(2,6,7) False True by auto
  next
    case rej: False
    have "AppendEntriesRequestHandler now rf args reply = Inr (persist ?rf2, reply')"
      using False h(1,2) rej by (simp add: AppendEntriesRequestHandler_def Let_def)
    moreover have "ae_post rf args (persist ?rf2)"
      using ok2 ent [of _ "persist ?rf2"] by (simp add: ae_post_def peer_ok_def)
    ultimately show ?thesis using h(2,6,7) False rej by auto
  qed
qed

end
