(* ===== verification/RaftPeer.thy ===== *)
theory RaftPeer
  imports RaftReplication
begin

text \<open>
  The interface of a peer to its service (\<open>raft/raft.go\<close>): \<open>Start\<close> appends a command to a
  leader's log, \<open>Make\<close> creates a peer from its stable storage. The facts: \<open>Start\<close> keeps a
  leader's bookkeeping consistent, restarting gives back what was persisted, and every
  request handler has persisted its result before the reply leaves.
\<close>

section \<open>Start\<close>

text \<open>
  The critical section of \<open>Start\<close>; a leader goes on to call \<open>leaderSendAppendEntriesRPC\<close>
  after releasing the lock.
\<close>

definition Start :: "'c Raft \<Rightarrow> 'c \<Rightarrow> ('c Raft \<times> int \<times> int \<times> bool) res" where
  "Start rf command =
    (let isLeader = (role rf = 2) in
     if isLeader then
       let index = (if log rf \<noteq> [] then Index (last (log rf)) + 1 else snapshotIndex rf + 1);
           rf1 = rf\<lparr>log := log rf @ [\<lparr>Term = currentTerm rf, Index = index, Command = command\<rparr>]\<rparr>;
           term = currentTerm rf1 in
       rbind (go_upd (matchIndex rf1) (me rf1) index) (\<lambda>mi.
       rbind (go_upd (nextIndex rf1) (me rf1) (index + 1)) (\<lambda>ni.
       Inr (persist (rf1\<lparr>matchIndex := mi, nextIndex := ni\<rparr>), index + 1, term, isLeader)))
     else Inr (rf, -1, 0, isLeader))"

section \<open>Make\<close>

text \<open>
  \<open>putApplyChBuffer\<close> waits while the buffer is not empty. Inside \<open>Make\<close> nothing drains the
  buffer yet, so a call that has to wait never returns: \<open>None\<close>.
\<close>

definition putInMake :: "'c Raft \<Rightarrow> 'c ApplyMsg list \<Rightarrow> 'c Raft option" where
  "putInMake rf msg =
    (if applyChBuffer rf \<noteq> [] then None
     else Some (rf\<lparr>applyChBuffer := applyChBuffer rf @ msg\<rparr>))"

text \<open>The loop that hands over the committed entries again, with its early \<open>break\<close>.\<close>

fun replayLog :: "'c LogEntry list \<Rightarrow> 'c Raft \<Rightarrow> 'c Raft option" where
  "replayLog [] rf = Some rf"
| "replayLog (e # es) rf =
     (if Index e > commitIndex rf then Some rf
      else Option.bind (putInMake rf [commandMsg e]) (replayLog es))"

definition newRaft :: "int \<Rightarrow> int \<Rightarrow> 'c Persister \<Rightarrow> int \<Rightarrow> int \<Rightarrow> 'c Raft" where
  "newRaft npeers self ps now rnd =
    \<lparr>peers = npeers, persister = ps, me = self, dead = 0, currentTerm = 0, votedFor = -1, log = [],
     commitIndex = -1, lastApplied = -1, nextIndex = [], matchIndex = [], role = 0,
     lastHeartbeatTime = now, electionTimeout = 200 + rnd, voteCnt = 0, curLeader = 0,
     applyChBuffer = [], applyGo = [], snapshot = [], snapshotIndex = -1, snapshotTerm = 0\<rparr>"

definition Make :: "int \<Rightarrow> int \<Rightarrow> 'c Persister \<Rightarrow> int \<Rightarrow> int \<Rightarrow> 'c Raft option" where
  "Make npeers self ps now rnd =
    (let rf0 = newRaft npeers self ps now rnd;
         rf1 = readPersist rf0 (ReadRaftState ps);
         rf2 = readPersistSnapshot rf1 (ReadSnapshot ps);
         rf3 = rf2\<lparr>commitIndex := snapshotIndex rf2\<rparr>;
         rf4 = rf3\<lparr>lastApplied := commitIndex rf3\<rparr> in
     Option.bind (if snapshotIndex rf4 \<noteq> -1 then putInMake rf4 [snapshotMsg rf4] else Some rf4)
       (\<lambda>rf5. replayLog (log rf5) rf5))"

section \<open>Facts about Start\<close>

text \<open>The bookkeeping of a leader.\<close>

definition leader_ok :: "'c Raft \<Rightarrow> bool" where
  "leader_ok rf = (peer_ok rf \<and> next_ok rf \<and> match_ok rf \<and> 0 \<le> me rf \<and> me rf < peers rf)"

lemma Start_index:
  "log_ok rf \<Longrightarrow> (if log rf \<noteq> [] then Index (last (log rf)) + 1 else snapshotIndex rf + 1) = lastIndex rf + 1"
  by (auto simp: log_ok_def lastIndex_def contiguous_last)

lemma Start_leader:
  fixes rf :: "'c Raft" and c :: 'c
  assumes ok: "leader_ok rf" and r: "role rf = 2"
  defines "e \<equiv> \<lparr>Term = currentTerm rf, Index = lastIndex rf + 1, Command = c\<rparr>"
  shows "Start rf c = Inr (persist (rf\<lparr>log := log rf @ [e],
      matchIndex := (matchIndex rf)[nat (me rf) := lastIndex rf + 1],
      nextIndex := (nextIndex rf)[nat (me rf) := lastIndex rf + 2]\<rparr>),
      lastIndex rf + 2, currentTerm rf, True)"
proof -
  have lo: "log_ok rf" using ok by (simp add: leader_ok_def peer_ok_def)
  have "go_upd (matchIndex rf) (me rf) v = Inr ((matchIndex rf)[nat (me rf) := v])"
    "go_upd (nextIndex rf) (me rf) v = Inr ((nextIndex rf)[nat (me rf) := v])" for v
    using ok by (auto simp: leader_ok_def match_ok_def next_ok_def go_upd_def)
  then show ?thesis
    unfolding Start_def Start_index [OF lo] using r by (simp add: e_def Let_def algebra_simps)
qed

lemma leader_ok_Start:
  assumes ok: "leader_ok rf" and r: "role rf = 2" and s: "Start rf c = Inr (rf', idx, t, l)"
  shows "leader_ok rf'" "lastIndex rf' = lastIndex rf + 1" "role rf' = 2" "persisted rf'"
    "entry_at rf' (lastIndex rf') = Some \<lparr>Term = currentTerm rf, Index = lastIndex rf', Command = c\<rparr>"
    "i \<le> lastIndex rf \<Longrightarrow> entry_at rf' i = entry_at rf i" "idx = lastIndex rf' + 1" "l" "t = currentTerm rf"
proof -
  let ?e = "\<lparr>Term = currentTerm rf, Index = lastIndex rf + 1, Command = c\<rparr>"
  have rf': "rf' = persist (rf\<lparr>log := log rf @ [?e],
      matchIndex := (matchIndex rf)[nat (me rf) := lastIndex rf + 1],
      nextIndex := (nextIndex rf)[nat (me rf) := lastIndex rf + 2]\<rparr>)"
    and ret: "idx = lastIndex rf + 2" "t = currentTerm rf" "l"
    using s Start_leader [OF ok r, of c] by auto
  show last: "lastIndex rf' = lastIndex rf + 1" by (simp add: rf' lastIndex_def)
  have "log_ok rf'"
    using ok by (auto simp: rf' leader_ok_def peer_ok_def log_ok_def contiguous_append lastIndex_def)
  then have "peer_ok rf'"
    using ok last by (auto simp: peer_ok_def leader_ok_def) (simp_all add: rf')
  moreover have "match_ok rf'" "next_ok rf'"
    using ok unfolding match_ok_def next_ok_def last leader_ok_def
    by (auto simp: rf' dest!: set_update_subset_insert [THEN subsetD])
  ultimately show "leader_ok rf'"
    using ok by (simp add: leader_ok_def) (simp add: rf')
  show "entry_at rf' (lastIndex rf') = Some \<lparr>Term = currentTerm rf, Index = lastIndex rf', Command = c\<rparr>"
    by (simp add: entry_at_def last) (simp add: rf' lastIndex_def nth_append)
  show "entry_at rf' i = entry_at rf i" if "i \<le> lastIndex rf"
    using that by (simp add: entry_at_def last) (auto simp: rf' lastIndex_def nth_append)
  show "role rf' = 2" "persisted rf'" using r by (simp_all add: rf')
  show "idx = lastIndex rf' + 1" "l" "t = currentTerm rf" using ret last by auto
qed

section \<open>Facts about Make\<close>

text \<open>A peer that restarts: the persistent fields, everything else reset.\<close>

lemma replayLog_none:
  "contiguous b es \<Longrightarrow> commitIndex rf \<le> b \<Longrightarrow> replayLog es rf = Some rf"
  by (cases es) auto

lemma Make_persisted:
  assumes p: "persisted rf" and ok: "log_ok rf"
  shows "\<exists>rf'. Make n i (persister rf) now rnd = Some rf'
    \<and> currentTerm rf' = currentTerm rf \<and> votedFor rf' = votedFor rf \<and> log rf' = log rf
    \<and> snapshotIndex rf' = snapshotIndex rf \<and> snapshotTerm rf' = snapshotTerm rf
    \<and> snapshot rf' = snapshot rf \<and> commitIndex rf' = snapshotIndex rf \<and> role rf' = 0
    \<and> peers rf' = n \<and> me rf' = i \<and> persister rf' = persister rf \<and> voteCnt rf' = 0
    \<and> applyGo rf' = [] \<and> matchIndex rf' = [] \<and> nextIndex rf' = []
    \<and> applyChBuffer rf' = (if snapshotIndex rf = -1 then [] else [snapshotMsg rf'])"
proof -
  let ?rf4 = "(readPersistSnapshot (readPersist (newRaft n i (persister rf) now rnd)
       (ReadRaftState (persister rf))) (ReadSnapshot (persister rf)))
       \<lparr>commitIndex := snapshotIndex rf, lastApplied := snapshotIndex rf\<rparr>"
  have s: "ReadSnapshot (persister rf) = snapshot rf" using p by (simp add: persisted_def)
  have c: "contiguous (snapshotIndex rf) (log rf)" using ok by (simp add: log_ok_def)
  have "Make n i (persister rf) now rnd =
      Option.bind (if snapshotIndex rf \<noteq> -1 then putInMake ?rf4 [snapshotMsg ?rf4] else Some ?rf4)
        (\<lambda>rf5. replayLog (log rf5) rf5)"
    using readPersist_persisted [OF p]
    by (simp add: Make_def Let_def readPersistSnapshot_def)
  then show ?thesis
    using readPersist_persisted [OF p] s
    by (auto simp: putInMake_def readPersistSnapshot_def newRaft_def replayLog_none [OF c] snapshotMsg_def)
qed

lemma Make_fresh:
  "Make n i MakePersister now rnd = Some (newRaft n i MakePersister now rnd)"
  by (simp add: Make_def MakePersister_def ReadRaftState_def readPersist_def readPersistSnapshot_def
      ReadSnapshot_def newRaft_def)

end
