(* ===== verification/RaftVoteStep.thy ===== *)
theory RaftVoteStep
  imports RaftPeer
begin

text \<open>
  What the critical sections of a peer do to its vote: every section other than voting,
  standing for election and taking office is a \<open>vote_step\<close>. It keeps the vote within a
  term, forgets it when the term grows, never makes the peer a candidate or a leader, and
  either leaves the stable storage alone or brings it up to date. The cluster proof needs
  nothing else about replication and snapshots.
\<close>

text \<open>Term and vote that a restart reads back.\<close>

definition storedVote :: "'c Raft \<Rightarrow> int \<times> int" where
  "storedVote rf = (case decodeState (ReadRaftState (persister rf)) of
     None \<Rightarrow> (0, -1) | Some (ct, vf, lg, si, st) \<Rightarrow> (ct, vf))"

definition vote_step :: "'c Raft \<Rightarrow> 'c Raft \<Rightarrow> bool" where
  "vote_step rf rf' =
    (me rf' = me rf \<and> peers rf' = peers rf \<and>
     (currentTerm rf' = currentTerm rf \<and> votedFor rf' = votedFor rf \<and> voteCnt rf' = voteCnt rf \<and>
        (role rf' = role rf \<or> role rf' = 0)
      \<or> currentTerm rf < currentTerm rf' \<and> votedFor rf' = -1 \<and> role rf' = 0) \<and>
     (storedVote rf' = storedVote rf \<or> storedVote rf' = (currentTerm rf', votedFor rf')))"

lemma storedVote_persist [simp]: "storedVote (persist rf) = (currentTerm rf, votedFor rf)"
  using persisted_persist [of rf] by (simp add: storedVote_def persisted_def)

lemma storedVote_cong: "persister rf' = persister rf \<Longrightarrow> storedVote rf' = storedVote rf"
  by (simp add: storedVote_def)

lemma vote_step_refl [simp]: "vote_step rf rf"
  by (simp add: vote_step_def)

lemma vote_step_persist: "vote_step rf rf' \<Longrightarrow> vote_step rf (persist rf')"
  by (auto simp: vote_step_def)

lemma vote_step_toFollower [simp]: "vote_step rf (toFollower rf t)"
  by (auto simp: vote_step_def toFollower_votedFor max_def intro: storedVote_cong)

text \<open>Sections that touch none of the fields concerned.\<close>

definition same_vote :: "'c Raft \<Rightarrow> 'c Raft \<Rightarrow> bool" where
  "same_vote rf rf' = (me rf' = me rf \<and> peers rf' = peers rf \<and> currentTerm rf' = currentTerm rf \<and>
     votedFor rf' = votedFor rf \<and> voteCnt rf' = voteCnt rf \<and> role rf' = role rf \<and>
     persister rf' = persister rf)"

lemma same_vote_refl [simp]: "same_vote rf rf"
  by (simp add: same_vote_def)

lemma same_vote_trans: "same_vote a b \<Longrightarrow> same_vote b c \<Longrightarrow> same_vote a c"
  by (simp add: same_vote_def)

lemma vote_step_same: "vote_step rf rf1 \<Longrightarrow> same_vote rf1 rf2 \<Longrightarrow> vote_step rf rf2"
  by (auto simp: vote_step_def same_vote_def storedVote_def)

lemma same_vote_step: "same_vote rf rf' \<Longrightarrow> vote_step rf rf'"
  using vote_step_same [OF vote_step_refl] by blast

lemmas rbind_splits = rbind_eq_Inr Let_def

lemma followerHandleLog_same_vote:
  assumes "followerHandleLog rf args reply = Inr (rf', reply')"
  shows "same_vote rf rf'"
proof -
  have "post (\<lambda>(r, _). same_vote rf r) (followerHandleLog rf args reply)"
    unfolding followerHandleLog_def Let_def
    by (intro post_rules) (simp_all add: same_vote_def)
  from postD [OF assms this] show ?thesis by simp
qed

lemma sendCommitted_same_vote:
  "sendCommittedLogChannel rf a b = Inr rf' \<Longrightarrow> same_vote rf rf'"
  unfolding sendCommittedLogChannel_def
  by (auto simp: rbind_splits same_vote_def split: if_splits prod.splits)

lemma followerUpdate_same_vote:
  assumes "followerUpdateCommitIndex rf c = Inr rf'"
  shows "same_vote rf rf'"
proof (cases "c \<le> commitIndex rf")
  case True
  with assms show ?thesis by (simp add: followerUpdateCommitIndex_def)
next
  case False
  with assms obtain rf1 where "same_vote rf rf1" "same_vote rf1 rf'"
    unfolding followerUpdateCommitIndex_def Let_def
    by (force simp: same_vote_def dest!: sendCommitted_same_vote)
  then show ?thesis by (rule same_vote_trans)
qed

lemma leaderHandleLog_same_vote:
  assumes "leaderHandleLog rf args reply = Inr rf'"
  shows "same_vote rf rf'"
proof -
  have "post (same_vote rf) (leaderHandleLog rf args reply)"
    unfolding leaderHandleLog_def by (intro post_rules) (simp_all add: same_vote_def)
  from postD [OF assms this] show ?thesis .
qed

lemma AppendEntriesRequest_vote_step:
  assumes "AppendEntriesRequestHandler now rf args reply = Inr (rf', reply')"
  shows "vote_step rf rf'"
proof (cases "aeTerm args < currentTerm rf")
  case True
  with assms show ?thesis
    by (auto simp: AppendEntriesRequestHandler_def intro: vote_step_persist)
next
  case False
  let ?rf1 = "(toFollower rf (aeTerm args))\<lparr>lastHeartbeatTime := now\<rparr>"
  have s1: "vote_step rf ?rf1"
    by (rule vote_step_same [OF vote_step_toFollower]) (simp add: same_vote_def)
  from False assms obtain rf2 r2 where
    h: "followerHandleLog ?rf1 args (reply\<lparr>aerTerm := aeTerm args, Success := True, ServerId := me rf\<rparr>)
          = Inr (rf2, r2)"
    and "rf' = persist rf2 \<or> (\<exists>rf3. followerUpdateCommitIndex rf2 (LeaderCommit args) = Inr rf3 \<and> rf' = persist rf3)"
    by (auto simp: AppendEntriesRequestHandler_def rbind_splits split: if_splits)
  moreover have s2: "vote_step rf rf2"
    using s1 followerHandleLog_same_vote [OF h] by (rule vote_step_same)
  ultimately show ?thesis
    by (auto intro: vote_step_persist vote_step_same [OF s2] dest: followerUpdate_same_vote)
qed

lemma AppendEntriesResponse_vote_step:
  "AppendEntriesResponseHandler rf args reply = Inr rf' \<Longrightarrow> vote_step rf rf'"
  unfolding AppendEntriesResponseHandler_def
  by (auto simp: rbind_splits intro!: vote_step_persist split: if_splits
      dest: leaderHandleLog_same_vote same_vote_step)

lemma leaderUpdate_vote_step:
  assumes "leaderUpdateCommitIndex rf = Inr rf'"
  shows "vote_step rf rf'"
proof -
  have "rf' = persist rf \<or> (\<exists>m r. rf' = persist r \<and>
      sendCommittedLogChannel (rf\<lparr>commitIndex := m, lastApplied := m\<rparr>) (commitIndex rf) m = Inr r)"
    using assms unfolding leaderUpdateCommitIndex_def
    by (auto simp: rbind_splits split: if_splits)
  then show ?thesis
  proof
    assume "\<exists>m r. rf' = persist r \<and>
      sendCommittedLogChannel (rf\<lparr>commitIndex := m, lastApplied := m\<rparr>) (commitIndex rf) m = Inr r"
    then obtain m r where r: "rf' = persist r"
      "sendCommittedLogChannel (rf\<lparr>commitIndex := m, lastApplied := m\<rparr>) (commitIndex rf) m = Inr r"
      by blast
    have "same_vote rf (rf\<lparr>commitIndex := m, lastApplied := m\<rparr>)" by (simp add: same_vote_def)
    then have "same_vote rf r" using sendCommitted_same_vote [OF r(2)] by (rule same_vote_trans)
    with r show ?thesis by (auto intro: vote_step_persist same_vote_step)
  qed (auto intro: vote_step_persist)
qed

lemma installSnapshotBody_vote_step:
  assumes "installSnapshotBody rf args reply = Inr (rf', reply')"
  shows "vote_step rf rf'"
proof -
  have "post (\<lambda>(r, _). vote_step rf r) (installSnapshotBody rf args reply)"
    unfolding installSnapshotBody_def Let_def
    by (intro post_rules)
       (auto simp: same_vote_def intro!: vote_step_persist [OF same_vote_step])
  from postD [OF assms this] show ?thesis by simp
qed

lemma vote_step_trans_clock:
  "vote_step (stepDown now rf t) rf' \<Longrightarrow> vote_step rf rf'"
  by (auto simp: stepDown_def vote_step_def toFollower_votedFor storedVote_def max_def split: if_splits)

lemma InstallSnapshotRequest_vote_step:
  assumes "InstallSnapshotRequestHandler now rf args reply = Inr (rf', reply')"
  shows "vote_step rf rf'"
proof -
  have "rf' = persist rf \<or> rf' = persist (rf\<lparr>lastHeartbeatTime := now\<rparr>) \<or>
      (\<exists>r r'. installSnapshotBody (stepDown now rf (isTerm args)) args r = Inr (rf', r'))"
    using assms unfolding InstallSnapshotRequestHandler_def stepDown_def
    by (auto simp: Let_def split: if_splits)
  then show ?thesis
    by (auto intro: vote_step_persist vote_step_trans_clock installSnapshotBody_vote_step
        intro!: vote_step_persist [OF same_vote_step] simp: same_vote_def)
qed

lemma InstallSnapshotResponse_vote_step:
  "InstallSnapshotResponseHandler rf args reply = Inr rf' \<Longrightarrow> vote_step rf rf'"
  unfolding InstallSnapshotResponseHandler_def
  by (auto simp: rbind_splits same_vote_def split: if_splits
      intro!: vote_step_persist [OF same_vote_step] vote_step_persist [OF vote_step_toFollower])

lemma installCur_vote_step:
  "installCurRfSnapShot rf i snap = Inr rf' \<Longrightarrow> vote_step rf rf'"
  unfolding installCurRfSnapShot_def
  by (auto simp: rbind_splits same_vote_def split: if_splits
      intro!: vote_step_persist [OF same_vote_step])

lemma Start_vote_step:
  "Start rf c = Inr (rf', idx, t, l) \<Longrightarrow> vote_step rf rf'"
  unfolding Start_def
  by (auto simp: rbind_splits same_vote_def split: if_splits
      intro!: vote_step_persist [OF same_vote_step])

lemmas vote_steps =
  AppendEntriesRequest_vote_step AppendEntriesResponse_vote_step leaderUpdate_vote_step
  InstallSnapshotRequest_vote_step InstallSnapshotResponse_vote_step installCur_vote_step
  Start_vote_step

text \<open>A restart reads the stored term and vote back.\<close>

lemma replayLog_vote:
  "replayLog es rf = Some rf' \<Longrightarrow> same_vote rf rf'"
proof (induction es arbitrary: rf)
  case (Cons e es)
  show ?case
  proof (cases "Index e > commitIndex rf")
    case False
    with Cons.prems obtain rf1 where "putInMake rf [commandMsg e] = Some rf1" "replayLog es rf1 = Some rf'"
      by (auto split: bind_splits)
    moreover from this have "same_vote rf rf1"
      by (auto simp: putInMake_def same_vote_def split: if_splits)
    ultimately show ?thesis using Cons.IH same_vote_trans by blast
  qed (use Cons.prems in simp)
qed simp

lemma Make_vote:
  assumes "Make n i (persister rf) now rnd = Some rf'"
  shows "(currentTerm rf', votedFor rf') = storedVote rf" "storedVote rf' = storedVote rf"
    "role rf' = 0" "me rf' = i" "peers rf' = n"
proof -
  define rf2 where "rf2 = readPersistSnapshot (readPersist (newRaft n i (persister rf) now rnd)
       (ReadRaftState (persister rf))) (ReadSnapshot (persister rf))"
  define rf4 where "rf4 = rf2\<lparr>commitIndex := snapshotIndex rf2,
       lastApplied := commitIndex (rf2\<lparr>commitIndex := snapshotIndex rf2\<rparr>)\<rparr>"
  from assms obtain rf5 where r5: "(if snapshotIndex rf4 \<noteq> -1 then putInMake rf4 [snapshotMsg rf4] else Some rf4) = Some rf5"
    and "replayLog (log rf5) rf5 = Some rf'"
    unfolding Make_def Let_def rf2_def [symmetric] rf4_def [symmetric]
    by (auto simp: Option.bind_eq_Some_conv)
  moreover have "same_vote rf4 rf5"
    using r5 by (auto simp: putInMake_def same_vote_def split: if_splits)
  ultimately have s: "same_vote rf4 rf'" using replayLog_vote same_vote_trans by blast
  have "(currentTerm rf2, votedFor rf2) = storedVote rf" "persister rf2 = persister rf"
    "role rf2 = 0" "me rf2 = i" "peers rf2 = n"
    by (auto simp: rf2_def readPersistSnapshot_def readPersist_def storedVote_def newRaft_def
        decodeState_def split: option.splits prod.splits)
  then show "(currentTerm rf', votedFor rf') = storedVote rf" "storedVote rf' = storedVote rf"
    "role rf' = 0" "me rf' = i" "peers rf' = n"
    using s by (simp_all add: same_vote_def rf4_def storedVote_def)
qed

end
