(* ===== verification/RaftCluster.thy ===== *)
theory RaftCluster
  imports RaftVoteStep
begin

text \<open>
  A cluster of peers. One event is one critical section of one peer; calls in flight are
  kept in two lists and are never removed, so that a request may be delivered at any time
  after it was sent, once, and its reply may be handled at any later time, once, or be
  replaced by the zero reply of a failed call. A peer may crash and restart from its
  stable storage at any time. An event whose handler panics is not enabled: the process
  is gone until it restarts.

  The ghost components \<open>votes\<close> and \<open>led\<close> record every vote given (term, voter, candidate)
  and every term led. \<open>careful\<close> excludes the two behaviours of the code that break
  election safety; under it no term has two leaders.
\<close>

section \<open>State\<close>

record rvcall =
  rvSrc :: nat
  rvDst :: nat
  rvEpoch :: nat
  rvArgs :: RequestVoteArgs
  rvDelivered :: bool
  rvReply :: "RequestVoteReply option"
  rvHandled :: bool

text \<open>A replication call: what was sent, and the reply of the matching kind.\<close>

record 'c aecall =
  aeSrc :: nat
  aeDst :: nat
  aeEpoch :: nat
  aeMsg :: "'c outgoing"
  aeDelivered :: bool
  aeReply :: "(AppendEntriesReply + InstallSnapshotReply) option"
  aeHandled :: bool

record 'c cluster =
  nodes :: "'c Raft list"
  epoch :: "nat list"
  rvnet :: "rvcall list"
  aenet :: "'c aecall list"
  winning :: "(nat \<times> int) list"
  votes :: "(int \<times> nat \<times> int) set"
  led :: "(int \<times> nat) set"

datatype 'c event =
    EvCandidate nat int int
  | EvVote nat int
  | EvLoseVote nat
  | EvVoteReply nat
  | EvLead nat
  | EvAppend nat int
  | EvLoseAppend nat
  | EvAppendReply nat
  | EvCommit nat
  | EvSend nat
  | EvStart nat 'c
  | EvSnapshot nat int bytes
  | EvRestart nat int int

definition setNode :: "nat \<Rightarrow> 'c Raft \<Rightarrow> 'c cluster \<Rightarrow> 'c cluster" where
  "setNode i rf s = s\<lparr>nodes := (nodes s)[i := rf]\<rparr>"

text \<open>\<open>update_ok s i m\<close>: peer \<open>i\<close> runs a section with result \<open>m\<close>; a panic disables the event.\<close>

definition update_ok :: "'c cluster \<Rightarrow> nat \<Rightarrow> 'c Raft res \<Rightarrow> 'c cluster option" where
  "update_ok s i m = (case m of Inl e \<Rightarrow> None | Inr rf \<Rightarrow> Some (setNode i rf s))"

section \<open>Events\<close>

text \<open>The election timer fires: \<open>toCandidate\<close>, and one request per other peer is in flight.\<close>

definition doCandidate :: "nat \<Rightarrow> int \<Rightarrow> int \<Rightarrow> 'c cluster \<Rightarrow> 'c cluster" where
  "doCandidate i now rnd s =
    (let (rf, reqs) = toCandidate now rnd (nodes s ! i) in
     (setNode i rf s)\<lparr>rvnet := rvnet s @
        map (\<lambda>(j, a). \<lparr>rvSrc = i, rvDst = nat j, rvEpoch = epoch s ! i, rvArgs = a,
                       rvDelivered = False, rvReply = None, rvHandled = False\<rparr>) reqs,
      votes := insert (currentTerm rf, i, votedFor rf) (votes s)\<rparr>)"

text \<open>A vote request reaches its destination; its reply is lost if the call has failed before.\<close>

definition doVote :: "nat \<Rightarrow> int \<Rightarrow> 'c cluster \<Rightarrow> 'c cluster" where
  "doVote p now s =
    (let call = rvnet s ! p;
         (rf, reply) = RequestVoteRequestHandler now (nodes s ! rvDst call) (rvArgs call) zeroRequestVoteReply;
         call' = call\<lparr>rvDelivered := True,
                      rvReply := (if rvReply call = None then Some reply else rvReply call)\<rparr> in
     (setNode (rvDst call) rf s)\<lparr>rvnet := (rvnet s)[p := call'],
      votes := (if VoteGranted reply
                then insert (rvTerm (rvArgs call), rvDst call, CandidateId (rvArgs call)) (votes s)
                else votes s)\<rparr>)"

text \<open>The candidate handles a reply; with a majority it goes on to call \<open>toLeader\<close>.\<close>

definition doVoteReply :: "nat \<Rightarrow> RequestVoteReply \<Rightarrow> 'c cluster \<Rightarrow> 'c cluster" where
  "doVoteReply p reply s =
    (let call = rvnet s ! p;
         (rf, won) = RequestVoteResponseHandler (nodes s ! rvSrc call) (rvArgs call) reply in
     (setNode (rvSrc call) rf s)\<lparr>rvnet := (rvnet s)[p := call\<lparr>rvHandled := True\<rparr>],
      winning := (if won then winning s @ [(rvSrc call, currentTerm rf)] else winning s)\<rparr>)"

text \<open>A pending call of \<open>toLeader\<close> runs, in whatever state the peer is in by now.\<close>

definition doLead :: "nat \<Rightarrow> 'c cluster \<Rightarrow> 'c cluster option" where
  "doLead k s =
    (let i = fst (winning s ! k) in
     case toLeader (nodes s ! i) of
       Inl e \<Rightarrow> None
     | Inr rf \<Rightarrow> Some ((setNode i rf s)\<lparr>winning := take k (winning s) @ drop (Suc k) (winning s),
                   led := insert (currentTerm rf, i) (led s)\<rparr>))"

text \<open>A replication request reaches its destination.\<close>

definition handleAppend :: "int \<Rightarrow> 'c Raft \<Rightarrow> 'c outgoing \<Rightarrow>
    ('c Raft \<times> (AppendEntriesReply + InstallSnapshotReply)) res" where
  "handleAppend now rf m =
    (case m of
       SendAppendEntries a \<Rightarrow>
         rbind (AppendEntriesRequestHandler now rf a zeroAppendEntriesReply) (\<lambda>(rf', r). Inr (rf', Inl r))
     | SendInstallSnapshot a \<Rightarrow>
         rbind (InstallSnapshotRequestHandler now rf a zeroInstallSnapshotReply) (\<lambda>(rf', r). Inr (rf', Inr r)))"

definition doAppend :: "nat \<Rightarrow> int \<Rightarrow> 'c cluster \<Rightarrow> 'c cluster option" where
  "doAppend p now s =
    (let call = aenet s ! p in
     case handleAppend now (nodes s ! aeDst call) (aeMsg call) of
       Inl e \<Rightarrow> None
     | Inr (rf, reply) \<Rightarrow> Some ((setNode (aeDst call) rf s)\<lparr>aenet := (aenet s)[p :=
         call\<lparr>aeDelivered := True,
              aeReply := (if aeReply call = None then Some reply else aeReply call)\<rparr>]\<rparr>))"

definition handleAppendReply :: "'c Raft \<Rightarrow> 'c outgoing \<Rightarrow> AppendEntriesReply + InstallSnapshotReply \<Rightarrow>
    'c Raft res" where
  "handleAppendReply rf m r =
    (case m of
       SendAppendEntries a \<Rightarrow>
         AppendEntriesResponseHandler rf a (case r of Inl x \<Rightarrow> x | Inr y \<Rightarrow> zeroAppendEntriesReply)
     | SendInstallSnapshot a \<Rightarrow>
         InstallSnapshotResponseHandler rf a (case r of Inl x \<Rightarrow> zeroInstallSnapshotReply | Inr y \<Rightarrow> y))"

definition zeroReply :: "'c outgoing \<Rightarrow> AppendEntriesReply + InstallSnapshotReply" where
  "zeroReply m = (case m of SendAppendEntries a \<Rightarrow> Inl zeroAppendEntriesReply
                          | SendInstallSnapshot a \<Rightarrow> Inr zeroInstallSnapshotReply)"

definition doSend :: "nat \<Rightarrow> 'c cluster \<Rightarrow> 'c cluster option" where
  "doSend i s =
    (case leaderSendAppendEntriesRPC (nodes s ! i) of
       Inl e \<Rightarrow> None
     | Inr out \<Rightarrow> Some (s\<lparr>aenet := aenet s @
         map (\<lambda>(j, m). \<lparr>aeSrc = i, aeDst = nat j, aeEpoch = epoch s ! i, aeMsg = m,
                        aeDelivered = False, aeReply = None, aeHandled = False\<rparr>) out\<rparr>))"

text \<open>The process dies and comes back: memory and the calls it was waiting for are gone.\<close>

definition doRestart :: "nat \<Rightarrow> int \<Rightarrow> int \<Rightarrow> 'c cluster \<Rightarrow> 'c cluster option" where
  "doRestart i now rnd s =
    (case Make (int (length (nodes s))) (int i) (persister (nodes s ! i)) now rnd of
       None \<Rightarrow> None
     | Some rf \<Rightarrow> Some ((setNode i rf s)\<lparr>epoch := (epoch s)[i := epoch s ! i + 1],
                      winning := filter (\<lambda>(j, t). j \<noteq> i) (winning s)\<rparr>))"

fun cexec :: "'c cluster \<Rightarrow> 'c event \<Rightarrow> 'c cluster option" where
  "cexec s (EvCandidate i now rnd) =
     (if i < length (nodes s) then Some (doCandidate i now rnd s) else None)"
| "cexec s (EvVote p now) =
     (if p < length (rvnet s) \<and> \<not> rvDelivered (rvnet s ! p) then Some (doVote p now s) else None)"
| "cexec s (EvLoseVote p) =
     (if p < length (rvnet s) \<and> \<not> rvHandled (rvnet s ! p)
      then Some (s\<lparr>rvnet := (rvnet s)[p := (rvnet s ! p)\<lparr>rvReply := Some zeroRequestVoteReply\<rparr>]\<rparr>)
      else None)"
| "cexec s (EvVoteReply p) =
     (if p < length (rvnet s) \<and> \<not> rvHandled (rvnet s ! p) \<and>
         rvEpoch (rvnet s ! p) = epoch s ! rvSrc (rvnet s ! p)
      then map_option (\<lambda>r. doVoteReply p r s) (rvReply (rvnet s ! p)) else None)"
| "cexec s (EvLead k) = (if k < length (winning s) then doLead k s else None)"
| "cexec s (EvAppend p now) =
     (if p < length (aenet s) \<and> \<not> aeDelivered (aenet s ! p) then doAppend p now s else None)"
| "cexec s (EvLoseAppend p) =
     (if p < length (aenet s) \<and> \<not> aeHandled (aenet s ! p)
      then Some (s\<lparr>aenet := (aenet s)[p := (aenet s ! p)\<lparr>aeReply := Some (zeroReply (aeMsg (aenet s ! p)))\<rparr>]\<rparr>)
      else None)"
| "cexec s (EvAppendReply p) =
     (if p < length (aenet s) \<and> \<not> aeHandled (aenet s ! p) \<and>
         aeEpoch (aenet s ! p) = epoch s ! aeSrc (aenet s ! p)
      then Option.bind (aeReply (aenet s ! p)) (\<lambda>r.
           map_option (\<lambda>t. t\<lparr>aenet := (aenet s)[p := (aenet s ! p)\<lparr>aeHandled := True\<rparr>]\<rparr>)
             (update_ok s (aeSrc (aenet s ! p))
               (handleAppendReply (nodes s ! aeSrc (aenet s ! p)) (aeMsg (aenet s ! p)) r)))
      else None)"
| "cexec s (EvCommit i) =
     (if i < length (nodes s) then update_ok s i (leaderUpdateCommitIndex (nodes s ! i)) else None)"
| "cexec s (EvSend i) = (if i < length (nodes s) then doSend i s else None)"
| "cexec s (EvStart i c) =
     (if i < length (nodes s)
      then update_ok s i (rbind (Start (nodes s ! i) c) (\<lambda>r. Inr (fst r))) else None)"
| "cexec s (EvSnapshot i idx snap) =
     (if i < length (nodes s) then update_ok s i (Raft_Snapshot (nodes s ! i) idx snap) else None)"
| "cexec s (EvRestart i now rnd) =
     (if i < length (nodes s) then doRestart i now rnd s else None)"

text \<open>A new cluster: \<open>n\<close> peers made from empty stable storage.\<close>

definition newNode :: "nat \<Rightarrow> nat \<Rightarrow> 'c Raft" where
  "newNode n i = (case Make (int n) (int i) MakePersister 0 0 of
     Some rf \<Rightarrow> rf | None \<Rightarrow> newRaft (int n) (int i) MakePersister 0 0)"

definition newCluster :: "nat \<Rightarrow> 'c cluster" where
  "newCluster n = \<lparr>nodes = map (newNode n) [0..<n], epoch = replicate n 0, rvnet = [], aenet = [],
     winning = [], votes = {}, led = {}\<rparr>"

text \<open>
  The two restrictions: a peer that has led a term is not asked for a vote in that term
  again, and a pending \<open>toLeader\<close> still finds the candidacy it was called for.
\<close>

fun careful :: "'c cluster \<Rightarrow> 'c event \<Rightarrow> bool" where
  "careful s (EvVote p now) \<longleftrightarrow> (rvTerm (rvArgs (rvnet s ! p)), rvDst (rvnet s ! p)) \<notin> led s"
| "careful s (EvLead k) \<longleftrightarrow> role (nodes s ! fst (winning s ! k)) = 1 \<and>
     currentTerm (nodes s ! fst (winning s ! k)) = snd (winning s ! k)"
| "careful s _ \<longleftrightarrow> True"

text \<open>Runs all of whose events satisfy a predicate.\<close>

primrec crunP :: "('c cluster \<Rightarrow> 'c event \<Rightarrow> bool) \<Rightarrow> 'c cluster \<Rightarrow> 'c event list \<Rightarrow> 'c cluster option" where
  "crunP P s [] = Some s"
| "crunP P s (e # es) = (if P s e then Option.bind (cexec s e) (\<lambda>t. crunP P t es) else None)"

definition cstep :: "'c cluster \<Rightarrow> 'c cluster \<Rightarrow> bool" where
  "cstep s t = (\<exists>e. cexec s e = Some t \<and> careful s e)"

definition isNewCluster :: "'c cluster \<Rightarrow> bool" where
  "isNewCluster s = (s = newCluster (length (nodes s)))"

text \<open>Some peer leads the term / two peers lead it.\<close>

definition leads :: "'c cluster \<Rightarrow> nat \<Rightarrow> int \<Rightarrow> bool" where
  "leads s i t = (i < length (nodes s) \<and> role (nodes s ! i) = 2 \<and> currentTerm (nodes s ! i) = t)"

end
