(* ===== verification/RaftElectionSafety.thy ===== *)
theory RaftElectionSafety
  imports RaftCluster
begin

text \<open>
  Election safety: in every run of careful events a term has at most one leader. The
  invariant ties the votes a peer has given to its current and its stored term and vote,
  the votes a candidate counts to distinct calls, and every term led to the votes of a
  majority; two majorities share a voter and nobody votes twice in a term.
\<close>

section \<open>The invariant\<close>

definition voters :: "'c cluster \<Rightarrow> int \<Rightarrow> nat \<Rightarrow> nat set" where
  "voters s t i = {v. (t, v, int i) \<in> votes s}"

definition elected :: "'c cluster \<Rightarrow> int \<Rightarrow> nat \<Rightarrow> bool" where
  "elected s t i = (i < length (nodes s) \<and> length (nodes s) < 2 * card (voters s t i))"

definition grants :: "rvcall \<Rightarrow> bool" where
  "grants c = (case rvReply c of None \<Rightarrow> False | Some r \<Rightarrow> VoteGranted r)"

text \<open>Destinations whose granted votes a candidate has counted.\<close>

definition counted :: "rvcall list \<Rightarrow> nat \<Rightarrow> int \<Rightarrow> nat set" where
  "counted net i t =
     rvDst ` {c \<in> set net. rvSrc c = i \<and> rvTerm (rvArgs c) = t \<and> rvHandled c \<and> grants c}"

definition callKey :: "rvcall \<Rightarrow> nat \<times> int \<times> nat" where
  "callKey c = (rvSrc c, rvTerm (rvArgs c), rvDst c)"

text \<open>What the votes a peer has given say of its term and vote, in memory or stored.\<close>

definition vote_kept :: "'c cluster \<Rightarrow> nat \<Rightarrow> int \<times> int \<Rightarrow> bool" where
  "vote_kept s v tv = (\<forall>t c. (t, v, c) \<in> votes s \<longrightarrow>
     0 \<le> c \<and> t \<le> fst tv \<and> (t = fst tv \<longrightarrow> snd tv = c \<or> (t, v) \<in> led s))"

definition node_inv :: "'c cluster \<Rightarrow> nat \<Rightarrow> 'c Raft \<Rightarrow> bool" where
  "node_inv s i rf =
    (me rf = int i \<and> peers rf = int (length (nodes s)) \<and> fst (storedVote rf) \<le> currentTerm rf \<and>
     vote_kept s i (currentTerm rf, votedFor rf) \<and> vote_kept s i (storedVote rf) \<and>
     (role rf = 1 \<longrightarrow> (currentTerm rf, i, int i) \<in> votes s \<and>
        voteCnt rf \<le> 1 + int (card (counted (rvnet s) i (currentTerm rf)))) \<and>
     (role rf = 2 \<longrightarrow> (currentTerm rf, i) \<in> led s))"

definition call_inv :: "'c cluster \<Rightarrow> rvcall \<Rightarrow> bool" where
  "call_inv s c =
    (rvSrc c < length (nodes s) \<and> rvDst c < length (nodes s) \<and> rvDst c \<noteq> rvSrc c \<and>
     CandidateId (rvArgs c) = int (rvSrc c) \<and>
     rvTerm (rvArgs c) \<le> fst (storedVote (nodes s ! rvSrc c)) \<and>
     (grants c \<longrightarrow> (rvTerm (rvArgs c), rvDst c, int (rvSrc c)) \<in> votes s \<and>
        rvrTerm (the (rvReply c)) = rvTerm (rvArgs c)))"

definition vote_once :: "'c cluster \<Rightarrow> bool" where
  "vote_once s = (\<forall>t v c c'. (t, v, c) \<in> votes s \<longrightarrow> (t, v, c') \<in> votes s \<longrightarrow> c = c')"

definition election_inv :: "'c cluster \<Rightarrow> bool" where
  "election_inv s =
    ((\<forall>i < length (nodes s). node_inv s i (nodes s ! i)) \<and>
     (\<forall>c \<in> set (rvnet s). call_inv s c) \<and> distinct (map callKey (rvnet s)) \<and>
     vote_once s \<and> (\<forall>t v c. (t, v, c) \<in> votes s \<longrightarrow> v < length (nodes s)) \<and>
     (\<forall>(t, i) \<in> led s. elected s t i) \<and> (\<forall>(i, t) \<in> set (winning s). elected s t i))"

lemma election_invD:
  assumes "election_inv s"
  shows inv_node: "\<And>i. i < length (nodes s) \<Longrightarrow> node_inv s i (nodes s ! i)"
    and inv_call: "\<And>c. c \<in> set (rvnet s) \<Longrightarrow> call_inv s c"
    and inv_keys: "distinct (map callKey (rvnet s))"
    and inv_once: "\<And>t v c c'. (t, v, c) \<in> votes s \<Longrightarrow> (t, v, c') \<in> votes s \<Longrightarrow> c = c'"
    and inv_voter: "\<And>t v c. (t, v, c) \<in> votes s \<Longrightarrow> v < length (nodes s)"
    and inv_led: "\<And>t i. (t, i) \<in> led s \<Longrightarrow> elected s t i"
    and inv_winning: "\<And>t i. (i, t) \<in> set (winning s) \<Longrightarrow> elected s t i"
  using assms by (simp_all add: election_inv_def vote_once_def) blast+

section \<open>Why the invariant gives one leader per term\<close>

lemma finite_voters: "election_inv s \<Longrightarrow> voters s t i \<subseteq> {..<length (nodes s)}"
  using inv_voter by (fastforce simp: voters_def)

lemma elected_unique:
  assumes inv: "election_inv s" and e: "elected s t i" "elected s t j"
  shows "i = j"
proof -
  have "\<exists>v. v \<in> voters s t i \<and> v \<in> voters s t j"
    using e finite_voters [OF inv]
    by (intro majorities_meet [of "{..<length (nodes s)}"]) (auto simp: elected_def)
  then have "int i = int j"
    unfolding voters_def using inv_once [OF inv] by blast
  then show ?thesis by simp
qed

lemma leads_elected: "election_inv s \<Longrightarrow> leads s i t \<Longrightarrow> elected s t i"
  using inv_node inv_led by (fastforce simp: leads_def node_inv_def)

section \<open>Every careful event keeps it\<close>

text \<open>Growing \<open>votes\<close> and \<open>led\<close> keeps elections.\<close>

lemma elected_mono:
  assumes "elected s t i" "election_inv s'" "length (nodes s') = length (nodes s)" "votes s \<subseteq> votes s'"
  shows "elected s' t i"
proof -
  have "finite (voters s' t i)" using finite_voters [OF assms(2)] finite_subset by blast
  then have "card (voters s t i) \<le> card (voters s' t i)"
    using assms(4) by (intro card_mono) (auto simp: voters_def)
  with assms(1,3) show ?thesis by (simp add: elected_def)
qed

lemma setNode_simps [simp]:
  "nodes (setNode i rf s) = (nodes s)[i := rf]" "rvnet (setNode i rf s) = rvnet s"
  "aenet (setNode i rf s) = aenet s" "votes (setNode i rf s) = votes s" "led (setNode i rf s) = led s"
  "winning (setNode i rf s) = winning s" "epoch (setNode i rf s) = epoch s"
  by (simp_all add: setNode_def)

lemma vote_keptD:
  assumes "vote_kept s v tv" "(t, v, c) \<in> votes s"
  shows "0 \<le> c" "t \<le> fst tv" "t = fst tv \<Longrightarrow> snd tv = c \<or> (t, v) \<in> led s"
  using assms by (auto simp: vote_kept_def)

lemma vote_kept_cong:
  "votes s' = votes s \<Longrightarrow> led s \<subseteq> led s' \<Longrightarrow> vote_kept s v tv \<Longrightarrow> vote_kept s' v tv"
  by (auto simp: vote_kept_def)

lemma node_inv_vote_step:
  assumes "node_inv s i rf" "vote_step rf rf'"
  shows "node_inv s i rf'"
proof -
  have ids: "me rf' = me rf" "peers rf' = peers rf"
    and st: "storedVote rf' = storedVote rf \<or> storedVote rf' = (currentTerm rf', votedFor rf')"
    using assms(2) by (simp_all add: vote_step_def)
  have le: "currentTerm rf \<le> currentTerm rf'"
    using assms(2) by (auto simp: vote_step_def)
  have cur: "vote_kept s i (currentTerm rf', votedFor rf')"
  proof -
    have kept: "vote_kept s i (currentTerm rf, votedFor rf)" using assms(1) by (simp add: node_inv_def)
    consider "currentTerm rf' = currentTerm rf" "votedFor rf' = votedFor rf" | "currentTerm rf < currentTerm rf'"
      using assms(2) by (auto simp: vote_step_def)
    then show ?thesis
    proof cases
      case 2
      with vote_keptD [OF kept] show ?thesis unfolding vote_kept_def by fastforce
    qed (use kept in simp)
  qed
  have stored: "vote_kept s i (storedVote rf')" "fst (storedVote rf') \<le> currentTerm rf'"
    using st cur le assms(1) by (auto simp: node_inv_def)
  have roles: "role rf' = 0 \<or> role rf' = role rf \<and> currentTerm rf' = currentTerm rf \<and> voteCnt rf' = voteCnt rf"
    using assms(2) by (auto simp: vote_step_def)
  show ?thesis
    using assms(1) ids cur stored roles by (auto simp: node_inv_def)
qed

lemma stored_mono:
  assumes "node_inv s i rf" "vote_step rf rf'"
  shows "fst (storedVote rf) \<le> fst (storedVote rf')"
  using assms by (auto simp: node_inv_def vote_step_def)


lemma counted_finite [simp]: "finite (counted net i t)"
  by (simp add: counted_def)

lemma counted_mono: "set net \<subseteq> set net' \<Longrightarrow> counted net i t \<subseteq> counted net' i t"
  by (auto simp: counted_def)

lemma counted_update:
  assumes "p < length net" "callKey c' = callKey (net ! p)"
    and "rvHandled (net ! p) \<Longrightarrow> grants (net ! p) \<Longrightarrow> rvHandled c' \<and> grants c'"
  shows "counted net i t \<subseteq> counted (net[p := c']) i t"
proof
  fix d assume "d \<in> counted net i t"
  then obtain q where q: "q < length net" "d = rvDst (net ! q)" "rvSrc (net ! q) = i"
    "rvTerm (rvArgs (net ! q)) = t" "rvHandled (net ! q)" "grants (net ! q)"
    by (auto simp: counted_def in_set_conv_nth)
  let ?c = "net[p := c'] ! q"
  have "?c \<in> set (net[p := c'])" using q(1) by (metis length_list_update nth_mem)
  moreover have "callKey ?c = callKey (net ! q)" "rvHandled ?c" "grants ?c"
    using q assms by (auto simp: nth_list_update)
  ultimately show "d \<in> counted (net[p := c']) i t"
    using q unfolding counted_def callKey_def by (intro image_eqI [of _ _ ?c]) auto
qed

lemma node_inv_mono:
  assumes n: "node_inv s i rf" and len: "length (nodes s') = length (nodes s)"
    and mono: "votes s \<subseteq> votes s'" "led s \<subseteq> led s'"
    and cnt: "\<And>t. counted (rvnet s) i t \<subseteq> counted (rvnet s') i t"
    and kept: "\<And>tv. vote_kept s i tv \<Longrightarrow> vote_kept s' i tv"
  shows "node_inv s' i rf"
proof -
  have "card (counted (rvnet s) i (currentTerm rf)) \<le> card (counted (rvnet s') i (currentTerm rf))"
    using cnt by (intro card_mono) auto
  then show ?thesis using n len mono kept by (auto simp: node_inv_def)
qed

text \<open>
  A peer changes its state, votes and led terms may be added, and calls keep their keys:
  what has to be shown of the peer that moved and of the calls.
\<close>

lemma inv_peer_change:
  assumes inv: "election_inv s" and i: "i < length (nodes s)"
    and n': "nodes s' = (nodes s)[i := rf']"
    and mono: "votes s \<subseteq> votes s'" "led s \<subseteq> led s'"
    and other: "\<And>t v c. (t, v, c) \<in> votes s' \<Longrightarrow> v \<noteq> i \<Longrightarrow> (t, v, c) \<in> votes s"
    and node: "node_inv s' i rf'"
    and stored: "fst (storedVote (nodes s ! i)) \<le> fst (storedVote rf')"
    and cnt: "\<And>j t. j \<noteq> i \<Longrightarrow> counted (rvnet s) j t \<subseteq> counted (rvnet s') j t"
    and calls: "\<And>c. c \<in> set (rvnet s') \<Longrightarrow> call_inv s' c" "distinct (map callKey (rvnet s'))"
    and once: "\<And>t c c'. (t, i, c) \<in> votes s' \<Longrightarrow> (t, i, c') \<in> votes s' \<Longrightarrow> c = c'"
    and win: "\<And>t j. (t, j) \<in> led s' \<Longrightarrow> (t, j) \<in> led s \<or> elected s t j"
      "\<And>t j. (j, t) \<in> set (winning s') \<Longrightarrow> elected s t j \<or> elected s' t j"
  shows "election_inv s'"
proof -
  have len: "length (nodes s') = length (nodes s)" by (simp add: n')
  have voter: "v < length (nodes s')" if "(t, v, c) \<in> votes s'" for t v c
    unfolding len using that other inv_voter [OF inv] i by (cases "v = i") blast+
  have once': "c = c'" if "(t, v, c) \<in> votes s'" "(t, v, c') \<in> votes s'" for t v c c'
  proof (cases "v = i")
    case True
    with that once show ?thesis by simp
  next
    case False
    from other [OF that(1) this] other [OF that(2) this] show ?thesis by (rule inv_once [OF inv])
  qed
  have el: "elected s' t j" if e: "elected s t j" for t j
  proof -
    have "finite (voters s' t j)"
      by (rule finite_subset [of _ "{..<length (nodes s')}"]) (use voter in \<open>auto simp: voters_def\<close>)
    then have "card (voters s t j) \<le> card (voters s' t j)"
      using mono by (intro card_mono) (auto simp: voters_def)
    with e len show ?thesis by (simp add: elected_def)
  qed
  have nodes': "node_inv s' j (nodes s' ! j)" if j: "j < length (nodes s')" for j
  proof (cases "j = i")
    case True
    with node i show ?thesis by (simp add: n')
  next
    case False
    have nj: "node_inv s j (nodes s ! j)" using inv_node [OF inv] j len by simp
    have kept: "vote_kept s' j tv" if "vote_kept s j tv" for tv
      unfolding vote_kept_def
      using vote_keptD [OF that other [OF _ False]] mono(2) by blast
    have "node_inv s' j (nodes s ! j)"
      by (rule node_inv_mono [OF nj len mono cnt [OF False] kept])
    with False show ?thesis by (simp add: n')
  qed
  show ?thesis
    unfolding election_inv_def vote_once_def
  proof (intro conjI allI impI ballI)
    show "case x of (t, i) \<Rightarrow> elected s' t i" if "x \<in> led s'" for x
      using that win(1) inv_led [OF inv] el by (cases x) (simp, blast)
    show "case x of (i, t) \<Rightarrow> elected s' t i" if "x \<in> set (winning s')" for x
      using that win(2) el by (cases x) auto
  qed (use nodes' calls once' voter in blast)+
qed


section \<open>The events\<close>

text \<open>Sections that do not concern the vote, and changes of the other components.\<close>

lemma call_inv_cong:
  assumes "call_inv s c" "length (nodes s') = length (nodes s)" "votes s \<subseteq> votes s'"
    and "fst (storedVote (nodes s ! rvSrc c)) \<le> fst (storedVote (nodes s' ! rvSrc c))"
  shows "call_inv s' c"
  using assms by (auto simp: call_inv_def)

lemma stored_update:
  assumes "i < length ns" "fst (storedVote (ns ! i)) \<le> fst (storedVote rf')"
  shows "fst (storedVote (ns ! j)) \<le> fst (storedVote (ns[i := rf'] ! j))"
  using assms by (cases "j = i") auto

lemma inv_vote_step:
  assumes inv: "election_inv s" and i: "i < length (nodes s)" and v: "vote_step (nodes s ! i) rf'"
    and s': "nodes s' = (nodes s)[i := rf']" "rvnet s' = rvnet s" "votes s' = votes s" "led s' = led s"
      "set (winning s') \<subseteq> set (winning s)"
  shows "election_inv s'"
proof (rule inv_peer_change [OF inv i s'(1)])
  have st: "fst (storedVote (nodes s ! i)) \<le> fst (storedVote rf')"
    by (rule stored_mono [OF inv_node [OF inv i] v])
  then show "fst (storedVote (nodes s ! i)) \<le> fst (storedVote rf')" .
  have "node_inv s i rf'" by (rule node_inv_vote_step [OF inv_node [OF inv i] v])
  then show "node_inv s' i rf'" using s' by (simp add: node_inv_def vote_kept_def)
  show "call_inv s' c" if "c \<in> set (rvnet s')" for c
    using that s' stored_update [OF i st] by (intro call_inv_cong [OF inv_call [OF inv]]) auto
  show "distinct (map callKey (rvnet s'))" using s' inv_keys [OF inv] by simp
qed (use s' inv_once [OF inv] inv_winning [OF inv] in auto)

text \<open>A call changes but keeps its key; no vote is counted by the change.\<close>

lemma inv_call_change:
  assumes inv: "election_inv s" and p: "p < length (rvnet s)"
    and same: "rvSrc c' = rvSrc (rvnet s ! p)" "rvDst c' = rvDst (rvnet s ! p)" "rvArgs c' = rvArgs (rvnet s ! p)"
    and kept: "rvHandled (rvnet s ! p) \<Longrightarrow> grants (rvnet s ! p) \<Longrightarrow> rvHandled c' \<and> grants c'"
    and gr: "grants c' \<Longrightarrow> (rvTerm (rvArgs c'), rvDst c', int (rvSrc c')) \<in> votes s \<and>
        rvrTerm (the (rvReply c')) = rvTerm (rvArgs c')"
    and s': "nodes s' = nodes s" "rvnet s' = (rvnet s)[p := c']" "votes s' = votes s" "led s' = led s"
      "winning s' = winning s"
  shows "election_inv s'"
proof -
  let ?i = "rvSrc (rvnet s ! p)"
  have key: "callKey c' = callKey (rvnet s ! p)" using same by (simp add: callKey_def)
  have cnt: "counted (rvnet s) j t \<subseteq> counted (rvnet s') j t" for j t
    unfolding s' by (rule counted_update [OF p key kept])
  have c: "call_inv s (rvnet s ! p)" using inv_call [OF inv] p by simp
  then have i: "?i < length (nodes s)" by (simp add: call_inv_def)
  show ?thesis
  proof (rule inv_peer_change [OF inv i, of _ "nodes s ! ?i"])
    show "node_inv s' ?i (nodes s ! ?i)"
      using cnt s' by (intro node_inv_mono [OF inv_node [OF inv i]]) (auto intro: vote_kept_cong)
    show "call_inv s' d" if "d \<in> set (rvnet s')" for d
    proof -
      from that have "d = c' \<or> d \<in> set (rvnet s)"
        unfolding s' using set_update_subset_insert by fastforce
      then show ?thesis
      proof
        assume "d = c'"
        with c same gr s' show ?thesis by (simp add: call_inv_def)
      next
        assume "d \<in> set (rvnet s)"
        then show ?thesis using inv_call [OF inv] s' by (simp add: call_inv_def)
      qed
    qed
    show "distinct (map callKey (rvnet s'))"
      unfolding s'(2) by (rule distinct_map_update [OF inv_keys [OF inv] p key])
  qed (use s' cnt inv_once [OF inv] inv_winning [OF inv] in auto)
qed

text \<open>A peer that has not voted in the term gives its vote.\<close>

lemma inv_give_vote:
  assumes inv: "election_inv s" and i: "i < length (nodes s)" and c: "0 \<le> c"
    and free: "currentTerm (nodes s ! i) < t \<or> currentTerm (nodes s ! i) = t \<and> votedFor (nodes s ! i) = -1"
    and nl: "currentTerm (nodes s ! i) = t \<Longrightarrow> (t, i) \<notin> led s"
    and rf': "me rf' = me (nodes s ! i)" "peers rf' = peers (nodes s ! i)" "currentTerm rf' = t"
      "votedFor rf' = c" "storedVote rf' = (t, c)"
    and r1: "role rf' = 1 \<Longrightarrow> (t, i, int i) \<in> insert (t, i, c) (votes s) \<and>
        voteCnt rf' \<le> 1 + int (card (counted (rvnet s) i t))"
    and r2: "role rf' = 2 \<Longrightarrow> (t, i) \<in> led s"
    and s': "nodes s' = (nodes s)[i := rf']" "rvnet s' = rvnet s" "votes s' = insert (t, i, c) (votes s)"
      "led s' = led s" "winning s' = winning s"
  shows "election_inv s'"
proof -
  note n = inv_node [OF inv i]
  have fresh: "u < t" if "(u, i, d) \<in> votes s" for u d
  proof -
    have "vote_kept s i (currentTerm (nodes s ! i), votedFor (nodes s ! i))"
      using n by (simp add: node_inv_def)
    from vote_keptD [OF this that] free nl show ?thesis
      by (cases "u = currentTerm (nodes s ! i)") auto
  qed
  have nn: "0 \<le> d" if "(u, i, d) \<in> votes s" for u d
    using n that by (auto simp: node_inv_def intro: vote_keptD)
  have st: "fst (storedVote (nodes s ! i)) \<le> fst (storedVote rf')"
    using n free rf' by (auto simp: node_inv_def)
  show ?thesis
  proof (rule inv_peer_change [OF inv i s'(1)])
    have "vote_kept s' i (t, c)" using fresh c s' nn by (auto simp: vote_kept_def dest: fresh)
    then show "node_inv s' i rf'"
      using n rf' r1 r2 s' by (auto simp: node_inv_def)
    show "call_inv s' d" if "d \<in> set (rvnet s')" for d
      using that s' stored_update [OF i st] by (intro call_inv_cong [OF inv_call [OF inv]]) auto
    show "distinct (map callKey (rvnet s'))" using s' inv_keys [OF inv] by simp
    show "d = d'" if "(u, i, d) \<in> votes s'" "(u, i, d') \<in> votes s'" for u d d'
      using that fresh inv_once [OF inv] unfolding s' by fastforce
  qed (use s' st inv_winning [OF inv] in auto)
qed


text \<open>New calls go out.\<close>

lemma inv_new_calls:
  assumes inv: "election_inv s"
    and s': "nodes s' = nodes s" "rvnet s' = rvnet s @ new" "votes s' = votes s" "led s' = led s"
      "winning s' = winning s"
    and new: "\<And>c. c \<in> set new \<Longrightarrow> call_inv s c" "distinct (map callKey new)"
      "\<And>c. c \<in> set (rvnet s) \<Longrightarrow> callKey c \<notin> callKey ` set new"
  shows "election_inv s'"
proof -
  have "node_inv s' i (nodes s ! i)" if "i < length (nodes s)" for i
  proof (rule node_inv_mono [OF inv_node [OF inv that]])
    show "vote_kept s i tv \<Longrightarrow> vote_kept s' i tv" for tv
      using s' by (simp add: vote_kept_def)
    show "counted (rvnet s) i t \<subseteq> counted (rvnet s') i t" for t
      unfolding s' by (rule counted_mono) simp
  qed (use s' in simp_all)
  moreover have "call_inv s' c" if "c \<in> set (rvnet s')" for c
  proof -
    from that have "call_inv s c" unfolding s' using new(1) inv_call [OF inv] by auto
    then show ?thesis using s' by (simp add: call_inv_def)
  qed
  moreover have "distinct (map callKey (rvnet s'))"
  proof -
    have "callKey ` set (rvnet s) \<inter> callKey ` set new = {}" using new(3) by blast
    then show ?thesis using inv_keys [OF inv] new(2) unfolding s' by simp
  qed
  ultimately show ?thesis
    using inv s' by (simp add: election_inv_def vote_once_def elected_def voters_def)
qed

lemma candidate_calls:
  "toCandidate now rnd rf = (rf', reqs) \<Longrightarrow> (j, a) \<in> set reqs \<Longrightarrow>
     j \<noteq> me rf \<and> 0 \<le> j \<and> j < peers rf \<and> rvTerm a = currentTerm rf + 1 \<and> CandidateId a = me rf"
  by (auto simp: toCandidate_def Let_def split: prod.splits)

lemma candidate_fields:
  assumes "toCandidate now rnd rf = (rf', reqs)"
  shows "me rf' = me rf" "peers rf' = peers rf" "currentTerm rf' = currentTerm rf + 1" "votedFor rf' = me rf"
    "storedVote rf' = (currentTerm rf + 1, me rf)" "role rf' = 1" "voteCnt rf' = 1"
    "distinct (map (\<lambda>(j, a). nat j) reqs)"
proof -
  let ?is = "filter (\<lambda>i. i \<noteq> me rf) (indices 0 (peers rf))"
  have "distinct ?is" by (simp add: indices_def distinct_map inj_on_def)
  moreover have "inj_on nat (set ?is)" by (rule inj_onI) auto
  ultimately have "distinct (map nat ?is)" by (simp add: distinct_map)
  then show "distinct (map (\<lambda>(j, a). nat j) reqs)"
    using assms by (auto simp: toCandidate_def Let_def comp_def split: prod.splits)
qed (use assms in \<open>auto simp: toCandidate_def Let_def split: prod.splits\<close>)

lemma inv_doCandidate:
  assumes inv: "election_inv s" and i: "i < length (nodes s)"
  shows "election_inv (doCandidate i now rnd s)"
proof -
  obtain rf' reqs where tc: "toCandidate now rnd (nodes s ! i) = (rf', reqs)" by fastforce
  note n = inv_node [OF inv i] and f = candidate_fields [OF tc]
  have me: "me (nodes s ! i) = int i" "peers (nodes s ! i) = int (length (nodes s))"
    and st: "fst (storedVote (nodes s ! i)) \<le> currentTerm (nodes s ! i)"
    and kept: "vote_kept s i (currentTerm (nodes s ! i), votedFor (nodes s ! i))"
    using n by (simp_all add: node_inv_def)
  let ?t = "currentTerm (nodes s ! i) + 1"
  let ?s1 = "(setNode i rf' s)\<lparr>votes := insert (?t, i, int i) (votes s)\<rparr>"
  have inv1: "election_inv ?s1"
    by (rule inv_give_vote [OF inv i, of "int i" ?t rf']) (use f me in auto)
  let ?new = "map (\<lambda>(j, a). \<lparr>rvSrc = i, rvDst = nat j, rvEpoch = epoch s ! i, rvArgs = a,
                       rvDelivered = False, rvReply = None, rvHandled = False\<rparr>) reqs"
  let ?s2 = "?s1\<lparr>rvnet := rvnet s @ ?new\<rparr>"
  have new: "call_inv ?s1 c \<and> rvSrc c = i \<and> rvTerm (rvArgs c) = ?t" if "c \<in> set ?new" for c
  proof -
    from that obtain j a where ja: "(j, a) \<in> set reqs"
      and c: "c = \<lparr>rvSrc = i, rvDst = nat j, rvEpoch = epoch s ! i, rvArgs = a,
                       rvDelivered = False, rvReply = None, rvHandled = False\<rparr>" by auto
    from candidate_calls [OF tc ja] show ?thesis
      using c f(5) me i by (auto simp: call_inv_def grants_def nat_eq_iff)
  qed
  have old: "callKey c \<notin> callKey ` set ?new" if "c \<in> set (rvnet s)" for c
  proof -
    have lt: "rvSrc c = i \<Longrightarrow> rvTerm (rvArgs c) < ?t"
      using inv_call [OF inv that] st by (auto simp: call_inv_def)
    show ?thesis
    proof
      assume "callKey c \<in> callKey ` set ?new"
      then obtain c' where "c' \<in> set ?new" "callKey c = callKey c'" by blast
      with new [of c'] lt show False by (simp add: callKey_def)
    qed
  qed
  have "map (\<lambda>c. snd (snd (callKey c))) ?new = map (\<lambda>(j, a). nat j) reqs"
    by (auto simp: callKey_def)
  then have "distinct (map (\<lambda>c. snd (snd (callKey c))) ?new)" using f(8) by (simp only:)
  then have dnew: "distinct (map callKey ?new)" by (rule distinct_map_comp)
  have "election_inv ?s2"
  proof (rule inv_new_calls [OF inv1, of _ ?new])
    show "call_inv ?s1 c" if "c \<in> set ?new" for c
      using new [OF that] by blast
    show "callKey c \<notin> callKey ` set ?new" if "c \<in> set (rvnet ?s1)" for c
      using old that by simp
  qed (use dnew in simp_all)
  moreover have "doCandidate i now rnd s = ?s2"
    using f(3,4) me by (simp add: doCandidate_def tc setNode_def)
  ultimately show ?thesis by simp
qed


lemma inv_doVote:
  assumes inv: "election_inv s" and p: "p < length (rvnet s)"
    and care: "(rvTerm (rvArgs (rvnet s ! p)), rvDst (rvnet s ! p)) \<notin> led s"
  shows "election_inv (doVote p now s)"
proof -
  let ?call = "rvnet s ! p"
  let ?v = "rvDst ?call" and ?a = "rvArgs ?call"
  obtain rf' reply where h: "RequestVoteRequestHandler now (nodes s ! ?v) ?a zeroRequestVoteReply = (rf', reply)"
    by fastforce
  let ?call' = "?call\<lparr>rvDelivered := True, rvReply := (if rvReply ?call = None then Some reply else rvReply ?call)\<rparr>"
  let ?V = "if VoteGranted reply then insert (rvTerm ?a, ?v, CandidateId ?a) (votes s) else votes s"
  let ?s1 = "(setNode ?v rf' s)\<lparr>votes := ?V\<rparr>"
  have c: "call_inv s ?call" using inv_call [OF inv] p by simp
  then have v: "?v < length (nodes s)" and cand: "CandidateId ?a = int (rvSrc ?call)"
    by (simp_all add: call_inv_def)
  have gr: "VoteGranted reply \<longleftrightarrow> freeToVote (nodes s ! ?v) ?a \<and> upToDate (nodes s ! ?v) ?a"
    using RequestVote_granted [of now "nodes s ! ?v" ?a zeroRequestVoteReply] h by simp
  note f = RequestVote_fields [of now "nodes s ! ?v" ?a zeroRequestVoteReply, unfolded h fst_conv]
    and vf = RequestVote_votedFor [of now "nodes s ! ?v" ?a zeroRequestVoteReply, unfolded h fst_conv]
    and rt = RequestVote_reply_term [of now "nodes s ! ?v" ?a zeroRequestVoteReply, unfolded h snd_conv]
  have stored: "storedVote rf' = (currentTerm rf', votedFor rf')"
    using f(14) by (simp add: persisted_def storedVote_def)
  have inv1: "election_inv ?s1"
  proof (cases "VoteGranted reply")
    case True
    note n = inv_node [OF inv v]
    have free: "freeToVote (nodes s ! ?v) ?a" using True gr by simp
    show ?thesis
    proof (rule inv_give_vote [OF inv v, of "CandidateId ?a" "rvTerm ?a" rf'])
      show "role rf' = 1 \<Longrightarrow> (rvTerm ?a, ?v, int ?v) \<in> insert (rvTerm ?a, ?v, CandidateId ?a) (votes s) \<and>
          voteCnt rf' \<le> 1 + int (card (counted (rvnet s) ?v (rvTerm ?a)))"
        using n f free by (auto simp: freeToVote_def node_inv_def split: if_splits)
      show "role rf' = 2 \<Longrightarrow> (rvTerm ?a, ?v) \<in> led s"
        using n f free by (auto simp: freeToVote_def node_inv_def split: if_splits)
    qed (use True gr cand care free f vf stored in \<open>auto simp: freeToVote_def\<close>)
  next
    case False
    have "vote_step (nodes s ! ?v) rf'"
      using False gr f vf stored by (auto simp: vote_step_def max_def)
    then show ?thesis using False by (intro inv_vote_step [OF inv v]) auto
  qed
  have "election_inv (?s1\<lparr>rvnet := (rvnet s)[p := ?call']\<rparr>)"
  proof (rule inv_call_change [OF inv1, of p ?call'])
    show "(rvTerm (rvArgs ?call'), rvDst ?call', int (rvSrc ?call')) \<in> votes ?s1 \<and>
        rvrTerm (the (rvReply ?call')) = rvTerm (rvArgs ?call')" if "grants ?call'"
    proof (cases "rvReply ?call")
      case None
      with that gr have "freeToVote (nodes s ! ?v) ?a" "VoteGranted reply" by (simp_all add: grants_def)
      with None rt cand show ?thesis by (auto simp: freeToVote_def)
    next
      case (Some r)
      with that have "grants ?call" by (simp add: grants_def)
      with c Some show ?thesis by (auto simp: call_inv_def)
    qed
  qed (use p in \<open>auto simp: grants_def\<close>)
  moreover have "doVote p now s = ?s1\<lparr>rvnet := (rvnet s)[p := ?call']\<rparr>"
    by (simp add: doVote_def Let_def h setNode_def)
  ultimately show ?thesis by simp
qed

lemma counted_voters:
  assumes inv: "election_inv s"
  shows "counted (rvnet s) i t \<subseteq> voters s t i - {i}"
  using inv_call [OF inv] by (auto simp: counted_def voters_def call_inv_def)

text \<open>Counting a vote: the destination was not counted before, because calls have distinct keys.\<close>

lemma counted_handle:
  assumes inv: "election_inv s" and p: "p < length (rvnet s)"
    and c: "\<not> rvHandled (rvnet s ! p)" "grants (rvnet s ! p)" "rvSrc (rvnet s ! p) = i"
      "rvTerm (rvArgs (rvnet s ! p)) = t"
  defines "net' \<equiv> (rvnet s)[p := (rvnet s ! p)\<lparr>rvHandled := True\<rparr>]"
  shows "card (counted (rvnet s) i t) + 1 \<le> card (counted net' i t)"
    and "rvDst (rvnet s ! p) \<notin> counted (rvnet s) i t"
proof -
  let ?d = "rvDst (rvnet s ! p)"
  show new: "?d \<notin> counted (rvnet s) i t"
  proof
    assume "?d \<in> counted (rvnet s) i t"
    then obtain q where q: "q < length (rvnet s)" "rvHandled (rvnet s ! q)"
      "callKey (rvnet s ! q) = callKey (rvnet s ! p)"
      using c by (auto simp: counted_def callKey_def in_set_conv_nth)
    then have "q = p" using inv_keys [OF inv] p by (auto simp: distinct_conv_nth)
    with q c show False by simp
  qed
  have "insert ?d (counted (rvnet s) i t) \<subseteq> counted net' i t"
  proof -
    have "counted (rvnet s) i t \<subseteq> counted net' i t"
      unfolding net'_def by (rule counted_update [OF p]) (auto simp: callKey_def grants_def)
    moreover have "(rvnet s ! p)\<lparr>rvHandled := True\<rparr> \<in> set net'"
      unfolding net'_def using p by (rule set_update_memI)
    then have "?d \<in> counted net' i t"
      unfolding counted_def using c
      by (intro image_eqI [of _ _ "(rvnet s ! p)\<lparr>rvHandled := True\<rparr>"]) (auto simp: grants_def)
    ultimately show ?thesis by simp
  qed
  then show "card (counted (rvnet s) i t) + 1 \<le> card (counted net' i t)"
    using card_mono [of "counted net' i t" "insert ?d (counted (rvnet s) i t)"] new by simp
qed


lemma response_cases:
  obtains (quiet) "snd (RequestVoteResponseHandler rf args reply) = False"
      "vote_step rf (fst (RequestVoteResponseHandler rf args reply))"
  | (vote) "RequestVoteResponseHandler rf args reply =
        (rf\<lparr>voteCnt := voteCnt rf + 1\<rparr>, peers rf div 2 + 1 \<le> voteCnt rf + 1)"
      "role rf = 1" "VoteGranted reply" "currentTerm rf = rvrTerm reply" "currentTerm rf \<le> rvTerm args"
proof (cases "role rf = 1 \<and> VoteGranted reply \<and> currentTerm rf = rvrTerm reply \<and> currentTerm rf \<le> rvTerm args")
  case True
  then show thesis by (intro vote) (auto simp: RequestVoteResponseHandler_def)
next
  case False
  then show thesis by (intro quiet) (auto simp: RequestVoteResponseHandler_def)
qed

lemma inv_doVoteReply:
  assumes inv: "election_inv s" and p: "p < length (rvnet s)" and nh: "\<not> rvHandled (rvnet s ! p)"
    and r: "rvReply (rvnet s ! p) = Some reply"
  shows "election_inv (doVoteReply p reply s)"
proof -
  let ?call = "rvnet s ! p"
  let ?i = "rvSrc ?call" and ?a = "rvArgs ?call"
  let ?call' = "?call\<lparr>rvHandled := True\<rparr>"
  have c: "call_inv s ?call" using inv_call [OF inv] p by simp
  then have i: "?i < length (nodes s)" by (simp add: call_inv_def)
  note n = inv_node [OF inv i]
  have c': "call_inv s ?call'" using c by (simp add: call_inv_def grants_def)
  show ?thesis
  proof (cases "nodes s ! ?i" ?a reply rule: response_cases)
    case quiet
    let ?s1 = "setNode ?i (fst (RequestVoteResponseHandler (nodes s ! ?i) ?a reply)) s"
    have inv1: "election_inv ?s1"
      using quiet(2) by (intro inv_vote_step [OF inv i]) auto
    have "election_inv (?s1\<lparr>rvnet := (rvnet s)[p := ?call']\<rparr>)"
      by (rule inv_call_change [OF inv1, of p ?call'])
         (use p c in \<open>auto simp: grants_def call_inv_def\<close>)
    with quiet(1) show ?thesis
      by (simp add: doVoteReply_def setNode_def Let_def case_prod_beta)
  next
    case vote
    let ?rf = "nodes s ! ?i"
    let ?net' = "(rvnet s)[p := ?call']"
    let ?s' = "doVoteReply p reply s"
    have g: "grants ?call" using vote(3) r by (simp add: grants_def)
    have t: "rvTerm ?a = currentTerm ?rf"
      using n c vote(5) by (simp add: call_inv_def node_inv_def)
    note h = counted_handle [OF inv p nh g refl t]
    have cnt: "voteCnt ?rf \<le> 1 + int (card (counted (rvnet s) ?i (currentTerm ?rf)))"
      and own: "(currentTerm ?rf, ?i, int ?i) \<in> votes s" and np: "peers ?rf = int (length (nodes s))"
      using n vote(2) by (simp_all add: node_inv_def)
    have el: "elected s (currentTerm ?rf) ?i" if "peers ?rf div 2 + 1 \<le> voteCnt ?rf + 1"
    proof -
      let ?S = "insert ?i (insert (rvDst ?call) (counted (rvnet s) ?i (currentTerm ?rf)))"
      have "?S \<subseteq> voters s (currentTerm ?rf) ?i"
        using counted_voters [OF inv] own c g t by (auto simp: voters_def call_inv_def)
      then have "card ?S \<le> card (voters s (currentTerm ?rf) ?i)"
        using finite_voters [OF inv] by (intro card_mono) (auto intro: finite_subset)
      moreover have "card ?S = card (counted (rvnet s) ?i (currentTerm ?rf)) + 2"
        using h(2) c counted_voters [OF inv, of ?i] by (auto simp: call_inv_def card_insert_if)
      ultimately show ?thesis using that cnt np i by (simp add: elected_def)
    qed
    have s': "nodes ?s' = (nodes s)[?i := ?rf\<lparr>voteCnt := voteCnt ?rf + 1\<rparr>]" "rvnet ?s' = ?net'"
      "votes ?s' = votes s" "led ?s' = led s"
      "set (winning ?s') \<subseteq> set (winning s) \<union> (if peers ?rf div 2 + 1 \<le> voteCnt ?rf + 1 then {(?i, currentTerm ?rf)} else {})"
      by (auto simp: doVoteReply_def Let_def vote(1))
    have st: "storedVote (?rf\<lparr>voteCnt := voteCnt ?rf + 1\<rparr>) = storedVote ?rf"
      by (simp add: storedVote_def)
    have le: "fst (storedVote (nodes s ! j)) \<le> fst (storedVote (nodes ?s' ! j))" for j
      unfolding s'(1) by (rule stored_update [OF i]) (simp only: st order_refl)
    show ?thesis
    proof (rule inv_peer_change [OF inv i s'(1)])
      have "vote_kept s ?i tv \<Longrightarrow> vote_kept ?s' ?i tv" for tv using s' by (simp add: vote_kept_def)
      then show "node_inv ?s' ?i (?rf\<lparr>voteCnt := voteCnt ?rf + 1\<rparr>)"
        using n s' cnt own h(1) st vote(2) by (simp add: node_inv_def)
      show "counted (rvnet s) j u \<subseteq> counted (rvnet ?s') j u" for j u
        unfolding s' by (rule counted_update [OF p]) (auto simp: callKey_def grants_def)
      show "call_inv ?s' d" if "d \<in> set (rvnet ?s')" for d
      proof -
        have "d = ?call' \<or> d \<in> set (rvnet s)"
          using that set_update_subset_insert unfolding s' by fastforce
        then have "call_inv s d" using c' inv_call [OF inv] by blast
        then show ?thesis
          by (rule call_inv_cong [OF _ _ _ le]) (simp_all add: s'(1,3))
      qed
      show "distinct (map callKey (rvnet ?s'))"
        unfolding s'(2) by (rule distinct_map_update [OF inv_keys [OF inv] p]) (simp add: callKey_def)
    qed (use s' st el inv_once [OF inv] inv_winning [OF inv] in \<open>auto split: if_splits\<close>)
  qed
qed


lemma inv_doLead:
  assumes inv: "election_inv s" and k: "k < length (winning s)" and t: "doLead k s = Some s'"
    and care: "currentTerm (nodes s ! fst (winning s ! k)) = snd (winning s ! k)"
  shows "election_inv s'"
proof -
  let ?i = "fst (winning s ! k)"
  let ?rf = "nodes s ! ?i"
  have "(?i, currentTerm ?rf) \<in> set (winning s)" using k care by (simp add: nth_mem)
  then have el: "elected s (currentTerm ?rf) ?i" by (rule inv_winning [OF inv])
  then have i: "?i < length (nodes s)" by (simp add: elected_def)
  note n = inv_node [OF inv i]
  have bounds: "0 \<le> me ?rf" "me ?rf < peers ?rf" using n i by (simp_all add: node_inv_def)
  from t obtain rf where rf: "toLeader ?rf = Inr rf"
    and s': "s' = (setNode ?i rf s)\<lparr>winning := take k (winning s) @ drop (Suc k) (winning s),
                   led := insert (currentTerm rf, ?i) (led s)\<rparr>"
    by (auto simp: doLead_def Let_def split: sum.splits)
  have f: "me rf = me ?rf" "peers rf = peers ?rf" "currentTerm rf = currentTerm ?rf" "role rf = 2"
    "storedVote rf = (currentTerm rf, -1)" "votedFor rf = -1"
    using rf toLeader_ok [OF bounds] by auto
  have st: "fst (storedVote ?rf) \<le> fst (storedVote rf)" using n f by (simp add: node_inv_def)
  show ?thesis
  proof (rule inv_peer_change [OF inv i, of s' rf])
    have "vote_kept s ?i (currentTerm ?rf, votedFor ?rf)" using n by (simp add: node_inv_def)
    then have "vote_kept s' ?i (currentTerm rf, -1)" using f s' by (auto simp: vote_kept_def)
    then show "node_inv s' ?i rf" using n f s' by (simp add: node_inv_def)
    show "call_inv s' d" if "d \<in> set (rvnet s')" for d
      using that s' stored_update [OF i st] by (intro call_inv_cong [OF inv_call [OF inv]]) auto
    show "distinct (map callKey (rvnet s'))" using s' inv_keys [OF inv] by simp
  qed (use s' st f el inv_once [OF inv] inv_winning [OF inv] in \<open>auto dest: in_set_takeD in_set_dropD\<close>)
qed

lemma inv_doRestart:
  assumes inv: "election_inv s" and i: "i < length (nodes s)" and t: "doRestart i now rnd s = Some s'"
  shows "election_inv s'"
proof -
  let ?rf = "nodes s ! i"
  note n = inv_node [OF inv i]
  from t obtain rf where rf: "Make (int (length (nodes s))) (int i) (persister ?rf) now rnd = Some rf"
    and s': "s' = (setNode i rf s)\<lparr>epoch := (epoch s)[i := epoch s ! i + 1],
                      winning := filter (\<lambda>(j, t). j \<noteq> i) (winning s)\<rparr>"
    by (auto simp: doRestart_def split: option.splits)
  note f = Make_vote [OF rf]
  show ?thesis
  proof (rule inv_peer_change [OF inv i, of s' rf])
    have "vote_kept s i (storedVote ?rf)" using n by (simp add: node_inv_def)
    then have "vote_kept s' i (storedVote ?rf)" using s' by (simp add: vote_kept_def)
    moreover have "currentTerm rf = fst (storedVote ?rf)" using f(1) by (metis fst_conv)
    ultimately show "node_inv s' i rf" using f s' by (simp add: node_inv_def)
    show "call_inv s' d" if "d \<in> set (rvnet s')" for d
      using that s' stored_update [OF i, of rf] f(2)
      by (intro call_inv_cong [OF inv_call [OF inv]]) auto
    show "distinct (map callKey (rvnet s'))" using s' inv_keys [OF inv] by simp
  qed (use s' f inv_once [OF inv] inv_winning [OF inv] in auto)
qed

lemma handleAppend_vote_step: "handleAppend now rf m = Inr (rf', r) \<Longrightarrow> vote_step rf rf'"
  by (auto simp: handleAppend_def rbind_eq_Inr split: outgoing.splits prod.splits
      intro: AppendEntriesRequest_vote_step InstallSnapshotRequest_vote_step)

lemma handleAppendReply_vote_step: "handleAppendReply rf m r = Inr rf' \<Longrightarrow> vote_step rf rf'"
  by (auto simp: handleAppendReply_def split: outgoing.splits
      intro: AppendEntriesResponse_vote_step InstallSnapshotResponse_vote_step)

lemma election_inv_cong:
  assumes "election_inv s" "nodes s' = nodes s" "rvnet s' = rvnet s" "votes s' = votes s" "led s' = led s"
    "winning s' = winning s"
  shows "election_inv s'"
  using assms
  by (simp add: election_inv_def node_inv_def vote_kept_def call_inv_def vote_once_def elected_def voters_def)

lemma setNode_inv:
  assumes inv: "election_inv s" and v: "vote_step (nodes s ! i) rf'"
  shows "election_inv (setNode i rf' s)"
proof (cases "i < length (nodes s)")
  case True
  with v show ?thesis by (intro inv_vote_step [OF inv]) auto
next
  case False
  then show ?thesis by (intro election_inv_cong [OF inv]) (simp_all add: list_update_beyond)
qed

lemma update_ok_inv:
  assumes inv: "election_inv s" and t: "update_ok s i m = Some s'"
    and v: "\<And>rf'. m = Inr rf' \<Longrightarrow> vote_step (nodes s ! i) rf'"
  shows "election_inv s'"
  using t v by (auto simp: update_ok_def split: sum.splits intro: setNode_inv [OF inv])

lemma inv_doAppend:
  assumes inv: "election_inv s" and t: "doAppend p now s = Some s'"
  shows "election_inv s'"
proof -
  let ?call = "aenet s ! p"
  from t obtain rf' r c' where h: "handleAppend now (nodes s ! aeDst ?call) (aeMsg ?call) = Inr (rf', r)"
    and s': "s' = (setNode (aeDst ?call) rf' s)\<lparr>aenet := (aenet s)[p := c']\<rparr>"
    by (auto simp: doAppend_def Let_def split: sum.splits prod.splits)
  have "election_inv (setNode (aeDst ?call) rf' s)"
    by (rule setNode_inv [OF inv handleAppend_vote_step [OF h]])
  then show ?thesis by (rule election_inv_cong) (simp_all add: s')
qed

lemma election_inv_step:
  assumes inv: "election_inv s" and t: "cexec s e = Some s'" and care: "careful s e"
  shows "election_inv s'"
proof (cases e)
  case (EvCandidate i now rnd)
  with t inv show ?thesis by (auto split: if_splits intro: inv_doCandidate)
next
  case (EvVote p now)
  with t care inv show ?thesis by (auto split: if_splits intro: inv_doVote)
next
  case (EvLoseVote p)
  with t have p: "p < length (rvnet s)" "\<not> rvHandled (rvnet s ! p)"
    and s': "s' = s\<lparr>rvnet := (rvnet s)[p := (rvnet s ! p)\<lparr>rvReply := Some zeroRequestVoteReply\<rparr>]\<rparr>"
    by (auto split: if_splits)
  show ?thesis
    by (rule inv_call_change [OF inv p(1), of "(rvnet s ! p)\<lparr>rvReply := Some zeroRequestVoteReply\<rparr>"])
       (use p s' in \<open>auto simp: grants_def zeroRequestVoteReply_def\<close>)
next
  case (EvVoteReply p)
  with t inv show ?thesis by (auto split: if_splits intro: inv_doVoteReply)
next
  case (EvLead k)
  with t care inv show ?thesis by (auto split: if_splits intro: inv_doLead)
next
  case (EvAppend p now)
  with t inv show ?thesis by (auto split: if_splits intro: inv_doAppend)
next
  case (EvLoseAppend p)
  with t have "\<exists>n. s' = s\<lparr>aenet := n\<rparr>" by (auto split: if_splits)
  then show ?thesis by (auto intro: election_inv_cong [OF inv])
next
  case (EvAppendReply p)
  with t obtain r u n where u: "update_ok s (aeSrc (aenet s ! p))
      (handleAppendReply (nodes s ! aeSrc (aenet s ! p)) (aeMsg (aenet s ! p)) r) = Some u"
    and s': "s' = u\<lparr>aenet := n\<rparr>"
    by (auto split: if_splits simp: Option.bind_eq_Some_conv)
  have "election_inv u" by (rule update_ok_inv [OF inv u handleAppendReply_vote_step])
  then show ?thesis by (rule election_inv_cong) (simp_all add: s')
next
  case (EvCommit i)
  with t show ?thesis by (auto split: if_splits intro: update_ok_inv [OF inv] leaderUpdate_vote_step)
next
  case (EvSend i)
  with t have "\<exists>n. s' = s\<lparr>aenet := n\<rparr>" by (auto simp: doSend_def split: if_splits sum.splits)
  then show ?thesis by (auto intro: election_inv_cong [OF inv])
next
  case (EvStart i c)
  with t show ?thesis
    by (auto split: if_splits simp: rbind_eq_Inr intro!: update_ok_inv [OF inv] intro: Start_vote_step)
next
  case (EvSnapshot i idx snap)
  with t show ?thesis
    by (auto split: if_splits simp: Raft_Snapshot_def intro!: update_ok_inv [OF inv] intro: installCur_vote_step)
next
  case (EvRestart i now rnd)
  with t inv show ?thesis by (auto split: if_splits intro: inv_doRestart)
qed

lemma newNode_eq: "newNode n i = newRaft (int n) (int i) MakePersister 0 0"
  by (simp add: newNode_def Make_fresh)

lemma election_inv_new: "election_inv (newCluster n)"
  by (auto simp: election_inv_def newCluster_def node_inv_def newNode_eq newRaft_def vote_kept_def
      vote_once_def storedVote_def MakePersister_def ReadRaftState_def decodeState_def)

interpretation election: transition_system isNewCluster cstep election_inv
proof
  show "isNewCluster s \<Longrightarrow> election_inv s" for s :: "'c cluster"
    unfolding isNewCluster_def using election_inv_new by metis
  show "election_inv s \<Longrightarrow> cstep s t \<Longrightarrow> election_inv t" for s t :: "'c cluster"
    using election_inv_step by (auto simp: cstep_def)
qed

text \<open>C2: Election safety. In every state that a cluster can reach by careful events -- with any
  interleaving, any delay or loss of requests and replies and any crashes -- at most one
  peer believes to lead a given term.\<close>

theorem election_safety:
  assumes "reach isNewCluster cstep s" "leads s i t" "leads s j t"
  shows "i = j"
  using election.inv_reach [OF assms(1)] assms(2,3) leads_elected elected_unique by blast

lemma reach_crunP:
  "reach isNewCluster cstep s \<Longrightarrow> crunP careful s es = Some t \<Longrightarrow> reach isNewCluster cstep t"
proof (induction es arbitrary: s)
  case (Cons e es)
  from Cons.prems(2) obtain u where u: "careful s e" "cexec s e = Some u" "crunP careful u es = Some t"
    by (auto split: if_splits simp: Option.bind_eq_Some_conv)
  then have "cstep s u" by (auto simp: cstep_def)
  with Cons.prems(1) have "reach isNewCluster cstep u" by (rule reach_step)
  with u(3) show ?case by (rule Cons.IH [rotated])
qed simp

lemma reach_new: "reach isNewCluster cstep (newCluster n)"
  by (rule reach_init) (simp add: isNewCluster_def newCluster_def)

text \<open>Peer 0 stands, is voted for by peer 1 and takes office.\<close>

definition electionRun :: "nat event list" where
  "electionRun = [EvCandidate 0 300 0, EvVote 0 310, EvVoteReply 0, EvLead 0]"

theorem election_safety_witness:
  "\<exists>s. reach isNewCluster cstep s \<and> crunP careful (newCluster 3) electionRun = Some s \<and>
     {j. leads s j 1} = {0}"
proof -
  have "case crunP careful (newCluster 3) electionRun of None \<Rightarrow> False | Some s \<Rightarrow> leads s 0 1"
    by code_simp
  then obtain s where s: "crunP careful (newCluster 3) electionRun = Some s" "leads s 0 1"
    using case_option_ex by blast
  have r: "reach isNewCluster cstep s" by (rule reach_crunP [OF reach_new s(1)])
  with s show ?thesis using election_safety [OF r s(2)] by blast
qed

text \<open>
  The behaviours that \<open>careful\<close> excludes. In the first run peer 0 wins term 1 with the vote
  of peer 2; taking office clears its own vote, so it grants the vote that peer 1 asks for
  in the same term. In the second run peer 0 has won term 1, but its next election timeout
  fires before \<open>toLeader\<close> runs, and it takes office in term 2 without any other vote.
\<close>

definition leaderVotesRun :: "nat event list" where
  "leaderVotesRun = [EvCandidate 0 300 0, EvCandidate 1 300 0, EvVote 1 310, EvVoteReply 1, EvLead 0,
     EvVote 2 320, EvVoteReply 2, EvLead 0]"

definition lateOfficeRun :: "nat event list" where
  "lateOfficeRun = [EvCandidate 0 300 0, EvVote 0 310, EvVoteReply 0, EvCandidate 0 700 0, EvLead 0,
     EvCandidate 2 700 0, EvCandidate 2 1100 0, EvVote 7 1110, EvVoteReply 7, EvLead 0]"

fun careful_lead :: "'c cluster \<Rightarrow> 'c event \<Rightarrow> bool" where
  "careful_lead s (EvVote p now) \<longleftrightarrow> True"
| "careful_lead s e \<longleftrightarrow> careful s e"

fun careful_vote :: "'c cluster \<Rightarrow> 'c event \<Rightarrow> bool" where
  "careful_vote s (EvLead k) \<longleftrightarrow> True"
| "careful_vote s e \<longleftrightarrow> careful s e"

text \<open>C38: A leader can vote for a rival in its own term: \<open>toLeader\<close> resets \<open>votedFor\<close> and the
  leader branch of the vote handler does not return, so a run in which every call of
  \<open>toLeader\<close> finds its candidacy ends with two leaders of one term.\<close>

theorem leader_votes_two_leaders:
  "\<exists>s. crunP careful_lead (newCluster 3) leaderVotesRun = Some s \<and> leads s 0 1 \<and> leads s 1 1"
proof -
  have "case crunP careful_lead (newCluster 3) leaderVotesRun of None \<Rightarrow> False
      | Some s \<Rightarrow> leads s 0 1 \<and> leads s 1 1"
    by code_simp
  then show ?thesis by (rule case_option_ex)
qed

text \<open>C39: Taking office late: the vote handler releases the lock before it calls \<open>toLeader\<close>, so a
  peer can take office in a term it has not won, and a run in which no leader votes ends
  with two leaders of one term.\<close>

theorem late_office_two_leaders:
  "\<exists>s. crunP careful_vote (newCluster 3) lateOfficeRun = Some s \<and> leads s 0 2 \<and> leads s 2 2"
proof -
  have "case crunP careful_vote (newCluster 3) lateOfficeRun of None \<Rightarrow> False
      | Some s \<Rightarrow> leads s 0 2 \<and> leads s 2 2"
    by code_simp
  then show ?thesis by (rule case_option_ex)
qed

end
