(* ===== verification/RaftCatchUp.thy ===== *)
theory RaftCatchUp
  imports RaftPeer
begin

text \<open>
  How a leader finds the place where a follower's log departs from its own: AppendEntries
  requests are refused until one fits. Each refusal moves the leader's next index for the
  follower strictly down, so that after at most as many rounds as the leader's log has
  entries the follower has caught up, or the leader falls back to sending its snapshot.
\<close>

section \<open>The exchange\<close>

datatype catchUpResult = CaughtUp | NeedsSnapshot | OutOfRounds

text \<open>
  Rounds of \<open>leaderSendAppendEntriesRPC\<close>, \<open>AppendEntriesRequestHandler\<close> and
  \<open>AppendEntriesResponseHandler\<close> between one leader and one follower.
\<close>

fun catchUp :: "nat \<Rightarrow> int \<Rightarrow> 'c Raft \<Rightarrow> 'c Raft \<Rightarrow> ('c Raft \<times> 'c Raft \<times> catchUpResult) res" where
  "catchUp 0 now l f = Inr (l, f, OutOfRounds)"
| "catchUp (Suc n) now l f =
    rbind (prepareRPC l (me f)) (\<lambda>m.
    case m of
      SendInstallSnapshot a \<Rightarrow> Inr (l, f, NeedsSnapshot)
    | SendAppendEntries a \<Rightarrow>
        rbind (AppendEntriesRequestHandler now f a zeroAppendEntriesReply) (\<lambda>(f', reply).
        rbind (AppendEntriesResponseHandler l a reply) (\<lambda>l'.
        if Success reply then Inr (l', f', CaughtUp) else catchUp n now l' f')))"

text \<open>
  What the log matching and leader completeness properties of Raft say of a leader and a
  follower: they agree on what the follower has committed, an entry of the follower has
  the term of a later entry of the leader only if the leader has it too, and up to an index
  under which both hold an entry of the same term they hold the same entries. Theory \<open>RaftSafety\<close>
  shows that leaders and followers of a cluster are related in this way.
\<close>

definition compatible :: "'c Raft \<Rightarrow> 'c Raft \<Rightarrow> bool" where
  "compatible l f =
    ((\<forall>i e e'. i \<le> commitIndex f \<longrightarrow> entry_at l i = Some e \<longrightarrow> entry_at f i = Some e' \<longrightarrow> e = e') \<and>
     (\<forall>e. snapshotIndex l \<le> commitIndex f \<longrightarrow> entry_at f (snapshotIndex l) = Some e \<longrightarrow> Term e = snapshotTerm l) \<and>
     (\<forall>p q e e'. p < q \<longrightarrow> snapshotIndex l \<le> p \<longrightarrow> entry_at f p = Some e \<longrightarrow> entry_at l q = Some e' \<longrightarrow>
        Term e = Term e' \<longrightarrow> term_at l p = Term e) \<and>
     (\<forall>p q e e' d d'. p \<le> q \<longrightarrow> entry_at l q = Some e \<longrightarrow> entry_at f q = Some e' \<longrightarrow> Term e = Term e' \<longrightarrow>
        entry_at l p = Some d \<longrightarrow> entry_at f p = Some d' \<longrightarrow> d = d'))"

definition nextFor :: "'c Raft \<Rightarrow> 'c Raft \<Rightarrow> int" where
  "nextFor l f = nextIndex l ! nat (me f)"

definition pair_ok :: "'c Raft \<Rightarrow> 'c Raft \<Rightarrow> bool" where
  "pair_ok l f =
    (leader_ok l \<and> peer_ok f \<and> compatible l f \<and> 0 \<le> me f \<and> me f < peers l \<and>
     currentTerm f \<le> currentTerm l \<and> 0 \<le> nextFor l f \<and> (nextFor l f = 0 \<longrightarrow> snapshotIndex f = -1))"

lemma compatibleD:
  assumes "compatible l f"
  shows compatible_committed:
      "\<lbrakk>i \<le> commitIndex f; entry_at l i = Some e; entry_at f i = Some e'\<rbrakk> \<Longrightarrow> e = e'"
    and compatible_snapshot:
      "\<lbrakk>snapshotIndex l \<le> commitIndex f; entry_at f (snapshotIndex l) = Some e\<rbrakk> \<Longrightarrow> Term e = snapshotTerm l"
    and compatible_later:
      "\<lbrakk>p < q; snapshotIndex l \<le> p; entry_at f p = Some e; entry_at l q = Some e'; Term e = Term e'\<rbrakk>
        \<Longrightarrow> term_at l p = Term e"
    and compatible_matching:
      "\<lbrakk>p \<le> q; entry_at l q = Some e; entry_at f q = Some e'; Term e = Term e'; entry_at l p = Some d; entry_at f p = Some d'\<rbrakk>
        \<Longrightarrow> d = d'"
  using assms unfolding compatible_def by blast+

section \<open>One refused round\<close>

lemma entry_at_nth:
  "\<lbrakk>snapshotIndex rf < i; i \<le> lastIndex rf\<rbrakk> \<Longrightarrow>
     entry_at rf i = Some (log rf ! nat (i - snapshotIndex rf - 1))"
  by (simp add: entry_at_def)

lemma cutLog_nth:
  assumes "snapshotIndex rf \<le> i" "k < length (cutLog rf i)"
  shows "entry_at rf (i + 1 + int k) = Some (cutLog rf i ! k)"
proof -
  have "nat (i + 1 + int k - snapshotIndex rf - 1) = nat (i - snapshotIndex rf) + k" using assms by simp
  with assms show ?thesis by (auto simp: cutLog_def entry_at_def lastIndex_def)
qed

text \<open>The request a leader sends a follower agrees with what the follower has committed.\<close>

lemma sent_agrees:
  assumes ok: "peer_ok f" "compatible l f"
    and a: "Entries a = cutLog l (PrevLogIndex a)" "PrevLogTerm a = term_at l (PrevLogIndex a)"
      "snapshotIndex l \<le> PrevLogIndex a" "PrevLogIndex a \<le> lastIndex l"
  shows "agrees_committed f a"
  unfolding agrees_committed_def
proof (intro conjI allI impI)
  assume p: "snapshotIndex f < PrevLogIndex a \<and> PrevLogIndex a \<le> commitIndex f"
  then have e: "entry_at f (PrevLogIndex a) = Some (log f ! prevPos f a)"
    using ok(1) by (simp add: entry_at_def prevPos_def peer_ok_def)
  show "Term (log f ! prevPos f a) = PrevLogTerm a"
  proof (cases "PrevLogIndex a = snapshotIndex l")
    case True
    with compatible_snapshot [OF ok(2)] p e show ?thesis by (simp add: a(2) term_at_def)
  next
    case False
    then obtain e' where "entry_at l (PrevLogIndex a) = Some e'"
      using a by (simp add: entry_at_def)
    with False p compatible_committed [OF ok(2) _ this e] show ?thesis by (simp add: a(2) term_at_def)
  qed
next
  fix k assume k: "k < length (Entries a)"
    and i: "snapshotIndex f < PrevLogIndex a + 1 + int k \<and> PrevLogIndex a + 1 + int k \<le> commitIndex f"
  have el: "entry_at l (PrevLogIndex a + 1 + int k) = Some (Entries a ! k)"
    using cutLog_nth [OF a(3), of k] k a(1) by simp
  have ef: "entry_at f (PrevLogIndex a + 1 + int k) = Some (log f ! nat (PrevLogIndex a + int k - snapshotIndex f))"
    using i ok(1) by (simp add: entry_at_def peer_ok_def algebra_simps)
  show "log f ! nat (PrevLogIndex a + int k - snapshotIndex f) = Entries a ! k"
    using i compatible_committed [OF ok(2) _ el ef] by simp
qed

text \<open>A refusal names the follower's term at the index, or that its log is too short.\<close>

lemma refused_reply:
  assumes ok: "log_ok f" and rej: "\<not> accepts f a"
  obtains reply' where "followerHandleLog f a reply = Inr (f\<lparr>log := take (prevPos f a) (log f)\<rparr>, reply')"
    "\<not> Success reply'" "aerTerm reply' = aerTerm reply" "ServerId reply' = ServerId reply"
    "snapshotIndex f < XIndex reply'" "XIndex reply' \<le> PrevLogIndex a"
    "XTerm reply' = -1 \<or> (\<exists>e. entry_at f (PrevLogIndex a) = Some e \<and> Term e = XTerm reply' \<and> Term e \<noteq> PrevLogTerm a)"
proof (cases "lastIndex f < PrevLogIndex a")
  case True
  then have "length (log f) \<le> prevPos f a" by (simp add: prevPos_def lastIndex_def)
  with True ok snapshot_le_lastIndex [of f] show thesis
    by (intro that [of "reply\<lparr>XTerm := -1, XIndex := lastIndex f + 1, XLen := len (log f), Success := False\<rparr>"])
       (auto simp: followerHandleLog_short)
next
  case False
  with rej have prev: "snapshotIndex f < PrevLogIndex a" "PrevLogIndex a \<le> lastIndex f"
    and c: "Term (log f ! prevPos f a) \<noteq> PrevLogTerm a"
    by (auto simp: accepts_def)
  obtain j where j: "j \<le> prevPos f a" and
    h: "followerHandleLog f a reply =
      Inr (f\<lparr>log := take (prevPos f a) (log f)\<rparr>,
           reply\<lparr>XTerm := Term (log f ! prevPos f a), XIndex := snapshotIndex f + 1 + int j,
                 XLen := int (prevPos f a), Success := False\<rparr>)"
    using followerHandleLog_conflict [OF ok prev c] by metis
  have "int (prevPos f a) = PrevLogIndex a - snapshotIndex f - 1" using prev by (simp add: prevPos_def)
  moreover have "entry_at f (PrevLogIndex a) = Some (log f ! prevPos f a)"
    using prev by (simp add: entry_at_def prevPos_def)
  ultimately show thesis using j c by (intro that [OF h]) auto
qed

text \<open>The leader's reaction: the next index goes down, strictly, and not below the follower's
  snapshot unless to an index the leader holds.\<close>

lemma backs_off:
  assumes ok: "leader_ok l" "compatible l f" and i: "0 \<le> ServerId reply" "ServerId reply < peers l"
    and a: "PrevLogIndex a = nextIndex l ! nat (ServerId reply) - 1" "PrevLogTerm a = term_at l (PrevLogIndex a)"
      "snapshotIndex l \<le> PrevLogIndex a"
    and r: "\<not> Success reply" "snapshotIndex f < XIndex reply" "XIndex reply \<le> PrevLogIndex a"
      "XTerm reply = -1 \<or> (\<exists>e. entry_at f (PrevLogIndex a) = Some e \<and> Term e = XTerm reply \<and> Term e \<noteq> PrevLogTerm a)"
  obtains nx where "leaderHandleLog l a reply = Inr (l\<lparr>nextIndex := (nextIndex l)[nat (ServerId reply) := nx]\<rparr>)"
    "nx \<le> PrevLogIndex a" "snapshotIndex f < nx \<or> 0 < nx"
proof -
  let ?i = "nat (ServerId reply)"
  have len: "length (nextIndex l) = nat (peers l)" using ok(1) by (simp add: leader_ok_def next_ok_def)
  have nth: "go_nth (nextIndex l) (ServerId reply) = Inr (nextIndex l ! ?i)"
    and upd: "go_upd (nextIndex l) (ServerId reply) v = Inr ((nextIndex l)[?i := v])" for v
    using len i by (auto simp: go_nth_def go_upd_def)
  have lo: "log_ok l" using ok(1) by (simp add: leader_ok_def peer_ok_def)
  let ?is = "rev (indices 0 (len (log l)))"
  let ?q = "\<lambda>k. Term (log l ! nat k) = XTerm reply"
  have search: "for_break ?is (-1) (\<lambda>i. rbind (go_nth (log l) i) (\<lambda>e. Inr (Term e = XTerm reply))) =
      Inr (case find ?q ?is of None \<Rightarrow> -1 | Some k \<Rightarrow> k)"
    by (rule for_break_ok) (auto simp: go_nth_in len_def)
  show thesis
  proof (cases "XTerm reply = -1 \<or> find ?q ?is = None")
    case True
    then have "leaderHandleLog l a reply = Inr (l\<lparr>nextIndex := (nextIndex l)[?i := XIndex reply]\<rparr>)"
      using r(1) a(1) by (auto simp: leaderHandleLog_def nth upd search)
    with r show thesis by (intro that) auto
  next
    case False
    then obtain k where k: "find ?q ?is = Some k" by auto
    then have kk: "0 \<le> k" "k < int (length (log l))" "?q k"
      by (auto dest!: find_Some_in simp: len_def)
    let ?e = "log l ! nat k"
    have idx: "Index ?e = snapshotIndex l + 1 + k"
      using lo kk contiguous_nth [of "snapshotIndex l" "log l" "nat k"] by (simp add: log_ok_def nat_less_iff)
    then have el: "entry_at l (Index ?e) = Some ?e"
      using kk by (simp add: entry_at_def lastIndex_def)
    from r(4) False obtain e where e: "entry_at f (PrevLogIndex a) = Some e" "Term e = XTerm reply"
      "Term e \<noteq> PrevLogTerm a" by blast
    have "Index ?e < PrevLogIndex a"
    proof (rule ccontr)
      assume "\<not> Index ?e < PrevLogIndex a"
      then consider "Index ?e = PrevLogIndex a" | "PrevLogIndex a < Index ?e" by linarith
      then have "term_at l (PrevLogIndex a) = Term e"
      proof cases
        case 1
        with el idx kk e show ?thesis by (simp add: term_at_def)
      next
        case 2
        from compatible_later [OF ok(2) this a(3) e(1) el] e kk show ?thesis by simp
      qed
      with e(3) a(2) show False by simp
    qed
    moreover have "go_nth (log l) k = Inr ?e" "k \<noteq> -1" using kk by (auto simp: go_nth_def)
    then have "leaderHandleLog l a reply = Inr (l\<lparr>nextIndex := (nextIndex l)[?i := Index ?e + 1]\<rparr>)"
      using False r(1) a(1) by (simp add: leaderHandleLog_def nth upd search k)
    moreover have "0 < Index ?e + 1" using idx kk lo by (simp add: log_ok_def)
    ultimately show thesis by (intro that) auto
  qed
qed

section \<open>Rounds\<close>

text \<open>What the leader prepares for the follower.\<close>

lemma pair_prepare:
  assumes ok: "pair_ok l f"
  obtains (install) a where "prepareRPC l (me f) = Inr (SendInstallSnapshot a)" "nextFor l f \<le> snapshotIndex l"
  | (append) a where "prepareRPC l (me f) = Inr (SendAppendEntries a)" "snapshotIndex l < nextFor l f"
      "args_ok a" "aeTerm a = currentTerm l" "PrevLogIndex a = nextFor l f - 1"
      "PrevLogIndex a + len (Entries a) = lastIndex l" "prefix_fits f a" "agrees_committed f a"
      "PrevLogTerm a = term_at l (PrevLogIndex a)" "Entries a = cutLog l (PrevLogIndex a)"
proof -
  have lok: "leader_ok l" "peer_ok l" "log_ok l" "peer_ok f" "compatible l f"
    using ok by (simp_all add: pair_ok_def leader_ok_def peer_ok_def)
  have nth: "go_nth (nextIndex l) (me f) = Inr (nextFor l f)" and le: "nextFor l f \<le> lastIndex l + 1"
    using ok by (auto simp: pair_ok_def leader_ok_def next_ok_def go_nth_def nextFor_def)
  show thesis
  proof (cases "nextFor l f \<le> snapshotIndex l")
    case True
    with prepareRPC_snapshot [OF nth True] show thesis by (intro install)
  next
    case False
    let ?p = "nextFor l f - 1"
    let ?a = "\<lparr>aeTerm = currentTerm l, LeaderId = me l, PrevLogIndex = ?p, PrevLogTerm = term_at l ?p,
         Entries = cutLog l ?p, LeaderCommit = commitIndex l\<rparr>"
    have len: "?p + len (cutLog l ?p) = lastIndex l"
      using False le length_cutLog [of l ?p] by (simp add: len_def)
    have "args_ok ?a"
      using lok(3) False le cutLog_contiguous [OF lok(3), of ?p] by (simp add: args_ok_def log_ok_def)
    moreover have "prefix_fits f ?a" using ok by (simp add: prefix_fits_def pair_ok_def)
    moreover have "agrees_committed f ?a"
      using sent_agrees [OF lok(4,5), of ?a] False le by simp
    ultimately show thesis
      using prepareRPC_append [OF lok(3) nth] False le len by (intro append [of ?a]) simp_all
  qed
qed

text \<open>A follower that only loses uncommitted entries stays compatible.\<close>

lemma compatible_shrink:
  assumes "compatible l f" "commitIndex f' = commitIndex f"
    and "\<And>i e. entry_at f' i = Some e \<Longrightarrow> entry_at f i = Some e"
    and "log l' = log l" "snapshotIndex l' = snapshotIndex l" "snapshotTerm l' = snapshotTerm l"
  shows "compatible l' f'"
proof -
  have l: "entry_at l' i = entry_at l i" "term_at l' i = term_at l i" for i
    using assms(4-6) by (simp_all add: entry_at_def lastIndex_def term_at_def)
  show ?thesis
    unfolding compatible_def l assms(2,5,6)
    using compatibleD [OF assms(1)] assms(3) by blast
qed

lemma entry_at_take:
  assumes "log f' = take n (log f)" "snapshotIndex f' = snapshotIndex f" "entry_at f' i = Some e"
  shows "entry_at f i = Some e"
  using assms by (auto simp: entry_at_def lastIndex_def split: if_splits)

lemma refused_round:
  assumes ok: "pair_ok l f" and a: "args_ok a" "aeTerm a = currentTerm l" "PrevLogIndex a = nextFor l f - 1"
      "snapshotIndex l < nextFor l f" "agrees_committed f a" "PrevLogTerm a = term_at l (PrevLogIndex a)"
      "prefix_fits f a"
    and rej: "\<not> accepts f a"
  obtains f' l' reply where "AppendEntriesRequestHandler now f a zeroAppendEntriesReply = Inr (f', reply)"
    "\<not> Success reply" "AppendEntriesResponseHandler l a reply = Inr l'" "pair_ok l' f'" "me f' = me f"
    "nextFor l' f' < nextFor l f" "snapshotIndex l' = snapshotIndex l" "lastIndex l' = lastIndex l"
    "log l' = log l \<and> snapshotTerm l' = snapshotTerm l"
proof -
  have lok: "leader_ok l" "compatible l f" "peer_ok f" "log_ok f"
    and t: "\<not> aeTerm a < currentTerm f" and i: "0 \<le> me f" "me f < peers l"
    using ok a by (simp_all add: pair_ok_def peer_ok_def)
  let ?f1 = "(toFollower f (aeTerm a))\<lparr>lastHeartbeatTime := now\<rparr>"
  let ?r1 = "zeroAppendEntriesReply\<lparr>aerTerm := aeTerm a, Success := True, ServerId := me ?f1\<rparr>"
  have f1: "log_ok ?f1" "\<not> accepts ?f1 a" "prevPos ?f1 a = prevPos f a"
    using lok(4) rej by (simp_all add: log_ok_def accepts_def lastIndex_def prevPos_def)
  have e1: "entry_at ?f1 i = entry_at f i" for i by (rule entry_at_cong) simp_all
  obtain r where h: "followerHandleLog ?f1 a ?r1 = Inr (?f1\<lparr>log := take (prevPos f a) (log f)\<rparr>, r)"
    "\<not> Success r" "aerTerm r = aeTerm a" "ServerId r = me f" "snapshotIndex f < XIndex r" "XIndex r \<le> PrevLogIndex a"
    "XTerm r = -1 \<or> (\<exists>e. entry_at f (PrevLogIndex a) = Some e \<and> Term e = XTerm r \<and> Term e \<noteq> PrevLogTerm a)"
    by (rule refused_reply [OF f1(1,2), of ?r1]) (simp add: f1(3) e1)
  define f' where "f' = persist (?f1\<lparr>log := take (prevPos f a) (log f)\<rparr>)"
  have req: "AppendEntriesRequestHandler now f a zeroAppendEntriesReply = Inr (f', r)"
    using t h(1,2) by (simp add: AppendEntriesRequestHandler_def Let_def f'_def)
  have post: "ae_post f a f'"
    using AppendEntries_post [OF lok(3) a(1,7,5), of now zeroAppendEntriesReply] req by auto
  obtain nx where nx: "leaderHandleLog l a r = Inr (l\<lparr>nextIndex := (nextIndex l)[nat (me f) := nx]\<rparr>)"
    "nx \<le> PrevLogIndex a" "snapshotIndex f < nx \<or> 0 < nx"
    using backs_off [OF lok(1,2), of r a] h i a by (auto simp: nextFor_def)
  define l' where "l' = persist (l\<lparr>nextIndex := (nextIndex l)[nat (me f) := nx]\<rparr>)"
  have resp: "AppendEntriesResponseHandler l a r = Inr l'"
    using h(3) a(2) nx(1) by (simp add: AppendEntriesResponseHandler_def l'_def)
  have f'_fields: "me f' = me f" "snapshotIndex f' = snapshotIndex f" "commitIndex f' = commitIndex f"
    "log f' = take (prevPos f a) (log f)" "currentTerm f' = max (currentTerm f) (aeTerm a)"
    by (simp_all add: f'_def)
  have len: "nat (me f) < length (nextIndex l)" using lok(1) i by (simp add: leader_ok_def next_ok_def)
  then have next': "nextFor l' f' = nx" by (simp add: nextFor_def l'_def f'_fields)
  have "nx \<le> lastIndex l + 1"
    using nx(2) a(3) lok(1) nth_mem [OF len] by (fastforce simp: nextFor_def leader_ok_def next_ok_def)
  then have "leader_ok l'"
    using lok(1)
    by (auto simp: leader_ok_def l'_def peer_ok_def log_ok_def lastIndex_def match_ok_def next_ok_def
        dest!: set_update_subset_insert [THEN subsetD])
  moreover have "compatible l' f'"
    by (rule compatible_shrink [OF lok(2) f'_fields(3)])
       (auto simp: l'_def intro: entry_at_take [OF f'_fields(4,2)])
  moreover have "-1 \<le> snapshotIndex f" using lok(4) by (simp add: log_ok_def)
  ultimately have "pair_ok l' f'"
    unfolding pair_ok_def next' f'_fields
    using post ok nx(3) a(2) by (simp add: pair_ok_def ae_post_def l'_def) linarith
  moreover have "snapshotIndex l' = snapshotIndex l" "lastIndex l' = lastIndex l"
    "log l' = log l \<and> snapshotTerm l' = snapshotTerm l" by (simp_all add: l'_def lastIndex_def)
  moreover have "nextFor l' f' < nextFor l f" using next' nx(2) a(3) by simp
  ultimately show thesis using that [OF req h(2) resp] f'_fields(1) by blast
qed

text \<open>After an accepted request an entry is one that was there before or one of the request.\<close>

lemma merge_log_origin:
  "k < length (merge_log old new) \<Longrightarrow>
     k < length old \<and> merge_log old new ! k = old ! k \<or> k < length new \<and> merge_log old new ! k = new ! k"
proof (induction old new arbitrary: k rule: merge_log.induct)
  case (3 x old y new)
  show ?case
  proof (cases k)
    case (Suc m)
    with "3.prems" "3.IH" [of m] show ?thesis by (cases "Term x = Term y") simp_all
  qed simp
qed auto

lemma merged_origin:
  assumes acc: "accepts f a" and X: "mergeResult (oldSuffix f a) (newSuffix f a) X"
    and f': "log f' = keptLog f a @ X" "snapshotIndex f' = snapshotIndex f" and e: "entry_at f' j = Some e"
  shows "entry_at f j = Some e \<or> PrevLogIndex a < j \<and> nat (j - PrevLogIndex a - 1) < length (Entries a) \<and> e = Entries a ! nat (j - PrevLogIndex a - 1)"
proof -
  let ?d = "nat (PrevLogIndex a - snapshotIndex f)" and ?pos = "nat (j - snapshotIndex f - 1)"
  have j: "snapshotIndex f < j" "?pos < length (keptLog f a @ X)" "e = (keptLog f a @ X) ! ?pos"
    using e f' by (auto simp: entry_at_def lastIndex_def split: if_splits)
  have d: "?d \<le> length (log f)" using acc by (auto simp: accepts_def lastIndex_def)
  then have kept: "length (keptLog f a) = ?d" by (simp add: keptLog_def)
  have here: "entry_at f j = Some (log f ! ?pos)" if "?pos < length (log f)"
    using that j(1) by (simp add: entry_at_def lastIndex_def)
  show ?thesis
  proof (cases "?pos < ?d")
    case True
    with d j kept here show ?thesis by (simp add: nth_append keptLog_def)
  next
    case False
    let ?k = "?pos - ?d"
    have k: "?k < length X" "e = X ! ?k" using False j kept by (auto simp: nth_append)
    have "?k < length (oldSuffix f a) \<and> X ! ?k = oldSuffix f a ! ?k \<or> ?k < length (newSuffix f a) \<and> X ! ?k = newSuffix f a ! ?k"
      using X k(1) merge_log_origin [of ?k "oldSuffix f a" "newSuffix f a"] by (auto simp: mergeResult_def)
    moreover have "nat (snapshotIndex f - PrevLogIndex a) + ?k = nat (j - PrevLogIndex a - 1)" "PrevLogIndex a < j"
      using False j(1) by linarith+
    moreover have "entry_at f j = Some (oldSuffix f a ! ?k)" if "?k < length (oldSuffix f a)"
    proof -
      have "?d + ?k = ?pos" using False by linarith
      moreover from this have "?pos < length (log f)" using that d unfolding oldSuffix_def length_drop by linarith
      ultimately show ?thesis using here by (simp add: oldSuffix_def)
    qed
    moreover have "newSuffix f a ! ?k = Entries a ! (nat (snapshotIndex f - PrevLogIndex a) + ?k)" 
      "nat (snapshotIndex f - PrevLogIndex a) + ?k < length (Entries a)" if "?k < length (newSuffix f a)"
      using that by (simp_all add: newSuffix_def)
    ultimately show ?thesis using k(2) by metis
  qed
qed

lemma accepted_origin:
  assumes ok: "log_ok f" "args_ok a" "prefix_fits f a" and t: "currentTerm f \<le> aeTerm a" and acc: "accepts f a"
    and h: "AppendEntriesRequestHandler now f a reply = Inr (f', r)"
  shows "snapshotIndex f' = snapshotIndex f" and "entry_at f' j = Some e \<Longrightarrow> entry_at f j = Some e \<or>
      PrevLogIndex a < j \<and> nat (j - PrevLogIndex a - 1) < length (Entries a) \<and> e = Entries a ! nat (j - PrevLogIndex a - 1)"
proof -
  let ?f1 = "(toFollower f (aeTerm a))\<lparr>lastHeartbeatTime := now\<rparr>"
  let ?r1 = "reply\<lparr>aerTerm := aeTerm a, Success := True, ServerId := me ?f1\<rparr>"
  have same: "log_ok ?f1" "prefix_fits ?f1 a" "accepts ?f1 a" "oldSuffix ?f1 a = oldSuffix f a" "newSuffix ?f1 a = newSuffix f a" "keptLog ?f1 a = keptLog f a"
    using ok acc by (simp_all add: log_ok_def lastIndex_def prefix_fits_def prevPos_def accepts_def oldSuffix_def newSuffix_def keptLog_def)
  obtain X r2 where X: "followerHandleLog ?f1 a ?r1 = Inr (?f1\<lparr>log := keptLog f a @ X\<rparr>, r2)" "Success r2"
    "mergeResult (oldSuffix f a) (newSuffix f a) X"
    using followerHandleLog_accept_gen [OF same(1) ok(2) same(2,3), of ?r1] unfolding same(4-6) by auto
  from h X t obtain f2 where u: "followerUpdateCommitIndex (?f1\<lparr>log := keptLog f a @ X\<rparr>) (LeaderCommit a) = Inr f2" "f' = persist f2"
    by (auto simp: AppendEntriesRequestHandler_def Let_def rbind_eq_Inr)
  then have f': "log f' = keptLog f a @ X" "snapshotIndex f' = snapshotIndex f"
    by (auto simp: followerUpdateCommitIndex_def sendCommittedLogChannel_def Let_def rbind_eq_Inr split: if_splits)
  then show "snapshotIndex f' = snapshotIndex f" by simp
  show "entry_at f' j = Some e \<Longrightarrow> entry_at f j = Some e \<or> PrevLogIndex a < j \<and> nat (j - PrevLogIndex a - 1) < length (Entries a) \<and>
      e = Entries a ! nat (j - PrevLogIndex a - 1)" by (rule merged_origin [OF acc X(3) f'])
qed

lemma accepted_round:
  assumes ok: "pair_ok l f" and a: "args_ok a" "aeTerm a = currentTerm l" "PrevLogIndex a = nextFor l f - 1"
      "agrees_committed f a" "prefix_fits f a" "PrevLogIndex a + len (Entries a) = lastIndex l"
    and acc: "accepts f a"
  obtains f' l' reply where "AppendEntriesRequestHandler now f a zeroAppendEntriesReply = Inr (f', reply)"
    "Success reply" "AppendEntriesResponseHandler l a reply = Inr l'" "stores f' a" "log l' = log l"
    "snapshotIndex l' = snapshotIndex l" "matchIndex l' ! nat (me f) = lastIndex l" "nextIndex l' ! nat (me f) = lastIndex l + 1"
proof -
  have lok: "leader_ok l" "peer_ok f" and t: "currentTerm f \<le> aeTerm a" and i: "0 \<le> me f" "me f < peers l"
    using ok a by (simp_all add: pair_ok_def)
  obtain f' r where h: "AppendEntriesRequestHandler now f a zeroAppendEntriesReply = Inr (f', r)"
    "Success r" "aerTerm r = aeTerm a" "ServerId r = me f" "stores f' a"
    using AppendEntries_post [OF lok(2) a(1,5,4), of now zeroAppendEntriesReply] t acc by auto
  have len: "nat (me f) < length (nextIndex l)" "nat (me f) < length (matchIndex l)"
    using lok(1) i by (simp_all add: leader_ok_def next_ok_def match_ok_def)
  let ?l = "l\<lparr>nextIndex := (nextIndex l)[nat (me f) := lastIndex l + 1],
      matchIndex := (matchIndex l)[nat (me f) := lastIndex l]\<rparr>"
  have "leaderHandleLog l a r = Inr ?l"
    using h(2,4) a(3,6) i len
    by (simp add: leaderHandleLog_def go_nth_def go_upd_def nextFor_def nat_less_iff)
  then have "AppendEntriesResponseHandler l a r = Inr (persist ?l)"
    using h(3) a(2) by (simp add: AppendEntriesResponseHandler_def)
  with h len show thesis by (intro that [OF h(1,2), of "persist ?l"]) simp_all
qed

text \<open>The follower holds the leader's entry at every index that neither snapshot covers.\<close>

definition sameLog :: "'c Raft \<Rightarrow> 'c Raft \<Rightarrow> bool" where
  "sameLog l f = (\<forall>j. snapshotIndex l < j \<and> snapshotIndex f < j \<and> j \<le> lastIndex l \<longrightarrow> entry_at f j = entry_at l j)"

lemma stores_same:
  assumes co: "compatible l f" and st: "stores f' a" and snap: "snapshotIndex f' = snapshotIndex f"
    and a: "Entries a = cutLog l (PrevLogIndex a)" "PrevLogTerm a = term_at l (PrevLogIndex a)"
      "snapshotIndex l \<le> PrevLogIndex a" "PrevLogIndex a + len (Entries a) = lastIndex l"
    and orig: "\<And>j e. entry_at f' j = Some e \<Longrightarrow> entry_at f j = Some e \<or>
      PrevLogIndex a < j \<and> nat (j - PrevLogIndex a - 1) < length (Entries a) \<and> e = Entries a ! nat (j - PrevLogIndex a - 1)"
  shows "sameLog l f'"
  unfolding sameLog_def
proof (intro allI impI)
  fix j assume j: "snapshotIndex l < j \<and> snapshotIndex f' < j \<and> j \<le> lastIndex l"
  then obtain d where d: "entry_at l j = Some d" by (simp add: entry_at_def)
  show "entry_at f' j = entry_at l j"
  proof (cases "j \<le> PrevLogIndex a")
    case True
    let ?p = "PrevLogIndex a"
    have p: "snapshotIndex f' < ?p" "snapshotIndex l < ?p" "?p \<le> lastIndex l" using True j a(4) by (auto simp: len_def)
    obtain e0 where e0: "entry_at f' ?p = Some e0" "Term e0 = term_at l ?p" using st p(1) a(2) by (auto simp: stores_def)
    then have old0: "entry_at f ?p = Some e0" using orig [OF e0(1)] by auto
    obtain l0 where l0: "entry_at l ?p = Some l0" using p by (simp add: entry_at_def)
    have "?p \<le> lastIndex f'" using e0(1) by (auto simp: entry_at_def split: if_splits)
    then obtain e where e: "entry_at f' j = Some e" using True j by (simp add: entry_at_def)
    then have "entry_at f j = Some e" using orig [OF e] True by auto
    then have "d = e" using compatible_matching [OF co True l0 old0 _ d] e0(2) l0 p(2) by (simp add: term_at_def)
    with e d show ?thesis by simp
  next
    case False
    let ?k = "nat (j - PrevLogIndex a - 1)"
    have k: "?k < length (Entries a)" "PrevLogIndex a + 1 + int ?k = j" using j False a(4) by (auto simp: len_def)
    have el: "entry_at l j = Some (Entries a ! ?k)" using cutLog_nth [OF a(3), of ?k] k a(1) by simp
    obtain e where e: "entry_at f' j = Some e" "Term e = Term (Entries a ! ?k)"
      using st j k unfolding stores_def by metis
    have "e = Entries a ! ?k" if "entry_at f j = Some e"
      using compatible_matching [OF co order_refl el that _ el that] e(2) by simp
    then have "e = Entries a ! ?k" using orig [OF e(1)] by blast
    with e(1) el show ?thesis by simp
  qed
qed

text \<open>C8: Log reconciliation terminates: between a leader and a follower whose logs are related as
  log matching and leader completeness say, and where a leader that would send from the very first
  entry faces a follower without a snapshot, the rounds of refused AppendEntries requests
  end, without a panic, after at most as many rounds as there are indices between the
  leader's snapshot and its next index for the follower. In the end the follower holds the
  leader's entry, with its command, at every index of the leader's log that its own snapshot does
  not cover, and the leader knows it, or the leader has to send its snapshot.\<close>

theorem catch_up_terminates:
  assumes "pair_ok l f" "nat (nextFor l f - snapshotIndex l) < n"
  shows "\<exists>l' f' r. catchUp n now l f = Inr (l', f', r) \<and> r \<noteq> OutOfRounds
    \<and> (r = CaughtUp \<longrightarrow> matchIndex l' ! nat (me f) = lastIndex l \<and> sameLog l f')
    \<and> (r = NeedsSnapshot \<longrightarrow> nextFor l' f' \<le> snapshotIndex l)"
  using assms
proof (induction n arbitrary: l f)
  case (Suc n)
  show ?case
  proof (cases rule: pair_prepare [OF Suc.prems(1), case_names install append])
    case (install a)
    then show ?thesis by simp
  next
    case (append a)
    show ?thesis
    proof (cases "accepts f a")
      case True
      obtain f' l' reply where r:
        "AppendEntriesRequestHandler now f a zeroAppendEntriesReply = Inr (f', reply)"
        "Success reply" "AppendEntriesResponseHandler l a reply = Inr l'" "stores f' a"
        "matchIndex l' ! nat (me f) = lastIndex l"
        using accepted_round [OF Suc.prems(1) append(3-5,8,7,6) True, of now] by metis
      have ok: "log_ok f" "compatible l f" "currentTerm f \<le> aeTerm a"
        using Suc.prems(1) append(4) by (simp_all add: pair_ok_def peer_ok_def)
      note orig = accepted_origin [OF ok(1) append(3,7) ok(3) True r(1)]
      have "sameLog l f'" by (rule stores_same [OF ok(2) r(4) orig(1) append(10,9) _ append(6) orig(2)]) (use append(2,5) in simp)
      with r append(1) show ?thesis by simp
    next
      case False
      obtain f' l' reply where r:
        "AppendEntriesRequestHandler now f a zeroAppendEntriesReply = Inr (f', reply)"
        "\<not> Success reply" "AppendEntriesResponseHandler l a reply = Inr l'" "pair_ok l' f'" "me f' = me f"
        "nextFor l' f' < nextFor l f" "snapshotIndex l' = snapshotIndex l" "lastIndex l' = lastIndex l"
        "log l' = log l \<and> snapshotTerm l' = snapshotTerm l"
        using refused_round [OF Suc.prems(1) append(3-5,2,8,9,7) False, of now] by metis
      have "nat (nextFor l' f' - snapshotIndex l') < n"
        using r(6,7) Suc.prems(2) append(2) by linarith
      from Suc.IH [OF r(4) this] obtain l'' f'' res where ih: "catchUp n now l' f' = Inr (l'', f'', res)"
        "res \<noteq> OutOfRounds" "res = CaughtUp \<Longrightarrow> matchIndex l'' ! nat (me f) = lastIndex l \<and> sameLog l' f''"
        "res = NeedsSnapshot \<Longrightarrow> nextFor l'' f'' \<le> snapshotIndex l"
        using r(5,7,8) by auto
      have "sameLog l f'' = sameLog l' f''" using r(7-9) by (simp add: sameLog_def entry_at_def)
      with ih r(1-3) append(1) show ?thesis by auto
    qed
  qed
qed simp

text \<open>A leader of term 3 and a follower with two entries of the lost term 2.\<close>

definition exLeader :: "nat Raft" where
  "exLeader = (newRaft 3 0 MakePersister 0 0)\<lparr>currentTerm := 3, role := 2,
     log := [\<lparr>Term = 1, Index = 0, Command = 10\<rparr>, \<lparr>Term = 3, Index = 1, Command = 11\<rparr>,
             \<lparr>Term = 3, Index = 2, Command = 12\<rparr>],
     nextIndex := [3, 3, 3], matchIndex := [2, -1, -1]\<rparr>"

definition exFollower :: "nat Raft" where
  "exFollower = (newRaft 3 1 MakePersister 0 0)\<lparr>currentTerm := 2,
     log := [\<lparr>Term = 1, Index = 0, Command = 10\<rparr>, \<lparr>Term = 2, Index = 1, Command = 21\<rparr>,
             \<lparr>Term = 2, Index = 2, Command = 22\<rparr>]\<rparr>"

lemma three_entries:
  assumes "entry_at rf i = Some e" "log rf = [a, b, c]" "snapshotIndex rf = -1"
  shows "i = 0 \<and> e = a \<or> i = 1 \<and> e = b \<or> i = 2 \<and> e = c"
proof -
  have "-1 < i" "i \<le> 2" "e = [a, b, c] ! nat i"
    using assms by (auto simp: entry_at_def lastIndex_def split: if_splits)
  then consider "i = 0" | "i = 1" | "i = 2" by linarith
  then show ?thesis using \<open>e = [a, b, c] ! nat i\<close> by cases auto
qed

lemma example_pair_ok: "pair_ok exLeader exFollower"
proof -
  have "compatible exLeader exFollower"
    unfolding compatible_def
  proof (intro conjI allI impI)
    fix p q e e'
    assume "p < q" "entry_at exFollower p = Some e" "entry_at exLeader q = Some e'" "Term e = Term e'"
    then show "term_at exLeader p = Term e"
      by (auto simp: exLeader_def exFollower_def newRaft_def dest!: three_entries)
  next
    fix p q e e' d d'
    assume q: "entry_at exLeader q = Some e" "entry_at exFollower q = Some e'" "Term e = Term e'"
      and p: "p \<le> q" "entry_at exLeader p = Some d" "entry_at exFollower p = Some d'"
    from q have "q = 0" by (auto simp: exLeader_def exFollower_def newRaft_def dest!: three_entries)
    with p have "p = 0" by (auto simp: exLeader_def newRaft_def dest!: three_entries)
    with p(2,3) show "d = d'" by (simp add: exLeader_def exFollower_def newRaft_def entry_at_def lastIndex_def)
  qed (auto simp: exLeader_def exFollower_def newRaft_def entry_at_def)
  then show ?thesis
    by (simp add: pair_ok_def leader_ok_def peer_ok_def log_ok_def lastIndex_def next_ok_def match_ok_def
        nextFor_def exLeader_def exFollower_def newRaft_def)
qed

theorem catch_up_terminates_witness:
  "\<exists>l' f'. catchUp 5 100 exLeader exFollower = Inr (l', f', CaughtUp) \<and> matchIndex l' ! 1 = 2
     \<and> entry_at f' 2 = Some \<lparr>Term = 3, Index = 2, Command = 12\<rparr>"
proof -
  have n: "nat (nextFor exLeader exFollower - snapshotIndex exLeader) < 5" by code_simp
  obtain l' f' r where c: "catchUp 5 100 exLeader exFollower = Inr (l', f', r)"
    "r = CaughtUp \<longrightarrow> matchIndex l' ! nat (me exFollower) = lastIndex exLeader \<and> sameLog exLeader f'"
    using catch_up_terminates [OF example_pair_ok n, of 100] by blast
  have "case catchUp 5 100 exLeader exFollower of Inl e \<Rightarrow> False
      | Inr (l', f', r) \<Rightarrow> r = CaughtUp \<and> snapshotIndex f' = -1"
    by code_simp
  moreover have "nat (me exFollower) = 1" "lastIndex exLeader = 2" "snapshotIndex exLeader = -1"
    "entry_at exLeader 2 = Some \<lparr>Term = 3, Index = 2, Command = 12\<rparr>" by code_simp+
  ultimately show ?thesis using c by (auto simp: sameLog_def)
qed

end
