(* ===== verification/RaftProperties.thy ===== *)
theory RaftProperties
  imports RaftElectionSafety RaftCatchUp
begin

text \<open>
  The correctness properties of a single Raft peer, each with a concrete instance. They are
  stated over the critical sections of the code and rest on the branch lemmas of the
  component theories.
\<close>

section \<open>Concrete peers\<close>

definition entry :: "int \<Rightarrow> int \<Rightarrow> nat \<Rightarrow> nat LogEntry" where
  "entry t i c = \<lparr>Term = t, Index = i, Command = c\<rparr>"

definition freshPeer :: "nat Raft" where
  "freshPeer = newRaft 3 0 MakePersister 0 0"

text \<open>A follower in term 2 with a snapshot up to index 1, entries 2 to 4, committed up to 3.\<close>

definition follower :: "nat Raft" where
  "follower = freshPeer\<lparr>currentTerm := 2, snapshotIndex := 1, snapshotTerm := 1, commitIndex := 3,
     log := [entry 1 2 20, entry 1 3 30, entry 2 4 40]\<rparr>"

text \<open>A request of the leader of term 3 that replaces the uncommitted entry 4.\<close>

definition request :: "nat AppendEntriesArgs" where
  "request = \<lparr>aeTerm = 3, LeaderId = 1, PrevLogIndex = 3, PrevLogTerm = 1,
     Entries = [entry 3 4 41, entry 3 5 50], LeaderCommit = 4\<rparr>"

definition leader :: "nat Raft" where
  "leader = follower\<lparr>role := 2, nextIndex := [5, 5, 3], matchIndex := [4, 4, -1]\<rparr>"

lemmas peer_defs = follower_def request_def leader_def freshPeer_def newRaft_def entry_def
  log_ok_def contiguous_def lastIndex_def peer_ok_def args_ok_def prefix_fits_def less_Suc_eq
  numeral_eq_Suc

lemma follower_ok: "peer_ok follower" "log_ok follower"
  by (auto simp: peer_ok_def log_ok_def lastIndex_def follower_def freshPeer_def newRaft_def entry_def)

lemma request_ok: "args_ok request" "prefix_fits follower request"
  by (auto simp: args_ok_def prefix_fits_def request_def follower_def entry_def)

section \<open>Voting\<close>

text \<open>C19: The vote decision: a peer grants its vote exactly when the request is not for an older
  term, it has no vote in the term of the request, and the candidate's log is at least as up
  to date as its own; term and vote are on stable storage before the reply leaves.\<close>

theorem vote_decision:
  fixes rf :: "'c Raft" and now :: int and args :: RequestVoteArgs and reply :: RequestVoteReply
  defines "r \<equiv> RequestVoteRequestHandler now rf args reply"
  shows "VoteGranted (snd r) = (freeToVote rf args \<and> upToDate rf args)
    \<and> rvrTerm (snd r) = max (currentTerm rf) (rvTerm args)
    \<and> storedVote (fst r) = (max (currentTerm rf) (rvTerm args),
        if VoteGranted (snd r) then CandidateId args
        else if currentTerm rf < rvTerm args then -1 else votedFor rf)"
proof -
  have "persisted (fst r)" unfolding r_def by (rule RequestVote_fields)
  then have "storedVote (fst r) = (currentTerm (fst r), votedFor (fst r))"
    by (simp add: persisted_def storedVote_def)
  then show ?thesis
    unfolding r_def RequestVote_granted RequestVote_reply_term
    by (simp add: RequestVote_fields RequestVote_votedFor)
qed

text \<open>C22: One vote per term, across crashes: once a peer has granted its vote, it grants no
  request of the same or an older term any more, even after it has crashed and restarted.\<close>

theorem vote_survives_restart:
  assumes "VoteGranted (snd (RequestVoteRequestHandler now rf args reply))" "CandidateId args \<noteq> -1"
    and "Make n i (persister (fst (RequestVoteRequestHandler now rf args reply))) now' rnd = Some rf'"
    and "rvTerm args' \<le> rvTerm args"
  shows "\<not> VoteGranted (snd (RequestVoteRequestHandler now'' rf' args' reply'))"
proof -
  let ?r = "fst (RequestVoteRequestHandler now rf args reply)"
  have g: "freeToVote rf args" "upToDate rf args" using assms(1) by (simp_all add: RequestVote_granted)
  have "persisted ?r" by (rule RequestVote_fields)
  then have "storedVote ?r = (currentTerm ?r, votedFor ?r)"
    by (simp add: persisted_def storedVote_def)
  also have "\<dots> = (rvTerm args, CandidateId args)"
    using g by (auto simp: RequestVote_fields RequestVote_votedFor freeToVote_def)
  finally have "currentTerm rf' = rvTerm args" "votedFor rf' = CandidateId args"
    using Make_vote(1) [OF assms(3)] by auto
  then show ?thesis
    using assms(2,4) by (simp add: RequestVote_granted freeToVote_def)
qed

definition voteRequest :: RequestVoteArgs where
  "voteRequest = \<lparr>rvTerm = 1, CandidateId = 2, LastLogIndex = -1, LastLogTerm = 0\<rparr>"

theorem vote_survives_restart_witness:
  "\<exists>rf'. Make 3 0 (persister (fst (RequestVoteRequestHandler 5 freshPeer voteRequest zeroRequestVoteReply))) 9 0
       = Some rf'
     \<and> \<not> VoteGranted (snd (RequestVoteRequestHandler 9 rf' (voteRequest\<lparr>CandidateId := 1\<rparr>) zeroRequestVoteReply))"
proof -
  let ?r = "RequestVoteRequestHandler 5 freshPeer voteRequest zeroRequestVoteReply"
  have g: "VoteGranted (snd ?r)" by code_simp
  have "case Make 3 0 (persister (fst ?r)) 9 0 of None \<Rightarrow> False | Some rf' \<Rightarrow> True" by code_simp
  then obtain rf' where m: "Make 3 0 (persister (fst ?r)) 9 0 = Some rf'" using case_option_ex by blast
  have "\<not> VoteGranted (snd (RequestVoteRequestHandler 9 rf' (voteRequest\<lparr>CandidateId := 1\<rparr>) zeroRequestVoteReply))"
    by (rule vote_survives_restart [OF g _ m]) (simp_all add: voteRequest_def)
  with m show ?thesis by blast
qed

section \<open>Replication\<close>

text \<open>C7: A well-formed AppendEntries request that agrees with what the follower has committed, and
  that starts at the very first entry only if the follower has no snapshot (\<open>prefix_fits\<close>; without
  it \<open>stale_request_blocks_restart\<close> below shows the contrary), is handled without a panic: the log stays well-formed, no committed entry changes, the commit index
  does not go back, the entries between the old and the new commit index are handed to the
  service, an accepted request leaves an entry of the right term at each of its indices, and
  everything is on stable storage before the reply leaves.\<close>

theorem append_entries_safe:
  assumes "peer_ok rf" "args_ok args" "prefix_fits rf args" "agrees_committed rf args"
  shows "\<exists>rf' reply'. AppendEntriesRequestHandler now rf args reply = Inr (rf', reply')
    \<and> ae_post rf args rf' \<and> Success reply' = (currentTerm rf \<le> aeTerm args \<and> accepts rf args)
    \<and> (Success reply' \<longrightarrow> stores rf' args)"
  using AppendEntries_post [OF assms] by blast

theorem append_entries_safe_witness:
  "\<exists>rf' reply'. AppendEntriesRequestHandler 7 follower request zeroAppendEntriesReply = Inr (rf', reply')
    \<and> ae_post follower request rf' \<and> Success reply' \<and> commitIndex rf' = 4"
proof -
  have "agrees_committed follower request"
    by (auto simp: agrees_committed_def follower_def request_def freshPeer_def newRaft_def entry_def prevPos_def
        less_Suc_eq nth_Cons')
  from append_entries_safe [OF follower_ok(1) request_ok this, of 7 zeroAppendEntriesReply]
  obtain rf' reply' where r: "AppendEntriesRequestHandler 7 follower request zeroAppendEntriesReply = Inr (rf', reply')"
    "ae_post follower request rf'" "Success reply' = (currentTerm follower \<le> aeTerm request \<and> accepts follower request)"
    by blast
  have "currentTerm follower \<le> aeTerm request \<and> accepts follower request" by code_simp
  moreover have "case AppendEntriesRequestHandler 7 follower request zeroAppendEntriesReply of
      Inl e \<Rightarrow> False | Inr (rf', reply') \<Rightarrow> commitIndex rf' = 4"
    by code_simp
  ultimately show ?thesis using r by auto
qed

text \<open>C18: The follower's log handling implements the merge rule of the Raft paper, for a request that
  starts at the very first entry only if the follower has no snapshot and whose entries equal those
  of the follower wherever index and term are equal (log matching): it answers
  yes exactly when the entry before the new ones matches, and then its log is the old
  prefix followed by the merge of old and new entries; otherwise it cuts the log before the
  conflicting entry and names an index to continue from that is not beyond it.\<close>

theorem append_entries_merge:
  assumes "log_ok rf" "args_ok args" "prefix_fits rf args"
    and "same_term_same_entry (oldSuffix rf args) (newSuffix rf args)"
  shows "\<exists>rf' reply'. followerHandleLog rf args reply = Inr (rf', reply')
    \<and> Success reply' = accepts rf args
    \<and> rf' = rf\<lparr>log := if accepts rf args then mergedLog rf args else take (prevPos rf args) (log rf)\<rparr>
    \<and> (Success reply' \<or> snapshotIndex rf < XIndex reply' \<and> XIndex reply' \<le> PrevLogIndex args)"
proof (cases "accepts rf args")
  case True
  with followerHandleLog_accept [OF assms(1-3) True assms(4), of reply] show ?thesis by simp
next
  case False
  with followerHandleLog_reject [OF assms(1,2) False, of reply] show ?thesis by auto
qed

theorem append_entries_merge_witness:
  "\<exists>rf' reply'. followerHandleLog follower request zeroAppendEntriesReply = Inr (rf', reply')
    \<and> Success reply' \<and> log rf' = [entry 1 2 20, entry 1 3 30, entry 3 4 41, entry 3 5 50]"
proof -
  have same: "same_term_same_entry (oldSuffix follower request) (newSuffix follower request)"
    by (auto simp: same_term_same_entry_def oldSuffix_def newSuffix_def follower_def request_def entry_def)
  have acc: "accepts follower request" and
    m: "mergedLog follower request = [entry 1 2 20, entry 1 3 30, entry 3 4 41, entry 3 5 50]"
    by code_simp+
  from append_entries_merge [OF follower_ok(2) request_ok same, of zeroAppendEntriesReply] acc m
  show ?thesis by auto
qed

section \<open>Committing\<close>

text \<open>C17: A leader commits by majority: when the largest index that more than half of the peers
  have stored lies beyond the commit index and its entry is of the current term, the leader
  moves its commit index there and hands over exactly the entries in between; otherwise it
  changes nothing. It never panics.\<close>

theorem leader_commit_majority:
  fixes rf :: "'c Raft"
  assumes "log_ok rf" "match_ok rf" "snapshotIndex rf \<le> commitIndex rf" "commitIndex rf \<le> lastIndex rf"
  shows "\<exists>m. (\<forall>v. v \<le> m \<longleftrightarrow> peers rf < 2 * int (card {j. j < length (matchIndex rf) \<and> v \<le> matchIndex rf ! j}))
    \<and> leaderUpdateCommitIndex rf = Inr (persist
        (if commitIndex rf < m \<and> Term (the (entry_at rf m)) = currentTerm rf
         then rf\<lparr>commitIndex := m, lastApplied := m,
                 applyGo := applyGo rf @ [committedMsgs rf (commitIndex rf) m]\<rparr>
         else rf))"
  using majorityIndex_iff [OF assms(2)] leaderUpdateCommitIndex_ok [OF assms]
  by (intro exI [of _ "majorityIndex rf"]) (simp add: reached_card)

lemma leader_is_ok: "log_ok leader" "match_ok leader" "snapshotIndex leader \<le> commitIndex leader"
    "commitIndex leader \<le> lastIndex leader"
  by (auto simp: log_ok_def match_ok_def lastIndex_def leader_def follower_def freshPeer_def newRaft_def entry_def)

theorem leader_commit_majority_witness:
  "\<exists>m. (\<forall>v. v \<le> m \<longleftrightarrow> peers leader < 2 * int (card {j. j < length (matchIndex leader) \<and> v \<le> matchIndex leader ! j}))
    \<and> leaderUpdateCommitIndex leader = Inr (persist
        (if commitIndex leader < m \<and> Term (the (entry_at leader m)) = currentTerm leader
         then leader\<lparr>commitIndex := m, lastApplied := m,
                 applyGo := applyGo leader @ [committedMsgs leader (commitIndex leader) m]\<rparr>
         else leader))"
  by (rule leader_commit_majority [OF leader_is_ok])

text \<open>A follower hands over what the leader has committed, in order and without gaps: the
  batch of an accepted commit index holds, for each index after the old commit index, the
  stored entry with that index, numbered from 1 for the service.\<close>

theorem follower_commit_in_order:
  assumes "peer_ok rf" "commitIndex rf < leaderCommit"
  shows "\<exists>rf' batch. followerUpdateCommitIndex rf leaderCommit = Inr rf'
    \<and> commitIndex rf' = min (lastIndex rf) leaderCommit \<and> log rf' = log rf
    \<and> applyGo rf' = applyGo rf @ [batch]
    \<and> length batch = nat (commitIndex rf' - commitIndex rf)
    \<and> (\<forall>k < length batch. \<exists>e. entry_at rf (commitIndex rf + 1 + int k) = Some e
         \<and> batch ! k = commandMsg e \<and> CommandIndex (batch ! k) = commitIndex rf + 2 + int k)"
proof -
  let ?c = "min (lastIndex rf) leaderCommit"
  have ok: "log_ok rf" "snapshotIndex rf \<le> commitIndex rf" "commitIndex rf \<le> lastIndex rf"
    using assms(1) by (simp_all add: peer_ok_def)
  have c: "commitIndex rf \<le> ?c" "?c \<le> lastIndex rf" using ok assms(2) by auto
  show ?thesis
    using followerUpdateCommitIndex_ok [OF ok assms(2)] length_committedMsgs [OF ok(2) c]
      committedMsgs_nth [OF ok(1,2) c]
    by (intro exI [of _ "rf\<lparr>commitIndex := ?c, lastApplied := ?c,
            applyGo := applyGo rf @ [committedMsgs rf (commitIndex rf) ?c]\<rparr>"]
          exI [of _ "committedMsgs rf (commitIndex rf) ?c"]) simp
qed

theorem follower_commit_in_order_witness:
  "\<exists>rf' batch. followerUpdateCommitIndex follower 7 = Inr rf' \<and> commitIndex rf' = 4
    \<and> applyGo rf' = [batch] \<and> length batch = 1"
proof -
  have "commitIndex follower < 7" "lastIndex follower = 4" "commitIndex follower = 3" "applyGo follower = []"
    by (simp_all add: follower_def lastIndex_def freshPeer_def newRaft_def)
  with follower_commit_in_order [OF follower_ok(1), of 7] show ?thesis by fastforce
qed

section \<open>What a leader sends\<close>

definition sent_ok :: "'c Raft \<Rightarrow> 'c outgoing \<Rightarrow> bool" where
  "sent_ok rf m = (case m of
     SendAppendEntries a \<Rightarrow> args_ok a \<and> aeTerm a = currentTerm rf \<and>
       PrevLogIndex a + len (Entries a) = lastIndex rf \<and> LeaderCommit a \<le> lastIndex rf \<and>
       Entries a = cutLog rf (PrevLogIndex a) \<and> PrevLogTerm a = term_at rf (PrevLogIndex a)
   | SendInstallSnapshot a \<Rightarrow> LastIncludedIndex a = snapshotIndex rf \<and>
       LastIncludedTerm a = snapshotTerm rf \<and> isTerm a = currentTerm rf)"

text \<open>C28: A leader with consistent bookkeeping addresses every other peer once and never panics:
  each peer gets the whole log after the entry it is known to have, with that entry's index
  and term, or the snapshot when the log no longer holds that entry.\<close>

theorem leader_sends_ok:
  assumes "leader_ok rf"
  shows "\<exists>out. leaderSendAppendEntriesRPC rf = Inr out
    \<and> map fst out = filter (\<lambda>i. i \<noteq> me rf) (indices 0 (peers rf))
    \<and> (\<forall>(j, m) \<in> set out. sent_ok rf m)"
proof -
  let ?is = "filter (\<lambda>i. i \<noteq> me rf) (indices 0 (peers rf))"
  have ok: "peer_ok rf" "next_ok rf" using assms by (simp_all add: leader_ok_def)
  have "\<exists>m. prepareRPC rf i = Inr m \<and> sent_ok rf m" if "i \<in> set ?is" for i
  proof -
    from that have i: "0 \<le> i" "i < peers rf" by auto
    show ?thesis
    proof (cases rule: prepareRPC_ok [OF ok i, case_names append install])
      case (append args)
      then show ?thesis by (intro exI [of _ "SendAppendEntries args"]) (simp add: sent_ok_def)
    next
      case (install args)
      then show ?thesis by (intro exI [of _ "SendInstallSnapshot args"]) (simp add: sent_ok_def)
    qed
  qed
  then obtain g where g: "\<And>i. i \<in> set ?is \<Longrightarrow> prepareRPC rf i = Inr (g i) \<and> sent_ok rf (g i)"
    by metis
  then have "leaderSendAppendEntriesRPC rf = Inr (map (\<lambda>i. (i, g i)) ?is)"
    unfolding leaderSendAppendEntriesRPC_def by (subst for_each_record [of _ _ g]) auto
  with g show ?thesis by (auto simp: comp_def)
qed

lemma leader_leader_ok: "leader_ok leader"
  by (auto simp: leader_ok_def next_ok_def match_ok_def peer_ok_def log_ok_def lastIndex_def leader_def
      follower_def freshPeer_def newRaft_def entry_def)

theorem leader_sends_ok_witness:
  "\<exists>out. leaderSendAppendEntriesRPC leader = Inr out \<and> map fst out = [1, 2]"
proof -
  have "filter (\<lambda>i. i \<noteq> me leader) (indices 0 (peers leader)) = [1, 2]" by code_simp
  with leader_sends_ok [OF leader_leader_ok] show ?thesis by auto
qed

section \<open>Taking office and accepting commands\<close>

text \<open>A new leader starts with consistent bookkeeping: every peer is assumed to need the entry
  after the leader's last one and to have stored nothing, and the log is unchanged.\<close>

theorem office_bookkeeping:
  assumes "peer_ok rf" "0 \<le> me rf" "me rf < peers rf"
  shows "\<exists>rf'. toLeader rf = Inr rf' \<and> leader_ok rf' \<and> role rf' = 2 \<and> log rf' = log rf
    \<and> (\<forall>n \<in> set (nextIndex rf'). n = lastIndex rf + 1) \<and> persisted rf'
    \<and> (\<forall>j < length (matchIndex rf'). matchIndex rf' ! j = (if int j = me rf then lastIndex rf else -1))"
proof -
  have lo: "log_ok rf" using assms(1) by (simp add: peer_ok_def)
  have last: "-1 \<le> lastIndex rf" using lo snapshot_le_lastIndex [of rf] by (simp add: log_ok_def)
  let ?rf = "rf\<lparr>role := 2, nextIndex := replicate (nat (peers rf)) (lastIndex rf + 1),
      matchIndex := (replicate (nat (peers rf)) (-1))[nat (me rf) := lastIndex rf], votedFor := -1\<rparr>"
  have r: "toLeader rf = Inr (persist ?rf)"
    using toLeader_ok [OF assms(2,3)] by (simp add: getLast_fst [OF lo])
  have "leader_ok (persist ?rf)"
    using assms last
    by (auto simp: leader_ok_def peer_ok_def log_ok_def lastIndex_def next_ok_def match_ok_def
        dest!: set_update_subset_insert [THEN subsetD])
  with r assms(2,3) show ?thesis
    by (intro exI [of _ "persist ?rf"]) (auto simp: nth_list_update)
qed

theorem office_bookkeeping_witness:
  "\<exists>rf'. toLeader follower = Inr rf' \<and> leader_ok rf' \<and> role rf' = 2"
proof -
  have "0 \<le> me follower" "me follower < peers follower" by code_simp+
  from office_bookkeeping [OF follower_ok(1) this] show ?thesis by blast
qed

text \<open>\<open>Start\<close> on a leader appends one entry of the current term behind the log, leaves all
  other entries alone, returns the entry's index counted from 1, and has stored the new log
  before it returns; the leader's bookkeeping stays consistent.\<close>

theorem start_appends:
  assumes "leader_ok rf" "role rf = 2"
  shows "\<exists>rf'. Start rf c = Inr (rf', lastIndex rf + 2, currentTerm rf, True)
    \<and> leader_ok rf' \<and> persisted rf' \<and> lastIndex rf' = lastIndex rf + 1
    \<and> entry_at rf' (lastIndex rf') = Some \<lparr>Term = currentTerm rf, Index = lastIndex rf', Command = c\<rparr>
    \<and> (\<forall>i \<le> lastIndex rf. entry_at rf' i = entry_at rf i)"
proof -
  obtain rf' where r: "Start rf c = Inr (rf', lastIndex rf + 2, currentTerm rf, True)"
    using Start_leader [OF assms, of c] by auto
  from leader_ok_Start [OF assms r] r show ?thesis by auto
qed

theorem start_appends_witness:
  "\<exists>rf'. Start leader 99 = Inr (rf', 6, 2, True)
    \<and> entry_at rf' 5 = Some \<lparr>Term = 2, Index = 5, Command = 99\<rparr>"
proof -
  have "role leader = 2" "lastIndex leader = 4" "currentTerm leader = 2" by code_simp+
  with start_appends [OF leader_leader_ok, of 99] show ?thesis by auto
qed

section \<open>Crashes and snapshots\<close>

text \<open>C23: Restarting gives back what was persisted: term, vote, log and snapshot are those of the
  last \<open>persist\<close>; the commit index restarts at the snapshot, which is handed to the service
  again.\<close>

theorem restart_restores:
  assumes "log_ok rf"
  shows "\<exists>rf'. Make n i (persister (persist rf)) now rnd = Some rf'
    \<and> currentTerm rf' = currentTerm rf \<and> votedFor rf' = votedFor rf \<and> log rf' = log rf
    \<and> snapshotIndex rf' = snapshotIndex rf \<and> snapshotTerm rf' = snapshotTerm rf
    \<and> snapshot rf' = snapshot rf \<and> peer_ok rf' \<and> role rf' = 0
    \<and> applyChBuffer rf' = (if snapshotIndex rf = -1 then [] else [snapshotMsg rf'])"
proof -
  have "log_ok (persist rf)" using assms by simp
  from Make_persisted [OF persisted_persist this, of n i now rnd] assms show ?thesis
    by (auto simp: peer_ok_def log_ok_def lastIndex_def)
qed

theorem restart_restores_witness:
  "\<exists>rf'. Make 3 0 (persister (persist follower)) 8 1 = Some rf' \<and> log rf' = log follower
    \<and> currentTerm rf' = 2 \<and> commitIndex rf' = 1"
proof -
  have "currentTerm follower = 2" by code_simp
  moreover have "case Make 3 0 (persister (persist follower)) 8 1 of None \<Rightarrow> False | Some rf' \<Rightarrow> commitIndex rf' = 1"
    by code_simp
  ultimately show ?thesis
    using restart_restores [OF follower_ok(2), of 3 0 8 1] by auto
qed

text \<open>C29: Taking a snapshot of committed entries discards exactly the entries it covers: the
  entries after it are still found under their index, the commit index and the end of the
  log do not move, and the new state is on stable storage.\<close>

theorem snapshot_keeps_rest:
  assumes "peer_ok rf" "snapshotIndex rf < i" "i \<le> commitIndex rf"
  shows "\<exists>rf'. Raft_Snapshot rf (i + 1) snap = Inr rf' \<and> peer_ok rf' \<and> persisted rf'
    \<and> snapshotIndex rf' = i \<and> snapshotTerm rf' = Term (the (entry_at rf i)) \<and> snapshot rf' = snap
    \<and> commitIndex rf' = commitIndex rf \<and> lastIndex rf' = lastIndex rf
    \<and> (\<forall>j > i. entry_at rf' j = entry_at rf j)"
proof -
  let ?rf1 = "rf\<lparr>snapshot := snap, snapshotIndex := i, snapshotTerm := Term (the (entry_at rf i)), log := cutLog rf i\<rparr>"
  let ?rf' = "persist (?rf1\<lparr>applyGo := applyGo rf @
     [snapshotMsg ?rf1 # map recommitMsg (take (nat (commitIndex rf - i)) (cutLog rf i))]\<rparr>)"
  have il: "i \<le> lastIndex rf" and lo: "log_ok rf" using assms by (auto simp: peer_ok_def)
  have "Raft_Snapshot rf (i + 1) snap = Inr ?rf'"
    using installCurRfSnapShot_ok [OF assms, of snap] by (simp add: Raft_Snapshot_def)
  moreover have last: "lastIndex ?rf' = lastIndex rf"
    using length_cutLog [OF _ il] assms by (simp add: lastIndex_def)
  moreover have "peer_ok ?rf'"
    using assms lo last cutLog_contiguous [OF lo _ il] by (simp add: peer_ok_def log_ok_def)
  moreover have "\<forall>j > i. entry_at ?rf' j = entry_at rf j"
    using entry_at_cut [of rf i _ ?rf'] assms(2) il by simp
  ultimately show ?thesis by (intro exI [of _ ?rf']) simp
qed

theorem snapshot_keeps_rest_witness:
  "\<exists>rf'. Raft_Snapshot follower 3 [7] = Inr rf' \<and> snapshotIndex rf' = 2 \<and> lastIndex rf' = 4"
proof -
  have "snapshotIndex follower < 2" "2 \<le> commitIndex follower" "lastIndex follower = 4" by code_simp+
  with snapshot_keeps_rest [OF follower_ok(1), of 2 "[7]"] show ?thesis by auto
qed

text \<open>C30: Installing a leader's snapshot that is ahead of the follower's: the handler panics
  exactly when the follower holds an entry with the snapshot's index but another term;
  otherwise the follower keeps only the entries after the snapshot, never moves its commit
  index back, and hands the snapshot to the service.\<close>

theorem install_snapshot_outcome:
  assumes "peer_ok rf" "currentTerm rf \<le> isTerm args" "snapshotIndex rf < LastIncludedIndex args"
  shows "if conflicting rf args
    then InstallSnapshotRequestHandler now rf args reply =
      Inl (GoPanic ''InstallSnapshotRequestHandler ERROR: log inconsistent!'')
    else \<exists>rf' reply'. InstallSnapshotRequestHandler now rf args reply = Inr (rf', reply')
      \<and> peer_ok rf' \<and> persisted rf' \<and> snapshotIndex rf' = LastIncludedIndex args
      \<and> snapshot rf' = isSnapshot args \<and> commitIndex rf' = max (commitIndex rf) (LastIncludedIndex args)
      \<and> (\<forall>j > LastIncludedIndex args. entry_at rf' j = entry_at rf j)
      \<and> applyGo rf' = applyGo rf @ [[snapshotMsg rf']] \<and> isrTerm reply' = isTerm args"
proof (cases "conflicting rf args")
  case True
  with InstallSnapshot_ok [OF assms] show ?thesis by simp
next
  case False
  let ?rf2 = "stepDown now rf (isTerm args)"
  let ?r = "persist ((installed ?rf2 args)\<lparr>applyGo := applyGo rf @ [[snapshotMsg (installed ?rf2 args)]]\<rparr>)"
  have ok2: "peer_ok ?rf2" and i2: "snapshotIndex ?rf2 < LastIncludedIndex args"
    using assms by (simp_all add: peer_ok_def log_ok_def lastIndex_def)
  note ip = installed_peer_ok [OF ok2 i2]
  have "entry_at ?r j = entry_at rf j" if "LastIncludedIndex args < j" for j
  proof -
    have "entry_at ?r j = entry_at (installed ?rf2 args) j" by (rule entry_at_cong) simp_all
    also have "\<dots> = entry_at ?rf2 j" using that by (rule ip(2))
    also have "\<dots> = entry_at rf j" by (rule entry_at_cong) simp_all
    finally show ?thesis .
  qed
  moreover have "peer_ok ?r" using ip(1) by (simp add: peer_ok_def log_ok_def lastIndex_def)
  ultimately show ?thesis
    using False InstallSnapshot_ok [OF assms, of now reply]
    by (auto simp: installed_def snapshotMsg_def)
qed

definition snapshotOffer :: InstallSnapshotArgs where
  "snapshotOffer = \<lparr>isTerm = 3, isLeaderId = 1, LastIncludedIndex = 4, LastIncludedTerm = 3, isSnapshot = [7]\<rparr>"

theorem install_snapshot_outcome_witness:
  "InstallSnapshotRequestHandler 5 follower snapshotOffer zeroInstallSnapshotReply =
      Inl (GoPanic ''InstallSnapshotRequestHandler ERROR: log inconsistent!'')"
proof -
  have a: "currentTerm follower \<le> isTerm snapshotOffer" "snapshotIndex follower < LastIncludedIndex snapshotOffer"
    by code_simp+
  have "entry_at follower 4 = Some (entry 2 4 40)" by code_simp
  then have "conflicting follower snapshotOffer" by (simp add: conflicting_def snapshotOffer_def entry_def)
  with install_snapshot_outcome [OF follower_ok(1) a] show ?thesis by simp
qed

section \<open>Lost calls and stale requests\<close>

text \<open>A lost call is harmless: the response handlers also run when a call has failed, with
  the reply still all zero; once a peer has left term 0 they ignore such a reply.\<close>

theorem failed_call_ignored:
  assumes "0 < currentTerm rf"
  shows "RequestVoteResponseHandler rf va zeroRequestVoteReply = (rf, False)
    \<and> AppendEntriesResponseHandler rf aa zeroAppendEntriesReply = Inr (persist rf)
    \<and> InstallSnapshotResponseHandler rf ia zeroInstallSnapshotReply = Inr (persist rf)"
  using assms
  by (simp add: RequestVoteResponseHandler_def zeroRequestVoteReply_def AppendEntriesResponseHandler_def
      zeroAppendEntriesReply_def InstallSnapshotResponseHandler_def zeroInstallSnapshotReply_def)

theorem failed_call_ignored_witness:
  "RequestVoteResponseHandler leader voteRequest zeroRequestVoteReply = (leader, False)
    \<and> AppendEntriesResponseHandler leader request zeroAppendEntriesReply = Inr (persist leader)
    \<and> InstallSnapshotResponseHandler leader snapshotOffer zeroInstallSnapshotReply = Inr (persist leader)"
proof -
  have "0 < currentTerm leader" by code_simp
  then show ?thesis by (rule failed_call_ignored)
qed

text \<open>
  A request from the time when the follower was empty, delivered late: it starts at the very
  first entry and agrees with everything the follower has committed.
\<close>

definition staleRequest :: "nat AppendEntriesArgs" where
  "staleRequest = \<lparr>aeTerm = 2, LeaderId = 1, PrevLogIndex = -1, PrevLogTerm = 0,
     Entries = [entry 1 0 0, entry 1 1 10, entry 1 2 20, entry 1 3 30, entry 2 4 40], LeaderCommit = 3\<rparr>"

text \<open>A late request for the very first entries breaks a follower that has compacted its log:
  the entries the snapshot covers are put back behind it, the log is no longer numbered
  from the snapshot on, and if the process restarts in this state, \<open>Make\<close> waits for ever,
  because it hands over the snapshot and then the first entry before anyone empties the
  buffer.\<close>

theorem stale_request_blocks_restart:
  "\<exists>rf' reply'. peer_ok follower \<and> args_ok staleRequest \<and> agrees_committed follower staleRequest
     \<and> AppendEntriesRequestHandler 7 follower staleRequest zeroAppendEntriesReply = Inr (rf', reply')
     \<and> \<not> log_ok rf' \<and> Make 3 0 (persister rf') 9 0 = None"
proof -
  have "args_ok staleRequest" by (simp add: args_ok_def staleRequest_def entry_def)
  moreover have "agrees_committed follower staleRequest"
    unfolding agrees_committed_def
  proof (intro conjI allI impI)
    fix k assume "snapshotIndex follower < PrevLogIndex staleRequest + 1 + int k \<and>
        PrevLogIndex staleRequest + 1 + int k \<le> commitIndex follower"
    then have "1 < int k \<and> int k \<le> 3" by (simp add: follower_def staleRequest_def)
    then consider "k = 2" | "k = 3" by linarith
    then show "log follower ! nat (PrevLogIndex staleRequest + int k - snapshotIndex follower) = Entries staleRequest ! k"
      by cases (simp_all add: follower_def staleRequest_def)
  qed (simp add: staleRequest_def follower_def)
  moreover have "case AppendEntriesRequestHandler 7 follower staleRequest zeroAppendEntriesReply of
      Inl e \<Rightarrow> False
    | Inr (rf', reply') \<Rightarrow> (case log rf' of [] \<Rightarrow> False | e # es \<Rightarrow> Index e \<noteq> snapshotIndex rf' + 1)
        \<and> Make 3 0 (persister rf') 9 0 = None"
    by code_simp
  then obtain rf' reply' where r: "AppendEntriesRequestHandler 7 follower staleRequest zeroAppendEntriesReply = Inr (rf', reply')"
    "case log rf' of [] \<Rightarrow> False | e # es \<Rightarrow> Index e \<noteq> snapshotIndex rf' + 1" "Make 3 0 (persister rf') 9 0 = None"
    by (auto split: sum.splits)
  moreover from r(2) have "\<not> log_ok rf'" by (auto simp: log_ok_def split: list.splits)
  ultimately show ?thesis using follower_ok(1) by blast
qed

text \<open>
  A leader that has been overtaken: \<open>leaderTicker\<close> has seen the role of a leader, then the
  vote request of a new candidate is handled, and only then \<open>leaderSendAppendEntriesRPC\<close>
  copies the state.
\<close>

definition overtakenRun :: "nat event list" where
  "overtakenRun = [EvCandidate 0 300 0, EvVote 0 310, EvVoteReply 0, EvLead 0,
     EvCandidate 2 320 0, EvCandidate 2 900 0, EvVote 4 910, EvSend 0]"

text \<open>An overtaken leader sends AppendEntries requests of a term it never led: role check and
  sending are separate critical sections, so a request of peer 0 for term 2 goes out although
  peer 0 has led term 1 only.\<close>

theorem overtaken_leader_sends:
  "\<exists>s. crunP careful (newCluster 3) overtakenRun = Some s \<and> led s = {(1, 0)}
     \<and> (\<exists>c a. c \<in> set (aenet s) \<and> aeSrc c = 0 \<and> aeMsg c = SendAppendEntries a \<and> aeTerm a = 2)"
proof -
  have "case crunP careful (newCluster 3) overtakenRun of None \<Rightarrow> False
     | Some s \<Rightarrow> led s = {(1, 0)} \<and> (case aenet s of [] \<Rightarrow> False
         | c # cs \<Rightarrow> aeSrc c = 0 \<and> (case aeMsg c of SendAppendEntries a \<Rightarrow> aeTerm a = 2 | SendInstallSnapshot a \<Rightarrow> False))"
    by code_simp
  then obtain s where s: "crunP careful (newCluster 3) overtakenRun = Some s" "led s = {(1, 0)}"
    "case aenet s of [] \<Rightarrow> False
       | c # cs \<Rightarrow> aeSrc c = 0 \<and> (case aeMsg c of SendAppendEntries a \<Rightarrow> aeTerm a = 2 | SendInstallSnapshot a \<Rightarrow> False)"
    using case_option_ex by blast
  then show ?thesis by (fastforce split: list.splits outgoing.splits)
qed

end
