(* ===== verification/RaftApply.thy ===== *)
theory RaftApply
  imports RaftState
begin

text \<open>
  The hand-over of committed entries to the service (\<open>putApplyChBuffer\<close> and
  \<open>getApplyChBuffer\<close> of \<open>raft/raft.go\<close>): goroutines that share a buffer, a mutex and one
  condition variable. A goroutine holds the mutex from \<open>Lock\<close> to \<open>Unlock\<close> or \<open>Wait\<close>, so
  one step of the model is what a runnable goroutine does between two of these points.
  \<open>Signal\<close> makes the goroutine that has waited longest runnable.

  No message is lost or duplicated, and a batch is handed over as a whole. But producers
  and the consumer wait on the same condition variable, so a signal meant for the consumer
  can wake a producer, which goes back to sleep: then nobody is left to wake the consumer.
  Killing the peer, which ends the consumer after a round, is left out.
\<close>

section \<open>State and steps\<close>

datatype 'm goroutine =
    Putter "'m list"
  | Getter

record 'm applyState =
  buffer :: "'m list"
  waiting :: "'m goroutine list"
  runnable :: "'m goroutine list"
  delivered :: "'m list"

definition signal :: "'m applyState \<Rightarrow> 'm applyState" where
  "signal s = (case waiting s of
       [] \<Rightarrow> s
     | g # gs \<Rightarrow> s\<lparr>waiting := gs, runnable := runnable s @ [g]\<rparr>)"

text \<open>\<open>putApplyChBuffer\<close>: wait while the buffer is not empty, append, signal.\<close>

definition putApplyChBuffer :: "'m list \<Rightarrow> 'm applyState \<Rightarrow> 'm applyState" where
  "putApplyChBuffer msg s =
    (if buffer s \<noteq> [] then s\<lparr>waiting := waiting s @ [Putter msg]\<rparr>
     else signal (s\<lparr>buffer := buffer s @ msg\<rparr>))"

text \<open>One round of \<open>getApplyChBuffer\<close>: wait while the buffer is empty, send everything to the
  service, clear the buffer, signal, and go round again.\<close>

definition getApplyChBuffer :: "'m applyState \<Rightarrow> 'm applyState" where
  "getApplyChBuffer s =
    (if buffer s = [] then s\<lparr>waiting := waiting s @ [Getter]\<rparr>
     else let s' = signal (s\<lparr>delivered := delivered s @ buffer s, buffer := []\<rparr>) in
          s'\<lparr>runnable := runnable s' @ [Getter]\<rparr>)"

text \<open>A goroutine is started, or the \<open>k\<close>-th runnable goroutine gets the mutex.\<close>

datatype 'm applyEvent = Spawn "'m list" | Run nat

fun applyExec :: "'m applyState \<Rightarrow> 'm applyEvent \<Rightarrow> 'm applyState option" where
  "applyExec s (Spawn msg) = Some (s\<lparr>runnable := runnable s @ [Putter msg]\<rparr>)"
| "applyExec s (Run k) =
    (if k < length (runnable s) then
       let s' = s\<lparr>runnable := take k (runnable s) @ drop (Suc k) (runnable s)\<rparr> in
       Some (case runnable s ! k of Putter msg \<Rightarrow> putApplyChBuffer msg s' | Getter \<Rightarrow> getApplyChBuffer s')
     else None)"

definition applyInit :: "'m applyState" where
  "applyInit = \<lparr>buffer = [], waiting = [], runnable = [Getter], delivered = []\<rparr>"

primrec applyRun :: "'m applyState \<Rightarrow> 'm applyEvent list \<Rightarrow> 'm applyState option" where
  "applyRun s [] = Some s"
| "applyRun s (e # es) = Option.bind (applyExec s e) (\<lambda>t. applyRun t es)"

section \<open>Nothing is lost or duplicated\<close>

primrec msgsOf :: "'m goroutine \<Rightarrow> 'm list" where
  "msgsOf (Putter msg) = msg"
| "msgsOf Getter = []"

definition pending :: "'m applyState \<Rightarrow> 'm multiset" where
  "pending s = (\<Sum>g \<leftarrow> waiting s @ runnable s. mset (msgsOf g))"

definition allMsgs :: "'m applyState \<Rightarrow> 'm multiset" where
  "allMsgs s = mset (delivered s) + mset (buffer s) + pending s"

primrec spawned :: "'m applyEvent \<Rightarrow> 'm list" where
  "spawned (Spawn msg) = msg"
| "spawned (Run k) = []"

lemma allMsgs_signal [simp]: "allMsgs (signal s) = allMsgs s"
  by (cases "waiting s") (simp_all add: signal_def allMsgs_def pending_def ac_simps)

lemma signal_fields [simp]: "buffer (signal s) = buffer s" "delivered (signal s) = delivered s"
  by (simp_all add: signal_def split: list.splits)

lemma allMsgs_put: "allMsgs (putApplyChBuffer msg s) = allMsgs s + mset msg"
proof (cases "buffer s = []")
  case True
  then have "allMsgs (putApplyChBuffer msg s) = allMsgs (s\<lparr>buffer := buffer s @ msg\<rparr>)"
    by (simp add: putApplyChBuffer_def)
  then show ?thesis by (simp add: allMsgs_def pending_def ac_simps)
qed (simp add: putApplyChBuffer_def allMsgs_def pending_def ac_simps)

lemma allMsgs_get: "allMsgs (getApplyChBuffer s) = allMsgs s"
proof (cases "buffer s = []")
  case False
  let ?s1 = "signal (s\<lparr>delivered := delivered s @ buffer s, buffer := []\<rparr>)"
  have "allMsgs (getApplyChBuffer s) = allMsgs ?s1"
    using False by (simp add: getApplyChBuffer_def Let_def allMsgs_def pending_def)
  also have "\<dots> = allMsgs (s\<lparr>delivered := delivered s @ buffer s, buffer := []\<rparr>)" by simp
  finally show ?thesis by (simp add: allMsgs_def pending_def ac_simps)
qed (simp add: getApplyChBuffer_def allMsgs_def pending_def)

lemma allMsgs_remove:
  assumes "k < length (runnable s)"
  shows "allMsgs (s\<lparr>runnable := take k (runnable s) @ drop (Suc k) (runnable s)\<rparr>)
      + mset (msgsOf (runnable s ! k)) = allMsgs s"
proof -
  have "runnable s = take k (runnable s) @ runnable s ! k # drop (Suc k) (runnable s)"
    using assms by (rule id_take_nth_drop)
  then have "(\<Sum>g \<leftarrow> runnable s. mset (msgsOf g)) =
      (\<Sum>g \<leftarrow> take k (runnable s) @ runnable s ! k # drop (Suc k) (runnable s). mset (msgsOf g))"
    by simp
  then show ?thesis by (simp add: allMsgs_def pending_def ac_simps)
qed

lemma allMsgs_exec:
  assumes "applyExec s e = Some t"
  shows "allMsgs t = allMsgs s + mset (spawned e)"
proof (cases e)
  case (Spawn msg)
  with assms have "t = s\<lparr>runnable := runnable s @ [Putter msg]\<rparr>" by simp
  then show ?thesis by (simp add: Spawn allMsgs_def pending_def ac_simps)
next
  case (Run k)
  with assms have k: "k < length (runnable s)" by (simp split: if_splits)
  let ?s1 = "s\<lparr>runnable := take k (runnable s) @ drop (Suc k) (runnable s)\<rparr>"
  note r = allMsgs_remove [OF k]
  show ?thesis
  proof (cases "runnable s ! k")
    case (Putter msg)
    with assms Run k have "t = putApplyChBuffer msg ?s1" by simp
    with r Putter Run show ?thesis by (simp add: allMsgs_put)
  next
    case Getter
    with assms Run k have "t = getApplyChBuffer ?s1" by simp
    with r Getter Run show ?thesis by (simp add: allMsgs_get)
  qed
qed

text \<open>C31: No message to the service is lost or duplicated: at any point of any schedule, what
  has been delivered, what is in the buffer and what the goroutines still hold is together
  exactly what has been handed over.\<close>

theorem apply_conserves:
  assumes "applyRun applyInit es = Some s"
  shows "mset (delivered s) + mset (buffer s) + pending s = mset (concat (map spawned es))"
proof -
  have "applyRun t es = Some s \<Longrightarrow> allMsgs s = allMsgs t + mset (concat (map spawned es))"
    for t :: "'a applyState"
  proof (induction es arbitrary: t)
    case (Cons e es)
    then obtain u where "applyExec t e = Some u" "applyRun u es = Some s"
      by (auto simp: Option.bind_eq_Some_conv)
    with Cons.IH allMsgs_exec show ?case by fastforce
  qed simp
  from this [OF assms] show ?thesis by (simp add: allMsgs_def applyInit_def pending_def)
qed

theorem apply_conserves_witness:
  "\<exists>s. applyRun applyInit [Spawn [1, 2 :: nat], Run 1, Spawn [3], Run 0] = Some s \<and>
     mset (delivered s) + mset (buffer s) + pending s = {#1, 2, 3#}"
proof -
  let ?es = "[Spawn [1, 2 :: nat], Run 1, Spawn [3], Run 0]"
  have "case applyRun applyInit ?es of None \<Rightarrow> False | Some s \<Rightarrow> True" by code_simp
  then obtain s where s: "applyRun applyInit ?es = Some s" using case_option_ex by blast
  from apply_conserves [OF s] s show ?thesis by auto
qed

section \<open>The lost wake-up\<close>

text \<open>
  \<open>stuck\<close>: the buffer is full, the consumer sleeps and only producers are runnable. No
  schedule leads out of it, whatever goroutines are started later.
\<close>

definition stuck :: "'m applyState \<Rightarrow> bool" where
  "stuck s = (buffer s \<noteq> [] \<and> Getter \<in> set (waiting s) \<and> Getter \<notin> set (runnable s))"

lemma stuck_exec:
  assumes "stuck s" "applyExec s e = Some t"
  shows "stuck t \<and> delivered t = delivered s"
proof (cases e)
  case (Spawn msg)
  with assms show ?thesis by (auto simp: stuck_def)
next
  case (Run k)
  with assms(2) have k: "k < length (runnable s)" by (simp split: if_splits)
  then have "runnable s ! k \<in> set (runnable s)" by simp
  with assms(1) obtain msg where "runnable s ! k = Putter msg"
    by (cases "runnable s ! k") (auto simp: stuck_def)
  with Run assms k show ?thesis
    by (auto simp: stuck_def putApplyChBuffer_def dest: in_set_takeD in_set_dropD)
qed

lemma stuck_run:
  "stuck s \<Longrightarrow> applyRun s es = Some t \<Longrightarrow> stuck t \<and> delivered t = delivered s"
proof (induction es arbitrary: s)
  case (Cons e es)
  then obtain u where "applyExec s e = Some u" "applyRun u es = Some t"
    by (auto simp: Option.bind_eq_Some_conv)
  with Cons.IH [of u] stuck_exec [OF Cons.prems(1)] show ?case by simp
qed simp

text \<open>Three batches: the second producer, woken by the consumer, wakes the third one instead
  of the consumer.\<close>

definition lostWakeup :: "nat applyEvent list" where
  "lostWakeup = [Spawn [1], Spawn [2], Spawn [3], Run 1, Run 1, Run 1, Run 0, Run 1, Run 0, Run 0]"

text \<open>C40: The hand-over can block for ever: with three batches there is a schedule after which a
  committed entry sits in the buffer, and no continuation, whatever batches are added,
  delivers anything again.\<close>

theorem apply_lost_wakeup:
  "\<exists>s. applyRun applyInit lostWakeup = Some s \<and> buffer s = [2] \<and> delivered s = [1] \<and>
     {delivered t | t es. applyRun s es = Some t} = {[1]}"
proof -
  have "case applyRun applyInit lostWakeup of None \<Rightarrow> False
      | Some s \<Rightarrow> buffer s = [2] \<and> delivered s = [1] \<and> stuck s"
    by code_simp
  then obtain s where s: "applyRun applyInit lostWakeup = Some s" "buffer s = [2]" "delivered s = [1]" "stuck s"
    using case_option_ex by blast
  have "{delivered t | t es. applyRun s es = Some t} \<subseteq> {[1]}"
    using stuck_run [OF s(4)] s(3) by auto
  moreover have "[1] \<in> {delivered t | t es. applyRun s es = Some t}"
    using s(3) by (intro CollectI exI [of _ s] exI [of _ "[]"]) simp
  ultimately have "{delivered t | t es. applyRun s es = Some t} = {[1]}" by blast
  with s show ?thesis by blast
qed

end
