(* ===== verification/Labrpc.thy ===== *)
theory Labrpc
  imports RaftState
begin

text \<open>
  The simulated network that carries every remote call (\<open>labrpc/labrpc.go\<close>): end points,
  their connections to servers, the goroutine that carries one request, and the dispatch of
  a request to a service and a method by name.

  Names of end points and servers are values of type \<open>'n\<close>. A server is reached through a
  pointer: servers live in a store and are compared by address, so that a server that was
  replaced under the same name is a different one. Random numbers, the time at which the
  handler answers and what other goroutines do to the network meanwhile are arguments.
\<close>

section \<open>Messages\<close>

text \<open>\<open>reqMsg\<close>; the type of the arguments is carried by the handler that decodes them.\<close>

record 'n reqMsg =
  rqEndname :: 'n
  svcMeth :: string
  rqArgs :: bytes

record replyMsg =
  rpOk :: bool
  rpReply :: bytes

definition failedReply :: replyMsg where
  "failedReply = \<lparr>rpOk = False, rpReply = []\<rparr>"

section \<open>Services\<close>

text \<open>
  A method is what \<open>reflect\<close> offers: its name, whether it is exported, its numbers of
  arguments and results, whether its reply argument is a pointer, and the call itself, from
  encoded arguments and the state of the receiver to the encoded reply.
\<close>

record 'st goMethod =
  mName :: string
  mExported :: bool
  mNumIn :: nat
  mReplyPtr :: bool
  mNumOut :: nat
  mCall :: "bytes \<Rightarrow> 'st \<Rightarrow> bytes \<times> 'st"

record 'st service =
  svName :: string
  svMethods :: "string \<rightharpoonup> 'st goMethod"

text \<open>\<open>MakeService\<close>: the methods that look like handlers.\<close>

definition suitable :: "'st goMethod \<Rightarrow> bool" where
  "suitable m = (\<not> (\<not> mExported m \<or> mNumIn m \<noteq> 3 \<or> \<not> mReplyPtr m \<or> mNumOut m \<noteq> 0))"

definition MakeService :: "string \<Rightarrow> 'st goMethod list \<Rightarrow> 'st service" where
  "MakeService name ms =
    \<lparr>svName = name,
     svMethods = fold (\<lambda>m tab. if suitable m then tab(mName m \<mapsto> m) else tab) ms Map.empty\<rparr>"

text \<open>\<open>Service.dispatch\<close>: an unknown method ends the process.\<close>

definition Service_dispatch :: "'st service \<Rightarrow> string \<Rightarrow> 'n reqMsg \<Rightarrow> 'st \<Rightarrow> (replyMsg \<times> 'st) res" where
  "Service_dispatch svc methname req st =
    (case svMethods svc methname of
       Some m \<Rightarrow> (let (rb, st') = mCall m (rqArgs req) st in Inr (\<lparr>rpOk = True, rpReply = rb\<rparr>, st'))
     | None \<Rightarrow> Inl (LogFatal ''labrpc.Service.dispatch(): unknown method''))"

section \<open>Servers\<close>

record 'st Server =
  services :: "string \<rightharpoonup> 'st service"
  srvCount :: int

definition MakeServer :: "'st Server" where
  "MakeServer = \<lparr>services = Map.empty, srvCount = 0\<rparr>"

definition AddService :: "'st Server \<Rightarrow> 'st service \<Rightarrow> 'st Server" where
  "AddService rs svc = rs\<lparr>services := (services rs)(svName svc \<mapsto> svc)\<rparr>"

definition Server_GetCount :: "'st Server \<Rightarrow> int" where
  "Server_GetCount rs = srvCount rs"

text \<open>\<open>strings.LastIndex\<close> for a one-character separator.\<close>

definition LastIndex :: "string \<Rightarrow> char \<Rightarrow> int" where
  "LastIndex s c = fold (\<lambda>(i, x) r. if x = c then int i else r) (enumerate 0 s) (-1)"

text \<open>
  \<open>Server.dispatch\<close>. The counter is incremented before the name is taken apart; a name
  without a dot makes the slice expression panic, an unknown service ends the process.
\<close>

definition Server_dispatch :: "'st Server \<Rightarrow> 'n reqMsg \<Rightarrow> 'st \<Rightarrow> ('st Server \<times> replyMsg \<times> 'st) res" where
  "Server_dispatch rs req st =
    (let rs1 = rs\<lparr>srvCount := srvCount rs + 1\<rparr>;
         dot = LastIndex (svcMeth req) CHR ''.'' in
     rbind (go_take (svcMeth req) dot) (\<lambda>serviceName.
     rbind (go_drop (svcMeth req) (dot + 1)) (\<lambda>methodName.
     case services rs1 serviceName of
       Some svc \<Rightarrow> rbind (Service_dispatch svc methodName req st) (\<lambda>(r, st'). Inr (rs1, r, st'))
     | None \<Rightarrow> Inl (LogFatal ''labrpc.Server.dispatch(): unknown service''))))"

section \<open>The network\<close>

text \<open>
  \<open>servers\<close> maps names to pointers; \<open>Some None\<close> is a nil entry left by \<open>DeleteServer\<close>.
  \<open>connections\<close> likewise holds nil for an end point that was never connected. The
  counters have the widths of the source.
\<close>

record ('n, 'st) Network =
  reliable :: bool
  longDelays :: bool
  longReordering :: bool
  ends :: "'n \<Rightarrow> bool"
  enabled :: "'n \<rightharpoonup> bool"
  servers :: "'n \<rightharpoonup> nat option"
  connections :: "'n \<rightharpoonup> 'n option"
  netDone :: bool
  netCount :: "32 word"
  netBytes :: "64 word"
  store :: "'st Server list"

definition MakeNetwork :: "('n, 'st) Network" where
  "MakeNetwork = \<lparr>reliable = True, longDelays = False, longReordering = False, ends = (\<lambda>n. False),
     enabled = Map.empty, servers = Map.empty, connections = Map.empty, netDone = False,
     netCount = 0, netBytes = 0, store = []\<rparr>"

text \<open>One round of the goroutine that \<open>MakeNetwork\<close> starts: a request is counted and handed on.\<close>

definition acceptReq :: "('n, 'st) Network \<Rightarrow> 'n reqMsg \<Rightarrow> ('n, 'st) Network" where
  "acceptReq rn xreq =
    rn\<lparr>netCount := netCount rn + 1, netBytes := netBytes rn + of_nat (length (rqArgs xreq))\<rparr>"

definition Cleanup :: "('n, 'st) Network \<Rightarrow> ('n, 'st) Network res" where
  "Cleanup rn = (if netDone rn then Inl (GoPanic ''close of closed channel'') else Inr (rn\<lparr>netDone := True\<rparr>))"

definition Reliable :: "('n, 'st) Network \<Rightarrow> bool \<Rightarrow> ('n, 'st) Network" where
  "Reliable rn yes = rn\<lparr>reliable := yes\<rparr>"

definition LongReordering :: "('n, 'st) Network \<Rightarrow> bool \<Rightarrow> ('n, 'st) Network" where
  "LongReordering rn yes = rn\<lparr>longReordering := yes\<rparr>"

definition LongDelays :: "('n, 'st) Network \<Rightarrow> bool \<Rightarrow> ('n, 'st) Network" where
  "LongDelays rn yes = rn\<lparr>longDelays := yes\<rparr>"

text \<open>Reading a Go map gives the zero value for a missing key.\<close>

definition isEnabled :: "('n, 'st) Network \<Rightarrow> 'n \<Rightarrow> bool" where
  "isEnabled rn endname = (case enabled rn endname of None \<Rightarrow> False | Some b \<Rightarrow> b)"

definition connectedTo :: "('n, 'st) Network \<Rightarrow> 'n \<Rightarrow> 'n option" where
  "connectedTo rn endname = (case connections rn endname of None \<Rightarrow> None | Some s \<Rightarrow> s)"

definition serverAt :: "('n, 'st) Network \<Rightarrow> 'n \<Rightarrow> nat option" where
  "serverAt rn servername = (case servers rn servername of None \<Rightarrow> None | Some p \<Rightarrow> p)"

definition readEndnameInfo :: "('n, 'st) Network \<Rightarrow> 'n \<Rightarrow> bool \<times> 'n option \<times> nat option \<times> bool \<times> bool" where
  "readEndnameInfo rn endname =
    (let servername = connectedTo rn endname in
     (isEnabled rn endname, servername,
      (case servername of None \<Rightarrow> None | Some n \<Rightarrow> serverAt rn n),
      reliable rn, longReordering rn))"

definition isServerDead :: "('n, 'st) Network \<Rightarrow> 'n \<Rightarrow> 'n \<Rightarrow> nat option \<Rightarrow> bool" where
  "isServerDead rn endname servername server =
    (if isEnabled rn endname = False \<or> serverAt rn servername \<noteq> server then True else False)"

definition MakeEnd :: "('n, 'st) Network \<Rightarrow> 'n \<Rightarrow> ('n, 'st) Network res" where
  "MakeEnd rn endname =
    (if ends rn endname then Inl (LogFatal ''MakeEnd: already exists'')
     else Inr (rn\<lparr>ends := (ends rn)(endname := True), enabled := (enabled rn)(endname \<mapsto> False),
                  connections := (connections rn)(endname \<mapsto> None)\<rparr>))"

definition AddServer :: "('n, 'st) Network \<Rightarrow> 'n \<Rightarrow> nat \<Rightarrow> ('n, 'st) Network" where
  "AddServer rn servername rs = rn\<lparr>servers := (servers rn)(servername \<mapsto> Some rs)\<rparr>"

definition DeleteServer :: "('n, 'st) Network \<Rightarrow> 'n \<Rightarrow> ('n, 'st) Network" where
  "DeleteServer rn servername = rn\<lparr>servers := (servers rn)(servername \<mapsto> None)\<rparr>"

definition Connect :: "('n, 'st) Network \<Rightarrow> 'n \<Rightarrow> 'n \<Rightarrow> ('n, 'st) Network" where
  "Connect rn endname servername = rn\<lparr>connections := (connections rn)(endname \<mapsto> Some servername)\<rparr>"

definition Enable :: "('n, 'st) Network \<Rightarrow> 'n \<Rightarrow> bool \<Rightarrow> ('n, 'st) Network" where
  "Enable rn endname b = rn\<lparr>enabled := (enabled rn)(endname \<mapsto> b)\<rparr>"

definition GetCount :: "('n, 'st) Network \<Rightarrow> 'n \<Rightarrow> int res" where
  "GetCount rn servername =
    (case serverAt rn servername of
       None \<Rightarrow> Inl NilDereference
     | Some p \<Rightarrow> rbind (go_nth (store rn) (int p)) (\<lambda>svr. Inr (Server_GetCount svr)))"

definition GetTotalCount :: "('n, 'st) Network \<Rightarrow> int" where
  "GetTotalCount rn = sint (netCount rn)"

definition GetTotalBytes :: "('n, 'st) Network \<Rightarrow> int" where
  "GetTotalBytes rn = sint (netBytes rn)"

section \<open>One request\<close>

text \<open>
  The random numbers of \<open>processReq\<close>: whether the request and the reply of an unreliable
  network are dropped (\<open>rand.Int() % 1000\<close>), and whether a reply is held back
  (\<open>rand.Intn(900)\<close>). The lengths of the delays do not matter.
\<close>

record dice =
  dropReq :: int
  dropRep :: int
  reorder :: int

text \<open>
  What the goroutine meets while it waits: \<open>Tick f\<close>, 100 milliseconds have passed;
  \<open>Answer f\<close>, the handler has answered. The function is what other goroutines have done to
  the network meanwhile.
\<close>

datatype ('n, 'st) wait =
    Tick "('n, 'st) Network \<Rightarrow> ('n, 'st) Network"
  | Answer "('n, 'st) Network \<Rightarrow> ('n, 'st) Network"

text \<open>The loop over \<open>select\<close>: whether a reply came, and the network then. \<open>None\<close>: still waiting.\<close>

fun awaitReply :: "'n \<Rightarrow> 'n \<Rightarrow> nat \<Rightarrow> ('n, 'st) Network \<Rightarrow> ('n, 'st) wait list \<Rightarrow> (bool \<times> ('n, 'st) Network) option" where
  "awaitReply endname servername server rn [] = None"
| "awaitReply endname servername server rn (Answer f # ws) = Some (True, f rn)"
| "awaitReply endname servername server rn (Tick f # ws) =
    (if isServerDead (f rn) endname servername (Some server) then Some (False, f rn)
     else awaitReply endname servername server (f rn) ws)"

definition deliver :: "('n, 'st) Network \<Rightarrow> replyMsg \<Rightarrow> ('n, 'st) Network \<times> replyMsg" where
  "deliver rn reply = (rn\<lparr>netBytes := netBytes rn + of_nat (length (rpReply reply))\<rparr>, reply)"

text \<open>
  The end of \<open>processReq\<close>, after the loop: no reply from a server that is gone; an unreliable
  network may drop the reply. Delivering at once and after a delay differ only in time.
\<close>

definition finishReq :: "'n \<Rightarrow> 'n \<Rightarrow> nat \<Rightarrow> bool \<Rightarrow> bool \<Rightarrow> dice \<Rightarrow> replyMsg \<Rightarrow> bool \<Rightarrow> ('n, 'st) Network \<Rightarrow>
    ('n, 'st) Network \<times> replyMsg" where
  "finishReq endname servername server rel reord d reply replyOK rn =
    (let serverDead = isServerDead rn endname servername (Some server) in
     if replyOK = False \<or> serverDead = True then (rn, failedReply)
     else if rel = False \<and> dropRep d < 100 then (rn, failedReply)
     else if reord = True \<and> reorder d < 600 then deliver rn reply
     else deliver rn reply)"

text \<open>
  \<open>processReq\<close>. \<open>rn\<close> is the network when the request arrives. The handler runs at most once,
  on the server found then; its effect is kept even if the reply is not delivered. The
  result says which network remains, what the caller gets, and the state of the service
  after the handler.
\<close>

definition processReq :: "('n, 'st) Network \<Rightarrow> 'n reqMsg \<Rightarrow> dice \<Rightarrow> ('n, 'st) wait list \<Rightarrow> 'st \<Rightarrow>
    (('n, 'st) Network \<times> replyMsg \<times> 'st) option res" where
  "processReq rn req d waits st =
    (let (enb, sn, sv, rel, reord) = readEndnameInfo rn (rqEndname req) in
     if enb \<and> sn \<noteq> None \<and> sv \<noteq> None then
       if rel = False \<and> dropReq d < 100 then Inr (Some (rn, failedReply, st))
       else
         rbind (go_nth (store rn) (int (the sv))) (\<lambda>srv.
         rbind (Server_dispatch srv req st) (\<lambda>(srv', reply, st').
         Inr (map_option
           (\<lambda>(replyOK, rn2).
              let (rn3, r) = finishReq (rqEndname req) (the sn) (the sv) rel reord d reply replyOK rn2 in (rn3, r, st'))
           (awaitReply (rqEndname req) (the sn) (the sv) (rn\<lparr>store := (store rn)[the sv := srv']\<rparr>) waits))))
     else Inr (Some (rn, failedReply, st)))"

section \<open>The caller\<close>

text \<open>
  \<open>ClientEnd.Call\<close>: on a network that has been cleaned up the call fails (a request that the network
  takes at the very moment it is cleaned up counts as taken before); otherwise the
  request is accepted and its reply awaited. The result is what \<open>Call\<close> returns, with the
  bytes decoded into the reply variable when it is true.
\<close>

definition Call :: "('n, 'st) Network \<Rightarrow> 'n \<Rightarrow> string \<Rightarrow> bytes \<Rightarrow> dice \<Rightarrow> ('n, 'st) wait list \<Rightarrow> 'st \<Rightarrow>
    (('n, 'st) Network \<times> bytes option \<times> 'st) option res" where
  "Call rn endname meth args d waits st =
    (if netDone rn then Inr (Some (rn, None, st))
     else
     let req = \<lparr>rqEndname = endname, svcMeth = meth, rqArgs = args\<rparr> in
     rbind (processReq (acceptReq rn req) req d waits st) (\<lambda>r.
     Inr (map_option (\<lambda>(rn', rep, st'). (rn', if rpOk rep then Some (rpReply rep) else None, st')) r)))"

section \<open>Names\<close>

text \<open>The last dot separates service and method.\<close>

lemma LastIndex_append:
  "LastIndex (xs @ [x]) c = (if x = c then int (length xs) else LastIndex xs c)"
  by (simp add: LastIndex_def enumerate_append_eq)

lemma LastIndex_split:
  assumes "c \<notin> set meth"
  shows "LastIndex (svc @ c # meth) c = int (length svc)"
  using assms
proof (induction meth rule: rev_induct)
  case Nil
  then show ?case using LastIndex_append [of svc c c] by simp
next
  case (snoc x meth)
  have "LastIndex (svc @ c # meth @ [x]) c = LastIndex (svc @ c # meth) c"
    using LastIndex_append [of "svc @ c # meth" x c] snoc.prems by auto
  with snoc show ?case by simp
qed

lemma LastIndex_none: "c \<notin> set s \<Longrightarrow> LastIndex s c = -1"
proof (induction s rule: rev_induct)
  case Nil
  show ?case by (simp add: LastIndex_def)
next
  case (snoc x s)
  then show ?case by (auto simp: LastIndex_append)
qed

lemma dispatch_split:
  assumes "svcMeth req = svc @ CHR ''.'' # meth" "CHR ''.'' \<notin> set meth"
  shows "Server_dispatch rs req st =
    (case services rs svc of
       Some s \<Rightarrow> rbind (Service_dispatch s meth req st) (\<lambda>(r, st'). Inr (rs\<lparr>srvCount := srvCount rs + 1\<rparr>, r, st'))
     | None \<Rightarrow> Inl (LogFatal ''labrpc.Server.dispatch(): unknown service''))"
proof -
  have "LastIndex (svcMeth req) CHR ''.'' = int (length svc)" using assms LastIndex_split by simp
  moreover have "nat (int (length svc) + 1) = Suc (length svc)" by simp
  ultimately show ?thesis
    by (simp add: Server_dispatch_def Let_def assms(1) go_take_def go_drop_def)
qed

lemma service_table:
  assumes "distinct (map mName ms)"
  shows "fold (\<lambda>m tab. if suitable m then tab(mName m \<mapsto> m) else tab) ms tab0 k =
    (case find (\<lambda>m. mName m = k \<and> suitable m) ms of None \<Rightarrow> tab0 k | Some m \<Rightarrow> Some m)"
  using assms
proof (induction ms arbitrary: tab0)
  case (Cons m ms)
  have "find (\<lambda>x. mName x = mName m \<and> suitable x) ms = None" using Cons.prems by (auto simp: find_None_iff image_iff)
  with Cons show ?case by (auto split: option.splits)
qed simp

lemma MakeService_table:
  "distinct (map mName ms) \<Longrightarrow> svMethods (MakeService name ms) meth = find (\<lambda>m. mName m = meth \<and> suitable m) ms"
  by (simp add: MakeService_def service_table split: option.splits)

section \<open>What a reply means\<close>

text \<open>The steps behind a positive reply.\<close>

lemma finishReq_positive:
  assumes "finishReq e sn sv rel reord d reply replyOK rn = (rn', rep)" "rpOk rep"
  shows "replyOK \<and> isEnabled rn e \<and> serverAt rn sn = Some sv \<and> rep = reply \<and> (rn', rep) = deliver rn reply"
  using assms by (auto simp: finishReq_def Let_def failedReply_def isServerDead_def deliver_def split: if_splits)

lemma processReq_positive:
  assumes p: "processReq rn req d ws st = Inr (Some (rn', rep, st'))" and ok: "rpOk rep"
  obtains sn sv srv srv' rn2 where "isEnabled rn (rqEndname req)" "connectedTo rn (rqEndname req) = Some sn"
    "serverAt rn sn = Some sv" "go_nth (store rn) (int sv) = Inr srv" "Server_dispatch srv req st = Inr (srv', rep, st')"
    "awaitReply (rqEndname req) sn sv (rn\<lparr>store := (store rn)[sv := srv']\<rparr>) ws = Some (True, rn2)"
    "isEnabled rn2 (rqEndname req)" "serverAt rn2 sn = Some sv" "rn' = fst (deliver rn2 rep)"
proof -
  let ?e = "rqEndname req"
  have nf: "rep \<noteq> failedReply" using ok by (auto simp: failedReply_def)
  obtain enb sno svo rel reord where i: "readEndnameInfo rn ?e = (enb, sno, svo, rel, reord)" by (cases "readEndnameInfo rn ?e")
  with p nf have go: "enb" "sno \<noteq> None" "svo \<noteq> None" "\<not> (rel = False \<and> dropReq d < 100)"
    by (auto simp: processReq_def split: if_splits)
  then obtain sn sv where s: "sno = Some sn" "svo = Some sv" by auto
  with i go(1) have at: "isEnabled rn ?e" "connectedTo rn ?e = Some sn" "serverAt rn sn = Some sv"
    by (auto simp: readEndnameInfo_def Let_def)
  from p i go s obtain srv srv' reply where d: "go_nth (store rn) (int sv) = Inr srv"
    "Server_dispatch srv req st = Inr (srv', reply, st')"
    and aw: "\<exists>r rn2. awaitReply ?e sn sv (rn\<lparr>store := (store rn)[sv := srv']\<rparr>) ws = Some (r, rn2) \<and>
      finishReq ?e sn sv rel reord d reply r rn2 = (rn', rep)"
    by (auto simp: processReq_def rbind_eq_Inr case_prod_unfold Let_def prod_eq_iff)
  from aw obtain r rn2 where aw': "awaitReply ?e sn sv (rn\<lparr>store := (store rn)[sv := srv']\<rparr>) ws = Some (r, rn2)"
    "finishReq ?e sn sv rel reord d reply r rn2 = (rn', rep)" by blast
  note f = finishReq_positive [OF aw'(2) ok]
  show thesis
    by (rule that [of sn sv srv srv' rn2]) (use at d aw' f in \<open>auto simp: prod_eq_iff\<close>)
qed

text \<open>
  C11: a positive reply is real. When \<open>Call\<close> succeeds, the end point was enabled and connected
  to a registered server when the request was accepted, the bytes are the reply of one run of
  the handler on that server, and when the handler had answered the end point was still
  enabled and the very same server still registered: no reply comes from a server that was
  deleted or replaced meanwhile.
\<close>

theorem call_positive:
  assumes "Call rn e meth args d ws st = Inr (Some (rn', Some b, st'))"
  shows "\<not> netDone rn \<and> isEnabled rn e \<and>
    (\<exists>sn sv srv srv' rn2. connectedTo rn e = Some sn \<and> serverAt rn sn = Some sv \<and>
      go_nth (store rn) (int sv) = Inr srv \<and>
      Server_dispatch srv \<lparr>rqEndname = e, svcMeth = meth, rqArgs = args\<rparr> st = Inr (srv', \<lparr>rpOk = True, rpReply = b\<rparr>, st') \<and>
      isEnabled rn2 e \<and> serverAt rn2 sn = Some sv \<and> rn' = rn2\<lparr>netBytes := netBytes rn2 + of_nat (length b)\<rparr>)"
proof -
  let ?req = "\<lparr>rqEndname = e, svcMeth = meth, rqArgs = args\<rparr>"
  have nd: "\<not> netDone rn" using assms by (auto simp: Call_def)
  with assms obtain rep where p: "processReq (acceptReq rn ?req) ?req d ws st = Inr (Some (rn', rep, st'))"
    "rpOk rep" "rpReply rep = b"
    by (auto simp: Call_def Let_def rbind_eq_Inr split: if_splits)
  have same: "isEnabled (acceptReq rn ?req) = isEnabled rn" "connectedTo (acceptReq rn ?req) = connectedTo rn"
    "serverAt (acceptReq rn ?req) = serverAt rn" "store (acceptReq rn ?req) = store rn"
    by (auto simp: acceptReq_def isEnabled_def connectedTo_def serverAt_def fun_eq_iff)
  have rep: "rep = \<lparr>rpOk = True, rpReply = b\<rparr>" using p(2,3) by (cases rep) simp
  from p(1,2) show ?thesis
  proof (rule processReq_positive)
    fix sn sv srv srv' rn2
    assume h: "isEnabled (acceptReq rn ?req) (rqEndname ?req)" "connectedTo (acceptReq rn ?req) (rqEndname ?req) = Some sn"
      "serverAt (acceptReq rn ?req) sn = Some sv" "go_nth (store (acceptReq rn ?req)) (int sv) = Inr srv"
      "Server_dispatch srv ?req st = Inr (srv', rep, st')" "isEnabled rn2 (rqEndname ?req)" "serverAt rn2 sn = Some sv"
      "rn' = fst (deliver rn2 rep)"
    have "rn' = rn2\<lparr>netBytes := netBytes rn2 + of_nat (length b)\<rparr>" using h(8) rep by (simp add: deliver_def)
    with h nd show ?thesis unfolding same rep by (intro conjI exI [of _ sn] exI [of _ sv] exI [of _ srv] exI [of _ srv'] exI [of _ rn2]) auto
  qed
qed

text \<open>A network with one server and one end point, and a service whose method counts its calls.\<close>

definition echoMethod :: "nat goMethod" where
  "echoMethod = \<lparr>mName = ''Echo'', mExported = True, mNumIn = 3, mReplyPtr = True, mNumOut = 0,
     mCall = (\<lambda>b n. (b, n + 1))\<rparr>"

definition echoNet :: "(nat, nat) Network" where
  "echoNet = Enable (Connect (AddServer (MakeNetwork\<lparr>store := [AddService MakeServer (MakeService ''Raft'' [echoMethod])]\<rparr>) 7 0) 1 7) 1 True"

definition fairDice :: dice where
  "fairDice = \<lparr>dropReq = 999, dropRep = 999, reorder = 899\<rparr>"

lemmas net_defs = isEnabled_def connectedTo_def serverAt_def readEndnameInfo_def isServerDead_def
  MakeNetwork_def MakeServer_def AddService_def MakeService_def suitable_def AddServer_def Connect_def Enable_def

lemma echoNet_call:
  "Call echoNet 1 ''Raft.Echo'' [5, 6] fairDice [Tick id, Answer id] 0 =
    Inr (Some (echoNet\<lparr>netCount := 1, netBytes := 4, store := [(store echoNet ! 0)\<lparr>srvCount := 1\<rparr>]\<rparr>, Some [5, 6], 1))"
proof -
  have d: "LastIndex ''Raft.Echo'' CHR ''.'' = 4" by (simp add: LastIndex_def)
  show ?thesis
    by (simp add: Call_def processReq_def acceptReq_def echoNet_def net_defs echoMethod_def fairDice_def Server_dispatch_def
        Service_dispatch_def d go_nth_def go_take_def go_drop_def finishReq_def deliver_def Let_def)
qed

theorem call_positive_witness:
  "isEnabled echoNet 1 \<and> (\<exists>sn sv. connectedTo echoNet 1 = Some sn \<and> serverAt echoNet sn = Some sv)"
  using call_positive [OF echoNet_call] by blast

section \<open>A working connection\<close>

lemma awaitReply_quiet:
  assumes "\<And>f. Tick f \<in> set ws \<or> Answer f \<in> set ws \<Longrightarrow> f = id"
    and "\<exists>f. Answer f \<in> set ws" "\<not> isServerDead rn e sn (Some sv)"
  shows "awaitReply e sn sv rn ws = Some (True, rn)"
  using assms
proof (induction ws)
  case (Cons w ws)
  show ?case
  proof (cases w)
    case (Tick f)
    then have "f = id" using Cons.prems(1) [of f] list.set_intros(1) [of w ws] by blast
    moreover have "\<exists>f. Answer f \<in> set ws" using Cons.prems(2) Tick by auto
    then have "awaitReply e sn sv rn ws = Some (True, rn)"
      using Cons.IH [OF _ _ Cons.prems(3)] Cons.prems(1) list.set_intros(2) [of _ ws w] by blast
    ultimately show ?thesis using Tick Cons.prems(3) by simp
  next
    case (Answer f)
    then have "f = id" using Cons.prems(1) [of f] list.set_intros(1) [of w ws] by blast
    with Answer show ?thesis by simp
  qed
qed simp

text \<open>
  C21: a working connection delivers. On a reliable network, from an enabled end point that is
  connected to a registered server with the service and method asked for, a call returns the
  handler's reply however long the handler takes, as long as nobody changes the network
  meanwhile; the service has run the handler once, and the server and the network have
  counted one call.
\<close>

theorem reliable_call_delivers:
  assumes "\<not> netDone rn" "reliable rn" "isEnabled rn e" "connectedTo rn e = Some sn" "serverAt rn sn = Some sv"
    and "sv < length (store rn)" "services (store rn ! sv) svc = Some s" "svMethods s meth = Some m" "CHR ''.'' \<notin> set meth"
    and "\<And>f. Tick f \<in> set ws \<or> Answer f \<in> set ws \<Longrightarrow> f = id" "\<exists>f. Answer f \<in> set ws"
  shows "\<exists>rn'. Call rn e (svc @ CHR ''.'' # meth) args d ws st = Inr (Some (rn', Some (fst (mCall m args st)), snd (mCall m args st))) \<and>
    netCount rn' = netCount rn + 1 \<and> srvCount (store rn' ! sv) = srvCount (store rn ! sv) + 1"
proof -
  let ?req = "\<lparr>rqEndname = e, svcMeth = svc @ CHR ''.'' # meth, rqArgs = args\<rparr>"
  let ?rn = "acceptReq rn ?req" and ?srv = "(store rn ! sv)\<lparr>srvCount := srvCount (store rn ! sv) + 1\<rparr>"
  let ?rn1 = "?rn\<lparr>store := (store ?rn)[sv := ?srv]\<rparr>" and ?rep = "\<lparr>rpOk = True, rpReply = fst (mCall m args st)\<rparr>"
  have same: "isEnabled ?rn = isEnabled rn" "connectedTo ?rn = connectedTo rn" "serverAt ?rn = serverAt rn"
    "store ?rn = store rn" "reliable ?rn = reliable rn"
    by (auto simp: acceptReq_def isEnabled_def connectedTo_def serverAt_def fun_eq_iff)
  have disp: "Server_dispatch (store rn ! sv) ?req st = Inr (?srv, ?rep, snd (mCall m args st))"
    using dispatch_split [of ?req svc meth "store rn ! sv" st] assms(7-9) by (simp add: Service_dispatch_def case_prod_unfold Let_def)
  have alive: "\<not> isServerDead ?rn1 e sn (Some sv)"
    using assms(3,5) by (simp add: isServerDead_def isEnabled_def serverAt_def acceptReq_def)
  have aw: "awaitReply e sn sv ?rn1 ws = Some (True, ?rn1)" by (rule awaitReply_quiet [OF assms(10,11) alive])
  have "processReq ?rn ?req d ws st = Inr (Some (fst (deliver ?rn1 ?rep), ?rep, snd (mCall m args st)))"
    using assms same disp aw alive
    by (simp add: processReq_def readEndnameInfo_def go_nth_def finishReq_def deliver_def Let_def)
  then have "Call rn e (svc @ CHR ''.'' # meth) args d ws st =
      Inr (Some (fst (deliver ?rn1 ?rep), Some (fst (mCall m args st)), snd (mCall m args st)))"
    using assms(1) by (simp add: Call_def Let_def)
  moreover have "netCount (fst (deliver ?rn1 ?rep)) = netCount rn + 1" "store (fst (deliver ?rn1 ?rep)) = (store rn)[sv := ?srv]"
    by (simp_all add: deliver_def acceptReq_def)
  ultimately show ?thesis using assms(6) by simp
qed

theorem reliable_call_delivers_witness:
  "\<exists>rn'. Call echoNet 1 ''Raft.Echo'' [5] fairDice [Tick id, Tick id, Answer id] 3 = Inr (Some (rn', Some [5], 4)) \<and>
    netCount rn' = netCount echoNet + 1 \<and> srvCount (store rn' ! 0) = srvCount (store echoNet ! 0) + 1"
proof -
  have s: "services (store echoNet ! 0) ''Raft'' = Some (MakeService ''Raft'' [echoMethod])"
    "svMethods (MakeService ''Raft'' [echoMethod]) ''Echo'' = Some echoMethod"
    by (simp_all add: echoNet_def net_defs echoMethod_def)
  have n: "\<not> netDone echoNet" "reliable echoNet" "isEnabled echoNet 1" "connectedTo echoNet 1 = Some 7"
    "serverAt echoNet 7 = Some 0" "0 < length (store echoNet)"
    by (simp_all add: echoNet_def net_defs)
  have w: "f = id" if "Tick f \<in> set [Tick id, Tick id, Answer id] \<or> Answer f \<in> set [Tick id, Tick id, Answer id]"
    for f :: "(nat, nat) Network \<Rightarrow> (nat, nat) Network" using that by auto
  have a: "\<exists>f. Answer f \<in> set [Tick id, Tick id, Answer id :: (nat, nat) wait]" by auto
  from reliable_call_delivers [OF n s _ w a, of "[5]" fairDice 3] show ?thesis by (simp add: echoMethod_def)
qed

section \<open>Dispatch by name\<close>

text \<open>
  A request named \<open>S.M\<close> reaches method \<open>M\<close> of service \<open>S\<close> whatever dots the name of the
  service has; an unknown service or method ends the process and a name without a dot makes
  the server panic. \<open>MakeService\<close> offers exactly the exported methods with two arguments, a
  pointer for the reply and no result.
\<close>

theorem dispatch_by_name:
  "(svcMeth req = svc @ CHR ''.'' # meth \<and> CHR ''.'' \<notin> set meth \<longrightarrow>
     Server_dispatch rs req st =
      (case services rs svc of
         None \<Rightarrow> Inl (LogFatal ''labrpc.Server.dispatch(): unknown service'')
       | Some s \<Rightarrow> (case svMethods s meth of
           None \<Rightarrow> Inl (LogFatal ''labrpc.Service.dispatch(): unknown method'')
         | Some m \<Rightarrow> Inr (rs\<lparr>srvCount := srvCount rs + 1\<rparr>, \<lparr>rpOk = True, rpReply = fst (mCall m (rqArgs req) st)\<rparr>,
                          snd (mCall m (rqArgs req) st))))) \<and>
   (CHR ''.'' \<notin> set (svcMeth req) \<longrightarrow> Server_dispatch rs req st = Inl IndexOutOfRange) \<and>
   (distinct (map mName ms) \<longrightarrow> svMethods (MakeService name ms) meth = find (\<lambda>m. mName m = meth \<and> suitable m) ms)"
proof (intro conjI impI; (elim conjE)?)
  assume "svcMeth req = svc @ CHR ''.'' # meth" "CHR ''.'' \<notin> set meth"
  from dispatch_split [OF this, of rs st] show "Server_dispatch rs req st =
      (case services rs svc of
         None \<Rightarrow> Inl (LogFatal ''labrpc.Server.dispatch(): unknown service'')
       | Some s \<Rightarrow> (case svMethods s meth of
           None \<Rightarrow> Inl (LogFatal ''labrpc.Service.dispatch(): unknown method'')
         | Some m \<Rightarrow> Inr (rs\<lparr>srvCount := srvCount rs + 1\<rparr>, \<lparr>rpOk = True, rpReply = fst (mCall m (rqArgs req) st)\<rparr>,
                          snd (mCall m (rqArgs req) st))))"
    by (simp add: Service_dispatch_def case_prod_unfold Let_def split: option.splits)
next
  assume "CHR ''.'' \<notin> set (svcMeth req)"
  then show "Server_dispatch rs req st = Inl IndexOutOfRange"
    by (simp add: Server_dispatch_def LastIndex_none go_take_def)
next
  assume "distinct (map mName ms)"
  then show "svMethods (MakeService name ms) meth = find (\<lambda>m. mName m = meth \<and> suitable m) ms"
    by (simp add: MakeService_table)
qed

theorem dispatch_by_name_witness:
  "svMethods (MakeService ''Raft'' [echoMethod]) ''Echo'' = Some echoMethod \<and>
   Server_dispatch (AddService MakeServer (MakeService ''Raft'' [echoMethod]))
     \<lparr>rqEndname = 1 :: nat, svcMeth = ''RaftEcho'', rqArgs = []\<rparr> 0 = Inl IndexOutOfRange \<and>
   Server_dispatch (AddService MakeServer (MakeService ''Raft'' [echoMethod]))
     \<lparr>rqEndname = 1 :: nat, svcMeth = ''Raft.Vote'', rqArgs = []\<rparr> 0 = Inl (LogFatal ''labrpc.Service.dispatch(): unknown method'')"
proof -
  have a: "svMethods (MakeService ''Raft'' [echoMethod]) ''Echo'' = Some echoMethod"
    using dispatch_by_name [of "\<lparr>rqEndname = 1 :: nat, svcMeth = ''x'', rqArgs = []\<rparr>" "''Raft''" "''Echo''" MakeServer 0 "[echoMethod]" "''Raft''"]
    by (auto simp: suitable_def echoMethod_def)
  have t: "services (AddService MakeServer (MakeService ''Raft'' [echoMethod])) ''Raft'' = Some (MakeService ''Raft'' [echoMethod])"
    "svMethods (MakeService ''Raft'' [echoMethod]) ''Vote'' = None"
    by (simp_all add: AddService_def MakeServer_def MakeService_def suitable_def echoMethod_def)
  have b: "Server_dispatch (AddService MakeServer (MakeService ''Raft'' [echoMethod]))
     \<lparr>rqEndname = 1 :: nat, svcMeth = ''RaftEcho'', rqArgs = []\<rparr> 0 = Inl IndexOutOfRange"
    using dispatch_by_name [of "\<lparr>rqEndname = 1 :: nat, svcMeth = ''RaftEcho'', rqArgs = []\<rparr>" "[]" "[]"
      "AddService MakeServer (MakeService ''Raft'' [echoMethod])" 0 "[]" "[]"] by auto
  have c: "Server_dispatch (AddService MakeServer (MakeService ''Raft'' [echoMethod]))
     \<lparr>rqEndname = 1 :: nat, svcMeth = ''Raft.Vote'', rqArgs = []\<rparr> 0 = Inl (LogFatal ''labrpc.Service.dispatch(): unknown method'')"
    using dispatch_by_name [of "\<lparr>rqEndname = 1 :: nat, svcMeth = ''Raft.Vote'', rqArgs = []\<rparr>" "''Raft''" "''Vote''"
      "AddService MakeServer (MakeService ''Raft'' [echoMethod])" 0 "[]" "[]"] t by auto
  from a b c show ?thesis by blast
qed

section \<open>Counters\<close>

text \<open>
  C33: the network counts its calls in 32 bits: up to \<open>2^31 - 1\<close> calls \<open>GetTotalCount\<close> is their
  number, with the next call the counter turns negative.
\<close>

theorem total_count_wraps:
  fixes reqs :: "'n reqMsg list"
  shows "(length reqs < 2 ^ 31 \<longrightarrow> GetTotalCount (fold (\<lambda>r n. acceptReq n r) reqs (MakeNetwork :: ('n, 'st) Network)) = int (length reqs)) \<and>
   (length reqs = 2 ^ 31 \<longrightarrow> GetTotalCount (fold (\<lambda>r n. acceptReq n r) reqs (MakeNetwork :: ('n, 'st) Network)) = - (2 ^ 31))"
proof -
  have c: "netCount (fold (\<lambda>r n. acceptReq n r) reqs rn) = netCount rn + of_nat (length reqs)" for rn :: "('n, 'st) Network"
    by (induction reqs arbitrary: rn) (simp_all add: acceptReq_def)
  have "GetTotalCount (fold (\<lambda>r n. acceptReq n r) reqs (MakeNetwork :: ('n, 'st) Network)) = sint (of_nat (length reqs) :: 32 word)"
    by (simp add: GetTotalCount_def c MakeNetwork_def)
  also have "\<dots> = signed_take_bit 31 (int (length reqs))" by (simp add: signed_of_nat)
  finally have eq: "GetTotalCount (fold (\<lambda>r n. acceptReq n r) reqs (MakeNetwork :: ('n, 'st) Network)) = signed_take_bit 31 (int (length reqs))" .
  have "signed_take_bit 31 (int (length reqs)) = int (length reqs)" if "length reqs < 2 ^ 31"
    using that by (intro signed_take_bit_int_eq_self) auto
  moreover have "signed_take_bit 31 (2 ^ 31 :: int) = - (2 ^ 31)" by code_simp
  ultimately show ?thesis using eq by simp
qed

theorem total_count_wraps_witness:
  "GetTotalCount (fold (\<lambda>r n. acceptReq n r) [\<lparr>rqEndname = 1 :: nat, svcMeth = ''Raft.Echo'', rqArgs = []\<rparr>]
     (MakeNetwork :: (nat, nat) Network)) = 1"
  using total_count_wraps [of "[\<lparr>rqEndname = 1 :: nat, svcMeth = ''Raft.Echo'', rqArgs = []\<rparr>]"] by simp

end
