(* ===== verification/RaftHarness.thy ===== *)
theory RaftHarness
  imports Labrpc RaftPeer
begin

text \<open>
  The harness that runs Raft clusters (\<open>raft/config.go\<close>): it keeps the peers, their stable
  storage and the names of their end points, connects and disconnects servers, crashes and
  restarts them, reads what they commit and checks that it agrees, and asks for leaders.

  Random names, what the service encodes into snapshots, the methods that \<open>reflect\<close> finds on a
  peer and the passage of time are arguments. While a peer runs, its storage is the one the
  harness has saved; so \<open>hSaved\<close> is read only for a server without a peer. A nil slice of end
  names is empty.
\<close>

section \<open>State\<close>

text \<open>End points are named by strings, servers by numbers.\<close>

datatype netName = EndName string | ServerName int

record ('c, 'st) config =
  hFinished :: int
  hNet :: "(netName, 'st) Network"
  hN :: int
  hRafts :: "'c Raft option list"
  hApplyErr :: "string list"
  hConnected :: "bool list"
  hSaved :: "'c Persister option list"
  hEndnames :: "string list list"
  hLogs :: "(int \<rightharpoonup> 'c option) list"
  hLastApplied :: "int list"
  hRpcs0 :: int
  hCmds0 :: int
  hBytes0 :: int
  hMaxIndex :: int
  hMaxIndex0 :: int

section \<open>Connecting\<close>

definition enableEnd :: "int \<Rightarrow> int \<Rightarrow> bool \<Rightarrow> ('c, 'st) config \<Rightarrow> ('c, 'st) config res" where
  "enableEnd i j b cfg =
    rbind (go_nth (hEndnames cfg) i) (\<lambda>es.
    rbind (go_nth es j) (\<lambda>endname.
    Inr (cfg\<lparr>hNet := Enable (hNet cfg) (EndName endname) b\<rparr>)))"

definition cfg_connect :: "int \<Rightarrow> ('c, 'st) config \<Rightarrow> ('c, 'st) config res" where
  "cfg_connect i cfg =
    rbind (go_upd (hConnected cfg) i True) (\<lambda>c.
    rbind (for_each (indices 0 (hN cfg))
        (\<lambda>j s. rbind (go_nth (hConnected s) j) (\<lambda>cj. if cj then enableEnd i j True s else Inr s)) (cfg\<lparr>hConnected := c\<rparr>))
      (for_each (indices 0 (hN cfg))
        (\<lambda>j s. rbind (go_nth (hConnected s) j) (\<lambda>cj. if cj then enableEnd j i True s else Inr s))))"

definition cfg_disconnect :: "int \<Rightarrow> ('c, 'st) config \<Rightarrow> ('c, 'st) config res" where
  "cfg_disconnect i cfg =
    rbind (go_upd (hConnected cfg) i False) (\<lambda>c.
    rbind (for_each (indices 0 (hN cfg))
        (\<lambda>j s. rbind (go_nth (hEndnames s) i) (\<lambda>es. if es \<noteq> [] then enableEnd i j False s else Inr s)) (cfg\<lparr>hConnected := c\<rparr>))
      (for_each (indices 0 (hN cfg))
        (\<lambda>j s. rbind (go_nth (hEndnames s) j) (\<lambda>es. if es \<noteq> [] then enableEnd j i False s else Inr s))))"

definition setunreliable :: "bool \<Rightarrow> ('c, 'st) config \<Rightarrow> ('c, 'st) config" where
  "setunreliable unrel cfg = cfg\<lparr>hNet := Reliable (hNet cfg) (\<not> unrel)\<rparr>"

definition setlongreordering :: "bool \<Rightarrow> ('c, 'st) config \<Rightarrow> ('c, 'st) config" where
  "setlongreordering longrel cfg = cfg\<lparr>hNet := LongReordering (hNet cfg) longrel\<rparr>"

definition rpcCount :: "int \<Rightarrow> ('c, 'st) config \<Rightarrow> int res" where
  "rpcCount server cfg = GetCount (hNet cfg) (ServerName server)"

definition rpcTotal :: "('c, 'st) config \<Rightarrow> int" where
  "rpcTotal cfg = GetTotalCount (hNet cfg)"

definition bytesTotal :: "('c, 'st) config \<Rightarrow> int" where
  "bytesTotal cfg = GetTotalBytes (hNet cfg)"

section \<open>Reading what is committed\<close>

text \<open>The values are left out of the messages.\<close>

definition mismatchMsg :: "int \<Rightarrow> int \<Rightarrow> int \<Rightarrow> string" where
  "mismatchMsg index i j = ''commit index='' @ Itoa index @ '' server='' @ Itoa i @ '' != server='' @ Itoa j"

definition outOfOrderMsg :: "int \<Rightarrow> int \<Rightarrow> string" where
  "outOfOrderMsg i index = ''server '' @ Itoa i @ '' apply out of order '' @ Itoa index"

definition checkLogs :: "('c, 'st) config \<Rightarrow> int \<Rightarrow> 'c ApplyMsg \<Rightarrow> (('c, 'st) config \<times> string \<times> bool) res" where
  "checkLogs cfg i m =
    rbind (for_each (indices 0 (len (hLogs cfg)))
        (\<lambda>j err. rbind (go_nth (hLogs cfg) j) (\<lambda>lj.
           case lj (CommandIndex m) of
             Some old \<Rightarrow> Inr (if old \<noteq> aCommand m then mismatchMsg (CommandIndex m) i j else err)
           | None \<Rightarrow> Inr err)) []) (\<lambda>err_msg.
    rbind (go_nth (hLogs cfg) i) (\<lambda>li.
    let prevok = (li (CommandIndex m - 1) \<noteq> None) in
    rbind (go_upd (hLogs cfg) i (li(CommandIndex m \<mapsto> aCommand m))) (\<lambda>ls.
    Inr (cfg\<lparr>hLogs := ls, hMaxIndex := (if CommandIndex m > hMaxIndex cfg then CommandIndex m else hMaxIndex cfg)\<rparr>,
         err_msg, prevok))))"

definition applyError :: "string \<Rightarrow> ('c, 'st) config \<Rightarrow> ('c, 'st) config res" where
  "applyError err_msg cfg = (if err_msg \<noteq> [] then Inl (LogFatal (''apply error: '' @ err_msg)) else Inr cfg)"

text \<open>One message on the apply channel of server \<open>i\<close>: the body of the loop of \<open>applier\<close>.\<close>

definition applier :: "int \<Rightarrow> 'c ApplyMsg \<Rightarrow> ('c, 'st) config \<Rightarrow> ('c, 'st) config res" where
  "applier i m cfg =
    (if CommandValid m = False then Inr cfg
     else rbind (checkLogs cfg i m) (\<lambda>(cfg', err_msg, prevok).
       applyError (if CommandIndex m > 1 \<and> prevok = False then outOfOrderMsg i (CommandIndex m) else err_msg) cfg'))"

text \<open>\<open>decode\<close> reads a snapshot: the last index in it, and the values from index 0 on.\<close>

definition ingestSnap :: "(bytes \<Rightarrow> (int \<times> 'c option list) option) \<Rightarrow> int \<Rightarrow> bytes \<Rightarrow> int \<Rightarrow> ('c, 'st) config \<Rightarrow>
    (('c, 'st) config \<times> string) res" where
  "ingestSnap decode i snap index cfg =
    (if snap = [] then Inl (LogFatal ''nil snapshot'')
     else case decode snap of
       None \<Rightarrow> Inl (LogFatal ''snapshot decode error'')
     | Some (lastIncludedIndex, xlog) \<Rightarrow>
         if index \<noteq> -1 \<and> index \<noteq> lastIncludedIndex
         then Inr (cfg, ''server '' @ Itoa i @ '' snapshot doesn't match m.SnapshotIndex'')
         else
           rbind (go_upd (hLogs cfg) i (\<lambda>k. if 0 \<le> k \<and> k < len xlog then Some (xlog ! nat k) else None)) (\<lambda>ls.
           rbind (go_upd (hLastApplied cfg) i lastIncludedIndex) (\<lambda>la.
           Inr (cfg\<lparr>hLogs := ls, hLastApplied := la\<rparr>, []))))"

definition SnapShotInterval :: int where
  "SnapShotInterval = 10"

definition takeSnapshot :: "(int \<times> 'c option list \<Rightarrow> bytes) \<Rightarrow> int \<Rightarrow> 'c Raft \<Rightarrow> 'c ApplyMsg \<Rightarrow> ('c, 'st) config \<Rightarrow>
    ('c, 'st) config res" where
  "takeSnapshot encode i rf m cfg =
    rbind (go_nth (hLogs cfg) i) (\<lambda>li.
    let xlog = map (\<lambda>j. case li j of Some v \<Rightarrow> v | None \<Rightarrow> None) (indices 0 (CommandIndex m + 1)) in
    rbind (Raft_Snapshot rf (CommandIndex m) (encode (CommandIndex m, xlog))) (\<lambda>rf'.
    rbind (go_upd (hRafts cfg) i (Some rf')) (\<lambda>rs. Inr (cfg\<lparr>hRafts := rs\<rparr>))))"

text \<open>One message for the applier that also takes snapshots, of the peer that now runs.\<close>

definition applierSnap :: "(bytes \<Rightarrow> (int \<times> 'c option list) option) \<Rightarrow> (int \<times> 'c option list \<Rightarrow> bytes) \<Rightarrow> int \<Rightarrow> 'c ApplyMsg \<Rightarrow>
    ('c, 'st) config \<Rightarrow> ('c, 'st) config res" where
  "applierSnap decode encode i m cfg =
    rbind (go_nth (hRafts cfg) i) (\<lambda>r. case r of None \<Rightarrow> Inr cfg | Some rf \<Rightarrow>
    if SnapshotValid m then
      rbind (ingestSnap decode i (Snapshot m) (SnapshotIndex m) cfg) (\<lambda>(cfg', err_msg). applyError err_msg cfg')
    else if CommandValid m then
      rbind (go_nth (hLastApplied cfg) i) (\<lambda>la.
      rbind (if CommandIndex m \<noteq> la + 1
             then Inr (cfg, ''server '' @ Itoa i @ '' apply out of order, expected index '' @ Itoa (la + 1) @ '', got '' @ Itoa (CommandIndex m))
             else rbind (checkLogs cfg i m) (\<lambda>(cfg', err_msg, prevok).
               Inr (cfg', if CommandIndex m > 1 \<and> prevok = False then outOfOrderMsg i (CommandIndex m) else err_msg))) (\<lambda>(cfg1, err_msg).
      rbind (go_upd (hLastApplied cfg1) i (CommandIndex m)) (\<lambda>las.
      let cfg2 = cfg1\<lparr>hLastApplied := las\<rparr> in
      rbind (if (CommandIndex m + 1) mod SnapShotInterval = 0 then takeSnapshot encode i rf m cfg2 else Inr cfg2)
        (applyError err_msg))))
    else Inl (GoPanic ''unexpected ApplyMsg''))"

section \<open>Crashing and starting\<close>

text \<open>
  \<open>crash1\<close>: the storage of the peer is copied and the peer forgotten. The killed instance
  goes on for a while, but only with its own storage and with end points that are disabled.
\<close>

definition crash1 :: "int \<Rightarrow> ('c, 'st) config \<Rightarrow> ('c, 'st) config res" where
  "crash1 i cfg =
    rbind (cfg_disconnect i cfg) (\<lambda>cfg1.
    let cfg2 = cfg1\<lparr>hNet := DeleteServer (hNet cfg1) (ServerName i)\<rparr> in
    rbind (go_nth (hRafts cfg2) i) (\<lambda>rf.
    rbind (go_nth (hSaved cfg2) i) (\<lambda>sv.
    let cur = (case rf of Some r \<Rightarrow> Some (persister r) | None \<Rightarrow> sv);
        copied = map_option Copy cur;
        fresh = map_option (\<lambda>p. Save MakePersister (ReadRaftState p) (ReadSnapshot p)) copied in
    rbind (go_upd (hRafts cfg2) i None) (\<lambda>rs.
    rbind (go_upd (hSaved cfg2) i fresh) (\<lambda>ss.
    Inr (cfg2\<lparr>hRafts := rs, hSaved := ss\<rparr>))))))"

text \<open>The loop that makes and connects the end points of server \<open>i\<close>.\<close>

definition makeEnds :: "int \<Rightarrow> ('c, 'st) config \<Rightarrow> ('c, 'st) config res" where
  "makeEnds i cfg =
    for_each (indices 0 (hN cfg))
      (\<lambda>j s. rbind (go_nth (hEndnames s) i) (\<lambda>es. rbind (go_nth es j) (\<lambda>e.
         rbind (MakeEnd (hNet s) (EndName e)) (\<lambda>rn. Inr (s\<lparr>hNet := Connect rn (EndName e) (ServerName j)\<rparr>))))) cfg"

text \<open>The storage a restarted server begins with, and the snapshot in it read by the service.\<close>

definition restoreSaved :: "(bytes \<Rightarrow> (int \<times> 'c option list) option) \<Rightarrow> int \<Rightarrow> ('c, 'st) config \<Rightarrow>
    (('c, 'st) config \<times> 'c Persister) res" where
  "restoreSaved decode i cfg =
    rbind (go_nth (hSaved cfg) i) (\<lambda>sv.
    let ps = (case sv of Some p \<Rightarrow> Copy p | None \<Rightarrow> MakePersister) in
    rbind (go_upd (hSaved cfg) i (Some ps)) (\<lambda>ss.
    let cfg1 = cfg\<lparr>hSaved := ss\<rparr>; snap = ReadSnapshot ps in
    if sv \<noteq> None \<and> len snap > 0 then
      rbind (ingestSnap decode i snap (-1) cfg1) (\<lambda>(cfg2, err).
      if err \<noteq> [] then Inl (TestFatal err) else Inr (cfg2, ps))
    else Inr (cfg1, ps)))"

text \<open>
  \<open>start1\<close>: \<open>names\<close> are the results of \<open>randstring\<close>, \<open>svc\<close> is the service that \<open>MakeService\<close> makes of the
  peer. \<open>None\<close>: \<open>Make\<close> does not return.
\<close>

definition start1 :: "(bytes \<Rightarrow> (int \<times> 'c option list) option) \<Rightarrow> ('c Raft \<Rightarrow> 'st service) \<Rightarrow> string list \<Rightarrow> int \<Rightarrow> int \<Rightarrow> int \<Rightarrow>
    ('c, 'st) config \<Rightarrow> ('c, 'st) config option res" where
  "start1 decode svc names now rnd i cfg =
    rbind (crash1 i cfg) (\<lambda>cfg1.
    rbind (go_upd (hEndnames cfg1) i (take (nat (hN cfg1)) names)) (\<lambda>ens.
    rbind (makeEnds i (cfg1\<lparr>hEndnames := ens\<rparr>)) (\<lambda>cfg2.
    rbind (go_upd (hLastApplied cfg2) i 0) (\<lambda>la.
    rbind (restoreSaved decode i (cfg2\<lparr>hLastApplied := la\<rparr>)) (\<lambda>(cfg3, ps).
    case Make (hN cfg3) i ps now rnd of
      None \<Rightarrow> Inr None
    | Some rf \<Rightarrow>
        rbind (go_upd (hRafts cfg3) i (Some rf)) (\<lambda>rs.
        let srv = AddService MakeServer (svc rf);
            net = hNet cfg3;
            net1 = net\<lparr>store := store net @ [srv]\<rparr> in
        Inr (Some (cfg3\<lparr>hRafts := rs, hNet := AddServer net1 (ServerName i) (length (store net))\<rparr>))))))))"

text \<open>\<open>make_config\<close>; \<open>names i\<close> are the random names for server \<open>i\<close>.\<close>

definition emptyConfig :: "int \<Rightarrow> ('c, 'st) config" where
  "emptyConfig n = \<lparr>hFinished = 0, hNet = MakeNetwork, hN = n, hRafts = replicate (nat n) None,
     hApplyErr = replicate (nat n) [], hConnected = replicate (nat n) False, hSaved = replicate (nat n) None,
     hEndnames = replicate (nat n) [], hLogs = replicate (nat n) Map.empty, hLastApplied = replicate (nat n) 0,
     hRpcs0 = 0, hCmds0 = 0, hBytes0 = 0, hMaxIndex = 0, hMaxIndex0 = 0\<rparr>"

definition make_config :: "(bytes \<Rightarrow> (int \<times> 'c option list) option) \<Rightarrow> ('c Raft \<Rightarrow> 'st service) \<Rightarrow> (int \<Rightarrow> string list) \<Rightarrow> int \<Rightarrow> int \<Rightarrow>
    int \<Rightarrow> bool \<Rightarrow> ('c, 'st) config option res" where
  "make_config decode svc names now rnd n unreliable =
    (let cfg0 = setunreliable unreliable (emptyConfig n);
         cfg = cfg0\<lparr>hNet := LongDelays (hNet cfg0) True\<rparr> in
     rbind (for_each (indices 0 n)
        (\<lambda>i s. case s of None \<Rightarrow> Inr None | Some c \<Rightarrow>
           rbind (go_upd (hLogs c) i Map.empty) (\<lambda>ls. start1 decode svc (names i) now rnd i (c\<lparr>hLogs := ls\<rparr>))) (Some cfg))
       (for_each (indices 0 n)
        (\<lambda>i s. case s of None \<Rightarrow> Inr None | Some c \<Rightarrow> rbind (cfg_connect i c) (\<lambda>c'. Inr (Some c')))))"

definition checkTimeout :: "bool \<Rightarrow> int \<Rightarrow> unit res" where
  "checkTimeout failed seconds =
    (if \<not> failed \<and> seconds > 120 then Inl (TestFatal ''test took longer than 120 seconds'') else Inr ())"

definition checkFinished :: "('c, 'st) config \<Rightarrow> bool" where
  "checkFinished cfg = (let z = hFinished cfg in z \<noteq> 0)"

definition cleanup :: "bool \<Rightarrow> int \<Rightarrow> ('c, 'st) config \<Rightarrow> ('c, 'st) config res" where
  "cleanup failed seconds cfg =
    (let cfg1 = cfg\<lparr>hFinished := 1, hRafts := map (map_option Kill) (hRafts cfg)\<rparr> in
     rbind (Cleanup (hNet cfg1)) (\<lambda>rn.
     rbind (checkTimeout failed seconds) (\<lambda>u. Inr (cfg1\<lparr>hNet := rn\<rparr>))))"

section \<open>Questions to the peers\<close>

text \<open>The peers as they are when each is asked: \<open>conn\<close> is \<open>cfg.connected\<close>, \<open>None\<close> a crashed peer.\<close>

definition askState :: "'c Raft option list \<Rightarrow> int \<Rightarrow> (int \<times> bool) res" where
  "askState rafts i =
    rbind (go_nth rafts i) (\<lambda>r. case r of None \<Rightarrow> Inl NilDereference | Some rf \<Rightarrow> Inr (GetState rf))"

text \<open>\<open>leaders[term] = append(leaders[term], i)\<close>, on the map as a list of its keys and values.\<close>

fun addLeader :: "int \<Rightarrow> int \<Rightarrow> (int \<times> int list) list \<Rightarrow> (int \<times> int list) list" where
  "addLeader t i [] = [(t, [i])]"
| "addLeader t i ((t', ls) # m) = (if t = t' then (t', ls @ [i]) # m else (t', ls) # addLeader t i m)"

definition collectLeaders :: "int \<Rightarrow> bool list \<Rightarrow> 'c Raft option list \<Rightarrow> (int \<times> int list) list res" where
  "collectLeaders n conn rafts =
    for_each (indices 0 n)
      (\<lambda>i m. rbind (go_nth conn i) (\<lambda>c.
         if c then rbind (askState rafts i) (\<lambda>(t, leader). Inr (if leader then addLeader t i m else m)) else Inr m)) []"

definition lastTerm :: "(int \<times> int list) list \<Rightarrow> int res" where
  "lastTerm leaders =
    for_each leaders
      (\<lambda>(t, ls) l. if len ls > 1 then Inl (TestFatal ''term has >1 leaders'')
                   else Inr (if t > l then t else l)) (-1)"

text \<open>\<open>checkOneLeader\<close>; one list of peers for each of its ten rounds.\<close>

fun checkOneLeader :: "int \<Rightarrow> bool list \<Rightarrow> 'c Raft option list list \<Rightarrow> int res" where
  "checkOneLeader n conn [] = Inl (TestFatal ''expected one leader, got none'')"
| "checkOneLeader n conn (rafts # rounds) =
    rbind (collectLeaders n conn rafts) (\<lambda>leaders.
    rbind (lastTerm leaders) (\<lambda>t.
    if leaders \<noteq> [] then go_nth (case map_of leaders t of Some ls \<Rightarrow> ls | None \<Rightarrow> []) 0
    else checkOneLeader n conn rounds))"

definition checkTerms :: "int \<Rightarrow> bool list \<Rightarrow> 'c Raft option list \<Rightarrow> int res" where
  "checkTerms n conn rafts =
    for_each (indices 0 n)
      (\<lambda>i t. rbind (go_nth conn i) (\<lambda>c.
         if c then rbind (askState rafts i) (\<lambda>(xterm, leader).
           if t = -1 then Inr xterm
           else if t \<noteq> xterm then Inl (TestFatal ''servers disagree on term'') else Inr t)
         else Inr t)) (-1)"

definition checkNoLeader :: "int \<Rightarrow> bool list \<Rightarrow> 'c Raft option list \<Rightarrow> unit res" where
  "checkNoLeader n conn rafts =
    for_each (indices 0 n)
      (\<lambda>i u. rbind (go_nth conn i) (\<lambda>c.
         if c then rbind (askState rafts i) (\<lambda>(t, is_leader).
           if is_leader then Inl (TestFatal (''expected no leader among connected servers, but '' @ Itoa i @ '' claims to be leader'')) else Inr ())
         else Inr ())) ()"

section \<open>Agreement\<close>

definition nCommitted :: "int \<Rightarrow> ('c, 'st) config \<Rightarrow> (int \<times> 'c option) res" where
  "nCommitted index cfg =
    for_each (indices 0 (len (hRafts cfg)))
      (\<lambda>i (count, cmd). rbind (go_nth (hApplyErr cfg) i) (\<lambda>err.
         if err \<noteq> [] then Inl (TestFatal err)
         else rbind (go_nth (hLogs cfg) i) (\<lambda>li.
           case li index of
             None \<Rightarrow> Inr (count, cmd)
           | Some cmd1 \<Rightarrow>
               if count > 0 \<and> cmd \<noteq> cmd1 then Inl (TestFatal (''committed values do not match: index '' @ Itoa index))
               else Inr (count + 1, cmd1)))) (0, None)"

text \<open>
  \<open>wait\<close>: each of up to 30 rounds has the configuration before and after its sleep; \<open>fin\<close> is the one
  after the loop.
\<close>

datatype 'c waitResult = MovedOn | Decided "'c option"

definition someoneAhead :: "int \<Rightarrow> 'c Raft option list \<Rightarrow> bool res" where
  "someoneAhead startTerm rafts =
    for_each rafts (\<lambda>r b. if b then Inr True else
      (case r of None \<Rightarrow> Inl NilDereference | Some rf \<Rightarrow> Inr (fst (GetState rf) > startTerm))) False"

fun waitLoop :: "int \<Rightarrow> int \<Rightarrow> int \<Rightarrow> (('c, 'st) config \<times> ('c, 'st) config) list \<Rightarrow> bool res" where
  "waitLoop index n startTerm [] = Inr False"
| "waitLoop index n startTerm ((before, later) # rounds) =
    rbind (nCommitted index before) (\<lambda>(nd, cmd).
    if nd \<ge> n then Inr False
    else rbind (if startTerm > -1 then someoneAhead startTerm (hRafts later) else Inr False) (\<lambda>ahead.
      if ahead then Inr True else waitLoop index n startTerm rounds))"

definition cfg_wait :: "int \<Rightarrow> int \<Rightarrow> int \<Rightarrow> (('c, 'st) config \<times> ('c, 'st) config) list \<Rightarrow> ('c, 'st) config \<Rightarrow> 'c waitResult res" where
  "cfg_wait index n startTerm rounds fin =
    rbind (waitLoop index n startTerm (take 30 rounds)) (\<lambda>ahead.
    if ahead then Inr MovedOn
    else rbind (nCommitted index fin) (\<lambda>(nd, cmd).
      if nd < n then Inl (TestFatal (''only '' @ Itoa nd @ '' decided for index '' @ Itoa index @ ''; wanted '' @ Itoa n))
      else Inr (Decided cmd)))"

text \<open>\<open>one\<close>: ask every connected server in turn until one accepts the command.\<close>

fun tryStart :: "'c \<Rightarrow> nat \<Rightarrow> int \<Rightarrow> ('c, 'st) config \<Rightarrow> (('c, 'st) config \<times> int \<times> int) res" where
  "tryStart cmd 0 starts cfg = Inr (cfg, starts, -1)"
| "tryStart cmd (Suc k) starts cfg =
    (let starts' = (starts + 1) mod hN cfg in
     rbind (go_nth (hConnected cfg) starts') (\<lambda>c.
     rbind (if c then go_nth (hRafts cfg) starts' else Inr None) (\<lambda>r.
     case r of
       None \<Rightarrow> tryStart cmd k starts' cfg
     | Some rf \<Rightarrow>
         rbind (Start rf cmd) (\<lambda>(rf', index1, t, ok).
         rbind (go_upd (hRafts cfg) starts' (Some rf')) (\<lambda>rs.
         let cfg' = cfg\<lparr>hRafts := rs\<rparr> in
         if ok then Inr (cfg', starts', index1) else tryStart cmd k starts' cfg')))))"

text \<open>Waiting for agreement: the functions are what happens to the system between two looks.\<close>

fun agreed :: "int \<Rightarrow> 'c \<Rightarrow> int \<Rightarrow> (('c, 'st) config \<Rightarrow> ('c, 'st) config) list \<Rightarrow> ('c, 'st) config \<Rightarrow> (('c, 'st) config \<times> bool) res" where
  "agreed index cmd expectedServers [] cfg = Inr (cfg, False)"
| "agreed index cmd expectedServers (f # fs) cfg =
    rbind (nCommitted index cfg) (\<lambda>(nd, cmd1).
    if nd > 0 \<and> nd \<ge> expectedServers \<and> cmd1 = Some cmd then Inr (cfg, True)
    else agreed index cmd expectedServers fs (f cfg))"

text \<open>The rounds that fit into ten seconds: what happens before the round, and while it waits.\<close>

fun oneLoop :: "'c \<Rightarrow> int \<Rightarrow> bool \<Rightarrow> ((('c, 'st) config \<Rightarrow> ('c, 'st) config) \<times> (('c, 'st) config \<Rightarrow> ('c, 'st) config) list) list \<Rightarrow> int \<Rightarrow>
    ('c, 'st) config \<Rightarrow> (('c, 'st) config \<times> int) res" where
  "oneLoop cmd expectedServers retry [] starts cfg =
    (if checkFinished cfg = False then Inl (TestFatal ''one() failed to reach agreement'') else Inr (cfg, -1))"
| "oneLoop cmd expectedServers retry ((f, fs) # rounds) starts cfg0 =
    (let cfg = f cfg0 in
     if checkFinished cfg = False then
       rbind (tryStart cmd (nat (hN cfg)) starts cfg) (\<lambda>(cfg1, starts', index).
       if index \<noteq> -1 then
         rbind (agreed index cmd expectedServers fs cfg1) (\<lambda>(cfg2, ok).
         if ok then Inr (cfg2, index)
         else if retry = False then Inl (TestFatal ''one() failed to reach agreement'')
         else oneLoop cmd expectedServers retry rounds starts' cfg2)
       else oneLoop cmd expectedServers retry rounds starts' cfg1)
     else Inr (cfg, -1))"

definition cfg_one :: "'c \<Rightarrow> int \<Rightarrow> bool \<Rightarrow> ((('c, 'st) config \<Rightarrow> ('c, 'st) config) \<times> (('c, 'st) config \<Rightarrow> ('c, 'st) config) list) list \<Rightarrow>
    ('c, 'st) config \<Rightarrow> (('c, 'st) config \<times> int) res" where
  "cfg_one cmd expectedServers retry rounds cfg = oneLoop cmd expectedServers retry rounds 0 cfg"

section \<open>Statistics\<close>

definition cfg_begin :: "('c, 'st) config \<Rightarrow> ('c, 'st) config" where
  "cfg_begin cfg = cfg\<lparr>hRpcs0 := rpcTotal cfg, hBytes0 := bytesTotal cfg, hCmds0 := 0, hMaxIndex0 := hMaxIndex cfg\<rparr>"

text \<open>The numbers that \<open>end\<close> prints besides the time: peers, calls, bytes, agreements.\<close>

definition cfg_end :: "bool \<Rightarrow> int \<Rightarrow> ('c, 'st) config \<Rightarrow> (int \<times> int \<times> int \<times> int) option res" where
  "cfg_end failed seconds cfg =
    rbind (checkTimeout failed seconds) (\<lambda>u.
    Inr (if failed = False
         then Some (hN cfg, rpcTotal cfg - hRpcs0 cfg, bytesTotal cfg - hBytes0 cfg, hMaxIndex cfg - hMaxIndex0 cfg)
         else None))"

text \<open>\<open>bytesOf\<close> is the number of bytes of an encoded state.\<close>

definition LogSize :: "('c gob list \<Rightarrow> int) \<Rightarrow> ('c, 'st) config \<Rightarrow> int res" where
  "LogSize bytesOf cfg =
    for_each (indices 0 (hN cfg))
      (\<lambda>i logsize. rbind (go_nth (hSaved cfg) i) (\<lambda>sv. rbind (go_nth (hRafts cfg) i) (\<lambda>r.
         case (case r of Some rf \<Rightarrow> Some (persister rf) | None \<Rightarrow> sv) of
           None \<Rightarrow> Inl NilDereference
         | Some ps \<Rightarrow> Inr (if bytesOf (raftstate ps) > logsize then bytesOf (raftstate ps) else logsize)))) 0"

end
