(* ===== verification/RaftHarnessProperties.thy ===== *)
theory RaftHarnessProperties
  imports RaftHarness RaftElectionSafety
begin

text \<open>
  What the harness of the Raft tests establishes: the applier stops exactly when servers have
  committed different values or one has left out an index; \<open>checkOneLeader\<close> reports the unique
  leader of the newest term, and never complains about two leaders of a cluster that keeps to
  the rules of \<open>RaftCluster\<close>; and only end points of connected servers carry calls.
\<close>

section \<open>The applier\<close>

definition appliers :: "(int \<times> 'c ApplyMsg) list \<Rightarrow> ('c, 'st) config \<Rightarrow> ('c, 'st) config res" where
  "appliers ms cfg = for_each ms (\<lambda>(i, m). applier i m) cfg"

text \<open>Server \<open>i\<close> may commit \<open>m\<close> after what has been recorded.\<close>

definition mayCommit :: "int \<Rightarrow> 'c ApplyMsg \<Rightarrow> ('c, 'st) config \<Rightarrow> bool" where
  "mayCommit i m cfg \<longleftrightarrow>
    (\<forall>lj \<in> set (hLogs cfg). \<forall>old. lj (CommandIndex m) = Some old \<longrightarrow> old = aCommand m) \<and>
    (CommandIndex m > 1 \<longrightarrow> (hLogs cfg ! nat i) (CommandIndex m - 1) \<noteq> None)"

definition recorded :: "int \<Rightarrow> 'c ApplyMsg \<Rightarrow> ('c, 'st) config \<Rightarrow> ('c, 'st) config" where
  "recorded i m cfg =
    cfg\<lparr>hLogs := (hLogs cfg)[nat i := (hLogs cfg ! nat i)(CommandIndex m \<mapsto> aCommand m)],
        hMaxIndex := max (hMaxIndex cfg) (CommandIndex m)\<rparr>"

lemma msgs_not_empty [simp]: "mismatchMsg a b c \<noteq> []" "outOfOrderMsg a b \<noteq> []"
  by (simp_all add: mismatchMsg_def outOfOrderMsg_def)

lemma mismatch_loop:
  assumes "\<And>j. j \<in> set js \<Longrightarrow> 0 \<le> j \<and> j < len ls"
  shows "\<exists>err'. for_each js (\<lambda>j err. rbind (go_nth ls j) (\<lambda>lj. case lj idx of
       Some old \<Rightarrow> Inr (if old \<noteq> v then mismatchMsg idx i j else err) | None \<Rightarrow> Inr err)) err = Inr err' \<and>
     (err' = [] \<longleftrightarrow> err = [] \<and> (\<forall>j \<in> set js. \<forall>old. (ls ! nat j) idx = Some old \<longrightarrow> old = v))"
  using assms
proof (induction js arbitrary: err)
  case (Cons j js)
  let ?err = "case (ls ! nat j) idx of Some old \<Rightarrow> if old \<noteq> v then mismatchMsg idx i j else err | None \<Rightarrow> err"
  have "go_nth ls j = Inr (ls ! nat j)" using Cons.prems [of j] by (simp add: go_nth_def len_def)
  moreover have "?err = [] \<longleftrightarrow> err = [] \<and> (\<forall>old. (ls ! nat j) idx = Some old \<longrightarrow> old = v)"
    by (auto split: option.splits)
  ultimately show ?case using Cons.IH [of ?err] Cons.prems by (auto split: option.splits if_splits)
qed simp

lemma in_set_indices: "(\<forall>j \<in> set (indices 0 (len xs)). P (xs ! nat j)) \<longleftrightarrow> (\<forall>x \<in> set xs. P x)"
proof -
  have "P (xs ! k)" if "\<forall>j \<in> {0..<int (length xs)}. P (xs ! nat j)" "k < length xs" for k
    using bspec [OF that(1), of "int k"] that(2) by simp
  then have "(\<forall>j \<in> {0..<int (length xs)}. P (xs ! nat j)) \<longleftrightarrow> (\<forall>k < length xs. P (xs ! k))" by auto
  then show ?thesis by (simp add: len_def all_set_conv_all_nth)
qed

lemma applier_cases:
  assumes "0 \<le> i" "i < len (hLogs cfg)"
  shows "CommandValid m \<Longrightarrow> mayCommit i m cfg \<Longrightarrow> applier i m cfg = Inr (recorded i m cfg)"
    and "CommandValid m \<Longrightarrow> \<not> mayCommit i m cfg \<Longrightarrow> \<not> is_ok (applier i m cfg)"
proof -
  from mismatch_loop [of "indices 0 (len (hLogs cfg))" "hLogs cfg", where idx = "CommandIndex m" and v = "aCommand m" and i = i and err = "[]"]
  obtain err where err: "for_each (indices 0 (len (hLogs cfg))) (\<lambda>j err. rbind (go_nth (hLogs cfg) j) (\<lambda>lj. case lj (CommandIndex m) of
       Some old \<Rightarrow> Inr (if old \<noteq> aCommand m then mismatchMsg (CommandIndex m) i j else err) | None \<Rightarrow> Inr err)) [] = Inr err"
    "err = [] \<longleftrightarrow> (\<forall>j \<in> set (indices 0 (len (hLogs cfg))). \<forall>old. (hLogs cfg ! nat j) (CommandIndex m) = Some old \<longrightarrow> old = aCommand m)"
    by auto
  have agree: "err = [] \<longleftrightarrow> (\<forall>lj \<in> set (hLogs cfg). \<forall>old. lj (CommandIndex m) = Some old \<longrightarrow> old = aCommand m)"
    unfolding err(2) by (rule in_set_indices)
  have i: "go_nth (hLogs cfg) i = Inr (hLogs cfg ! nat i)" "go_upd (hLogs cfg) i v = Inr ((hLogs cfg)[nat i := v])" for v
    using assms by (simp_all add: go_nth_def go_upd_def len_def)
  have check: "checkLogs cfg i m = Inr (recorded i m cfg, err, (hLogs cfg ! nat i) (CommandIndex m - 1) \<noteq> None)"
    unfolding checkLogs_def err(1) by (simp add: i Let_def recorded_def max_def)
  show "CommandValid m \<Longrightarrow> mayCommit i m cfg \<Longrightarrow> applier i m cfg = Inr (recorded i m cfg)"
    using agree by (simp add: applier_def check applyError_def mayCommit_def)
  show "CommandValid m \<Longrightarrow> \<not> mayCommit i m cfg \<Longrightarrow> \<not> is_ok (applier i m cfg)"
    using agree by (auto simp: applier_def check applyError_def mayCommit_def)
qed

text \<open>What a sequence of messages from all servers must satisfy.\<close>

definition sameValues :: "(int \<times> 'c ApplyMsg) list \<Rightarrow> bool" where
  "sameValues ms = (\<forall>(i, m) \<in> set ms. \<forall>(j, m') \<in> set ms. CommandValid m \<longrightarrow> CommandValid m' \<longrightarrow>
     CommandIndex m = CommandIndex m' \<longrightarrow> aCommand m = aCommand m')"

definition noGaps :: "(int \<times> 'c ApplyMsg) list \<Rightarrow> bool" where
  "noGaps ms = (\<forall>k < length ms. CommandValid (snd (ms ! k)) \<longrightarrow> CommandIndex (snd (ms ! k)) > 1 \<longrightarrow>
     (\<exists>(i, m) \<in> set (take k ms). i = fst (ms ! k) \<and> CommandValid m \<and> CommandIndex m = CommandIndex (snd (ms ! k)) - 1))"

definition mirrors :: "(int \<times> 'c ApplyMsg) list \<Rightarrow> ('c, 'st) config \<Rightarrow> bool" where
  "mirrors ms cfg = (\<forall>k < length (hLogs cfg). \<forall>idx v. (hLogs cfg ! k) idx = Some v \<longleftrightarrow>
     (\<exists>m. (int k, m) \<in> set ms \<and> CommandValid m \<and> CommandIndex m = idx \<and> aCommand m = v))"

lemma sameValues_snoc:
  "sameValues (ms @ [(i, m)]) \<longleftrightarrow> sameValues ms \<and>
    (CommandValid m \<longrightarrow> (\<forall>(j, m') \<in> set ms. CommandValid m' \<longrightarrow> CommandIndex m' = CommandIndex m \<longrightarrow> aCommand m' = aCommand m))"
  unfolding sameValues_def by fastforce

lemma noGaps_snoc:
  "noGaps (ms @ [(i, m)]) \<longleftrightarrow> noGaps ms \<and> (CommandValid m \<longrightarrow> CommandIndex m > 1 \<longrightarrow>
     (\<exists>m'. (i, m') \<in> set ms \<and> CommandValid m' \<and> CommandIndex m' = CommandIndex m - 1))"
  unfolding noGaps_def by (auto simp: less_Suc_eq nth_append)

lemma mayCommit_mirror:
  assumes "mirrors ms cfg" "0 \<le> i" "i < len (hLogs cfg)" "\<forall>j m'. (j, m') \<in> set ms \<longrightarrow> 0 \<le> j \<and> j < len (hLogs cfg)"
  shows "mayCommit i m cfg \<longleftrightarrow>
    (\<forall>(j, m') \<in> set ms. CommandValid m' \<longrightarrow> CommandIndex m' = CommandIndex m \<longrightarrow> aCommand m' = aCommand m) \<and>
    (CommandIndex m > 1 \<longrightarrow> (\<exists>m'. (i, m') \<in> set ms \<and> CommandValid m' \<and> CommandIndex m' = CommandIndex m - 1))"
proof -
  have k: "(hLogs cfg ! nat j) idx = Some v \<longleftrightarrow> (\<exists>m'. (j, m') \<in> set ms \<and> CommandValid m' \<and> CommandIndex m' = idx \<and> aCommand m' = v)"
    if "0 \<le> j" "j < len (hLogs cfg)" for j idx v
    using assms(1) that unfolding mirrors_def len_def by (metis int_nat_eq nat_less_iff)
  have "(\<forall>lj \<in> set (hLogs cfg). \<forall>old. lj (CommandIndex m) = Some old \<longrightarrow> old = aCommand m) \<longleftrightarrow>
    (\<forall>(j, m') \<in> set ms. CommandValid m' \<longrightarrow> CommandIndex m' = CommandIndex m \<longrightarrow> aCommand m' = aCommand m)"
  proof -
    have "(\<forall>lj \<in> set (hLogs cfg). \<forall>old. lj (CommandIndex m) = Some old \<longrightarrow> old = aCommand m) \<longleftrightarrow>
      (\<forall>j. 0 \<le> j \<and> j < len (hLogs cfg) \<longrightarrow> (\<forall>old. (hLogs cfg ! nat j) (CommandIndex m) = Some old \<longrightarrow> old = aCommand m))"
      using in_set_indices [of "hLogs cfg" "\<lambda>lj. \<forall>old. lj (CommandIndex m) = Some old \<longrightarrow> old = aCommand m"] by auto
    also have "\<dots> \<longleftrightarrow> (\<forall>j m'. (j, m') \<in> set ms \<longrightarrow> CommandValid m' \<longrightarrow> CommandIndex m' = CommandIndex m \<longrightarrow> aCommand m' = aCommand m)"
    proof
      assume all: "\<forall>j. 0 \<le> j \<and> j < len (hLogs cfg) \<longrightarrow> (\<forall>old. (hLogs cfg ! nat j) (CommandIndex m) = Some old \<longrightarrow> old = aCommand m)"
      show "\<forall>j m'. (j, m') \<in> set ms \<longrightarrow> CommandValid m' \<longrightarrow> CommandIndex m' = CommandIndex m \<longrightarrow> aCommand m' = aCommand m"
        using all k assms(4) by metis
    qed (use k in metis)
    finally show ?thesis by auto
  qed
  moreover have "(hLogs cfg ! nat i) (CommandIndex m - 1) \<noteq> None \<longleftrightarrow>
    (\<exists>m'. (i, m') \<in> set ms \<and> CommandValid m' \<and> CommandIndex m' = CommandIndex m - 1)"
    using k [OF assms(2,3), of "CommandIndex m - 1"] by blast
  ultimately show ?thesis unfolding mayCommit_def by blast
qed

lemma mirrors_recorded:
  assumes "mirrors ms cfg" "0 \<le> i" "i < len (hLogs cfg)" "CommandValid m" "mayCommit i m cfg"
    "\<forall>j m'. (j, m') \<in> set ms \<longrightarrow> 0 \<le> j \<and> j < len (hLogs cfg)"
  shows "mirrors (ms @ [(i, m)]) (recorded i m cfg)"
proof -
  have same: "aCommand m' = aCommand m" if "(j, m') \<in> set ms" "CommandValid m'" "CommandIndex m' = CommandIndex m" for j m'
    using assms(5) that unfolding mayCommit_mirror [OF assms(1-3,6)] by auto
  have "((hLogs cfg ! nat i)(CommandIndex m \<mapsto> aCommand m)) idx = Some v \<longleftrightarrow>
      (\<exists>m'. (i, m') \<in> set (ms @ [(i, m)]) \<and> CommandValid m' \<and> CommandIndex m' = idx \<and> aCommand m' = v)" for idx v
    using assms(1-4) same by (auto simp: mirrors_def len_def)
  then have own: "(hLogs (recorded i m cfg) ! k) idx = Some v \<longleftrightarrow>
      (\<exists>m'. (int k, m') \<in> set (ms @ [(i, m)]) \<and> CommandValid m' \<and> CommandIndex m' = idx \<and> aCommand m' = v)"
    if "k = nat i" for k idx v using that assms(2,3) by (simp add: recorded_def len_def)
  have other: "(hLogs (recorded i m cfg) ! k) idx = Some v \<longleftrightarrow>
      (\<exists>m'. (int k, m') \<in> set (ms @ [(i, m)]) \<and> CommandValid m' \<and> CommandIndex m' = idx \<and> aCommand m' = v)"
    if "k \<noteq> nat i" "k < length (hLogs cfg)" for k idx v
  proof -
    have "int k \<noteq> i" using that(1) by auto
    then show ?thesis using that assms(1) by (simp add: recorded_def mirrors_def)
  qed
  have "length (hLogs (recorded i m cfg)) = length (hLogs cfg)" by (simp add: recorded_def)
  then show ?thesis unfolding mirrors_def
  proof (intro allI impI)
    fix k idx v
    assume "k < length (hLogs (recorded i m cfg))" "length (hLogs (recorded i m cfg)) = length (hLogs cfg)"
    then show "(hLogs (recorded i m cfg) ! k) idx = Some v \<longleftrightarrow>
      (\<exists>m'. (int k, m') \<in> set (ms @ [(i, m)]) \<and> CommandValid m' \<and> CommandIndex m' = idx \<and> aCommand m' = v)"
      using own [of k] other [of k] by (cases "k = nat i") auto
  qed
qed

lemma appliers_spec:
  assumes "\<And>i m. (i, m) \<in> set ms \<Longrightarrow> 0 \<le> i \<and> i < len (hLogs cfg)" "\<And>l. l \<in> set (hLogs cfg) \<Longrightarrow> l = Map.empty"
  shows "if sameValues ms \<and> noGaps ms
    then \<exists>cfg'. appliers ms cfg = Inr cfg' \<and> length (hLogs cfg') = length (hLogs cfg) \<and> mirrors ms cfg'
    else \<not> is_ok (appliers ms cfg)"
  using assms(1)
proof (induction ms rule: rev_induct)
  case Nil
  have "mirrors [] cfg" using assms(2) [OF nth_mem] by (simp add: mirrors_def)
  then show ?case by (simp add: appliers_def sameValues_def noGaps_def)
next
  case (snoc x ms)
  obtain i m where x: "x = (i, m)" by (cases x)
  have i: "0 \<le> i" "i < len (hLogs cfg)" using snoc.prems [of i m] x by auto
  have step: "appliers (ms @ [x]) cfg = rbind (appliers ms cfg) (applier i m)"
    by (simp add: appliers_def for_each_append x rbind_def split: sum.splits)
  show ?case
  proof (cases "sameValues ms \<and> noGaps ms")
    case True
    with snoc obtain cfg' where c: "appliers ms cfg = Inr cfg'" "length (hLogs cfg') = length (hLogs cfg)" "mirrors ms cfg'"
      by auto
    have i': "0 \<le> i" "i < len (hLogs cfg')" using i c(2) by (simp_all add: len_def)
    have in': "\<forall>j m'. (j, m') \<in> set ms \<longrightarrow> 0 \<le> j \<and> j < len (hLogs cfg')" using snoc.prems c(2) by (auto simp: len_def)
    have acc: "CommandValid m \<longrightarrow> mayCommit i m cfg' \<longleftrightarrow> sameValues (ms @ [x]) \<and> noGaps (ms @ [x])"
      using True unfolding x sameValues_snoc noGaps_snoc mayCommit_mirror [OF c(3) i' in'] by auto
    have skip: "\<not> CommandValid m \<Longrightarrow> applier i m cfg' = Inr cfg' \<and> mirrors (ms @ [x]) cfg' \<and> sameValues (ms @ [x]) \<and> noGaps (ms @ [x])"
      using True c(3) unfolding x sameValues_snoc noGaps_snoc by (auto simp: applier_def mirrors_def)
    have len: "length (hLogs (recorded i m cfg')) = length (hLogs cfg)" using c(2) by (simp add: recorded_def)
    show ?thesis using acc skip step c(1,2) len applier_cases [OF i'] mirrors_recorded [OF c(3) i' _ _ in'] x by auto
  next
    case False
    with snoc have "\<not> is_ok (appliers ms cfg)" by (auto split: if_splits)
    moreover have "\<not> (sameValues (ms @ [x]) \<and> noGaps (ms @ [x]))"
      using False unfolding x sameValues_snoc noGaps_snoc by auto
    ultimately show ?thesis using step by (cases "appliers ms cfg") auto
  qed
qed

text \<open>
  C14: the check of committed entries is exact. Fed with the messages of all servers in any order,
  the appliers of a fresh configuration go on if and only if no two servers (and no server with
  itself) have committed different values at an index and every server has committed each index
  after its predecessor; and then what the harness has recorded is exactly what was committed.
\<close>

theorem applier_exact:
  assumes "\<forall>(i, m) \<in> set ms. 0 \<le> i \<and> i < n"
  shows "(is_ok (appliers ms (emptyConfig n :: ('c, 'st) config)) \<longleftrightarrow> sameValues ms \<and> noGaps ms) \<and>
    (\<forall>cfg k idx v. appliers ms (emptyConfig n :: ('c, 'st) config) = Inr cfg \<longrightarrow> 0 \<le> k \<longrightarrow> k < n \<longrightarrow>
      (hLogs cfg ! nat k) idx = Some v \<longleftrightarrow> (\<exists>m. (k, m) \<in> set ms \<and> CommandValid m \<and> CommandIndex m = idx \<and> aCommand m = v))"
proof (intro conjI allI impI)
  let ?cfg = "emptyConfig n :: ('c, 'st) config"
  have logs: "\<And>l. l \<in> set (hLogs ?cfg) \<Longrightarrow> l = Map.empty" "length (hLogs ?cfg) = nat n" by (auto simp: emptyConfig_def)
  have spec: "if sameValues ms \<and> noGaps ms
    then \<exists>cfg'. appliers ms ?cfg = Inr cfg' \<and> length (hLogs cfg') = length (hLogs ?cfg) \<and> mirrors ms cfg'
    else \<not> is_ok (appliers ms ?cfg)"
    using assms logs by (intro appliers_spec) (fastforce simp: len_def)+
  then show "is_ok (appliers ms ?cfg) \<longleftrightarrow> sameValues ms \<and> noGaps ms"
    by (auto simp: is_ok_iff split: if_splits)
  fix cfg k idx v
  assume "appliers ms ?cfg = Inr cfg" "0 \<le> k" "k < n"
  with spec logs(2) have "mirrors ms cfg" "nat k < length (hLogs cfg)" by (auto split: if_splits)
  with \<open>0 \<le> k\<close> show "(hLogs cfg ! nat k) idx = Some v \<longleftrightarrow> (\<exists>m. (k, m) \<in> set ms \<and> CommandValid m \<and> CommandIndex m = idx \<and> aCommand m = v)"
    by (simp add: mirrors_def)
qed

text \<open>Two servers, the second behind; then a server that commits another value.\<close>

definition committed :: "int \<Rightarrow> nat \<Rightarrow> nat ApplyMsg" where
  "committed idx c = \<lparr>CommandValid = True, aCommand = Some c, CommandIndex = idx, SnapshotValid = False, Snapshot = [],
     SnapshotTerm = 0, SnapshotIndex = 0\<rparr>"

theorem applier_exact_witness:
  "is_ok (appliers [(0, committed 1 7), (0, committed 2 8), (1, committed 1 7)] (emptyConfig 2 :: (nat, unit) config)) \<and>
   \<not> is_ok (appliers [(0, committed 1 7), (1, committed 1 8)] (emptyConfig 2 :: (nat, unit) config))"
proof -
  have "sameValues [(0, committed 1 7), (0, committed 2 8), (1, committed 1 7)]" "noGaps [(0, committed 1 7), (0, committed 2 8), (1, committed 1 7)]"
    "\<not> sameValues [(0, committed 1 7), (1, committed 1 8)]"
    by (auto simp: sameValues_def noGaps_def committed_def less_Suc_eq numeral_3_eq_3)
  then show ?thesis
    using applier_exact [where n = 2 and ms = "[(0, committed 1 7), (0, committed 2 8), (1, committed 1 7)]" and ?'st = unit]
      applier_exact [where n = 2 and ms = "[(0, committed 1 7), (1, committed 1 8)]" and ?'st = unit]
    by auto
qed

section \<open>Asking for the leader\<close>

text \<open>Server \<open>i\<close> is connected and says that it leads term \<open>t\<close>.\<close>

definition saysLeader :: "bool list \<Rightarrow> 'c Raft option list \<Rightarrow> int \<Rightarrow> int \<Rightarrow> bool" where
  "saysLeader conn rafts i t \<longleftrightarrow> go_nth conn i = Inr True \<and> askState rafts i = Inr (t, True)"

definition leaderPairs :: "(int \<times> int list) list \<Rightarrow> (int \<times> int) set" where
  "leaderPairs m = {(t, i). \<exists>ls. (t, ls) \<in> set m \<and> i \<in> set ls}"

definition leaders_ok :: "(int \<times> int list) list \<Rightarrow> bool" where
  "leaders_ok m \<longleftrightarrow> distinct (map fst m) \<and> (\<forall>(t, ls) \<in> set m. ls \<noteq> [] \<and> distinct ls)"

lemma fst_addLeader: "fst ` set (addLeader t i m) = insert t (fst ` set m)"
  by (induction t i m rule: addLeader.induct) auto

lemma leaderPairs_Nil: "leaderPairs [] = {}"
  by (simp add: leaderPairs_def)

lemma leaderPairs_Cons: "leaderPairs ((t, ls) # m) = {t} \<times> set ls \<union> leaderPairs m"
  by (auto simp: leaderPairs_def)

lemma addLeader_pairs: "leaderPairs (addLeader t i m) = insert (t, i) (leaderPairs m)"
  by (induction t i m rule: addLeader.induct) (auto simp: leaderPairs_Cons leaderPairs_Nil)

lemma addLeader_ok: "leaders_ok m \<Longrightarrow> (t, i) \<notin> leaderPairs m \<Longrightarrow> leaders_ok (addLeader t i m)"
proof (induction t i m rule: addLeader.induct)
  case (2 t i t' ls m)
  then show ?case using fst_addLeader [of t i m] by (auto simp: leaders_ok_def leaderPairs_Cons)
qed (auto simp: leaders_ok_def)

lemma collect_loop:
  assumes "for_each js (\<lambda>i m. rbind (go_nth conn i) (\<lambda>c.
      if c then rbind (askState rafts i) (\<lambda>(t, leader). Inr (if leader then addLeader t i m else m)) else Inr m)) m = Inr m'"
    "distinct js" "leaders_ok m" "\<forall>(t, i) \<in> leaderPairs m. i \<notin> set js"
  shows "leaders_ok m' \<and> leaderPairs m' = leaderPairs m \<union> {(t, i). i \<in> set js \<and> saysLeader conn rafts i t}"
  using assms
proof (induction js arbitrary: m)
  case (Cons j js)
  let ?f = "\<lambda>i m. rbind (go_nth conn i) (\<lambda>c.
      if c then rbind (askState rafts i) (\<lambda>(t, leader). Inr (if leader then addLeader t i m else m)) else Inr m)"
  from Cons.prems(1) obtain m1 where m1: "?f j m = Inr m1" "for_each js ?f m1 = Inr m'" by (auto elim: rbind_ok_cases)
  have "leaders_ok m1 \<and> leaderPairs m1 = leaderPairs m \<union> {(t, i). i = j \<and> saysLeader conn rafts i t}"
  proof -
    from m1(1) obtain c where c: "go_nth conn j = Inr c" by (auto elim: rbind_ok_cases)
    show ?thesis
    proof (cases "\<exists>u. c \<and> askState rafts j = Inr (u, True)")
      case True
      then obtain u where u: "c" "askState rafts j = Inr (u, True)" by blast
      have "m1 = addLeader u j m" using m1(1) c u by simp
      moreover have "saysLeader conn rafts j t \<longleftrightarrow> t = u" for t using c u by (auto simp: saysLeader_def)
      ultimately show ?thesis using Cons.prems(3,4) by (auto simp: addLeader_pairs intro!: addLeader_ok)
    next
      case False
      then have "m1 = m" using m1(1) c by (auto simp: rbind_eq_Inr split: if_splits)
      moreover have "\<not> saysLeader conn rafts j t" for t using False c by (auto simp: saysLeader_def)
      ultimately show ?thesis using Cons.prems(3) by auto
    qed
  qed
  then show ?case using Cons.IH [OF m1(2)] Cons.prems(2,4) by auto
qed simp

lemma collectLeaders_spec:
  assumes "collectLeaders n conn rafts = Inr m"
  shows "leaders_ok m" "leaderPairs m = {(t, i). 0 \<le> i \<and> i < n \<and> saysLeader conn rafts i t}"
proof -
  have "distinct (indices 0 n)" by (simp add: indices_def distinct_map inj_on_def)
  with collect_loop [OF assms [unfolded collectLeaders_def]] show "leaders_ok m"
    "leaderPairs m = {(t, i). 0 \<le> i \<and> i < n \<and> saysLeader conn rafts i t}"
    by (auto simp: leaders_ok_def leaderPairs_def)
qed

lemma collectLeaders_error: "collectLeaders n conn rafts \<noteq> Inl (TestFatal e)"
proof -
  have "for_each js (\<lambda>i m. rbind (go_nth conn i) (\<lambda>c.
      if c then rbind (askState rafts i) (\<lambda>(t, leader). Inr (if leader then addLeader t i m else m)) else Inr m)) m \<noteq> Inl (TestFatal e)" for js m
  proof (induction js arbitrary: m)
    case (Cons j js)
    then show ?case by (auto simp: rbind_def askState_def go_nth_def split: sum.splits option.splits if_splits)
  qed simp
  then show ?thesis by (simp add: collectLeaders_def)
qed

lemma lastTerm_spec:
  fixes leaders :: "(int \<times> int list) list"
  shows "for_each leaders (\<lambda>(t, ls) l. if len ls > 1 then Inl (TestFatal ''term has >1 leaders'') else Inr (if t > l then t else l)) l =
    (if \<exists>(t, ls) \<in> set leaders. len ls > 1 then Inl (TestFatal ''term has >1 leaders'')
     else Inr (fold max (map fst leaders) l))"
  by (induction leaders arbitrary: l) (auto simp: max_def)

lemma lastTerm_eq:
  "lastTerm leaders = (if \<exists>(t, ls) \<in> set leaders. len ls > 1 then Inl (TestFatal ''term has >1 leaders'')
     else Inr (Max (insert (-1) (fst ` set leaders))))"
  using lastTerm_spec [of leaders "-1"] by (simp add: lastTerm_def Max.set_eq_fold [symmetric])

lemma twoLeaders:
  assumes "leaders_ok m" "(t, ls) \<in> set m" "len ls > 1"
  shows "\<exists>i j. i \<noteq> j \<and> (t, i) \<in> leaderPairs m \<and> (t, j) \<in> leaderPairs m"
proof -
  from assms(3) have "length ls > 1" by (simp add: len_def)
  then obtain i j r where "ls = i # j # r" by (cases ls rule: remdups_adj.cases) auto
  then have "i \<noteq> j" "{i, j} \<subseteq> set ls" using assms(1,2) by (auto simp: leaders_ok_def)
  then show ?thesis using assms(2) unfolding leaderPairs_def by auto
qed

lemma checkOneLeader_two:
  "checkOneLeader n conn rounds = Inl (TestFatal ''term has >1 leaders'') \<Longrightarrow>
    \<exists>rafts \<in> set rounds. \<exists>i j t. i \<noteq> j \<and> 0 \<le> i \<and> i < n \<and> 0 \<le> j \<and> j < n \<and> saysLeader conn rafts i t \<and> saysLeader conn rafts j t"
proof (induction rounds)
  case (Cons rafts rounds)
  from Cons.prems collectLeaders_error obtain m where m: "collectLeaders n conn rafts = Inr m"
    by (cases "collectLeaders n conn rafts") auto
  note spec = collectLeaders_spec [OF m]
  show ?case
  proof (cases "\<exists>(t, ls) \<in> set m. len ls > 1")
    case True
    with twoLeaders [OF spec(1)] spec(2) show ?thesis by auto blast
  next
    case False
    with Cons m show ?thesis by (auto simp: lastTerm_eq go_nth_def split: if_splits)
  qed
qed simp

lemma checkOneLeader_result:
  "checkOneLeader n conn rounds = Inr r \<Longrightarrow>
    \<exists>rafts \<in> set rounds. \<exists>t. 0 \<le> r \<and> r < n \<and> saysLeader conn rafts r t \<and>
      (\<forall>j t'. 0 \<le> j \<longrightarrow> j < n \<longrightarrow> saysLeader conn rafts j t' \<longrightarrow> t' \<le> t \<and> (t' = t \<longrightarrow> j = r))"
proof (induction rounds)
  case (Cons rafts rounds)
  from Cons.prems obtain m t where m: "collectLeaders n conn rafts = Inr m" "lastTerm m = Inr t"
    by (auto simp: rbind_eq_Inr)
  note spec = collectLeaders_spec [OF m(1)]
  have one: "len ls \<le> 1" if "(u, ls) \<in> set m" for u ls using m(2) that by (auto simp: lastTerm_eq split: if_splits)
  have t: "t = Max (insert (-1) (fst ` set m))" using m(2) by (auto simp: lastTerm_eq split: if_splits)
  show ?case
  proof (cases "m = []")
    case False
    with Cons.prems m have "go_nth (case map_of m t of Some ls \<Rightarrow> ls | None \<Rightarrow> []) 0 = Inr r" by simp
    then obtain ls where ls: "map_of m t = Some ls" "ls \<noteq> []" "r = ls ! 0" by (auto simp: go_nth_def split: option.splits if_splits)
    with one [OF map_of_SomeD [OF ls(1)]] have "ls = [r]" by (cases ls) (auto simp: len_def)
    with ls(1) have r: "(t, [r]) \<in> set m" by (simp add: map_of_SomeD)
    have rest: "t' \<le> t \<and> (t' = t \<longrightarrow> j = r)" if jt: "(t', j) \<in> leaderPairs m" for j t'
    proof -
      from jt obtain ks where ks: "(t', ks) \<in> set m" "j \<in> set ks" by (auto simp: leaderPairs_def)
      then have "t' \<le> t" unfolding t by (intro Max_ge) force+
      moreover have "ks = [r]" if "t' = t" using eq_key_imp_eq_value [of m t ks "[r]"] ks(1) r spec(1) that by (simp add: leaders_ok_def)
      ultimately show ?thesis using ks(2) by auto
    qed
    have says: "(u, j) \<in> leaderPairs m \<longleftrightarrow> 0 \<le> j \<and> j < n \<and> saysLeader conn rafts j u" for u j using spec(2) by simp
    have "(t, r) \<in> leaderPairs m" using r by (auto simp: leaderPairs_def)
    then have "0 \<le> r \<and> r < n \<and> saysLeader conn rafts r t" by (simp only: says)
    moreover have "\<forall>j t'. 0 \<le> j \<longrightarrow> j < n \<longrightarrow> saysLeader conn rafts j t' \<longrightarrow> t' \<le> t \<and> (t' = t \<longrightarrow> j = r)"
      using rest unfolding says by blast
    ultimately show ?thesis by (intro bexI [of _ rafts] exI [of _ t] conjI) simp_all
  qed (use Cons m in auto)
qed simp

text \<open>Votes are never forgotten, so who was elected stays elected.\<close>

lemma update_ok_votes: "update_ok s i m = Some s' \<Longrightarrow> votes s' = votes s \<and> length (nodes s') = length (nodes s)"
  by (auto simp: update_ok_def split: sum.splits)

lemma cexec_votes: "cexec s e = Some s' \<Longrightarrow> votes s \<subseteq> votes s' \<and> length (nodes s') = length (nodes s)"
  by (cases e)
    (auto simp: doCandidate_def doVote_def doVoteReply_def doLead_def doAppend_def doSend_def doRestart_def Let_def case_prod_unfold Option.bind_eq_Some_conv
      split: if_splits sum.splits option.splits dest!: update_ok_votes)

lemma run_votes: "cstep\<^sup>*\<^sup>* s s' \<Longrightarrow> votes s \<subseteq> votes s' \<and> length (nodes s') = length (nodes s)"
  by (induction rule: rtranclp_induct) (auto simp: cstep_def dest!: cexec_votes)

lemma leaders_over_time:
  assumes "reach isNewCluster cstep s" "cstep\<^sup>*\<^sup>* s s'" "leads s i t" "leads s' j t"
  shows "i = j"
proof -
  have inv: "election_inv s" "election_inv s'"
    using election.inv_reach [OF assms(1)] election.inv_run [OF assms(2)] by auto
  have "elected s' t i"
    using elected_mono [OF leads_elected [OF inv(1) assms(3)] inv(2)] run_votes [OF assms(2)] by blast
  then show ?thesis using elected_unique [OF inv(2)] leads_elected [OF inv(2) assms(4)] by blast
qed

text \<open>What a round reads: peer \<open>i\<close> in the state the cluster is in when it is asked.\<close>

definition observe :: "nat \<Rightarrow> 'c cluster list \<Rightarrow> 'c Raft option list" where
  "observe n ss = map (\<lambda>i. Some (nodes (ss ! i) ! i)) [0..<n]"

lemma says_leads:
  assumes "0 \<le> i" "i < int n" "\<And>k. k < n \<Longrightarrow> n \<le> length (nodes (ss ! k))"
  shows "saysLeader conn (observe n ss) i t \<longleftrightarrow> go_nth conn i = Inr True \<and> leads (ss ! nat i) (nat i) t"
proof -
  have "askState (observe n ss) i = Inr (GetState (nodes (ss ! nat i) ! nat i))"
    using assms(1,2) by (simp add: askState_def observe_def go_nth_def)
  moreover have "nat i < length (nodes (ss ! nat i))" using assms(1,2) assms(3) [of "nat i"] by linarith
  ultimately show ?thesis by (auto simp: saysLeader_def GetState_def leads_def)
qed

text \<open>
  C12: asking a running cluster for its leader. The cluster runs by careful events: no request for a vote
  reaches a peer that has led the term of the request, and no peer takes office after its candidacy
  is over (with either a term can get two leaders). The peers are asked one after the other while the
  cluster goes on; still \<open>checkOneLeader\<close> never finds two leaders of one term, and what it returns is
  a connected server that led the newest term that any connected server led when it was asked.
\<close>

theorem one_leader:
  assumes "\<forall>ss \<in> set obs. length ss = n" "sorted_wrt cstep\<^sup>*\<^sup>* (concat obs)"
    and "\<forall>s \<in> set (concat obs). reach isNewCluster cstep s \<and> length (nodes s) = n"
  shows "checkOneLeader (int n) conn (map (observe n) obs) \<noteq> Inl (TestFatal ''term has >1 leaders'') \<and>
    (checkOneLeader (int n) conn (map (observe n) obs) = Inr r \<longrightarrow>
      (\<exists>ss \<in> set obs. \<exists>t. 0 \<le> r \<and> r < int n \<and> go_nth conn r = Inr True \<and> leads (ss ! nat r) (nat r) t \<and>
        (\<forall>j < n. \<forall>t'. go_nth conn (int j) = Inr True \<longrightarrow> leads (ss ! j) j t' \<longrightarrow> t' \<le> t \<and> (t' = t \<longrightarrow> int j = r))))"
proof (intro conjI impI)
  have nodes: "n \<le> length (nodes (ss ! k))" if "ss \<in> set obs" "k < n" for ss k
    using that assms(1,3) nth_mem [of k ss] by auto
  have later: "cstep\<^sup>*\<^sup>* (ss ! i) (ss ! j)" if "ss \<in> set obs" "i < j" "j < n" for ss i j
  proof -
    from that(1) obtain xs ys where "concat obs = xs @ ss @ ys" by (metis split_list concat.simps(2) concat_append)
    then have "sorted_wrt cstep\<^sup>*\<^sup>* ss" using assms(2) by (simp add: sorted_wrt_append)
    then show ?thesis using that assms(1) by (auto simp: sorted_wrt_iff_nth_less)
  qed
  have reach: "reach isNewCluster cstep (ss ! i)" if "ss \<in> set obs" "i < n" for ss i
    using that assms(1,3) nth_mem [of i ss] by auto
  have unique: "i = j" if "ss \<in> set obs" "i < n" "j < n" "leads (ss ! i) i t" "leads (ss ! j) j t" for ss i j t
  proof (rule linorder_cases [of i j])
    assume "i < j"
    with that show ?thesis by (intro leaders_over_time [OF reach later]) auto
  next
    assume "j < i"
    with that have "j = i" by (intro leaders_over_time [OF reach later]) auto
    then show ?thesis ..
  qed
  show "checkOneLeader (int n) conn (map (observe n) obs) \<noteq> Inl (TestFatal ''term has >1 leaders'')"
  proof
    assume "checkOneLeader (int n) conn (map (observe n) obs) = Inl (TestFatal ''term has >1 leaders'')"
    from checkOneLeader_two [OF this] obtain ss i j t where *: "ss \<in> set obs" "i \<noteq> j" "0 \<le> i" "i < int n" "0 \<le> j" "j < int n"
      "saysLeader conn (observe n ss) i t" "saysLeader conn (observe n ss) j t" by auto
    then have "nat i = nat j" by (intro unique [of ss _ _ t]) (auto simp: says_leads nodes)
    with * show False by simp
  qed
  assume "checkOneLeader (int n) conn (map (observe n) obs) = Inr r"
  from checkOneLeader_result [OF this] obtain rafts t where rafts: "rafts \<in> set (map (observe n) obs)" and
    got: "0 \<le> r" "r < int n" "saysLeader conn rafts r t"
    "\<forall>j t'. 0 \<le> j \<longrightarrow> j < int n \<longrightarrow> saysLeader conn rafts j t' \<longrightarrow> t' \<le> t \<and> (t' = t \<longrightarrow> j = r)" by blast
  from rafts obtain ss where "ss \<in> set obs" "rafts = observe n ss" by auto
  note * = this(1) got [unfolded this(2)]
  have r: "go_nth conn r = Inr True" "leads (ss ! nat r) (nat r) t"
    using *(4) says_leads [OF *(2,3) nodes [OF *(1)]] by simp_all
  have "t' \<le> t \<and> (t' = t \<longrightarrow> int j = r)" if "j < n" "go_nth conn (int j) = Inr True" "leads (ss ! j) j t'" for j t'
  proof -
    have "saysLeader conn (observe n ss) (int j) t'" using says_leads [of "int j" n ss conn t'] nodes [OF *(1)] that by simp
    then show ?thesis using *(5) [rule_format, of "int j" t'] that(1) by simp
  qed
  then have "\<forall>j < n. \<forall>t'. go_nth conn (int j) = Inr True \<longrightarrow> leads (ss ! j) j t' \<longrightarrow> t' \<le> t \<and> (t' = t \<longrightarrow> int j = r)" by blast
  then show "\<exists>ss \<in> set obs. \<exists>t. 0 \<le> r \<and> r < int n \<and> go_nth conn r = Inr True \<and> leads (ss ! nat r) (nat r) t \<and>
        (\<forall>j < n. \<forall>t'. go_nth conn (int j) = Inr True \<longrightarrow> leads (ss ! j) j t' \<longrightarrow> t' \<le> t \<and> (t' = t \<longrightarrow> int j = r))"
    by (intro bexI [OF _ *(1)] exI [of _ t] conjI *(2,3) r)
qed

text \<open>The three peers of \<open>electionRun\<close>, asked before and after the election.\<close>

theorem one_leader_witness:
  "\<exists>s. crunP careful (newCluster 3) electionRun = Some s \<and>
     checkOneLeader 3 [True, True, True] (map (observe 3) [replicate 3 (newCluster 3), replicate 3 s]) = Inr 0 \<and> leads s 0 1"
proof -
  have "case crunP careful (newCluster 3) electionRun of None \<Rightarrow> False | Some s \<Rightarrow> leads s 0 1 \<and> length (nodes s) = 3 \<and>
     checkOneLeader 3 [True, True, True] (map (observe 3) [replicate 3 (newCluster 3), replicate 3 s]) = Inr 0"
    by code_simp
  then obtain s where s: "crunP careful (newCluster 3) electionRun = Some s" "leads s 0 1" "length (nodes s) = 3"
    "checkOneLeader 3 [True, True, True] (map (observe 3) [replicate 3 (newCluster 3), replicate 3 s]) = Inr 0"
    using case_option_ex by blast
  have run: "cstep\<^sup>*\<^sup>* u v" if "crunP careful u es = Some v" for u v :: "nat cluster" and es
    using that
  proof (induction es arbitrary: u)
    case (Cons e es)
    then obtain w where "careful u e" "cexec u e = Some w" "crunP careful w es = Some v"
      by (auto split: if_splits simp: Option.bind_eq_Some_conv)
    then show ?case using Cons.IH by (auto simp: cstep_def intro: converse_rtranclp_into_rtranclp)
  qed simp
  let ?obs = "[replicate 3 (newCluster 3), replicate 3 s]"
  have "sorted_wrt cstep\<^sup>*\<^sup>* (concat ?obs)" using run [OF s(1)] by (auto simp: sorted_wrt_append numeral_3_eq_3)
  moreover have "\<forall>u \<in> set (concat ?obs). reach isNewCluster cstep u \<and> length (nodes u) = 3"
    using s(3) reach_new reach_crunP [OF reach_new s(1)] by (auto simp: newCluster_def)
  ultimately have "\<exists>ss \<in> set ?obs. \<exists>t. leads (ss ! 0) 0 t"
    using one_leader [of ?obs 3 "[True, True, True]" 0] s(4) by auto
  then show ?thesis using s by blast
qed

end
