(* ===== verification/RaftHarnessNet.thy ===== *)
theory RaftHarnessNet
  imports RaftHarness
begin

text \<open>
  Who can talk to whom in the harness of the Raft tests: after any sequence of starts, crashes,
  connections and disconnections, exactly the current end points between two connected servers
  are enabled. In particular neither a disconnected server nor an instance that was killed and
  replaced gets a call through.
\<close>

section \<open>Operations\<close>

datatype harnessOp =
    HConnect int
  | HDisconnect int
  | HCrash int
  | HStart "string list" int int int
  | HUnreliable bool
  | HReordering bool

fun hexec :: "(bytes \<Rightarrow> (int \<times> 'c option list) option) \<Rightarrow> ('c Raft \<Rightarrow> 'st service) \<Rightarrow> harnessOp \<Rightarrow> ('c, 'st) config \<Rightarrow>
    ('c, 'st) config option res" where
  "hexec decode svc (HConnect i) cfg = rbind (cfg_connect i cfg) (\<lambda>c. Inr (Some c))"
| "hexec decode svc (HDisconnect i) cfg = rbind (cfg_disconnect i cfg) (\<lambda>c. Inr (Some c))"
| "hexec decode svc (HCrash i) cfg = rbind (crash1 i cfg) (\<lambda>c. Inr (Some c))"
| "hexec decode svc (HStart names now rnd i) cfg = start1 decode svc names now rnd i cfg"
| "hexec decode svc (HUnreliable b) cfg = Inr (Some (setunreliable b cfg))"
| "hexec decode svc (HReordering b) cfg = Inr (Some (setlongreordering b cfg))"

fun hrun :: "(bytes \<Rightarrow> (int \<times> 'c option list) option) \<Rightarrow> ('c Raft \<Rightarrow> 'st service) \<Rightarrow> harnessOp list \<Rightarrow> ('c, 'st) config \<Rightarrow>
    ('c, 'st) config option res" where
  "hrun decode svc [] cfg = Inr (Some cfg)"
| "hrun decode svc (op # ops) cfg =
    rbind (hexec decode svc op cfg) (\<lambda>r. case r of None \<Rightarrow> Inr None | Some cfg' \<Rightarrow> hrun decode svc ops cfg')"

section \<open>The invariant\<close>

text \<open>\<open>e\<close> is the name of the present end point from \<open>i\<close> to \<open>j\<close>.\<close>

definition link :: "('c, 'st) config \<Rightarrow> nat \<Rightarrow> nat \<Rightarrow> string \<Rightarrow> bool" where
  "link cfg i j e \<longleftrightarrow> i < length (hEndnames cfg) \<and> j < length (hEndnames cfg ! i) \<and> hEndnames cfg ! i ! j = e"

definition bothOn :: "('c, 'st) config \<Rightarrow> nat \<Rightarrow> nat \<Rightarrow> bool" where
  "bothOn cfg i j \<longleftrightarrow> hConnected cfg ! i \<and> hConnected cfg ! j"

definition net_inv :: "('c, 'st) config \<Rightarrow> bool" where
  "net_inv cfg \<longleftrightarrow>
    length (hConnected cfg) = nat (hN cfg) \<and> length (hEndnames cfg) = nat (hN cfg) \<and>
    (\<forall>es \<in> set (hEndnames cfg). es = [] \<or> length es = nat (hN cfg)) \<and>
    (\<forall>i j i' j' e. link cfg i j e \<longrightarrow> link cfg i' j' e \<longrightarrow> i = i' \<and> j = j') \<and>
    (\<forall>i j e. link cfg i j e \<longrightarrow> ends (hNet cfg) (EndName e) \<and> connectedTo (hNet cfg) (EndName e) = Some (ServerName (int j))) \<and>
    (\<forall>e. isEnabled (hNet cfg) (EndName e) \<longleftrightarrow> (\<exists>i j. link cfg i j e \<and> bothOn cfg i j))"

text \<open>The invariant looks at a part of the configuration only.\<close>

definition sameLinks :: "('c, 'st) config \<Rightarrow> ('c, 'st) config \<Rightarrow> bool" where
  "sameLinks cfg cfg' \<longleftrightarrow> hN cfg' = hN cfg \<and> hConnected cfg' = hConnected cfg \<and> hEndnames cfg' = hEndnames cfg \<and>
    ends (hNet cfg') = ends (hNet cfg) \<and> enabled (hNet cfg') = enabled (hNet cfg) \<and>
    connections (hNet cfg') = connections (hNet cfg)"

lemma net_inv_cong:
  assumes "net_inv cfg" "sameLinks cfg cfg'"
  shows "net_inv cfg'"
proof -
  have eqs: "link cfg' = link cfg" "bothOn cfg' = bothOn cfg" "isEnabled (hNet cfg') = isEnabled (hNet cfg)"
    "connectedTo (hNet cfg') = connectedTo (hNet cfg)"
    using assms(2) by (auto simp: sameLinks_def link_def bothOn_def isEnabled_def connectedTo_def fun_eq_iff)
  have rest: "hN cfg' = hN cfg" "hConnected cfg' = hConnected cfg" "hEndnames cfg' = hEndnames cfg" "ends (hNet cfg') = ends (hNet cfg)"
    using assms(2) by (simp_all add: sameLinks_def)
  show ?thesis using assms(1) unfolding net_inv_def eqs rest .
qed

lemma isEnabled_Enable [simp]: "isEnabled (Enable rn e b) x = (if x = e then b else isEnabled rn x)"
  by (simp add: isEnabled_def Enable_def)

lemma Enable_fields [simp]: "ends (Enable rn e b) = ends rn" "connections (Enable rn e b) = connections rn"
  by (simp_all add: Enable_def)

section \<open>The loops\<close>

lemma ex_indices: "(\<exists>j \<in> set (indices 0 n). P j) \<longleftrightarrow> (\<exists>k < nat n. P (int k))"
proof
  assume "\<exists>j \<in> set (indices 0 n). P j"
  then obtain j where "0 \<le> j" "j < n" "P j" by auto
  then show "\<exists>k < nat n. P (int k)" by (intro exI [of _ "nat j"]) auto
qed (auto intro: bexI [where x = "int _"])

text \<open>\<open>net'\<close> differs from \<open>net\<close> in that the end points with names in \<open>S\<close> are enabled or not.\<close>

definition switched :: "(netName, 'st) Network \<Rightarrow> (netName, 'st) Network \<Rightarrow> string set \<Rightarrow> bool \<Rightarrow> bool" where
  "switched net net' S v \<longleftrightarrow> ends net' = ends net \<and> connections net' = connections net \<and>
    (\<forall>e. isEnabled net' (EndName e) = (if e \<in> S then v else isEnabled net (EndName e)))"

lemma switched_refl: "switched net net {} v"
  by (simp add: switched_def)

lemma switched_trans: "switched net net1 S v \<Longrightarrow> switched net1 net2 T v \<Longrightarrow> switched net net2 (S \<union> T) v"
  by (auto simp: switched_def)

lemma switched_Enable: "switched net (Enable net (EndName e) v) {e} v"
  by (simp add: switched_def)

text \<open>A loop that enables or disables some end points.\<close>

lemma enable_loop:
  assumes "for_each js (\<lambda>j s. rbind (test s j) (\<lambda>c. if c then enableEnd (a j) (b j) v s else Inr s)) cfg = Inr cfg'"
    and "\<And>s j net. test (s\<lparr>hNet := net\<rparr>) j = test s j"
  shows "\<exists>net'. cfg' = cfg\<lparr>hNet := net'\<rparr> \<and>
    switched (hNet cfg) net' {e. \<exists>j \<in> set js. test cfg j = Inr True \<and> link cfg (nat (a j)) (nat (b j)) e} v"
  using assms(1)
proof (induction js arbitrary: cfg)
  case Nil
  then show ?case by (intro exI [of _ "hNet cfg"]) (simp add: switched_refl)
next
  case (Cons j js)
  let ?f = "\<lambda>j s. rbind (test s j) (\<lambda>c. if c then enableEnd (a j) (b j) v s else Inr s)"
  let ?S = "\<lambda>cfg js. {e. \<exists>j \<in> set js. test cfg j = Inr True \<and> link cfg (nat (a j)) (nat (b j)) e}"
  from Cons.prems obtain cfg1 where c1: "?f j cfg = Inr cfg1" "for_each js ?f cfg1 = Inr cfg'"
    by (auto elim: rbind_ok_cases)
  then obtain c where c: "test cfg j = Inr c" by (auto elim: rbind_ok_cases)
  from Cons.IH [OF c1(2)] obtain net' where net': "cfg' = cfg1\<lparr>hNet := net'\<rparr>" "switched (hNet cfg1) net' (?S cfg1 js) v" by blast
  show ?case
  proof (cases c)
    case False
    then have "cfg1 = cfg" "?S cfg (j # js) = ?S cfg js" using c1(1) c by auto
    with net' show ?thesis by (intro exI [of _ net']) (simp only: simp_thms)
  next
    case True
    then have "enableEnd (a j) (b j) v cfg = Inr cfg1" using c1(1) c by simp
    then obtain e where e: "link cfg (nat (a j)) (nat (b j)) e" "cfg1 = cfg\<lparr>hNet := Enable (hNet cfg) (EndName e) v\<rparr>"
      by (auto simp: enableEnd_def rbind_eq_Inr link_def nat_less_iff dest!: go_nth_Inr)
    have same: "test cfg1 k = test cfg k" "link cfg1 = link cfg" for k unfolding e(2) by (rule assms(2), simp add: link_def fun_eq_iff)
    have only: "link cfg (nat (a j)) (nat (b j)) e' \<longleftrightarrow> e' = e" for e' using e(1) by (auto simp: link_def)
    have cT: "test cfg j = Inr True" using c True by simp
    have "e' \<in> ?S cfg (j # js) \<longleftrightarrow> e' = e \<or> e' \<in> ?S cfg1 js" for e'
      by (simp only: same mem_Collect_eq list.set bex_simps cT only simp_thms)
    then have "?S cfg (j # js) = {e} \<union> ?S cfg1 js" by (intro set_eqI) simp
    with switched_trans [OF switched_Enable, of "hNet cfg" e v net' "?S cfg1 js"] net' e(2) show ?thesis
      by (intro exI [of _ net']) simp
  qed
qed

text \<open>A loop that makes the end points of server \<open>i\<close>: all names are new.\<close>

lemma isEnabled_MakeEnd: "MakeEnd rn e = Inr rn' \<Longrightarrow> isEnabled rn' x = (x \<noteq> e \<and> isEnabled rn x)"
  by (auto simp: MakeEnd_def isEnabled_def split: if_splits)

lemma makeEnds_loop:
  assumes "for_each js (\<lambda>j s. rbind (go_nth (hEndnames s) i) (\<lambda>es. rbind (go_nth es j) (\<lambda>e.
         rbind (MakeEnd (hNet s) (EndName e)) (\<lambda>rn. Inr (s\<lparr>hNet := Connect rn (EndName e) (ServerName j)\<rparr>))))) cfg = Inr cfg'"
  defines "nm \<equiv> \<lambda>j :: int. EndName (hEndnames cfg ! nat i ! nat j)"
  shows "\<exists>net'. cfg' = cfg\<lparr>hNet := net'\<rparr> \<and>
    (\<forall>j \<in> set js. 0 \<le> j \<and> nat j < length (hEndnames cfg ! nat i) \<and> \<not> ends (hNet cfg) (nm j) \<and>
       ends net' (nm j) \<and> connectedTo net' (nm j) = Some (ServerName j)) \<and>
    inj_on nm (set js) \<and>
    (\<forall>x. ends (hNet cfg) x \<longrightarrow> ends net' x \<and> connectedTo net' x = connectedTo (hNet cfg) x) \<and>
    (\<forall>x. isEnabled net' x \<longleftrightarrow> isEnabled (hNet cfg) x \<and> x \<notin> nm ` set js)"
  using assms(1) unfolding nm_def
proof (induction js arbitrary: cfg)
  case Nil
  then show ?case by (intro exI [of _ "hNet cfg"]) simp
next
  case (Cons j js)
  let ?nm = "\<lambda>j :: int. EndName (hEndnames cfg ! nat i ! nat j)"
  let ?f = "\<lambda>j s. rbind (go_nth (hEndnames s) i) (\<lambda>es. rbind (go_nth es j) (\<lambda>e.
         rbind (MakeEnd (hNet s) (EndName e)) (\<lambda>rn. Inr (s\<lparr>hNet := Connect rn (EndName e) (ServerName j)\<rparr>))))"
  from Cons.prems obtain cfg1 where c1: "?f j cfg = Inr cfg1" "for_each js ?f cfg1 = Inr cfg'"
    by (auto elim: rbind_ok_cases)
  from c1(1) obtain rn where rn: "0 \<le> j" "nat j < length (hEndnames cfg ! nat i)" "MakeEnd (hNet cfg) (?nm j) = Inr rn"
    "cfg1 = cfg\<lparr>hNet := Connect rn (?nm j) (ServerName j)\<rparr>" by (auto simp: rbind_eq_Inr dest!: go_nth_Inr)
  have fresh: "\<not> ends (hNet cfg) (?nm j)" and e1: "ends (hNet cfg1) x \<longleftrightarrow> ends (hNet cfg) x \<or> x = ?nm j" for x
    using rn(3,4) by (auto simp: MakeEnd_def Connect_def split: if_splits)
  have en1: "isEnabled (hNet cfg1) x \<longleftrightarrow> isEnabled (hNet cfg) x \<and> x \<noteq> ?nm j" for x
    using isEnabled_MakeEnd [OF rn(3)] rn(4) by (auto simp: Connect_def isEnabled_def)
  have con1: "connectedTo (hNet cfg1) x = (if x = ?nm j then Some (ServerName j) else connectedTo (hNet cfg) x)" for x
    using rn(3,4) by (auto simp: MakeEnd_def Connect_def connectedTo_def split: if_splits)
  have names1: "hEndnames cfg1 = hEndnames cfg" using rn(4) by simp
  from Cons.IH [OF c1(2), unfolded names1] obtain net' where net': "cfg' = cfg1\<lparr>hNet := net'\<rparr>"
    "\<forall>k \<in> set js. 0 \<le> k \<and> nat k < length (hEndnames cfg ! nat i) \<and> \<not> ends (hNet cfg1) (?nm k) \<and>
       ends net' (?nm k) \<and> connectedTo net' (?nm k) = Some (ServerName k)"
    "inj_on ?nm (set js)"
    "\<forall>x. ends (hNet cfg1) x \<longrightarrow> ends net' x \<and> connectedTo net' x = connectedTo (hNet cfg1) x"
    "\<forall>x. isEnabled net' x \<longleftrightarrow> isEnabled (hNet cfg1) x \<and> x \<notin> ?nm ` set js" by blast
  have apart: "\<forall>k \<in> set js. ?nm k \<noteq> ?nm j" using net'(2) e1 by blast
  have "cfg' = cfg\<lparr>hNet := net'\<rparr>" using net'(1) rn(4) by simp
  moreover have "0 \<le> k \<and> nat k < length (hEndnames cfg ! nat i) \<and> \<not> ends (hNet cfg) (?nm k) \<and>
      ends net' (?nm k) \<and> connectedTo net' (?nm k) = Some (ServerName k)" if "k \<in> set (j # js)" for k
    using that net'(2,4) rn(1,2) fresh e1 con1 by auto
  moreover have "inj_on ?nm (set (j # js))" using net'(3) apart by (auto simp: inj_on_insert)
  moreover have "ends net' x \<and> connectedTo net' x = connectedTo (hNet cfg) x" if "ends (hNet cfg) x" for x
  proof -
    have "ends (hNet cfg1) x" "x \<noteq> ?nm j" using e1 fresh that by blast+
    then show ?thesis using net'(4) con1 [of x] by simp
  qed
  moreover have "isEnabled net' x \<longleftrightarrow> isEnabled (hNet cfg) x \<and> x \<notin> ?nm ` set (j # js)" for x
    using net'(5) [rule_format, of x] en1 [of x] by auto
  ultimately show ?case by blast
qed

section \<open>Every operation keeps the invariant\<close>

lemma net_invD:
  assumes "net_inv cfg"
  shows "length (hConnected cfg) = nat (hN cfg)" "length (hEndnames cfg) = nat (hN cfg)"
    and "link cfg i j e \<Longrightarrow> link cfg i' j' e \<Longrightarrow> i = i' \<and> j = j'"
    and "link cfg i j e \<Longrightarrow> ends (hNet cfg) (EndName e)"
    and "link cfg i j e \<Longrightarrow> connectedTo (hNet cfg) (EndName e) = Some (ServerName (int j))"
    and "isEnabled (hNet cfg) (EndName e) \<longleftrightarrow> (\<exists>i j. link cfg i j e \<and> bothOn cfg i j)"
    and "link cfg i j e \<Longrightarrow> i < nat (hN cfg) \<and> j < nat (hN cfg)"
proof -
  show "link cfg i j e \<Longrightarrow> i < nat (hN cfg) \<and> j < nat (hN cfg)"
    using assms unfolding net_inv_def link_def by (metis less_nat_zero_code list.size(3) nth_mem)
qed (use assms in \<open>unfold net_inv_def, blast\<close>)+

text \<open>Changing who is connected, with the matching end points switched.\<close>

lemma net_inv_switch:
  assumes inv: "net_inv cfg" and i: "i < nat (hN cfg)"
    and cfg': "cfg' = cfg\<lparr>hConnected := (hConnected cfg)[i := b], hNet := net'\<rparr>"
    and net': "ends net' = ends (hNet cfg)" "connections net' = connections (hNet cfg)"
    and en: "\<And>e. isEnabled net' (EndName e) \<longleftrightarrow> (\<exists>k l. link cfg k l e \<and> bothOn cfg' k l)"
  shows "net_inv cfg'"
proof -
  have link: "link cfg' = link cfg" by (auto simp: link_def fun_eq_iff cfg')
  have con: "connectedTo net' = connectedTo (hNet cfg)" using net'(2) by (simp add: connectedTo_def fun_eq_iff)
  have rest: "hN cfg' = hN cfg" "length (hConnected cfg') = length (hConnected cfg)" "hEndnames cfg' = hEndnames cfg" "hNet cfg' = net'"
    by (simp_all add: cfg')
  show ?thesis unfolding net_inv_def link rest net' con
    by (intro conjI) (use inv [unfolded net_inv_def] en in blast)+
qed

lemma bothOn_update: "i < length (hConnected cfg) \<Longrightarrow> cfg' = cfg\<lparr>hConnected := (hConnected cfg)[i := b], hNet := net\<rparr> \<Longrightarrow>
    bothOn cfg' k l \<longleftrightarrow> (if k = i then b else hConnected cfg ! k) \<and> (if l = i then b else hConnected cfg ! l)"
  by (auto simp: bothOn_def nth_list_update)

lemma net_inv_connect:
  assumes inv: "net_inv cfg" and c: "cfg_connect i cfg = Inr cfg'"
  shows "net_inv cfg'"
proof -
  let ?t = "\<lambda>s j. go_nth (hConnected s) j" and ?js = "indices 0 (hN cfg)"
  let ?c1 = "cfg\<lparr>hConnected := (hConnected cfg)[nat i := True]\<rparr>"
  from c obtain cfg2 where i: "0 \<le> i" "nat i < nat (hN cfg)" and
    l1: "for_each ?js (\<lambda>j s. rbind (?t s j) (\<lambda>c. if c then enableEnd i j True s else Inr s)) ?c1 = Inr cfg2" and
    l2: "for_each ?js (\<lambda>j s. rbind (?t s j) (\<lambda>c. if c then enableEnd j i True s else Inr s)) cfg2 = Inr cfg'"
    using net_invD(1) [OF inv] by (auto simp: cfg_connect_def rbind_eq_Inr dest!: go_upd_Inr split: if_splits)
  let ?S = "{e. \<exists>j \<in> set ?js. ?t ?c1 j = Inr True \<and> link ?c1 (nat i) (nat j) e}"
  let ?T = "{e. \<exists>j \<in> set ?js. ?t ?c1 j = Inr True \<and> link ?c1 (nat j) (nat i) e}"
  obtain net2 where n2: "cfg2 = ?c1\<lparr>hNet := net2\<rparr>" "switched (hNet ?c1) net2 ?S True"
    using enable_loop [where a = "\<lambda>j. i" and b = "\<lambda>j. j" and test = ?t, OF l1] by auto
  obtain net' where n': "cfg' = cfg2\<lparr>hNet := net'\<rparr>" "switched (hNet cfg2) net' ?T True"
    using enable_loop [where a = "\<lambda>j. j" and b = "\<lambda>j. i" and test = ?t, OF l2] n2(1) by (auto simp: link_def)
  have cfg': "cfg' = cfg\<lparr>hConnected := (hConnected cfg)[nat i := True], hNet := net'\<rparr>" using n2(1) n'(1) by simp
  have sw: "switched (hNet cfg) net' (?S \<union> ?T) True" using switched_trans [OF n2(2), of net' ?T] n'(2) n2(1) by simp
  have con: "?t ?c1 (int k) = Inr True \<longleftrightarrow> k = nat i \<or> hConnected cfg ! k" if "k < nat (hN cfg)" for k
    using that i net_invD(1) [OF inv] by (auto simp: go_nth_def nth_list_update)
  have lk: "link ?c1 = link cfg" by (simp add: link_def fun_eq_iff)
  have S: "e \<in> ?S \<longleftrightarrow> (\<exists>l. link cfg (nat i) l e \<and> (l = nat i \<or> hConnected cfg ! l))"
    and T: "e \<in> ?T \<longleftrightarrow> (\<exists>k. link cfg k (nat i) e \<and> (k = nat i \<or> hConnected cfg ! k))" for e
    unfolding ex_indices mem_Collect_eq nat_int lk using con net_invD(7) [OF inv] by blast+
  show ?thesis
  proof (rule net_inv_switch [OF inv i(2) cfg'])
    have on: "bothOn cfg' k l \<longleftrightarrow> (k = nat i \<or> hConnected cfg ! k) \<and> (l = nat i \<or> hConnected cfg ! l)" for k l
      using bothOn_update [OF _ cfg'] i(2) net_invD(1) [OF inv] by simp
    show "isEnabled net' (EndName e) \<longleftrightarrow> (\<exists>k l. link cfg k l e \<and> bothOn cfg' k l)" for e
    proof -
      have "isEnabled net' (EndName e) \<longleftrightarrow> e \<in> ?S \<or> e \<in> ?T \<or> (\<exists>k l. link cfg k l e \<and> bothOn cfg k l)"
        using sw net_invD(6) [OF inv, of e] by (auto simp: switched_def)
      also have "\<dots> \<longleftrightarrow> (\<exists>k l. link cfg k l e \<and> bothOn cfg' k l)"
        unfolding S T on bothOn_def [of cfg] by blast
      finally show ?thesis .
    qed
  qed (use sw in \<open>simp_all add: switched_def\<close>)
qed

lemma net_inv_disconnect:
  assumes inv: "net_inv cfg" and c: "cfg_disconnect i cfg = Inr cfg'"
  shows "net_inv cfg'" "0 \<le> i" "nat i < nat (hN cfg)" "hN cfg' = hN cfg" "\<not> hConnected cfg' ! nat i"
proof -
  let ?js = "indices 0 (hN cfg)"
  let ?row = "\<lambda>s j :: int. rbind (go_nth (hEndnames s) i) (\<lambda>es. Inr (es \<noteq> []))"
  let ?col = "\<lambda>s j. rbind (go_nth (hEndnames s) j) (\<lambda>es. Inr (es \<noteq> []))"
  let ?c1 = "cfg\<lparr>hConnected := (hConnected cfg)[nat i := False]\<rparr>"
  have assoc: "rbind (rbind m (\<lambda>es. Inr (es \<noteq> []))) (\<lambda>c. if c then x else y) = rbind m (\<lambda>es. if es \<noteq> [] then x else y)"
    for m :: "string list res" and x y :: "('a, 'b) config res" by (simp add: rbind_def split: sum.splits)
  from c obtain cfg2 where i: "0 \<le> i" "nat i < nat (hN cfg)" and
    l1: "for_each ?js (\<lambda>j s. rbind (?row s j) (\<lambda>c. if c then enableEnd i j False s else Inr s)) ?c1 = Inr cfg2" and
    l2: "for_each ?js (\<lambda>j s. rbind (?col s j) (\<lambda>c. if c then enableEnd j i False s else Inr s)) cfg2 = Inr cfg'"
    using net_invD(1) [OF inv] by (auto simp: cfg_disconnect_def assoc rbind_eq_Inr dest!: go_upd_Inr split: if_splits)
  let ?S = "{e. \<exists>j \<in> set ?js. ?row ?c1 j = Inr True \<and> link ?c1 (nat i) (nat j) e}"
  let ?T = "{e. \<exists>j \<in> set ?js. ?col ?c1 j = Inr True \<and> link ?c1 (nat j) (nat i) e}"
  obtain net2 where n2: "cfg2 = ?c1\<lparr>hNet := net2\<rparr>" "switched (hNet ?c1) net2 ?S False"
    using enable_loop [where a = "\<lambda>j. i" and b = "\<lambda>j. j" and test = ?row, OF l1] by auto
  obtain net' where n': "cfg' = cfg2\<lparr>hNet := net'\<rparr>" "switched (hNet cfg2) net' ?T False"
    using enable_loop [where a = "\<lambda>j. j" and b = "\<lambda>j. i" and test = ?col, OF l2] n2(1) by (auto simp: link_def)
  have cfg': "cfg' = cfg\<lparr>hConnected := (hConnected cfg)[nat i := False], hNet := net'\<rparr>" using n2(1) n'(1) by simp
  have sw: "switched (hNet cfg) net' (?S \<union> ?T) False" using switched_trans [OF n2(2), of net' ?T] n'(2) n2(1) by simp
  have named: "go_nth (hEndnames cfg) (int k) = Inr (hEndnames cfg ! k)" if "k < nat (hN cfg)" for k
    using that net_invD(2) [OF inv] by (auto simp: go_nth_def)
  have lk: "link ?c1 = link cfg" by (simp add: link_def fun_eq_iff)
  have has: "hEndnames cfg ! k \<noteq> []" if "link cfg k l e" for k l e using that by (auto simp: link_def)
  have row: "?row ?c1 (int l) = Inr True" if "link cfg (nat i) l e" for l e
    using named [OF i(2)] i(1) has [OF that] by simp
  have col: "?col ?c1 (int k) = Inr True" if "link cfg k (nat i) e" for k e
    using named net_invD(7) [OF inv that] has [OF that] by simp
  have S: "e \<in> ?S \<longleftrightarrow> (\<exists>l. link cfg (nat i) l e)" for e
    unfolding ex_indices mem_Collect_eq nat_int lk using row net_invD(7) [OF inv] by blast
  have T: "e \<in> ?T \<longleftrightarrow> (\<exists>k. link cfg k (nat i) e)" for e
    unfolding ex_indices mem_Collect_eq nat_int lk using col net_invD(7) [OF inv] by blast
  show "net_inv cfg'"
  proof (rule net_inv_switch [OF inv i(2) cfg'])
    have on: "bothOn cfg' k l \<longleftrightarrow> k \<noteq> nat i \<and> l \<noteq> nat i \<and> bothOn cfg k l" for k l
      using bothOn_update [OF _ cfg'] i(2) net_invD(1) [OF inv] by (simp add: bothOn_def)
    show "isEnabled net' (EndName e) \<longleftrightarrow> (\<exists>k l. link cfg k l e \<and> bothOn cfg' k l)" for e
    proof -
      have "isEnabled net' (EndName e) \<longleftrightarrow> e \<notin> ?S \<and> e \<notin> ?T \<and> (\<exists>k l. link cfg k l e \<and> bothOn cfg k l)"
        using sw net_invD(6) [OF inv, of e] by (auto simp: switched_def)
      also have "\<dots> \<longleftrightarrow> (\<exists>k l. link cfg k l e \<and> bothOn cfg' k l)"
        unfolding S T on using net_invD(3) [OF inv] by blast
      finally show ?thesis .
    qed
  qed (use sw in \<open>simp_all add: switched_def\<close>)
  show "0 \<le> i" "nat i < nat (hN cfg)" by (rule i)+
  show "hN cfg' = hN cfg" "\<not> hConnected cfg' ! nat i" using i(2) net_invD(1) [OF inv] by (simp_all add: cfg')
qed

lemma crash1_links:
  assumes inv: "net_inv cfg" and c: "crash1 i cfg = Inr cfg'"
  shows "net_inv cfg'" "0 \<le> i" "nat i < nat (hN cfg')" "\<not> hConnected cfg' ! nat i"
proof -
  from c obtain cfg1 where d: "cfg_disconnect i cfg = Inr cfg1" and same: "sameLinks cfg1 cfg'"
    by (auto simp: crash1_def rbind_eq_Inr Let_def sameLinks_def DeleteServer_def)
  note dis = net_inv_disconnect [OF inv d]
  show "net_inv cfg'" by (rule net_inv_cong [OF dis(1) same])
  show "0 \<le> i" "nat i < nat (hN cfg')" "\<not> hConnected cfg' ! nat i" using dis same by (auto simp: sameLinks_def)
qed

text \<open>A server that is not connected gets new end points.\<close>

lemma net_inv_makeEnds:
  assumes inv: "net_inv cfg" and i: "0 \<le> i" "nat i < nat (hN cfg)" and off: "\<not> hConnected cfg ! nat i"
    and m: "makeEnds i (cfg\<lparr>hEndnames := (hEndnames cfg)[nat i := take (nat (hN cfg)) names]\<rparr>) = Inr cfg'"
  shows "net_inv cfg'"
proof -
  let ?c1 = "cfg\<lparr>hEndnames := (hEndnames cfg)[nat i := take (nat (hN cfg)) names]\<rparr>" and ?js = "indices 0 (hN cfg)"
  let ?nm = "\<lambda>j :: int. EndName (hEndnames ?c1 ! nat i ! nat j)"
  have len: "length (hEndnames cfg) = nat (hN cfg)" by (rule net_invD(2) [OF inv])
  from makeEnds_loop [OF m [unfolded makeEnds_def]] obtain net' where n': "cfg' = ?c1\<lparr>hNet := net'\<rparr>"
    "\<forall>j \<in> set ?js. 0 \<le> j \<and> nat j < length (hEndnames ?c1 ! nat i) \<and> \<not> ends (hNet cfg) (?nm j) \<and>
       ends net' (?nm j) \<and> connectedTo net' (?nm j) = Some (ServerName j)"
    "inj_on ?nm (set ?js)" "\<forall>x. ends (hNet cfg) x \<longrightarrow> ends net' x \<and> connectedTo net' x = connectedTo (hNet cfg) x"
    "\<forall>x. isEnabled net' x \<longleftrightarrow> isEnabled (hNet cfg) x \<and> x \<notin> ?nm ` set ?js" by auto
  have full: "length (hEndnames ?c1 ! nat i) = nat (hN cfg)"
  proof -
    have "hN cfg - 1 \<in> set ?js" using i(2) by auto
    then have "nat (hN cfg - 1) < length (hEndnames ?c1 ! nat i)" using n'(2) by blast
    then show ?thesis using i(2) len by auto
  qed
  have other: "link cfg' k l e \<longleftrightarrow> link cfg k l e" if "k \<noteq> nat i" for k l e using that n'(1) by (simp add: link_def)
  have own: "link cfg' (nat i) l e \<longleftrightarrow> l < nat (hN cfg) \<and> EndName e = ?nm (int l)" for l e
    using n'(1) full i(2) len by (auto simp: link_def)
  have new: "\<not> ends (hNet cfg) (EndName e) \<and> ends net' (EndName e) \<and> connectedTo net' (EndName e) = Some (ServerName (int l))"
    if "link cfg' (nat i) l e" for l e
  proof -
    have "int l \<in> set ?js" using that own by auto
    then show ?thesis using n'(2) that own by metis
  qed
  have uniq: "k = k' \<and> l = l'" if "link cfg' k l e" "link cfg' k' l' e" for k l k' l' e
  proof (cases "k = nat i"; cases "k' = nat i")
    assume both: "k = nat i" "k' = nat i"
    then have "?nm (int l) = ?nm (int l')" "int l \<in> set ?js" "int l' \<in> set ?js" using that own by auto
    then have "int l = int l'" using n'(3) unfolding inj_on_def by blast
    then show ?thesis using both by simp
  next
    assume "k = nat i" "k' \<noteq> nat i"
    then show ?thesis using that new other net_invD(4) [OF inv] by blast
  next
    assume "k \<noteq> nat i" "k' = nat i"
    then show ?thesis using that new other net_invD(4) [OF inv] by blast
  next
    assume "k \<noteq> nat i" "k' \<noteq> nat i"
    then show ?thesis using that other net_invD(3) [OF inv] by blast
  qed
  have made: "ends net' (EndName e) \<and> connectedTo net' (EndName e) = Some (ServerName (int l))" if "link cfg' k l e" for k l e
  proof (cases "k = nat i")
    case False
    then have "link cfg k l e" using that other by simp
    then show ?thesis using n'(4) net_invD(4,5) [OF inv] by metis
  qed (use that new in blast)
  have on: "bothOn cfg' k l \<longleftrightarrow> bothOn cfg k l" "bothOn cfg k l \<Longrightarrow> k \<noteq> nat i" for k l
    using n'(1) off by (auto simp: bothOn_def)
  have en: "isEnabled net' (EndName e) \<longleftrightarrow> (\<exists>k l. link cfg' k l e \<and> bothOn cfg' k l)" for e
  proof -
    have old: "EndName e \<notin> ?nm ` set ?js" if "link cfg k l e" for k l using net_invD(4) [OF inv that] n'(2) by auto
    have "isEnabled net' (EndName e) \<longleftrightarrow> (\<exists>k l. link cfg k l e \<and> bothOn cfg k l)"
      using n'(5) net_invD(6) [OF inv, of e] old by blast
    then show ?thesis using on other by blast
  qed
  have shape: "es = [] \<or> length es = nat (hN cfg)" if "es \<in> set (hEndnames ?c1)" for es
  proof -
    from that obtain k where k: "k < nat (hN cfg)" "es = hEndnames ?c1 ! k" using len by (auto simp: in_set_conv_nth)
    show ?thesis
    proof (cases "k = nat i")
      case False
      then have "es = hEndnames cfg ! k" using k by simp
      then have "es \<in> set (hEndnames cfg)" using k(1) len by simp
      then show ?thesis using inv by (auto simp: net_inv_def)
    qed (use k full in simp)
  qed
  have rest: "hN cfg' = hN cfg" "hConnected cfg' = hConnected cfg" "hEndnames cfg' = hEndnames ?c1" "hNet cfg' = net'" using n'(1) by simp_all
  show ?thesis unfolding net_inv_def rest
  proof (intro conjI allI ballI impI)
    show "length (hConnected cfg) = nat (hN cfg)" "length (hEndnames ?c1) = nat (hN cfg)" using net_invD(1,2) [OF inv] by simp_all
  qed (use shape uniq made en in blast)+
qed

lemma restoreSaved_links: "restoreSaved decode i cfg = Inr (cfg', ps) \<Longrightarrow> sameLinks cfg cfg'"
  by (auto simp: restoreSaved_def ingestSnap_def rbind_eq_Inr Let_def sameLinks_def split: if_splits option.splits)

lemma sameLinks_trans: "sameLinks a b \<Longrightarrow> sameLinks b c \<Longrightarrow> sameLinks a c"
  by (simp add: sameLinks_def)

lemma net_inv_start1:
  assumes inv: "net_inv cfg" and s: "start1 decode svc names now rnd i cfg = Inr (Some cfg')"
  shows "net_inv cfg'"
proof -
  from s obtain cfg1 cfg2 la cfg3 ps where c: "crash1 i cfg = Inr cfg1"
    "makeEnds i (cfg1\<lparr>hEndnames := (hEndnames cfg1)[nat i := take (nat (hN cfg1)) names]\<rparr>) = Inr cfg2"
    "restoreSaved decode i (cfg2\<lparr>hLastApplied := la\<rparr>) = Inr (cfg3, ps)" "sameLinks cfg3 cfg'"
    by (auto simp: start1_def rbind_eq_Inr Let_def sameLinks_def AddServer_def dest!: go_upd_Inr split: option.splits)
  note crash = crash1_links [OF inv c(1)]
  have "net_inv cfg2" by (rule net_inv_makeEnds [OF crash c(2)])
  moreover have "sameLinks cfg2 cfg'"
    using sameLinks_trans [OF _ sameLinks_trans [OF restoreSaved_links [OF c(3)] c(4)], of cfg2] by (simp add: sameLinks_def)
  ultimately show ?thesis by (rule net_inv_cong)
qed

lemma net_inv_hexec: "net_inv cfg \<Longrightarrow> hexec decode svc op cfg = Inr (Some cfg') \<Longrightarrow> net_inv cfg'"
proof (cases op)
  case (HUnreliable b)
  then show "net_inv cfg \<Longrightarrow> hexec decode svc op cfg = Inr (Some cfg') \<Longrightarrow> net_inv cfg'"
    by (auto simp: setunreliable_def Reliable_def sameLinks_def elim!: net_inv_cong)
next
  case (HReordering b)
  then show "net_inv cfg \<Longrightarrow> hexec decode svc op cfg = Inr (Some cfg') \<Longrightarrow> net_inv cfg'"
    by (auto simp: setlongreordering_def LongReordering_def sameLinks_def elim!: net_inv_cong)
qed (auto simp: rbind_eq_Inr intro: net_inv_connect net_inv_disconnect crash1_links net_inv_start1)

lemma net_inv_empty: "net_inv (emptyConfig n)"
  by (auto simp: net_inv_def emptyConfig_def link_def MakeNetwork_def isEnabled_def)

interpretation harness: transition_system "\<lambda>cfg. \<exists>n. cfg = emptyConfig n" "\<lambda>cfg cfg'. \<exists>op. hexec decode svc op cfg = Inr (Some cfg')" net_inv
  for decode :: "bytes \<Rightarrow> (int \<times> 'c option list) option" and svc :: "'c Raft \<Rightarrow> 'st service"
  by unfold_locales (auto intro: net_inv_empty net_inv_hexec)

lemma hrun_reach:
  "hrun decode svc ops cfg = Inr (Some cfg') \<Longrightarrow> reach (\<lambda>cfg. \<exists>n. cfg = emptyConfig n) (\<lambda>cfg cfg'. \<exists>op. hexec decode svc op cfg = Inr (Some cfg')) cfg \<Longrightarrow>
    reach (\<lambda>cfg. \<exists>n. cfg = emptyConfig n) (\<lambda>cfg cfg'. \<exists>op. hexec decode svc op cfg = Inr (Some cfg')) cfg'"
proof (induction ops arbitrary: cfg)
  case (Cons op ops)
  then obtain c where "hexec decode svc op cfg = Inr (Some c)" "hrun decode svc ops c = Inr (Some cfg')"
    by (auto simp: rbind_eq_Inr split: option.splits)
  with Cons show ?case by (blast intro: reach_step)
qed simp

section \<open>The property\<close>

lemma Call_disabled:
  assumes "\<not> isEnabled rn e"
  shows "\<exists>rn'. Call rn e meth args d ws st = Inr (Some (rn', None, st))"
proof -
  have "\<not> isEnabled (acceptReq rn req) e" for req using assms by (simp add: isEnabled_def acceptReq_def)
  then show ?thesis by (simp add: Call_def processReq_def readEndnameInfo_def failedReply_def Let_def)
qed

text \<open>
  C13: only connected servers can talk. Whatever servers the harness has started, crashed, connected
  and disconnected, an end point is enabled exactly if it is a present end point from one
  connected server to another, and it leads to the server it was made for. Through any other
  name -- of a disconnected server, or of an instance that was replaced by a restart -- a call
  fails without reaching a handler.
\<close>

theorem harness_isolates:
  assumes "hrun decode svc ops (emptyConfig n) = Inr (Some cfg)"
  shows "(isEnabled (hNet cfg) (EndName e) \<longleftrightarrow> (\<exists>i j. link cfg i j e \<and> bothOn cfg i j)) \<and>
    (\<forall>i j. link cfg i j e \<longrightarrow> connectedTo (hNet cfg) (EndName e) = Some (ServerName (int j))) \<and>
    ((\<exists>i j. link cfg i j e \<and> bothOn cfg i j) \<or> (\<exists>rn. Call (hNet cfg) (EndName e) meth args d ws st = Inr (Some (rn, None, st))))"
proof -
  have "net_inv cfg" by (rule harness.inv_reach, rule hrun_reach [OF assms], rule reach_init) blast
  from net_invD(5,6) [OF this] show ?thesis using Call_disabled [of "hNet cfg" "EndName e"] by metis
qed

text \<open>Two servers, of which the second is restarted and left unconnected.\<close>

definition twoServers :: "harnessOp list" where
  "twoServers = [HStart [''aa'', ''ab''] 0 0 0, HStart [''ba'', ''bb''] 0 0 1, HConnect 0, HConnect 1, HStart [''ca'', ''cb''] 5 0 1]"

theorem harness_isolates_witness:
  "\<exists>cfg. hrun (\<lambda>b. None) (\<lambda>rf :: nat Raft. MakeService ''Raft'' [] :: unit service) twoServers (emptyConfig 2) = Inr (Some cfg) \<and>
     isEnabled (hNet cfg) (EndName ''aa'') \<and> \<not> isEnabled (hNet cfg) (EndName ''ab'') \<and>
     \<not> isEnabled (hNet cfg) (EndName ''ba'') \<and> \<not> isEnabled (hNet cfg) (EndName ''ca'')"
proof -
  have "case hrun (\<lambda>b. None) (\<lambda>rf :: nat Raft. MakeService ''Raft'' [] :: unit service) twoServers (emptyConfig 2) of
      Inl e \<Rightarrow> False | Inr None \<Rightarrow> False
    | Inr (Some cfg) \<Rightarrow> hEndnames cfg = [[''aa'', ''ab''], [''ca'', ''cb'']] \<and> hConnected cfg = [True, False]"
    by code_simp
  then obtain cfg where c: "hrun (\<lambda>b. None) (\<lambda>rf :: nat Raft. MakeService ''Raft'' [] :: unit service) twoServers (emptyConfig 2) = Inr (Some cfg)"
    "hEndnames cfg = [[''aa'', ''ab''], [''ca'', ''cb'']]" "hConnected cfg = [True, False]"
    by (auto split: sum.splits option.splits)
  have en: "isEnabled (hNet cfg) (EndName e) \<longleftrightarrow> (\<exists>i j. link cfg i j e \<and> bothOn cfg i j)" for e
    using harness_isolates [OF c(1), of e "[]" "[]" undefined "[]" "()"] by blast
  have links: "link cfg i j e \<longleftrightarrow> (i, j, e) \<in> {(0, 0, ''aa''), (0, 1, ''ab''), (1, 0, ''ca''), (1, 1, ''cb'')}" for i j e
    by (auto simp: link_def c(2) less_Suc_eq)
  have on: "bothOn cfg 0 0" "\<not> bothOn cfg 0 1" "\<not> bothOn cfg 1 0" "\<not> bothOn cfg 1 1" by (simp_all add: bothOn_def c(3))
  have "isEnabled (hNet cfg) (EndName ''aa'')" "\<not> isEnabled (hNet cfg) (EndName ''ab'')"
    "\<not> isEnabled (hNet cfg) (EndName ''ba'')" "\<not> isEnabled (hNet cfg) (EndName ''ca'')"
    unfolding en links using on by auto
  with c(1) show ?thesis by blast
qed

end
