(* ===== verification/PorcupineList.thy ===== *)
theory PorcupineList
  imports Prelude
begin

text \<open>
  The event list of the linearizability checker (\<open>porcupine/checker.go\<close>): a doubly linked
  list from which the checker takes out a call and its return (\<open>lift\<close>) and puts them back
  in the opposite order (\<open>unlift\<close>). Nodes live in an explicit heap, a list indexed by
  addresses; a pointer is an optional address and following nil is an error.

  \<open>chain h L\<close> says that the nodes at the addresses \<open>L\<close> are linked in this order. Taking a
  pair out shortens the chain, and putting it back restores the whole heap.
\<close>

section \<open>Entries\<close>

text \<open>\<open>interface{}\<close>: nil or a value.\<close>

type_synonym 'v iface = "'v option"

datatype entryKind = callEntry | returnEntry

record 'v entry =
  ekind :: entryKind
  evalue :: "'v iface"
  eid :: nat
  etime :: int
  eclient :: int

section \<open>Nodes\<close>

record 'v node =
  nvalue :: "'v iface"
  nmatch :: "nat option"
  nid :: int
  nnext :: "nat option"
  nprev :: "nat option"

type_synonym 'v heap = "'v node list"

definition deref :: "'v heap \<Rightarrow> nat option \<Rightarrow> 'v node res" where
  "deref h p = (case p of None \<Rightarrow> Inl NilDereference | Some a \<Rightarrow> Inr (h ! a))"

definition setNext :: "'v heap \<Rightarrow> nat option \<Rightarrow> nat option \<Rightarrow> 'v heap res" where
  "setNext h p v = (case p of None \<Rightarrow> Inl NilDereference | Some a \<Rightarrow> Inr (h[a := (h ! a)\<lparr>nnext := v\<rparr>]))"

definition setPrev :: "'v heap \<Rightarrow> nat option \<Rightarrow> nat option \<Rightarrow> 'v heap res" where
  "setPrev h p v = (case p of None \<Rightarrow> Inl NilDereference | Some a \<Rightarrow> Inr (h[a := (h ! a)\<lparr>nprev := v\<rparr>]))"

definition insertBefore :: "'v heap \<Rightarrow> nat \<Rightarrow> nat option \<Rightarrow> 'v heap res" where
  "insertBefore h n mark =
    (if mark \<noteq> None then
       rbind (deref h mark) (\<lambda>mk.
       let beforeMark = nprev mk in
       rbind (setPrev h mark (Some n)) (\<lambda>h1.
       rbind (setNext h1 (Some n) mark) (\<lambda>h2.
       if beforeMark \<noteq> None then
         rbind (setPrev h2 (Some n) beforeMark) (\<lambda>h3. setNext h3 beforeMark (Some n))
       else Inr h2)))
     else Inr h)"

text \<open>\<open>length\<close>: follows the next pointers; \<open>None\<close> when the bound on the steps is reached first.\<close>

fun nodeLength :: "nat \<Rightarrow> 'v heap \<Rightarrow> nat option \<Rightarrow> nat option" where
  "nodeLength fuel h None = Some 0"
| "nodeLength 0 h (Some a) = None"
| "nodeLength (Suc fuel) h (Some a) = map_option Suc (nodeLength fuel h (nnext (h ! a)))"

text \<open>One round of the loop of \<open>makeLinkedEntries\<close>: heap, root and the map from ids to returns.\<close>

definition linkEntry :: "'v entry \<Rightarrow> 'v heap \<times> nat option \<times> (nat \<rightharpoonup> nat) \<Rightarrow>
    ('v heap \<times> nat option \<times> (nat \<rightharpoonup> nat)) res" where
  "linkEntry elem = (\<lambda>(h, root, mtch).
    let a = length h in
    if ekind elem = returnEntry then
      let h1 = h @ [\<lparr>nvalue = evalue elem, nmatch = None, nid = int (eid elem), nnext = None, nprev = None\<rparr>];
          mtch1 = mtch(eid elem \<mapsto> a) in
      rbind (insertBefore h1 a root) (\<lambda>h2. Inr (h2, Some a, mtch1))
    else
      let h1 = h @ [\<lparr>nvalue = evalue elem, nmatch = mtch (eid elem), nid = int (eid elem), nnext = None, nprev = None\<rparr>] in
      rbind (insertBefore h1 a root) (\<lambda>h2. Inr (h2, Some a, mtch)))"

definition makeLinkedEntries :: "'v entry list \<Rightarrow> ('v heap \<times> nat option) res" where
  "makeLinkedEntries entries =
    rbind (for_each (rev entries) linkEntry ([], None, Map.empty)) (\<lambda>(h, root, mtch). Inr (h, root))"

definition lift :: "'v heap \<Rightarrow> nat option \<Rightarrow> 'v heap res" where
  "lift h entry =
    rbind (deref h entry) (\<lambda>e.
    rbind (setNext h (nprev e) (nnext e)) (\<lambda>h1.
    rbind (setPrev h1 (nnext e) (nprev e)) (\<lambda>h2.
    rbind (deref h2 (nmatch e)) (\<lambda>m.
    rbind (setNext h2 (nprev m) (nnext m)) (\<lambda>h3.
    if nnext m \<noteq> None then setPrev h3 (nnext m) (nprev m) else Inr h3)))))"

definition unlift :: "'v heap \<Rightarrow> nat option \<Rightarrow> 'v heap res" where
  "unlift h entry =
    rbind (deref h entry) (\<lambda>e.
    rbind (deref h (nmatch e)) (\<lambda>m.
    rbind (setNext h (nprev m) (nmatch e)) (\<lambda>h1.
    rbind (if nnext m \<noteq> None then setPrev h1 (nnext m) (nmatch e) else Inr h1) (\<lambda>h2.
    rbind (setNext h2 (nprev e) entry) (\<lambda>h3.
    setPrev h3 (nnext e) entry)))))"

section \<open>Chains\<close>

fun seg :: "'v heap \<Rightarrow> nat list \<Rightarrow> bool" where
  "seg h (a # b # L) \<longleftrightarrow> nnext (h ! a) = Some b \<and> nprev (h ! b) = Some a \<and> seg h (b # L)"
| "seg h L \<longleftrightarrow> True"

definition chain :: "'v heap \<Rightarrow> nat list \<Rightarrow> bool" where
  "chain h L = (distinct L \<and> (\<forall>a \<in> set L. a < length h) \<and> seg h L \<and>
     (L \<noteq> [] \<longrightarrow> nnext (h ! last L) = None))"

text \<open>Taking one node out and putting it back.\<close>

definition unlink :: "'v heap \<Rightarrow> nat \<Rightarrow> 'v heap" where
  "unlink h x =
    (let h1 = (case nprev (h ! x) of None \<Rightarrow> h | Some p \<Rightarrow> h[p := (h ! p)\<lparr>nnext := nnext (h ! x)\<rparr>]) in
     case nnext (h ! x) of None \<Rightarrow> h1 | Some n \<Rightarrow> h1[n := (h1 ! n)\<lparr>nprev := nprev (h ! x)\<rparr>])"

definition relink :: "'v heap \<Rightarrow> nat \<Rightarrow> 'v heap" where
  "relink h x =
    (let h1 = (case nprev (h ! x) of None \<Rightarrow> h | Some p \<Rightarrow> h[p := (h ! p)\<lparr>nnext := Some x\<rparr>]) in
     case nnext (h ! x) of None \<Rightarrow> h1 | Some n \<Rightarrow> h1[n := (h1 ! n)\<lparr>nprev := Some x\<rparr>])"

lemma seg_append:
  "seg h (A @ a # b # B) \<longleftrightarrow> seg h (A @ [a]) \<and> nnext (h ! a) = Some b \<and> nprev (h ! b) = Some a \<and> seg h (b # B)"
  by (induction A rule: induct_list012) auto

lemma seg_Cons: "seg h (a # L) \<longleftrightarrow> (case L of [] \<Rightarrow> True | b # _ \<Rightarrow> nnext (h ! a) = Some b \<and> nprev (h ! b) = Some a \<and> seg h L)"
  by (cases L) auto

lemma seg_cong:
  assumes "\<And>a. a \<in> set (butlast L) \<Longrightarrow> nnext (h' ! a) = nnext (h ! a)"
    and "\<And>a. a \<in> set (tl L) \<Longrightarrow> nprev (h' ! a) = nprev (h ! a)"
  shows "seg h' L = seg h L"
  using assms by (induction L rule: induct_list012) auto

lemma in_tlD: "a \<in> set (tl L) \<Longrightarrow> a \<in> set L"
  by (cases L) auto

lemma chain_nth:
  assumes "chain h (A @ p # x # B)"
  shows "nprev (h ! x) = Some p" "nnext (h ! p) = Some x"
    "nnext (h ! x) = (case B of [] \<Rightarrow> None | n # _ \<Rightarrow> Some n)"
    "p < length h" "x < length h" "p \<noteq> x"
  using assms seg_append [of h A p x B] by (auto simp: chain_def seg_Cons split: list.splits)

lemma unlink_length [simp]: "length (unlink h x) = length h"
  by (simp add: unlink_def Let_def split: option.splits)

lemma unlink_last:
  assumes "chain h (A @ [p, x])"
  shows "unlink h x = h[p := (h ! p)\<lparr>nnext := None\<rparr>]"
  using chain_nth [of h A p x "[]"] assms by (simp add: unlink_def)

lemma unlink_mid:
  assumes "chain h (A @ p # x # n # B)"
  shows "unlink h x = h[p := (h ! p)\<lparr>nnext := Some n\<rparr>, n := (h ! n)\<lparr>nprev := Some p\<rparr>]"
proof -
  have "p \<noteq> n" using assms by (auto simp: chain_def)
  with chain_nth [OF assms] show ?thesis by (simp add: unlink_def)
qed

lemma relink_unlink:
  assumes "chain h (A @ p # x # B)"
  shows "relink (unlink h x) x = h"
proof (cases B)
  case Nil
  with assms have u: "unlink h x = h[p := (h ! p)\<lparr>nnext := None\<rparr>]" by (simp add: unlink_last)
  note c = chain_nth [OF assms]
  have "relink (unlink h x) x = h[p := (h ! p)\<lparr>nnext := Some x\<rparr>]" using c Nil by (simp add: relink_def u)
  also have "\<dots> = h" using c by (intro nth_equalityI) (auto simp: nth_list_update)
  finally show ?thesis .
next
  case (Cons n B')
  with assms have u: "unlink h x = h[p := (h ! p)\<lparr>nnext := Some n\<rparr>, n := (h ! n)\<lparr>nprev := Some p\<rparr>]"
    by (simp add: unlink_mid)
  note c = chain_nth [OF assms]
  have n: "n \<noteq> x" "p \<noteq> n" "n < length h" "nprev (h ! n) = Some x"
    using assms Cons seg_append [of h "A @ [p]" x n B'] by (auto simp: chain_def)
  have "relink (unlink h x) x = h[p := (h ! p)\<lparr>nnext := Some n\<rparr>, n := (h ! n)\<lparr>nprev := Some p\<rparr>,
      p := (h ! p)\<lparr>nnext := Some x\<rparr>, n := (h ! n)\<lparr>nprev := Some x\<rparr>]"
    using c n Cons by (simp add: relink_def u)
  also have "\<dots> = h"
    using c n by (intro nth_equalityI) (auto simp: nth_list_update)
  finally show ?thesis .
qed

lemma unlink_chain:
  assumes "chain h (A @ p # x # B)"
  shows "chain (unlink h x) (A @ p # B)"
proof (cases B)
  case Nil
  with assms have u: "unlink h x = h[p := (h ! p)\<lparr>nnext := None\<rparr>]" by (simp add: unlink_last)
  have "seg h (A @ [p])" using assms Nil seg_append [of h A p x "[]"] by (simp add: chain_def)
  moreover have "p \<notin> set A" "p < length h" using assms by (auto simp: chain_def)
  ultimately have "seg (unlink h x) (A @ [p])"
    unfolding u by (subst seg_cong [where h = h]) (auto simp: nth_list_update butlast_append)
  then show ?thesis using assms Nil by (auto simp: chain_def u)
next
  case (Cons n B')
  with assms have u: "unlink h x = h[p := (h ! p)\<lparr>nnext := Some n\<rparr>, n := (h ! n)\<lparr>nprev := Some p\<rparr>]"
    by (simp add: unlink_mid)
  have d: "distinct (A @ p # x # n # B')" "\<forall>a \<in> set (A @ p # x # n # B'). a < length h"
    using assms Cons by (auto simp: chain_def)
  have "seg h (A @ [p])" "seg h (n # B')"
    using assms Cons seg_append [of h A p x "n # B'"] by (auto simp: chain_def)
  moreover have "seg (unlink h x) (A @ [p]) = seg h (A @ [p])"
    unfolding u using d by (intro seg_cong) (auto simp: nth_list_update dest!: in_tlD)
  moreover have "seg (unlink h x) (n # B') = seg h (n # B')"
    unfolding u using d by (intro seg_cong) (auto simp: nth_list_update split: if_splits dest: in_set_butlastD)
  moreover have "nnext (unlink h x ! p) = Some n" "nprev (unlink h x ! n) = Some p"
    unfolding u using d by (auto simp: nth_list_update)
  ultimately have "seg (unlink h x) (A @ p # n # B')" by (simp add: seg_append)
  moreover have "nnext (unlink h x ! last (n # B')) = nnext (h ! last (n # B'))"
    unfolding u using d by (auto simp: nth_list_update)
  ultimately show ?thesis using assms Cons d by (auto simp: chain_def)
qed

section \<open>Lifting a call with its return\<close>

text \<open>What lifting does not touch.\<close>

definition same_nodes :: "'v heap \<Rightarrow> 'v heap \<Rightarrow> bool" where
  "same_nodes h h' = (length h' = length h \<and> (\<forall>a < length h. nvalue (h' ! a) = nvalue (h ! a) \<and>
     nmatch (h' ! a) = nmatch (h ! a) \<and> nid (h' ! a) = nid (h ! a)))"

lemma same_nodes_refl [simp]: "same_nodes h h"
  by (simp add: same_nodes_def)

lemma same_nodes_trans: "same_nodes h h' \<Longrightarrow> same_nodes h' h'' \<Longrightarrow> same_nodes h h''"
  by (simp add: same_nodes_def)

lemma same_nodes_upd:
  "same_nodes h (h[a := (h ! a)\<lparr>nnext := v\<rparr>])" "same_nodes h (h[a := (h ! a)\<lparr>nprev := v\<rparr>])"
  by (cases "a < length h"; auto simp: same_nodes_def nth_list_update list_update_beyond)+

lemma same_nodes_unlink: "same_nodes h (unlink h x)"
  unfolding unlink_def Let_def
  by (auto split: option.splits intro: same_nodes_upd same_nodes_trans)

text \<open>Unlinking a node changes no pointer of that node.\<close>

lemma unlink_self:
  assumes "chain h (A @ p # x # B)"
  shows "unlink h x ! x = h ! x"
proof (cases B)
  case Nil
  with assms chain_nth [OF assms] show ?thesis by (simp add: unlink_last)
next
  case (Cons n B')
  moreover have "n \<noteq> x" using assms Cons by (auto simp: chain_def)
  ultimately show ?thesis using assms chain_nth [OF assms] by (simp add: unlink_mid)
qed

text \<open>The node that lifting a call and its return leaves.\<close>

definition lifted :: "'v heap \<Rightarrow> nat \<Rightarrow> 'v heap" where
  "lifted h a = unlink (unlink h a) (the (nmatch (h ! a)))"

lemma split_two:
  assumes "chain h (A @ p # a # M @ m # R)"
  shows "\<exists>A' p'. A @ p # M = A' @ [p'] \<and> chain (unlink h a) (A' @ p' # m # R)"
proof -
  have "chain (unlink h a) (A @ p # M @ m # R)" using unlink_chain [OF assms] by simp
  moreover obtain A' p' where "A @ p # M = A' @ [p']" by (metis append_is_Nil_conv list.distinct(1) rev_exhaust)
  moreover from this have "A @ p # M @ m # R = A' @ p' # m # R" by (metis append.assoc append_Cons append_Nil)
  ultimately show ?thesis by metis
qed

lemma lift_ok:
  assumes c: "chain h (A @ p # a # M @ m # R)" and m: "nmatch (h ! a) = Some m"
  shows "lift h (Some a) = Inr (lifted h a)" "chain (lifted h a) (A @ p # M @ R)"
    "unlift (lifted h a) (Some a) = Inr h" "same_nodes h (lifted h a)"
proof -
  let ?u = "unlink h a"
  obtain A' p' where A': "A @ p # M = A' @ [p']" and c': "chain ?u (A' @ p' # m # R)"
    using split_two [OF c] by blast
  have lift2: "lifted h a = unlink ?u m" by (simp add: lifted_def m)
  note n = chain_nth [OF c] and n' = chain_nth [OF c']
  obtain n1 where n1: "nnext (h ! a) = Some n1" using n(3) by (cases M) auto
  have u: "?u = h[p := (h ! p)\<lparr>nnext := Some n1\<rparr>, n1 := (h[p := (h ! p)\<lparr>nnext := Some n1\<rparr>] ! n1)\<lparr>nprev := Some p\<rparr>]"
    using n(1) n1 by (simp add: unlink_def Let_def)
  show "lift h (Some a) = Inr (lifted h a)"
    unfolding lift2 unlink_def [of ?u m] lift_def
    using n(1) n1 n'(1) m u by (auto simp: deref_def setNext_def setPrev_def Let_def split: option.splits)
  have "chain (lifted h a) (A' @ p' # R)" unfolding lift2 by (rule unlink_chain [OF c'])
  moreover have "A' @ p' # R = A @ p # M @ R" using A' by (metis append.assoc append_Cons append_Nil)
  ultimately show "chain (lifted h a) (A @ p # M @ R)" by simp
  show "same_nodes h (lifted h a)"
    unfolding lifted_def by (rule same_nodes_trans [OF same_nodes_unlink same_nodes_unlink])
  have self_m: "lifted h a ! m = ?u ! m" unfolding lift2 by (rule unlink_self [OF c'])
  have undo: "relink (lifted h a) m = ?u" unfolding lift2 by (rule relink_unlink [OF c'])
  have self_a: "?u ! a = h ! a" by (rule unlink_self [OF c])
  have a_kept: "nprev (lifted h a ! a) = nprev (h ! a)" "nnext (lifted h a ! a) = nnext (h ! a)"
    "nmatch (lifted h a ! a) = Some m"
  proof -
    have "a \<noteq> m" "a \<notin> set A'" "a \<noteq> p'" "a \<notin> set R" using c A' by (auto simp: chain_def dest!: arg_cong [of _ _ set])
    then have "lifted h a ! a = ?u ! a"
      unfolding lift2 unlink_def [of ?u m] using n'(1,3)
      by (auto simp: Let_def nth_list_update split: option.splits list.splits)
    then show "nprev (lifted h a ! a) = nprev (h ! a)" "nnext (lifted h a ! a) = nnext (h ! a)"
      "nmatch (lifted h a ! a) = Some m" using self_a m by auto
  qed
  have "unlift (lifted h a) (Some a) =
      (let h2 = relink (lifted h a) m in
       rbind (setNext h2 (nprev (h ! a)) (Some a)) (\<lambda>h3. setPrev h3 (nnext (h ! a)) (Some a)))"
    unfolding unlift_def relink_def [of "lifted h a" m]
    using n'(1) a_kept self_m
    by (auto simp: deref_def setNext_def setPrev_def Let_def split: option.splits)
  also have "\<dots> = Inr (relink ?u a)"
    unfolding undo relink_def [of ?u a] using n(1) n1 self_a by (simp add: setNext_def setPrev_def Let_def)
  also have "relink ?u a = h" by (rule relink_unlink [OF c])
  finally show "unlift (lifted h a) (Some a) = Inr h" .
qed

section \<open>Building the list\<close>

text \<open>The last return of an id among the first \<open>k\<close> entries handled.\<close>

definition retBefore :: "'v entry list \<Rightarrow> nat \<Rightarrow> nat \<Rightarrow> nat option" where
  "retBefore rs k i = find (\<lambda>b. ekind (rs ! b) = returnEntry \<and> eid (rs ! b) = i) (rev [0..<k])"

definition linkInv :: "'v entry list \<Rightarrow> 'v heap \<times> nat option \<times> (nat \<rightharpoonup> nat) \<Rightarrow> bool" where
  "linkInv rs = (\<lambda>(h, root, mtch).
    length h = length rs \<and> root = (if rs = [] then None else Some (length rs - 1)) \<and>
    (\<forall>a < length rs. nvalue (h ! a) = evalue (rs ! a) \<and> nid (h ! a) = int (eid (rs ! a)) \<and>
       nnext (h ! a) = (if a = 0 then None else Some (a - 1)) \<and>
       nprev (h ! a) = (if Suc a < length rs then Some (Suc a) else None) \<and>
       nmatch (h ! a) = (if ekind (rs ! a) = returnEntry then None else retBefore rs a (eid (rs ! a)))) \<and>
    (\<forall>i. mtch i = retBefore rs (length rs) i))"

lemma retBefore_append: "k \<le> length rs \<Longrightarrow> retBefore (rs @ [e]) k i = retBefore rs k i"
  unfolding retBefore_def by (rule find_cong) (auto simp: nth_append)

lemma retBefore_Suc:
  "retBefore (rs @ [e]) (Suc (length rs)) i =
     (if ekind e = returnEntry \<and> eid e = i then Some (length rs) else retBefore rs (length rs) i)"
  using retBefore_append [of "length rs" rs e i] by (simp add: retBefore_def)

text \<open>The new node goes in front of the old root.\<close>

definition frontHeap :: "'v heap \<Rightarrow> 'v node \<Rightarrow> 'v heap" where
  "frontHeap h nd = (if h = [] then [nd]
     else h[length h - 1 := (h ! (length h - 1))\<lparr>nprev := Some (length h)\<rparr>] @ [nd\<lparr>nnext := Some (length h - 1)\<rparr>])"

lemma insertBefore_front:
  assumes "h \<noteq> [] \<Longrightarrow> nprev (h ! (length h - 1)) = None"
  shows "insertBefore (h @ [nd]) (length h) (if h = [] then None else Some (length h - 1)) = Inr (frontHeap h nd)"
proof (cases "h = []")
  case False
  then have "length h - 1 < length h" by simp
  with False assms show ?thesis
    by (simp add: insertBefore_def deref_def setPrev_def setNext_def frontHeap_def nth_append list_update_append)
qed (simp add: insertBefore_def frontHeap_def)

lemma linkInv_step:
  assumes inv: "linkInv rs (h, root, mtch)"
  shows "\<exists>st. linkEntry e (h, root, mtch) = Inr st \<and> linkInv (rs @ [e]) st"
proof -
  have len: "length h = length rs" and root: "root = (if h = [] then None else Some (length h - 1))"
    and m: "\<And>i. mtch i = retBefore rs (length rs) i"
    using inv by (auto simp: linkInv_def)
  have last: "h \<noteq> [] \<Longrightarrow> nprev (h ! (length h - 1)) = None"
  proof -
    assume ne: "h \<noteq> []"
    then have "0 < length rs" using len by (simp flip: length_greater_0_conv)
    then have "length h - 1 < length rs" "\<not> Suc (length h - 1) < length rs" using len by linarith+
    with inv show ?thesis unfolding linkInv_def prod.case by metis
  qed
  let ?mt = "if ekind e = returnEntry then None else mtch (eid e)"
  let ?nd = "\<lparr>nvalue = evalue e, nmatch = ?mt, nid = int (eid e), nnext = None, nprev = None\<rparr>"
  let ?mtch = "if ekind e = returnEntry then mtch(eid e \<mapsto> length h) else mtch"
  have step: "linkEntry e (h, root, mtch) = Inr (frontHeap h ?nd, Some (length h), ?mtch)"
    using insertBefore_front [OF last, of ?nd] unfolding root [symmetric]
    by (cases "ekind e = returnEntry") (simp_all add: linkEntry_def Let_def)
  have lenf: "length (frontHeap h ?nd) = Suc (length rs)" by (simp add: frontHeap_def len) (use len in auto)
  have nth: "frontHeap h ?nd ! a = (if a = length h then (if h = [] then ?nd else ?nd\<lparr>nnext := Some (length h - 1)\<rparr>)
      else if Suc a = length h then (h ! a)\<lparr>nprev := Some (length h)\<rparr> else h ! a)" if "a < Suc (length rs)" for a
    using that len by (auto simp: frontHeap_def nth_append nth_list_update)
  have "linkInv (rs @ [e]) (frontHeap h ?nd, Some (length h), ?mtch)"
    unfolding linkInv_def prod.case
  proof (intro conjI allI impI)
    fix a assume "a < length (rs @ [e])"
    then consider "a < length rs" | "a = length rs" by fastforce
    then show "nvalue (frontHeap h ?nd ! a) = evalue ((rs @ [e]) ! a)"
      "nid (frontHeap h ?nd ! a) = int (eid ((rs @ [e]) ! a))"
      "nnext (frontHeap h ?nd ! a) = (if a = 0 then None else Some (a - 1))"
      "nprev (frontHeap h ?nd ! a) = (if Suc a < length (rs @ [e]) then Some (Suc a) else None)"
      "nmatch (frontHeap h ?nd ! a) = (if ekind ((rs @ [e]) ! a) = returnEntry then None
         else retBefore (rs @ [e]) a (eid ((rs @ [e]) ! a)))"
      using inv len m by (cases; auto simp: nth linkInv_def nth_append retBefore_append)+
  next
    fix i show "?mtch i = retBefore (rs @ [e]) (length (rs @ [e])) i"
      using m len by (simp add: retBefore_Suc)
  qed (use len lenf in auto)
  with step show ?thesis by blast
qed

lemma for_each_linkInv:
  assumes "linkInv rs0 st"
  shows "\<exists>st'. for_each rs linkEntry st = Inr st' \<and> linkInv (rs0 @ rs) st'"
  using assms
proof (induction rs arbitrary: rs0 st)
  case (Cons e rs)
  obtain h root mtch where st: "st = (h, root, mtch)" by (cases st)
  from linkInv_step [of rs0 h root mtch e] Cons.prems obtain st1
    where "linkEntry e st = Inr st1" "linkInv (rs0 @ [e]) st1" by (auto simp: st)
  with Cons.IH [of "rs0 @ [e]" st1] show ?case by auto
qed simp

lemma makeLinkedEntries_ok:
  obtains h where "makeLinkedEntries es = Inr (h, if es = [] then None else Some (length es - 1))"
    "length h = length es"
    "\<And>a. a < length es \<Longrightarrow> nvalue (h ! a) = evalue (rev es ! a) \<and> nid (h ! a) = int (eid (rev es ! a)) \<and>
       nnext (h ! a) = (if a = 0 then None else Some (a - 1)) \<and>
       nprev (h ! a) = (if Suc a < length es then Some (Suc a) else None) \<and>
       nmatch (h ! a) = (if ekind (rev es ! a) = returnEntry then None else retBefore (rev es) a (eid (rev es ! a)))"
proof -
  have "linkInv [] ([], None, Map.empty)" by (simp add: linkInv_def retBefore_def)
  from for_each_linkInv [OF this, of "rev es"] obtain h root mtch where
    f: "for_each (rev es) linkEntry ([], None, Map.empty) = Inr (h, root, mtch)" "linkInv (rev es) (h, root, mtch)"
    by auto
  then have "makeLinkedEntries es = Inr (h, if es = [] then None else Some (length es - 1))"
    by (auto simp: makeLinkedEntries_def linkInv_def)
  with f(2) show thesis by (intro that [of h]) (auto simp: linkInv_def)
qed

end
