(* ===== verification/Bitset.thy ===== *)
theory Bitset
  imports Prelude "HOL-Library.Word"
begin

text \<open>
  The bit sets of the linearizability checker (\<open>porcupine/bitset.go\<close>): a slice of 64-bit
  words. The locale \<open>set_impl\<close> states what the checker relies on -- operations on positions
  below the capacity act as on the set of positions, equality is equality of the sets, and
  equal sets have equal hashes -- and the words are shown to provide it.
\<close>

unbundle bit_operations_syntax

type_synonym bitset = "64 word list"

section \<open>Operations\<close>

definition newBitset :: "nat \<Rightarrow> bitset" where
  "newBitset bits =
    (let extra = (if bits mod 64 \<noteq> 0 then 1 else 0);
         chunks = bits div 64 + extra in replicate chunks 0)"

definition clone :: "bitset \<Rightarrow> bitset" where
  "clone b = take (length b) b"

definition bitsetIndex :: "nat \<Rightarrow> nat \<times> nat" where
  "bitsetIndex pos = (pos div 64, pos mod 64)"

text \<open>\<open>1 << minor\<close> at 64 bits.\<close>

definition shl1 :: "nat \<Rightarrow> 64 word" where
  "shl1 minor = push_bit minor 1"

definition bitset_set :: "bitset \<Rightarrow> nat \<Rightarrow> bitset res" where
  "bitset_set b pos =
    (let (major, minor) = bitsetIndex pos in
     rbind (go_nth b (int major)) (\<lambda>w. go_upd b (int major) (w OR shl1 minor)))"

definition bitset_clear :: "bitset \<Rightarrow> nat \<Rightarrow> bitset res" where
  "bitset_clear b pos =
    (let (major, minor) = bitsetIndex pos in
     rbind (go_nth b (int major)) (\<lambda>w. go_upd b (int major) (w AND NOT (shl1 minor))))"

definition bitset_get :: "bitset \<Rightarrow> nat \<Rightarrow> bool res" where
  "bitset_get b pos =
    (let (major, minor) = bitsetIndex pos in
     rbind (go_nth b (int major)) (\<lambda>w. Inr (w AND shl1 minor \<noteq> 0)))"

text \<open>\<open>bits.OnesCount64\<close>.\<close>

definition OnesCount64 :: "64 word \<Rightarrow> nat" where
  "OnesCount64 w = length (filter (bit w) [0..<64])"

definition popcnt :: "bitset \<Rightarrow> nat" where
  "popcnt b = fold (\<lambda>v total. total + OnesCount64 v) b 0"

definition bitset_hash :: "bitset \<Rightarrow> 64 word" where
  "bitset_hash b = fold (\<lambda>v h. h XOR v) b (of_nat (popcnt b))"

fun equalsFrom :: "bitset \<Rightarrow> bitset \<Rightarrow> bool" where
  "equalsFrom (v # b) (w # b2) = (if v \<noteq> w then False else equalsFrom b b2)"
| "equalsFrom b b2 = True"

definition bitset_equals :: "bitset \<Rightarrow> bitset \<Rightarrow> bool" where
  "bitset_equals b b2 = (if length b \<noteq> length b2 then False else equalsFrom b b2)"

section \<open>The interface\<close>

text \<open>The set a bit set stands for.\<close>

definition bits :: "bitset \<Rightarrow> nat set" where
  "bits b = {i. i < 64 * length b \<and> bit (b ! (i div 64)) (i mod 64)}"

definition capacity :: "bitset \<Rightarrow> nat" where
  "capacity b = 64 * length b"

locale set_impl =
  fixes mk :: "nat \<Rightarrow> 'b"
    and put :: "'b \<Rightarrow> nat \<Rightarrow> 'b res"
    and del :: "'b \<Rightarrow> nat \<Rightarrow> 'b res"
    and has :: "'b \<Rightarrow> nat \<Rightarrow> bool res"
    and eq :: "'b \<Rightarrow> 'b \<Rightarrow> bool"
    and hsh :: "'b \<Rightarrow> 'h"
    and elems :: "'b \<Rightarrow> nat set"
    and cap :: "'b \<Rightarrow> nat"
  assumes mk_elems: "elems (mk n) = {}"
    and mk_cap: "n \<le> cap (mk n)"
    and put_ok: "i < cap b \<Longrightarrow> \<exists>b'. put b i = Inr b' \<and> elems b' = insert i (elems b) \<and> cap b' = cap b"
    and del_ok: "i < cap b \<Longrightarrow> \<exists>b'. del b i = Inr b' \<and> elems b' = elems b - {i} \<and> cap b' = cap b"
    and has_ok: "i < cap b \<Longrightarrow> has b i = Inr (i \<in> elems b)"
    and eq_iff: "cap b = cap b' \<Longrightarrow> eq b b' \<longleftrightarrow> elems b = elems b'"
    and eq_hash: "eq b b' \<Longrightarrow> hsh b = hsh b'"
begin

lemma put_del_id:
  assumes "i < cap b" "i \<notin> elems b" "put b i = Inr b'"
  obtains b'' where "del b' i = Inr b''" "elems b'' = elems b" "cap b'' = cap b"
proof -
  from put_ok [OF assms(1)] assms(3) have b': "elems b' = insert i (elems b)" "cap b' = cap b" by auto
  with assms(1) del_ok [of i b'] obtain b'' where "del b' i = Inr b''" "elems b'' = elems b' - {i}" "cap b'' = cap b"
    by auto
  with b' assms(2) show thesis by (intro that [of b'']) auto
qed

text \<open>
  A cache of buckets indexed by the hash: looking into the bucket of the key finds what a
  search through all buckets would find, when every entry is in the bucket of its hash.
\<close>

definition bucketed :: "('h \<Rightarrow> ('b \<times> 's) list) \<Rightarrow> bool" where
  "bucketed c = (\<forall>h. \<forall>(b, s) \<in> set (c h). hsh b = h)"

definition lookup :: "('s \<Rightarrow> 's \<Rightarrow> bool) \<Rightarrow> ('h \<Rightarrow> ('b \<times> 's) list) \<Rightarrow> 'b \<Rightarrow> 's \<Rightarrow> bool" where
  "lookup same c b s = (\<exists>(b', s') \<in> set (c (hsh b)). eq b b' \<and> same s s')"

lemma lookup_any_bucket:
  assumes "bucketed c"
  shows "lookup same c b s \<longleftrightarrow> (\<exists>h. \<exists>(b', s') \<in> set (c h). eq b b' \<and> same s s')"
  using assms eq_hash unfolding lookup_def bucketed_def by fastforce

end

section \<open>The words provide the interface\<close>

lemma length_newBitset: "n \<le> 64 * length (newBitset n)"
proof -
  have "n = 64 * (n div 64) + n mod 64" by simp
  moreover have "n mod 64 < 64" by simp
  ultimately show ?thesis by (auto simp: newBitset_def Let_def)
qed

lemma bitset_set_eq:
  "i < capacity b \<Longrightarrow> bitset_set b i = Inr (b[i div 64 := b ! (i div 64) OR shl1 (i mod 64)])"
  by (simp add: bitset_set_def bitsetIndex_def capacity_def go_nth_def go_upd_def less_mult_imp_div_less mult.commute)

lemma bitset_clear_eq:
  "i < capacity b \<Longrightarrow> bitset_clear b i = Inr (b[i div 64 := b ! (i div 64) AND NOT (shl1 (i mod 64))])"
  by (simp add: bitset_clear_def bitsetIndex_def capacity_def go_nth_def go_upd_def less_mult_imp_div_less mult.commute)

lemma same_bit: "(i :: nat) div 64 = j div 64 \<Longrightarrow> i mod 64 = j mod 64 \<Longrightarrow> i = j"
  by (metis div_mult_mod_eq)

lemma bits_update:
  assumes "i < capacity b"
    and "\<And>k. k < 64 \<Longrightarrow> bit w k \<longleftrightarrow> (if k = i mod 64 then v else bit (b ! (i div 64)) k)"
  shows "bits (b[i div 64 := w]) = (if v then insert i (bits b) else bits b - {i})"
proof -
  have mem: "j \<in> bits (b[i div 64 := w]) \<longleftrightarrow> (if j = i then v else j \<in> bits b)" for j
  proof (cases "j div 64 = i div 64")
    case True
    then have "j = i \<longleftrightarrow> j mod 64 = i mod 64" using same_bit [of j i] by metis
    moreover have d: "i div 64 < length b"
      using assms(1) by (simp add: capacity_def less_mult_imp_div_less mult.commute)
    then have "j < 64 * length b" using True by linarith
    moreover have "b[i div 64 := w] ! (j div 64) = w" using d True by simp
    ultimately show ?thesis using assms(2) [of "j mod 64"] True by (simp add: bits_def)
  next
    case False
    then show ?thesis by (auto simp: bits_def)
  qed
  show ?thesis by (rule set_eqI, cases v) (simp_all add: mem)
qed

lemma bit_one_shift: "k < 64 \<Longrightarrow> bit (shl1 m) k \<longleftrightarrow> k = m"
  unfolding shl1_def bit_push_bit_iff bit_1_iff by auto

lemma bits_set:
  assumes "i < capacity b"
  shows "bits (b[i div 64 := b ! (i div 64) OR shl1 (i mod 64)]) = insert i (bits b)"
  using bits_update [OF assms, of "b ! (i div 64) OR shl1 (i mod 64)" True]
  by (simp add: bit_or_iff bit_one_shift)

lemma bits_clear:
  assumes "i < capacity b"
  shows "bits (b[i div 64 := b ! (i div 64) AND NOT (shl1 (i mod 64))]) = bits b - {i}"
  using bits_update [OF assms, of "b ! (i div 64) AND NOT (shl1 (i mod 64))" False]
  by (simp add: bit_and_iff bit_not_iff bit_one_shift)

lemma bitset_get_eq:
  assumes "i < capacity b"
  shows "bitset_get b i = Inr (i \<in> bits b)"
proof -
  let ?w = "b ! (i div 64)" and ?k = "i mod 64"
  have "?w AND shl1 ?k = (if bit ?w ?k then shl1 ?k else 0)"
    by (rule bit_word_eqI) (auto simp: bit_and_iff bit_one_shift)
  moreover have "shl1 ?k \<noteq> (0 :: 64 word)"
    using bit_one_shift [of ?k ?k] by (metis bit_0_eq bot_apply bot_bool_def mod_less_divisor zero_less_numeral)
  ultimately show ?thesis
    using assms
    by (simp add: bitset_get_def bitsetIndex_def bits_def capacity_def go_nth_def less_mult_imp_div_less mult.commute)
qed

lemma equalsFrom_iff: "length b = length b2 \<Longrightarrow> equalsFrom b b2 \<longleftrightarrow> b = b2"
  by (induction b b2 rule: equalsFrom.induct) auto

lemma bitset_equals_iff [simp]: "bitset_equals b b2 \<longleftrightarrow> b = b2"
  by (auto simp: bitset_equals_def equalsFrom_iff)

lemma bits_inject:
  assumes "length b = length b2" "bits b = bits b2"
  shows "b = b2"
proof (rule nth_equalityI)
  fix j assume j: "j < length b"
  show "b ! j = b2 ! j"
  proof (rule bit_word_eqI)
    fix k assume "k < LENGTH(64)"
    then have "(64 * j + k) div 64 = j" "(64 * j + k) mod 64 = k" "64 * j + k < 64 * length b"
      using j by auto
    moreover have "64 * j + k \<in> bits b \<longleftrightarrow> 64 * j + k \<in> bits b2" using assms by simp
    ultimately show "bit (b ! j) k \<longleftrightarrow> bit (b2 ! j) k" using assms(1) by (simp add: bits_def)
  qed
qed (use assms in simp)

interpretation bs: set_impl newBitset bitset_set bitset_clear bitset_get bitset_equals bitset_hash bits capacity
proof
  show "bits (newBitset n) = {}" for n by (auto simp: newBitset_def bits_def Let_def less_mult_imp_div_less mult.commute)
  show "n \<le> capacity (newBitset n)" for n by (simp add: capacity_def length_newBitset)
  show "\<exists>b'. bitset_set b i = Inr b' \<and> bits b' = insert i (bits b) \<and> capacity b' = capacity b" if "i < capacity b" for i b
    using that by (simp add: bitset_set_eq bits_set) (simp add: capacity_def)
  show "\<exists>b'. bitset_clear b i = Inr b' \<and> bits b' = bits b - {i} \<and> capacity b' = capacity b" if "i < capacity b" for i b
    using that by (simp add: bitset_clear_eq bits_clear) (simp add: capacity_def)
  show "bitset_get b i = Inr (i \<in> bits b)" if "i < capacity b" for i b
    using that by (rule bitset_get_eq)
  show "bitset_equals b b' \<longleftrightarrow> bits b = bits b'" if "capacity b = capacity b'" for b b'
    using that bits_inject by (auto simp: capacity_def)
qed simp

lemma clone_id [simp]: "clone b = b"
  by (simp add: clone_def)

end
