(* ===== verification/Porcupine.thy ===== *)
theory Porcupine
  imports PorcupineList Bitset "HOL-Library.Product_Lexorder"
begin

text \<open>
  The linearizability checker (\<open>porcupine/model.go\<close>, \<open>checker.go\<close>, \<open>porcupine.go\<close>):
  histories, models, and the backtracking search \<open>checkSingle\<close> with its cache of visited
  configurations, as the code has them. The shared flag by which the search can be
  stopped is read once per round: the list of the values read is an argument of the loop
  and at the same time bounds the number of its rounds, so that running out of it
  (\<open>None\<close>) is told apart from every answer.
\<close>

section \<open>Histories and models\<close>

text \<open>The functions of a model may panic, for instance in a type assertion.\<close>

record 'v Operation =
  opClientId :: int
  opInput :: "'v iface"
  opCall :: int
  opOutput :: "'v iface"
  opReturn :: int

datatype EventKind = CallEvent | ReturnEvent

record 'v Event =
  evClientId :: int
  evKind :: EventKind
  evValue :: "'v iface"
  evId :: int

text \<open>
  How operations and states are described in the visualization; the default prints them with
  the verb \<open>%v\<close> and is never called by the checker.
\<close>

datatype 'f describe = DefaultDescribe | Describe 'f

record ('v, 's) Model =
  Partition :: "('v Operation list \<Rightarrow> 'v Operation list list res) option"
  PartitionEvent :: "('v Event list \<Rightarrow> 'v Event list list res) option"
  Init :: 's
  Step :: "'s \<Rightarrow> 'v iface \<Rightarrow> 'v iface \<Rightarrow> (bool \<times> 's) res"
  Equal :: "('s \<Rightarrow> 's \<Rightarrow> bool) option"
  DescribeOperation :: "('v iface \<Rightarrow> 'v iface \<Rightarrow> string res) describe option"
  DescribeState :: "('s \<Rightarrow> string) describe option"

definition NoPartition :: "'v Operation list \<Rightarrow> 'v Operation list list res" where
  "NoPartition history = Inr [history]"

definition NoPartitionEvent :: "'v Event list \<Rightarrow> 'v Event list list res" where
  "NoPartitionEvent history = Inr [history]"

definition ShallowEqual :: "'s \<Rightarrow> 's \<Rightarrow> bool" where
  "ShallowEqual state1 state2 = (state1 = state2)"

definition fillDefault :: "('v, 's) Model \<Rightarrow> ('v, 's) Model" where
  "fillDefault model =
    (let m1 = (if Partition model = None then model\<lparr>Partition := Some NoPartition\<rparr> else model);
         m2 = (if PartitionEvent m1 = None then m1\<lparr>PartitionEvent := Some NoPartitionEvent\<rparr> else m1);
         m3 = (if Equal m2 = None then m2\<lparr>Equal := Some ShallowEqual\<rparr> else m2);
         m4 = (if DescribeOperation m3 = None then m3\<lparr>DescribeOperation := Some DefaultDescribe\<rparr> else m3);
         m5 = (if DescribeState m4 = None then m4\<lparr>DescribeState := Some DefaultDescribe\<rparr> else m4) in m5)"

datatype CheckResult = Unknown | Ok | Illegal

section \<open>From histories to entries\<close>

instantiation entryKind :: linorder
begin

definition less_eq_entryKind :: "entryKind \<Rightarrow> entryKind \<Rightarrow> bool" where
  "less_eq_entryKind k k' \<longleftrightarrow> k = callEntry \<or> k' = returnEntry"

definition less_entryKind :: "entryKind \<Rightarrow> entryKind \<Rightarrow> bool" where
  "less_entryKind k k' \<longleftrightarrow> k = callEntry \<and> k' = returnEntry"

instance
proof
  fix x y z :: entryKind
  show "(x < y) = (x \<le> y \<and> \<not> y \<le> x)" "x \<le> x" "x \<le> y \<or> y \<le> x"
    "x \<le> y \<Longrightarrow> y \<le> z \<Longrightarrow> x \<le> z" "x \<le> y \<Longrightarrow> y \<le> x \<Longrightarrow> x = y"
    by (cases x; cases y; cases z; simp add: less_eq_entryKind_def less_entryKind_def)+
qed

end

text \<open>\<open>byTime.Less\<close>: by time, and calls before returns at the same time.\<close>

definition byTimeLess :: "'v entry \<Rightarrow> 'v entry \<Rightarrow> bool" where
  "byTimeLess a b =
    (if etime a \<noteq> etime b then etime a < etime b
     else ekind a = callEntry \<and> ekind b = returnEntry)"

text \<open>\<open>makeEntries\<close>; \<open>sort.Sort\<close> sorts by the key that \<open>Less\<close> compares. It may arrange entries with the same
  key in any order; the model keeps the order they were appended in.\<close>

fun opEntries :: "nat \<Rightarrow> 'v Operation list \<Rightarrow> 'v entry list" where
  "opEntries k [] = []"
| "opEntries k (elem # history) =
     \<lparr>ekind = callEntry, evalue = opInput elem, eid = k, etime = opCall elem, eclient = opClientId elem\<rparr> #
     \<lparr>ekind = returnEntry, evalue = opOutput elem, eid = k, etime = opReturn elem, eclient = opClientId elem\<rparr> #
     opEntries (k + 1) history"

definition makeEntries :: "'v Operation list \<Rightarrow> 'v entry list" where
  "makeEntries history = sort_key (\<lambda>e. (etime e, ekind e)) (opEntries 0 history)"

text \<open>\<open>renumber\<close>: ids in the order of their first occurrence.\<close>

fun renumberFrom :: "(int \<rightharpoonup> nat) \<Rightarrow> nat \<Rightarrow> 'v Event list \<Rightarrow> (EventKind \<times> 'v iface \<times> nat \<times> int) list" where
  "renumberFrom m k [] = []"
| "renumberFrom m k (v # events) =
    (case m (evId v) of
       Some r \<Rightarrow> (evKind v, evValue v, r, evClientId v) # renumberFrom m k events
     | None \<Rightarrow> (evKind v, evValue v, k, evClientId v) # renumberFrom (m(evId v \<mapsto> k)) (k + 1) events)"

definition renumber :: "'v Event list \<Rightarrow> (EventKind \<times> 'v iface \<times> nat \<times> int) list" where
  "renumber events = renumberFrom Map.empty 0 events"

definition convertEntries :: "(EventKind \<times> 'v iface \<times> nat \<times> int) list \<Rightarrow> 'v entry list" where
  "convertEntries events =
    map (\<lambda>(i, (kind, v, k, c)).
      \<lparr>ekind = (if kind = ReturnEvent then returnEntry else callEntry), evalue = v, eid = k,
       etime = int i, eclient = c\<rparr>) (enumerate 0 events)"

section \<open>The search\<close>

type_synonym 's cache = "64 word \<Rightarrow> (bitset \<times> 's) list"

definition cacheContains :: "('s \<Rightarrow> 's \<Rightarrow> bool) \<Rightarrow> 's cache \<Rightarrow> bitset \<Rightarrow> 's \<Rightarrow> bool" where
  "cacheContains equal cache lin st =
    list_ex (\<lambda>(b, s). bitset_equals lin b \<and> equal st s) (cache (bitset_hash lin))"

record ('v, 's) search =
  sHeap :: "'v heap"
  sEntry :: "nat option"
  sLin :: bitset
  sCache :: "'s cache"
  sCalls :: "(nat \<times> 's) list"
  sState :: 's
  sLongest :: "int list option list"

text \<open>Lines 219 to 234: remember the current sequence for every call it improves.\<close>

definition updateLongest :: "'v heap \<Rightarrow> (nat \<times> 's) list \<Rightarrow> int list option list \<Rightarrow> int list option list res" where
  "updateLongest h calls longest =
    (let sq = map (\<lambda>(a, s). nid (h ! a)) calls in
     for_each calls (\<lambda>(a, s) lg.
       rbind (go_nth lg (nid (h ! a))) (\<lambda>old.
       if (case old of None \<Rightarrow> True | Some l \<Rightarrow> len calls > len l)
       then go_upd lg (nid (h ! a)) (Some sq) else Inr lg)) longest)"

text \<open>
  One round of the loop: either the answer \<open>false\<close>, or the next state. \<open>head\<close> is the
  address of \<open>headEntry\<close>.
\<close>

definition searchStep :: "('s \<Rightarrow> 'v iface \<Rightarrow> 'v iface \<Rightarrow> (bool \<times> 's) res) \<Rightarrow> ('s \<Rightarrow> 's \<Rightarrow> bool) \<Rightarrow> bool \<Rightarrow> nat \<Rightarrow>
    ('v, 's) search \<Rightarrow> (int list option list + ('v, 's) search) res" where
  "searchStep step equal computePartial head s =
    rbind (deref (sHeap s) (sEntry s)) (\<lambda>e.
    if nmatch e \<noteq> None then
      rbind (deref (sHeap s) (nmatch e)) (\<lambda>matching.
      rbind (step (sState s) (nvalue e) (nvalue matching)) (\<lambda>(ok, newState).
      if ok then
        rbind (bitset_set (clone (sLin s)) (nat (nid e))) (\<lambda>newLinearized.
        if \<not> cacheContains equal (sCache s) newLinearized newState then
          let hash = bitset_hash newLinearized;
              s1 = s\<lparr>sCache := (sCache s)(hash := sCache s hash @ [(newLinearized, newState)]),
                     sCalls := sCalls s @ [(the (sEntry s), sState s)],
                     sState := newState\<rparr> in
          rbind (bitset_set (sLin s1) (nat (nid e))) (\<lambda>lin.
          rbind (lift (sHeap s1) (sEntry s1)) (\<lambda>h.
          Inr (Inr (s1\<lparr>sLin := lin, sHeap := h, sEntry := nnext (h ! head)\<rparr>))))
        else Inr (Inr (s\<lparr>sEntry := nnext e\<rparr>)))
      else Inr (Inr (s\<lparr>sEntry := nnext e\<rparr>))))
    else if sCalls s = [] then Inr (Inl (sLongest s))
    else
      rbind (if computePartial then updateLongest (sHeap s) (sCalls s) (sLongest s) else Inr (sLongest s)) (\<lambda>lg.
      let (entry, state) = last (sCalls s);
          s1 = s\<lparr>sLongest := lg, sEntry := Some entry, sState := state\<rparr> in
      rbind (bitset_clear (sLin s1) (nat (nid (sHeap s1 ! entry)))) (\<lambda>lin.
      rbind (unlift (sHeap s1) (sEntry s1)) (\<lambda>h.
      Inr (Inr (s1\<lparr>sLin := lin, sCalls := butlast (sCalls s1), sHeap := h, sEntry := nnext (h ! entry)\<rparr>))))))"

fun searchLoop :: "('s \<Rightarrow> 'v iface \<Rightarrow> 'v iface \<Rightarrow> (bool \<times> 's) res) \<Rightarrow> ('s \<Rightarrow> 's \<Rightarrow> bool) \<Rightarrow> bool \<Rightarrow> nat \<Rightarrow> nat \<Rightarrow>
    bool list \<Rightarrow> ('v, 's) search \<Rightarrow> (bool \<times> int list option list) option res" where
  "searchLoop step equal computePartial head n kill s =
    (if nnext (sHeap s ! head) = None
     then Inr (Some (True, replicate n (Some (map (\<lambda>(a, s'). nid (sHeap s ! a)) (sCalls s)))))
     else case kill of
       [] \<Rightarrow> Inr None
     | k # kill' \<Rightarrow>
         if k then Inr (Some (False, sLongest s))
         else rbind (searchStep step equal computePartial head s) (\<lambda>r.
              case r of Inl lg \<Rightarrow> Inr (Some (False, lg))
                      | Inr s' \<Rightarrow> searchLoop step equal computePartial head n kill' s'))"

declare searchLoop.simps [simp del]

definition checkSingle :: "('v, 's) Model \<Rightarrow> 'v entry list \<Rightarrow> bool \<Rightarrow> bool list \<Rightarrow>
    (bool \<times> int list option list) option res" where
  "checkSingle model history computePartial kill =
    rbind (makeLinkedEntries history) (\<lambda>(h, entry).
    let n = the (nodeLength (length h) h entry) div 2;
        head = length h;
        h1 = h @ [\<lparr>nvalue = None, nmatch = None, nid = -1, nnext = None, nprev = None\<rparr>] in
    rbind (insertBefore h1 head entry) (\<lambda>h2.
    searchLoop (Step model) (the (Equal model)) computePartial head n kill
      \<lparr>sHeap = h2, sEntry = entry, sLin = newBitset n, sCache = (\<lambda>k. []), sCalls = [],
       sState = Init model, sLongest = replicate n None\<rparr>))"

section \<open>Partitions in parallel\<close>

text \<open>
  What the main goroutine of \<open>checkParallel\<close> receives: the result of partition \<open>i\<close> with what
  its goroutine stored in \<open>longest[i]\<close>, or the timeout. Blocking for ever on an empty
  sequence of arrivals is \<open>None\<close>.
\<close>

datatype arrival = Result nat bool "int list option list" | Timeout

fun collect :: "bool \<Rightarrow> nat \<Rightarrow> bool \<Rightarrow> nat \<Rightarrow> arrival list \<Rightarrow> (bool \<times> bool \<times> nat \<times> arrival list) option" where
  "collect computeInfo n ok cnt [] = None"
| "collect computeInfo n ok cnt (Result i result l # as) =
    (let count' = cnt + 1; ok' = (ok \<and> result) in
     if \<not> ok' \<and> \<not> computeInfo then Some (ok', False, count', as)
     else if count' \<ge> n then Some (ok', False, count', as)
     else collect computeInfo n ok' count' as)"
| "collect computeInfo n ok cnt (Timeout # as) = Some (ok, True, cnt, as)"

text \<open>
  \<open>schedule\<close> says in which order the goroutines deliver their results, with \<open>None\<close> for the
  timeout; \<open>kill i\<close> are the values that the goroutine of partition \<open>i\<close> reads from the flag. A
  goroutine that does not get to an answer delivers nothing.
\<close>

definition arrivals :: "('v, 's) Model \<Rightarrow> 'v entry list list \<Rightarrow> bool \<Rightarrow> (nat \<Rightarrow> bool list) \<Rightarrow>
    nat option list \<Rightarrow> arrival list res" where
  "arrivals model history computeInfo kill schedule =
    for_each schedule (\<lambda>ev as.
      case ev of
        None \<Rightarrow> Inr (as @ [Timeout])
      | Some i \<Rightarrow> rbind (checkSingle model (history ! i) computeInfo (kill i)) (\<lambda>r.
          case r of None \<Rightarrow> Inr as | Some (ok, l) \<Rightarrow> Inr (as @ [Result i ok l]))) []"

text \<open>Waiting for the goroutines that have not delivered yet: \<open>False\<close> when it blocks for ever.\<close>

fun drain :: "nat \<Rightarrow> nat \<Rightarrow> arrival list \<Rightarrow> bool" where
  "drain n cnt [] = (cnt \<ge> n)"
| "drain n cnt (Result i r l # as) = (if cnt < n then drain n (cnt + 1) as else True)"
| "drain n cnt (Timeout # as) = drain n cnt as"

text \<open>
  The longest linearizations of a partition. The code collects the pointers in a map and
  copies the sequences in the order in which the map is traversed, which is unspecified:
  the result is a set.
\<close>

definition partials :: "int list option list \<Rightarrow> int list set" where
  "partials longest = set (List.map_filter id longest)"

record 'v linearizationInfo =
  liHistory :: "'v entry list list"
  partialLinearizations :: "int list set list"

definition longestOf :: "arrival list \<Rightarrow> nat \<Rightarrow> int list option list" where
  "longestOf as i = (case find (\<lambda>a. case a of Result j r l \<Rightarrow> j = i | Timeout \<Rightarrow> False) as of
     Some (Result j r l) \<Rightarrow> l | _ \<Rightarrow> [])"

definition verdict :: "bool \<Rightarrow> bool \<Rightarrow> CheckResult" where
  "verdict ok timedOut = (if \<not> ok then Illegal else if timedOut then Unknown else Ok)"

definition checkParallel :: "('v, 's) Model \<Rightarrow> 'v entry list list \<Rightarrow> bool \<Rightarrow> (nat \<Rightarrow> bool list) \<Rightarrow>
    nat option list \<Rightarrow> (CheckResult \<times> 'v linearizationInfo) option res" where
  "checkParallel model history computeInfo kill schedule =
    rbind (arrivals model history computeInfo kill schedule) (\<lambda>as.
    Inr (case collect computeInfo (length history) True 0 as of
       None \<Rightarrow> None
     | Some (ok, timedOut, cnt, rest) \<Rightarrow>
         if computeInfo then
           (if drain (length history) cnt rest
            then Some (verdict ok timedOut,
              \<lparr>liHistory = history,
               partialLinearizations = map (\<lambda>i. partials (longestOf as i)) [0..<length history]\<rparr>)
            else None)
         else Some (verdict ok timedOut, \<lparr>liHistory = [], partialLinearizations = []\<rparr>)))"

definition checkEvents :: "('v, 's) Model \<Rightarrow> 'v Event list \<Rightarrow> bool \<Rightarrow> (nat \<Rightarrow> bool list) \<Rightarrow>
    nat option list \<Rightarrow> (CheckResult \<times> 'v linearizationInfo) option res" where
  "checkEvents model history verbose kill schedule =
    (let m = fillDefault model in
     rbind (the (PartitionEvent m) history) (\<lambda>partitions.
     let l = map (\<lambda>subhistory. convertEntries (renumber subhistory)) partitions in
     checkParallel m l verbose kill schedule))"

definition checkOperations :: "('v, 's) Model \<Rightarrow> 'v Operation list \<Rightarrow> bool \<Rightarrow> (nat \<Rightarrow> bool list) \<Rightarrow>
    nat option list \<Rightarrow> (CheckResult \<times> 'v linearizationInfo) option res" where
  "checkOperations model history verbose kill schedule =
    (let m = fillDefault model in
     rbind (the (Partition m) history) (\<lambda>partitions.
     let l = map makeEntries partitions in
     checkParallel m l verbose kill schedule))"

section \<open>The entry points\<close>

text \<open>
  The variants without a timeout differ from those with one only in that \<open>schedule\<close> has no
  \<open>None\<close>; the first returns whether the result is \<open>Ok\<close>, the second the result and the
  verbose one both the result and the partial linearizations.
\<close>

definition CheckOperations :: "('v, 's) Model \<Rightarrow> 'v Operation list \<Rightarrow> (nat \<Rightarrow> bool list) \<Rightarrow>
    nat option list \<Rightarrow> bool option res" where
  "CheckOperations model history kill schedule =
    rbind (checkOperations model history False kill schedule) (\<lambda>r. Inr (map_option (\<lambda>(res, info). res = Ok) r))"

definition CheckOperationsTimeout :: "('v, 's) Model \<Rightarrow> 'v Operation list \<Rightarrow> (nat \<Rightarrow> bool list) \<Rightarrow>
    nat option list \<Rightarrow> CheckResult option res" where
  "CheckOperationsTimeout model history kill schedule =
    rbind (checkOperations model history False kill schedule) (\<lambda>r. Inr (map_option fst r))"

definition CheckOperationsVerbose :: "('v, 's) Model \<Rightarrow> 'v Operation list \<Rightarrow> (nat \<Rightarrow> bool list) \<Rightarrow>
    nat option list \<Rightarrow> (CheckResult \<times> 'v linearizationInfo) option res" where
  "CheckOperationsVerbose model history kill schedule = checkOperations model history True kill schedule"

definition CheckEvents :: "('v, 's) Model \<Rightarrow> 'v Event list \<Rightarrow> (nat \<Rightarrow> bool list) \<Rightarrow>
    nat option list \<Rightarrow> bool option res" where
  "CheckEvents model history kill schedule =
    rbind (checkEvents model history False kill schedule) (\<lambda>r. Inr (map_option (\<lambda>(res, info). res = Ok) r))"

definition CheckEventsTimeout :: "('v, 's) Model \<Rightarrow> 'v Event list \<Rightarrow> (nat \<Rightarrow> bool list) \<Rightarrow>
    nat option list \<Rightarrow> CheckResult option res" where
  "CheckEventsTimeout model history kill schedule =
    rbind (checkEvents model history False kill schedule) (\<lambda>r. Inr (map_option fst r))"

definition CheckEventsVerbose :: "('v, 's) Model \<Rightarrow> 'v Event list \<Rightarrow> (nat \<Rightarrow> bool list) \<Rightarrow>
    nat option list \<Rightarrow> (CheckResult \<times> 'v linearizationInfo) option res" where
  "CheckEventsVerbose model history kill schedule = checkEvents model history True kill schedule"

end
