(* ===== verification/PorcupineSearch.thy ===== *)
theory PorcupineSearch
  imports Porcupine
begin

text \<open>
  What a linearization is, and the search on the level of sequences: the specification the
  checker implements and the argument why a depth-first search that remembers visited
  configurations is correct. A configuration is the set of operations already linearized
  and the state they lead to. The search is complete because a configuration that was
  visited and left has only successors that were visited, too; it ends because every
  configuration is entered at most once.
\<close>

section \<open>Linearizability\<close>

text \<open>Histories with \<open>n\<close> operations: every id below \<open>n\<close> has one call and one return, the call first.\<close>

definition wf_history :: "'v entry list \<Rightarrow> nat \<Rightarrow> bool" where
  "wf_history es n = (length es = 2 * n \<and> (\<forall>e \<in> set es. eid e < n) \<and>
     distinct (map (\<lambda>e. (ekind e, eid e)) es) \<and>
     (\<forall>i < length es. ekind (es ! i) = returnEntry \<longrightarrow>
        (\<exists>j < i. ekind (es ! j) = callEntry \<and> eid (es ! j) = eid (es ! i))))"

text \<open>Operation \<open>x\<close> has returned before operation \<open>y\<close> is called.\<close>

definition precedes :: "'v entry list \<Rightarrow> nat \<Rightarrow> nat \<Rightarrow> bool" where
  "precedes es x y = (\<exists>i j. i < j \<and> j < length es \<and> ekind (es ! i) = returnEntry \<and> eid (es ! i) = x \<and>
     ekind (es ! j) = callEntry \<and> eid (es ! j) = y)"

definition valueOf :: "'v entry list \<Rightarrow> entryKind \<Rightarrow> nat \<Rightarrow> 'v iface" where
  "valueOf es k x = (case find (\<lambda>e. ekind e = k \<and> eid e = x) es of None \<Rightarrow> None | Some e \<Rightarrow> evalue e)"

text \<open>One step of the model with the input and the output of operation \<open>x\<close>.\<close>

definition stepOp :: "('s \<Rightarrow> 'v iface \<Rightarrow> 'v iface \<Rightarrow> bool \<times> 's) \<Rightarrow> 'v entry list \<Rightarrow> 's \<Rightarrow> nat \<Rightarrow> bool \<times> 's" where
  "stepOp step es q x = step q (valueOf es callEntry x) (valueOf es returnEntry x)"

fun legal :: "('s \<Rightarrow> 'v iface \<Rightarrow> 'v iface \<Rightarrow> bool \<times> 's) \<Rightarrow> 'v entry list \<Rightarrow> 's \<Rightarrow> nat list \<Rightarrow> bool" where
  "legal step es q [] = True"
| "legal step es q (x # xs) = (fst (stepOp step es q x) \<and> legal step es (snd (stepOp step es q x)) xs)"

definition linearization :: "('s \<Rightarrow> 'v iface \<Rightarrow> 'v iface \<Rightarrow> bool \<times> 's) \<Rightarrow> 's \<Rightarrow> 'v entry list \<Rightarrow> nat \<Rightarrow> nat list \<Rightarrow> bool" where
  "linearization step q es n xs = (distinct xs \<and> set xs = {..<n} \<and> legal step es q xs \<and>
     sorted_wrt (\<lambda>x y. \<not> precedes es y x) xs)"

definition linearizable :: "('s \<Rightarrow> 'v iface \<Rightarrow> 'v iface \<Rightarrow> bool \<times> 's) \<Rightarrow> 's \<Rightarrow> 'v entry list \<Rightarrow> nat \<Rightarrow> bool" where
  "linearizable step q es n = (\<exists>xs. linearization step q es n xs)"

section \<open>Building a linearization step by step\<close>

text \<open>Operation \<open>x\<close> may come next: no operation still to be linearized precedes it.\<close>

definition allowed :: "'v entry list \<Rightarrow> nat \<Rightarrow> nat set \<Rightarrow> nat \<Rightarrow> bool" where
  "allowed es n S x = (x < n \<and> x \<notin> S \<and> (\<forall>y < n. y \<notin> S \<longrightarrow> \<not> precedes es y x))"

fun validFrom :: "('s \<Rightarrow> 'v iface \<Rightarrow> 'v iface \<Rightarrow> bool \<times> 's) \<Rightarrow> 'v entry list \<Rightarrow> nat \<Rightarrow> nat set \<Rightarrow> 's \<Rightarrow> nat list \<Rightarrow> bool" where
  "validFrom step es n S q [] = True"
| "validFrom step es n S q (x # xs) =
     (allowed es n S x \<and> fst (stepOp step es q x) \<and> validFrom step es n (insert x S) (snd (stepOp step es q x)) xs)"

fun stateAfter :: "('s \<Rightarrow> 'v iface \<Rightarrow> 'v iface \<Rightarrow> bool \<times> 's) \<Rightarrow> 'v entry list \<Rightarrow> 's \<Rightarrow> nat list \<Rightarrow> 's" where
  "stateAfter step es q [] = q"
| "stateAfter step es q (x # xs) = stateAfter step es (snd (stepOp step es q x)) xs"

lemma stateAfter_append [simp]: "stateAfter step es q (xs @ ys) = stateAfter step es (stateAfter step es q xs) ys"
  by (induction xs arbitrary: q) auto

lemma validFrom_append:
  "validFrom step es n S q (xs @ ys) \<longleftrightarrow>
     validFrom step es n S q xs \<and> validFrom step es n (set xs \<union> S) (stateAfter step es q xs) ys"
  by (induction xs arbitrary: S q) (auto simp: insert_commute Un_insert_right)

lemma validFrom_props:
  "validFrom step es n S q xs \<Longrightarrow> distinct xs \<and> set xs \<subseteq> {..<n} - S \<and> legal step es q xs"
  by (induction xs arbitrary: S q) (fastforce simp: allowed_def)+

lemma wf_historyD:
  assumes "wf_history es n"
  shows wf_length: "length es = 2 * n" and wf_ids: "\<And>e. e \<in> set es \<Longrightarrow> eid e < n"
    and wf_distinct: "distinct (map (\<lambda>e. (ekind e, eid e)) es)"
    and wf_call: "\<And>i. i < length es \<Longrightarrow> ekind (es ! i) = returnEntry \<Longrightarrow>
        \<exists>j < i. ekind (es ! j) = callEntry \<and> eid (es ! j) = eid (es ! i)"
  using assms by (simp_all add: wf_history_def)

lemma wf_unique:
  assumes "wf_history es n" "i < length es" "j < length es" "ekind (es ! i) = ekind (es ! j)" "eid (es ! i) = eid (es ! j)"
  shows "i = j"
proof -
  let ?m = "map (\<lambda>e. (ekind e, eid e)) es"
  have "?m ! i = ?m ! j" using assms by simp
  with nth_eq_iff_index_eq [OF wf_distinct [OF assms(1)], of i j] assms(2,3) show ?thesis by simp
qed

lemma no_self_precedes: "wf_history es n \<Longrightarrow> \<not> precedes es x x"
proof
  assume wf: "wf_history es n" and "precedes es x x"
  then obtain i j where ij: "i < j" "j < length es" "ekind (es ! i) = returnEntry" "eid (es ! i) = x"
    "ekind (es ! j) = callEntry" "eid (es ! j) = x" by (auto simp: precedes_def)
  then obtain k where k: "k < i" "ekind (es ! k) = callEntry" "eid (es ! k) = x"
    using wf_call [OF wf, of i] by auto
  then have "k = j" using ij wf_unique [OF wf, of k j] by simp
  with k ij show False by simp
qed

lemma validFrom_iff:
  assumes wf: "wf_history es n"
  shows "validFrom step es n S q xs \<and> set xs \<union> S = {..<n} \<longleftrightarrow>
    distinct xs \<and> set xs \<inter> S = {} \<and> set xs \<union> S = {..<n} \<and> legal step es q xs \<and>
    sorted_wrt (\<lambda>x y. \<not> precedes es y x) xs"
proof (induction xs arbitrary: S q)
  case (Cons x xs)
  show ?case
  proof (cases "set (x # xs) \<union> S = {..<n}")
    case True
    then have eq: "set xs \<union> insert x S = {..<n}" by auto
    have "allowed es n S x \<longleftrightarrow> x \<notin> S \<and> (\<forall>y \<in> set xs - S. \<not> precedes es y x)"
    proof -
      have "{..<n} - S = insert x (set xs) - S" "x < n" using True by auto
      moreover have "allowed es n S x \<longleftrightarrow> x < n \<and> x \<notin> S \<and> (\<forall>y \<in> {..<n} - S. \<not> precedes es y x)"
        by (auto simp: allowed_def)
      ultimately show ?thesis using no_self_precedes [OF wf, of x] by auto
    qed
    moreover have ih: "validFrom step es n (insert x S) (snd (stepOp step es q x)) xs \<longleftrightarrow>
        distinct xs \<and> set xs \<inter> insert x S = {} \<and> legal step es (snd (stepOp step es q x)) xs \<and>
        sorted_wrt (\<lambda>x y. \<not> precedes es y x) xs"
      using Cons.IH [of "insert x S" "snd (stepOp step es q x)"] eq by simp
    moreover have "set xs \<inter> insert x S = {} \<Longrightarrow> set xs - S = set xs" by auto
    ultimately show ?thesis
      unfolding validFrom.simps legal.simps sorted_wrt.simps using True by auto
  qed simp
qed auto

lemma linearization_iff:
  "wf_history es n \<Longrightarrow> linearization step q es n xs \<longleftrightarrow> validFrom step es n {} q xs \<and> set xs = {..<n}"
  using validFrom_iff [of es n step "{}" q xs] by (auto simp: linearization_def)

section \<open>The entries still to be linearized\<close>

definition rem :: "'v entry list \<Rightarrow> nat set \<Rightarrow> 'v entry list" where
  "rem es S = filter (\<lambda>e. eid e \<notin> S) es"

definition key :: "'v entry \<Rightarrow> entryKind \<times> nat" where
  "key e = (ekind e, eid e)"

lemma wf_complete:
  assumes wf: "wf_history es n" and x: "x < n"
  obtains j where "j < length es" "ekind (es ! j) = k" "eid (es ! j) = x"
proof -
  let ?K = "(\<lambda>e. (ekind e, eid e)) ` set es"
  have UN: "UNIV = {callEntry, returnEntry}" by (auto intro: entryKind.exhaust)
  have sub: "?K \<subseteq> UNIV \<times> {..<n}" using wf_ids [OF wf] by auto
  have "card ?K = length es" using distinct_card [OF wf_distinct [OF wf]] by simp
  moreover have "card (UNIV \<times> {..<n} :: (entryKind \<times> nat) set) = 2 * n"
    by (simp add: card_cartesian_product UN)
  moreover have "finite (UNIV \<times> {..<n} :: (entryKind \<times> nat) set)" by (simp add: UN)
  ultimately have "?K = UNIV \<times> {..<n}" using wf_length [OF wf] sub by (intro card_subset_eq) auto
  then have "(k, x) \<in> ?K" using x by simp
  then obtain e where "e \<in> set es" "ekind e = k" "eid e = x" by auto
  then show thesis using that by (metis in_set_conv_nth)
qed

lemma distinct_es: "wf_history es n \<Longrightarrow> distinct es"
  using wf_distinct distinct_map by blast

lemma rem_distinct: "wf_history es n \<Longrightarrow> distinct (rem es S)"
  by (simp add: rem_def distinct_es)

lemma rem_split_nth:
  assumes "j < length es" "eid (es ! j) \<notin> S"
  shows "rem es S = rem (take j es) S @ es ! j # rem (drop (Suc j) es) S"
  using id_take_nth_drop [OF assms(1)] assms(2) unfolding rem_def
  by (metis filter.simps(2) filter_append)

lemma rem_head_allowed:
  assumes wf: "wf_history es n" and r: "rem es S = A @ e # B" and e: "ekind e = callEntry"
    and A: "\<forall>a \<in> set A. ekind a = callEntry"
  shows "allowed es n S (eid e)"
  unfolding allowed_def
proof (intro conjI allI impI notI)
  have "e \<in> set (rem es S)" using r by simp
  then have ees: "e \<in> set es" and nS: "eid e \<notin> S" by (auto simp: rem_def)
  show "eid e < n" using wf_ids [OF wf ees] .
  show "eid e \<in> S \<Longrightarrow> False" using nS by simp
  fix y assume y: "y < n" "y \<notin> S" "precedes es y (eid e)"
  then obtain i j where ij: "i < j" "j < length es" "ekind (es ! i) = returnEntry" "eid (es ! i) = y"
    "ekind (es ! j) = callEntry" "eid (es ! j) = eid e" by (auto simp: precedes_def)
  obtain k where k: "k < length es" "es ! k = e" using ees by (auto simp: in_set_conv_nth)
  then have "k = j" using wf_unique [OF wf, of k j] ij e by simp
  then have "rem es S = rem (take j es) S @ e # rem (drop (Suc j) es) S"
    using rem_split_nth [OF ij(2)] k nS by simp
  then have "A = rem (take j es) S"
    using distinct_split [OF rem_distinct [OF wf, of S] r] by blast
  moreover have "es ! i \<in> set (take j es)" using ij by (auto simp: in_set_conv_nth intro!: exI [of _ i])
  then have "es ! i \<in> set (rem (take j es) S)" using ij y by (simp add: rem_def)
  ultimately show False using A ij by force
qed

lemma rem_allowed_head:
  assumes wf: "wf_history es n" and al: "allowed es n S y"
  obtains A e B where "rem es S = A @ e # B" "ekind e = callEntry" "eid e = y" "\<forall>a \<in> set A. ekind a = callEntry"
proof -
  have y: "y < n" "y \<notin> S" using al by (auto simp: allowed_def)
  obtain j where j: "j < length es" "ekind (es ! j) = callEntry" "eid (es ! j) = y"
    by (rule wf_complete [OF wf y(1)])
  have "ekind a = callEntry" if "a \<in> set (rem (take j es) S)" for a
  proof (rule ccontr)
    assume "ekind a \<noteq> callEntry"
    then have ret: "ekind a = returnEntry" by (cases "ekind a") auto
    from that obtain i where i: "i < j" "a = es ! i" "eid a \<notin> S" using j by (auto simp: rem_def in_set_conv_nth)
    then have "precedes es (eid a) y" using j ret by (auto simp: precedes_def)
    moreover have "eid a < n" using wf_ids [OF wf] i j by simp
    ultimately show False using al i by (auto simp: allowed_def)
  qed
  with rem_split_nth [OF j(1)] j y that show thesis by metis
qed

text \<open>A call is never the last of the remaining entries: its return comes later.\<close>

lemma rem_call_not_last:
  assumes wf: "wf_history es n" and k: "k < length (rem es S)" "ekind (rem es S ! k) = callEntry"
  shows "Suc k < length (rem es S)"
proof -
  define e where "e = rem es S ! k"
  have "e \<in> set (rem es S)" "ekind e = callEntry" using k by (simp_all add: e_def)
  then have mem: "e \<in> set es" and nS: "eid e \<notin> S" by (auto simp: rem_def)
  obtain j where j: "j < length es" "ekind (es ! j) = returnEntry" "eid (es ! j) = eid e"
    by (rule wf_complete [OF wf wf_ids [OF wf mem]])
  obtain i where i: "i < j" "ekind (es ! i) = callEntry" "eid (es ! i) = eid e"
    using wf_call [OF wf j(1,2)] j(3) by auto
  obtain i' where i': "i' < length es" "es ! i' = e" using mem by (auto simp: in_set_conv_nth)
  then have "i' = i" using wf_unique [OF wf, of i' i] i j \<open>ekind e = callEntry\<close> by simp
  then have sp: "rem es S = rem (take i es) S @ e # rem (drop (Suc i) es) S"
    using rem_split_nth [of i es S] i i' j nS by simp
  moreover have "es ! j \<in> set (drop (Suc i) es)"
    using i j by (auto simp: in_set_conv_nth intro!: exI [of _ "j - Suc i"])
  then have "rem (drop (Suc i) es) S \<noteq> []" using j(3) nS unfolding rem_def filter_empty_conv by metis
  moreover have "k = length (rem (take i es) S)"
  proof -
    have l: "length (rem (take i es) S) < length (rem es S)" by (subst sp) simp
    have "rem es S ! length (rem (take i es) S) = e" by (subst sp) (simp add: nth_append)
    with l k(1) rem_distinct [OF wf, of S] show ?thesis unfolding e_def by (simp add: nth_eq_iff_index_eq)
  qed
  moreover have "length (rem es S) = length (rem (take i es) S) + 1 + length (rem (drop (Suc i) es) S)"
    by (subst sp) simp
  ultimately show ?thesis by (cases "rem (drop (Suc i) es) S") simp_all
qed

lemma rem_empty_iff: "wf_history es n \<Longrightarrow> S \<subseteq> {..<n} \<Longrightarrow> rem es S = [] \<longleftrightarrow> S = {..<n}"
proof -
  assume wf: "wf_history es n" and S: "S \<subseteq> {..<n}"
  have "x \<in> S" if "rem es S = []" "x < n" for x
    by (rule wf_complete [OF wf that(2), of callEntry]) (use that in \<open>auto simp: rem_def filter_empty_conv\<close>)
  moreover have "rem es {..<n} = []" using wf_ids [OF wf] by (auto simp: rem_def filter_empty_conv)
  ultimately show ?thesis using S by auto
qed

section \<open>The search on sequences\<close>

text \<open>
  The path (the operations linearized so far), the number of entries passed at the end of
  the path, and the configurations entered so far.
\<close>

record 's asearch =
  aPath :: "nat list"
  aPos :: nat
  aSeen :: "(nat set \<times> 's) set"

definition seen :: "('s \<Rightarrow> 's \<Rightarrow> bool) \<Rightarrow> (nat set \<times> 's) set \<Rightarrow> nat set \<Rightarrow> 's \<Rightarrow> bool" where
  "seen equal V S q = (\<exists>q'. (S, q') \<in> V \<and> equal q q')"

text \<open>The position of the call of \<open>x\<close> among the remaining entries.\<close>

definition callPos :: "'v entry list \<Rightarrow> nat set \<Rightarrow> nat \<Rightarrow> nat" where
  "callPos es S x = length (takeWhile (\<lambda>e. \<not> (ekind e = callEntry \<and> eid e = x)) (rem es S))"

definition astep :: "('s \<Rightarrow> 'v iface \<Rightarrow> 'v iface \<Rightarrow> bool \<times> 's) \<Rightarrow> ('s \<Rightarrow> 's \<Rightarrow> bool) \<Rightarrow> 's \<Rightarrow> 'v entry list \<Rightarrow>
    's asearch \<Rightarrow> unit + 's asearch" where
  "astep step equal q0 es a =
    (let S = set (aPath a); q = stateAfter step es q0 (aPath a); e = rem es S ! aPos a in
     if ekind e = callEntry then
       (let x = eid e; q' = snd (stepOp step es q x) in
        if fst (stepOp step es q x) \<and> \<not> seen equal (aSeen a) (insert x S) q'
        then Inr \<lparr>aPath = aPath a @ [x], aPos = 0, aSeen = insert (insert x S, q') (aSeen a)\<rparr>
        else Inr (a\<lparr>aPos := Suc (aPos a)\<rparr>))
     else if aPath a = [] then Inl ()
     else Inr (a\<lparr>aPath := butlast (aPath a),
                 aPos := Suc (callPos es (set (butlast (aPath a))) (last (aPath a)))\<rparr>))"

fun arun :: "('s \<Rightarrow> 'v iface \<Rightarrow> 'v iface \<Rightarrow> bool \<times> 's) \<Rightarrow> ('s \<Rightarrow> 's \<Rightarrow> bool) \<Rightarrow> 's \<Rightarrow> 'v entry list \<Rightarrow> nat \<Rightarrow>
    's asearch \<Rightarrow> bool option" where
  "arun step equal q0 es k a =
    (if rem es (set (aPath a)) = [] then Some True
     else case k of 0 \<Rightarrow> None
       | Suc k' \<Rightarrow> (case astep step equal q0 es a of Inl u \<Rightarrow> Some False | Inr a' \<Rightarrow> arun step equal q0 es k' a'))"

declare arun.simps [simp del]

definition astart :: "'s asearch" where
  "astart = \<lparr>aPath = [], aPos = 0, aSeen = {}\<rparr>"

section \<open>The invariant of the search\<close>

text \<open>Operation \<open>y\<close> has been tried after the path \<open>u\<close>.\<close>

definition tried :: "('s \<Rightarrow> 'v iface \<Rightarrow> 'v iface \<Rightarrow> bool \<times> 's) \<Rightarrow> ('s \<Rightarrow> 's \<Rightarrow> bool) \<Rightarrow> 'v entry list \<Rightarrow>
    (nat set \<times> 's) set \<Rightarrow> nat set \<Rightarrow> 's \<Rightarrow> nat \<Rightarrow> bool" where
  "tried step equal es V S q y =
    (fst (stepOp step es q y) \<longrightarrow> seen equal V (insert y S) (snd (stepOp step es q y)))"

definition passedOK :: "('s \<Rightarrow> 'v iface \<Rightarrow> 'v iface \<Rightarrow> bool \<times> 's) \<Rightarrow> ('s \<Rightarrow> 's \<Rightarrow> bool) \<Rightarrow> 'v entry list \<Rightarrow>
    (nat set \<times> 's) set \<Rightarrow> nat set \<Rightarrow> 's \<Rightarrow> nat \<Rightarrow> bool" where
  "passedOK step equal es V S q k = (\<forall>j < k. j < length (rem es S) \<and> ekind (rem es S ! j) = callEntry \<and>
     tried step equal es V S q (eid (rem es S ! j)))"

text \<open>Every operation that may come next has been tried.\<close>

definition closed :: "('s \<Rightarrow> 'v iface \<Rightarrow> 'v iface \<Rightarrow> bool \<times> 's) \<Rightarrow> ('s \<Rightarrow> 's \<Rightarrow> bool) \<Rightarrow> 'v entry list \<Rightarrow> nat \<Rightarrow>
    (nat set \<times> 's) set \<Rightarrow> nat set \<times> 's \<Rightarrow> bool" where
  "closed step equal es n V c = (\<forall>y. allowed es n (fst c) y \<longrightarrow> tried step equal es V (fst c) (snd c) y)"

definition conf :: "('s \<Rightarrow> 'v iface \<Rightarrow> 'v iface \<Rightarrow> bool \<times> 's) \<Rightarrow> 's \<Rightarrow> 'v entry list \<Rightarrow> nat list \<Rightarrow> nat set \<times> 's" where
  "conf step q0 es u = (set u, stateAfter step es q0 u)"

definition ainv :: "('s \<Rightarrow> 'v iface \<Rightarrow> 'v iface \<Rightarrow> bool \<times> 's) \<Rightarrow> ('s \<Rightarrow> 's \<Rightarrow> bool) \<Rightarrow> 's \<Rightarrow> 'v entry list \<Rightarrow> nat \<Rightarrow>
    's asearch \<Rightarrow> bool" where
  "ainv step equal q0 es n a =
    (validFrom step es n {} q0 (aPath a) \<and>
     (rem es (set (aPath a)) \<noteq> [] \<longrightarrow> aPos a < length (rem es (set (aPath a)))) \<and>
     passedOK step equal es (aSeen a) (set (aPath a)) (stateAfter step es q0 (aPath a)) (aPos a) \<and>
     (\<forall>u x w. aPath a = u @ x # w \<longrightarrow>
        passedOK step equal es (aSeen a) (set u) (stateAfter step es q0 u) (callPos es (set u) x) \<and>
        conf step q0 es (u @ [x]) \<in> aSeen a) \<and>
     (\<forall>c \<in> aSeen a. (fst c \<noteq> {..<n} \<or> set (aPath a) = {..<n}) \<and>
        (\<exists>p. validFrom step es n {} q0 p \<and> c = conf step q0 es p) \<and>
        ((\<exists>u w. aPath a = u @ w \<and> u \<noteq> [] \<and> c = conf step q0 es u) \<or> closed step equal es n (aSeen a) c)))"

lemma tried_mono: "tried step equal es V S q y \<Longrightarrow> V \<subseteq> V' \<Longrightarrow> tried step equal es V' S q y"
  by (auto simp: tried_def seen_def)

lemma passedOK_mono: "passedOK step equal es V S q k \<Longrightarrow> V \<subseteq> V' \<Longrightarrow> passedOK step equal es V' S q k"
  by (auto simp: passedOK_def intro: tried_mono)

lemma closed_mono: "closed step equal es n V c \<Longrightarrow> V \<subseteq> V' \<Longrightarrow> closed step equal es n V' c"
  by (auto simp: closed_def intro: tried_mono)

lemma passedOK_Suc:
  "passedOK step equal es V S q (Suc k) \<longleftrightarrow> passedOK step equal es V S q k \<and> k < length (rem es S) \<and>
     ekind (rem es S ! k) = callEntry \<and> tried step equal es V S q (eid (rem es S ! k))"
  by (auto simp: passedOK_def less_Suc_eq)

text \<open>When the entry after the passed ones is a return, everything that may come next was passed.\<close>

lemma passed_all_closed:
  assumes wf: "wf_history es n" and p: "passedOK step equal es V S q k" and k: "k < length (rem es S)"
    and r: "ekind (rem es S ! k) = returnEntry"
  shows "closed step equal es n V (S, q)"
  unfolding closed_def fst_conv snd_conv
proof (intro allI impI)
  fix y assume "allowed es n S y"
  then obtain A e B where A: "rem es S = A @ e # B" "ekind e = callEntry" "eid e = y" "\<forall>a \<in> set A. ekind a = callEntry"
    by (rule rem_allowed_head [OF wf])
  have "length A < k"
  proof (rule ccontr)
    assume "\<not> length A < k"
    then consider "k = length A" | "k < length A" by linarith
    then show False
    proof cases
      case 1
      with A r show False by simp
    next
      case 2
      then have "rem es S ! k \<in> set A" using A(1) by (simp add: nth_append)
      with A(4) r show False by fastforce
    qed
  qed
  with p A show "tried step equal es V S q y" by (fastforce simp: passedOK_def)
qed

lemma callPos_eq:
  assumes wf: "wf_history es n" and k: "k < length (rem es S)" "ekind (rem es S ! k) = callEntry"
  shows "callPos es S (eid (rem es S ! k)) = k"
proof -
  let ?P = "\<lambda>e. \<not> (ekind e = callEntry \<and> eid e = eid (rem es S ! k))"
  have "?P (rem es S ! j)" if "j < k" for j
  proof
    assume c: "ekind (rem es S ! j) = callEntry \<and> eid (rem es S ! j) = eid (rem es S ! k)"
    have "distinct (map (\<lambda>e. (ekind e, eid e)) (rem es S))"
      using wf_distinct [OF wf] by (simp add: rem_def distinct_map_filter)
    then have "j = k"
      using nth_eq_iff_index_eq [of "map (\<lambda>e. (ekind e, eid e)) (rem es S)" j k] c k that by simp
    with that show False by simp
  qed
  then have "takeWhile ?P (rem es S) = take k (rem es S)"
    using k by (intro takeWhile_eq_take_P_nth) auto
  with k show ?thesis by (simp add: callPos_def)
qed

section \<open>Correctness of the search\<close>

text \<open>
  What the search needs of a model: the equality on states is compatible with the steps.
  \<open>ShallowEqual\<close> is the identity, so every model with it qualifies.
\<close>

locale search_model =
  fixes step :: "'s \<Rightarrow> 'v iface \<Rightarrow> 'v iface \<Rightarrow> bool \<times> 's"
    and equal :: "'s \<Rightarrow> 's \<Rightarrow> bool"
  assumes equal_refl: "equal q q"
    and equal_trans: "equal q q' \<Longrightarrow> equal q' q'' \<Longrightarrow> equal q q''"
    and equal_step: "equal q q' \<Longrightarrow>
      fst (step q i out) = fst (step q' i out) \<and> equal (snd (step q i out)) (snd (step q' i out))"
begin

lemma ainv_start: "wf_history es n \<Longrightarrow> ainv step equal q0 es n astart"
  by (auto simp: ainv_def astart_def passedOK_def)

lemma ainv_advance:
  assumes wf: "wf_history es n" and inv: "ainv step equal q0 es n a"
    and S: "S = set (aPath a)" "q = stateAfter step es q0 (aPath a)" and ne: "rem es S \<noteq> []"
    and c: "ekind (rem es S ! aPos a) = callEntry" and t: "tried step equal es (aSeen a) S q (eid (rem es S ! aPos a))"
  shows "ainv step equal q0 es n (a\<lparr>aPos := Suc (aPos a)\<rparr>)"
proof -
  have k: "aPos a < length (rem es S)" using inv ne by (simp add: ainv_def S)
  then have "Suc (aPos a) < length (rem es S)" using rem_call_not_last [OF wf] c by blast
  with inv t c k show ?thesis by (simp add: ainv_def S passedOK_Suc)
qed

lemma ainv_push:
  assumes wf: "wf_history es n" and inv: "ainv step equal q0 es n a" and ne: "rem es (set (aPath a)) \<noteq> []"
    and S: "S = set (aPath a)" "q = stateAfter step es q0 (aPath a)" "x = eid (rem es S ! aPos a)"
    and c: "ekind (rem es S ! aPos a) = callEntry" and ok: "fst (stepOp step es q x)"
  shows "ainv step equal q0 es n \<lparr>aPath = aPath a @ [x], aPos = 0,
      aSeen = insert (insert x S, snd (stepOp step es q x)) (aSeen a)\<rparr>"
proof -
  let ?p = "aPath a" and ?k = "aPos a"
  let ?c = "(insert x S, snd (stepOp step es q x))"
  let ?V = "insert ?c (aSeen a)"
  have v: "validFrom step es n {} q0 ?p" and k: "?k < length (rem es S)"
    and ps: "passedOK step equal es (aSeen a) S q ?k"
    and lev: "\<And>u x w. ?p = u @ x # w \<Longrightarrow> passedOK step equal es (aSeen a) (set u) (stateAfter step es q0 u) (callPos es (set u) x) \<and>
        conf step q0 es (u @ [x]) \<in> aSeen a"
    and cl: "\<And>c. c \<in> aSeen a \<Longrightarrow> (fst c \<noteq> {..<n} \<or> S = {..<n}) \<and> (\<exists>p. validFrom step es n {} q0 p \<and> c = conf step q0 es p) \<and>
        ((\<exists>u w. ?p = u @ w \<and> u \<noteq> [] \<and> c = conf step q0 es u) \<or> closed step equal es n (aSeen a) c)"
    using inv ne unfolding ainv_def S(1,2) by blast+
  have full: "S \<noteq> {..<n}" using rem_empty_iff [OF wf, of S] ne S(1) by auto
  have "rem es S = take ?k (rem es S) @ rem es S ! ?k # drop (Suc ?k) (rem es S)" using k by (rule id_take_nth_drop)
  moreover have "\<forall>e \<in> set (take ?k (rem es S)). ekind e = callEntry"
    using ps by (auto simp: passedOK_def in_set_conv_nth)
  ultimately have al: "allowed es n S x" unfolding S(3) by (rule rem_head_allowed [OF wf _ c])
  have v': "validFrom step es n {} q0 (?p @ [x])" using v al ok by (simp add: validFrom_append S(1,2))
  have conf: "conf step q0 es (?p @ [x]) = ?c" by (simp add: conf_def S(1,2) stepOp_def)
  have pos: "callPos es S x = ?k" unfolding S(3) by (rule callPos_eq [OF wf k c])
  have lev': "passedOK step equal es ?V (set u) (stateAfter step es q0 u) (callPos es (set u) y) \<and> conf step q0 es (u @ [y]) \<in> ?V"
    if "?p @ [x] = u @ y # w" for u y w
  proof (cases w rule: rev_cases)
    case Nil
    with that have "u = ?p" "y = x" by auto
    with passedOK_mono [OF ps] pos conf S(1,2) show ?thesis by auto
  next
    case (snoc w' z)
    with that have "?p = u @ y # w'" by simp
    from lev [OF this] show ?thesis
      using passedOK_mono [OF _ subset_insertI, of step equal es "aSeen a" "set u" "stateAfter step es q0 u"] by simp
  qed
  have cl': "(fst c \<noteq> {..<n} \<or> set (?p @ [x]) = {..<n}) \<and> (\<exists>p. validFrom step es n {} q0 p \<and> c = conf step q0 es p) \<and>
        ((\<exists>u w. ?p @ [x] = u @ w \<and> u \<noteq> [] \<and> c = conf step q0 es u) \<or> closed step equal es n ?V c)" if "c \<in> ?V" for c
  proof (cases "c = ?c")
    case True
    have "set (?p @ [x]) = fst c" using S(1) True by auto
    moreover have "\<exists>u w. ?p @ [x] = u @ w \<and> u \<noteq> [] \<and> c = conf step q0 es u"
      by (intro exI [of _ "?p @ [x]"] exI [of _ "[]"]) (simp add: conf True)
    moreover have "\<exists>p. validFrom step es n {} q0 p \<and> c = conf step q0 es p"
      using v' conf True by (intro exI [of _ "?p @ [x]"]) simp
    ultimately show ?thesis by auto
  next
    case False
    with that have "c \<in> aSeen a" by simp
    note h = cl [OF this]
    from h full have "fst c \<noteq> {..<n}" by blast
    moreover have "\<exists>u' w'. ?p @ [x] = u' @ w' \<and> u' \<noteq> [] \<and> c = conf step q0 es u'"
      if "?p = u @ w" "u \<noteq> []" "c = conf step q0 es u" for u w
      using that by (intro exI [of _ u] exI [of _ "w @ [x]"]) simp
    with h have "(\<exists>u w. ?p @ [x] = u @ w \<and> u \<noteq> [] \<and> c = conf step q0 es u) \<or> closed step equal es n ?V c"
      using closed_mono [of step equal es n "aSeen a" c ?V] by (elim conjE disjE exE) blast+
    ultimately show ?thesis using h by blast
  qed
  show ?thesis
    unfolding ainv_def using v' lev' cl' by (auto simp: passedOK_def)
qed

lemma ainv_pop:
  assumes wf: "wf_history es n" and inv: "ainv step equal q0 es n a" and ne: "rem es (set (aPath a)) \<noteq> []"
    and r: "ekind (rem es (set (aPath a)) ! aPos a) = returnEntry" and p: "aPath a = p @ [x]"
  shows "ainv step equal q0 es n (a\<lparr>aPath := p, aPos := Suc (callPos es (set p) x)\<rparr>)"
proof -
  let ?V = "aSeen a"
  have v: "validFrom step es n {} q0 (p @ [x])" and k: "aPos a < length (rem es (set (p @ [x])))"
    and ps: "passedOK step equal es ?V (set (p @ [x])) (stateAfter step es q0 (p @ [x])) (aPos a)"
    and lev: "\<And>u y w. p @ [x] = u @ y # w \<Longrightarrow> passedOK step equal es ?V (set u) (stateAfter step es q0 u) (callPos es (set u) y) \<and>
        conf step q0 es (u @ [y]) \<in> ?V"
    and cl: "\<And>c. c \<in> ?V \<Longrightarrow> (fst c \<noteq> {..<n} \<or> set (p @ [x]) = {..<n}) \<and> (\<exists>p. validFrom step es n {} q0 p \<and> c = conf step q0 es p) \<and>
        ((\<exists>u w. p @ [x] = u @ w \<and> u \<noteq> [] \<and> c = conf step q0 es u) \<or> closed step equal es n ?V c)"
    using inv ne unfolding ainv_def p by blast+
  have sub: "set (p @ [x]) \<subseteq> {..<n}" using validFrom_props [OF v] by blast
  have full: "set (p @ [x]) \<noteq> {..<n}" using rem_empty_iff [OF wf sub] ne p by auto
  have top: "closed step equal es n ?V (conf step q0 es (p @ [x]))"
    unfolding conf_def using passed_all_closed [OF wf ps k] r p by simp
  have al: "allowed es n (set p) x" and okx: "fst (stepOp step es (stateAfter step es q0 p) x)" and vp: "validFrom step es n {} q0 p"
    using v by (simp_all add: validFrom_append)
  obtain A e B where A: "rem es (set p) = A @ e # B" "ekind e = callEntry" "eid e = x"
    by (rule rem_allowed_head [OF wf al])
  have nth: "rem es (set p) ! length A = e" "length A < length (rem es (set p))" using A(1) by auto
  then have pos: "callPos es (set p) x = length A" using callPos_eq [OF wf nth(2)] A by simp
  have l: "passedOK step equal es ?V (set p) (stateAfter step es q0 p) (callPos es (set p) x)"
    "conf step q0 es (p @ [x]) \<in> ?V" using lev [of p x "[]"] by auto
  have "tried step equal es ?V (set p) (stateAfter step es q0 p) x"
    using l(2) equal_refl by (auto simp: tried_def seen_def conf_def)
  then have ps': "passedOK step equal es ?V (set p) (stateAfter step es q0 p) (Suc (callPos es (set p) x))"
    using l(1) nth A pos by (simp add: passedOK_Suc)
  have lt: "Suc (callPos es (set p) x) < length (rem es (set p))"
    using rem_call_not_last [OF wf nth(2)] nth(1) A(2) pos by simp
  have cl': "(fst c \<noteq> {..<n} \<or> set p = {..<n}) \<and> (\<exists>p. validFrom step es n {} q0 p \<and> c = conf step q0 es p) \<and>
        ((\<exists>u w. p = u @ w \<and> u \<noteq> [] \<and> c = conf step q0 es u) \<or> closed step equal es n ?V c)" if "c \<in> ?V" for c
  proof -
    note h = cl [OF that]
    have "(\<exists>u w. p = u @ w \<and> u \<noteq> [] \<and> c = conf step q0 es u) \<or> closed step equal es n ?V c"
      if uw: "p @ [x] = u @ w" "u \<noteq> []" "c = conf step q0 es u" for u w
      using uw top by (cases w rule: rev_cases) auto
    with h full show ?thesis by blast
  qed
  have lev': "passedOK step equal es ?V (set u) (stateAfter step es q0 u) (callPos es (set u) y) \<and> conf step q0 es (u @ [y]) \<in> ?V"
    if "p = u @ y # w" for u y w using lev [of u y "w @ [x]"] that by simp
  show ?thesis
    unfolding ainv_def using vp lt ps' lev' cl' by simp
qed

text \<open>A failed search: nothing can be completed from a configuration all of whose successors
  were entered and left.\<close>

lemma no_completion:
  assumes "\<And>c. c \<in> V \<Longrightarrow> fst c \<noteq> {..<n} \<and> closed step equal es n V c"
  shows "\<lbrakk>closed step equal es n V (S, q'); equal q q'; S \<noteq> {..<n}; validFrom step es n S q xs\<rbrakk> \<Longrightarrow>
    set xs \<union> S \<noteq> {..<n}"
proof (induction xs arbitrary: S q q')
  case (Cons x xs)
  from Cons.prems(4) have x: "allowed es n S x" "fst (stepOp step es q x)"
    "validFrom step es n (insert x S) (snd (stepOp step es q x)) xs" by auto
  have eq: "fst (stepOp step es q' x)" "equal (snd (stepOp step es q x)) (snd (stepOp step es q' x))"
    using equal_step [OF Cons.prems(2)] x(2) by (simp_all add: stepOp_def)
  from Cons.prems(1) x(1) eq(1) have "seen equal V (insert x S) (snd (stepOp step es q' x))"
    unfolding closed_def fst_conv snd_conv tried_def by blast
  then obtain q'' where q'': "(insert x S, q'') \<in> V" "equal (snd (stepOp step es q' x)) q''"
    unfolding seen_def by blast
  from assms [OF q''(1)] have "insert x S \<noteq> {..<n}" "closed step equal es n V (insert x S, q'')" by auto
  with Cons.IH [of "insert x S" q''] equal_trans [OF eq(2) q''(2)] x(3) show ?case by auto
qed simp

lemma astep_fail:
  assumes wf: "wf_history es n" and inv: "ainv step equal q0 es n a" and ne: "rem es (set (aPath a)) \<noteq> []"
    and f: "astep step equal q0 es a = Inl u"
  shows "\<not> linearizable step q0 es n"
proof -
  have p: "aPath a = []" and c: "ekind (rem es {} ! aPos a) \<noteq> callEntry"
    using f by (auto simp: astep_def Let_def split: if_splits)
  then have r: "ekind (rem es {} ! aPos a) = returnEntry" by (cases "ekind (rem es {} ! aPos a)") auto
  have k: "aPos a < length (rem es {})" and ps: "passedOK step equal es (aSeen a) {} q0 (aPos a)"
    and cl: "\<And>c. c \<in> aSeen a \<Longrightarrow> (fst c \<noteq> {..<n} \<or> {} = {..<n}) \<and> closed step equal es n (aSeen a) c"
    using inv ne unfolding ainv_def p by auto
  have full: "{} \<noteq> {..<n}" using rem_empty_iff [OF wf, of "{}"] ne p by auto
  have root: "closed step equal es n (aSeen a) ({}, q0)" by (rule passed_all_closed [OF wf ps k r])
  have "set xs \<noteq> {..<n}" if "validFrom step es n {} q0 xs" for xs
    using no_completion [OF _ root equal_refl full that] cl full by auto
  then show ?thesis by (auto simp: linearizable_def linearization_iff [OF wf])
qed

lemma astep_inv:
  assumes wf: "wf_history es n" and inv: "ainv step equal q0 es n a" and ne: "rem es (set (aPath a)) \<noteq> []"
    and s: "astep step equal q0 es a = Inr a'"
  shows "ainv step equal q0 es n a'"
proof -
  let ?S = "set (aPath a)" and ?q = "stateAfter step es q0 (aPath a)"
  let ?e = "rem es ?S ! aPos a"
  show ?thesis
  proof (cases "ekind ?e = callEntry")
    case call: True
    show ?thesis
    proof (cases "fst (stepOp step es ?q (eid ?e)) \<and> \<not> seen equal (aSeen a) (insert (eid ?e) ?S) (snd (stepOp step es ?q (eid ?e)))")
      case True
      with s call have "a' = \<lparr>aPath = aPath a @ [eid ?e], aPos = 0,
          aSeen = insert (insert (eid ?e) ?S, snd (stepOp step es ?q (eid ?e))) (aSeen a)\<rparr>"
        by (simp add: astep_def Let_def)
      with ainv_push [OF wf inv ne refl refl refl call] True show ?thesis by simp
    next
      case False
      with s call have "a' = a\<lparr>aPos := Suc (aPos a)\<rparr>" by (auto simp: astep_def Let_def)
      moreover have "tried step equal es (aSeen a) ?S ?q (eid ?e)" using False by (auto simp: tried_def)
      ultimately show ?thesis using ainv_advance [OF wf inv refl refl ne call] by simp
    qed
  next
    case False
    then have r: "ekind ?e = returnEntry" by (cases "ekind ?e") auto
    with s have "aPath a \<noteq> []" by (auto simp: astep_def Let_def)
    then have p: "aPath a = butlast (aPath a) @ [last (aPath a)]" by simp
    from s r \<open>aPath a \<noteq> []\<close> have "a' = a\<lparr>aPath := butlast (aPath a),
        aPos := Suc (callPos es (set (butlast (aPath a))) (last (aPath a)))\<rparr>"
      by (simp add: astep_def Let_def)
    with ainv_pop [OF wf inv ne r p] show ?thesis by simp
  qed
qed

text \<open>Every configuration is entered at most once, and there are finitely many of them.\<close>

definition confs :: "'s \<Rightarrow> 'v entry list \<Rightarrow> nat \<Rightarrow> (nat set \<times> 's) set" where
  "confs q0 es n = conf step q0 es ` {p. validFrom step es n {} q0 p}"

lemma finite_confs: "finite (confs q0 es n)"
proof -
  have "{p. validFrom step es n {} q0 p} \<subseteq> {p. set p \<subseteq> {..<n} \<and> length p \<le> n}"
  proof safe
    fix p assume v: "validFrom step es n {} q0 p"
    show "x < n" if "x \<in> set p" for x using validFrom_props [OF v] that by auto
    show "length p \<le> n"
      using validFrom_props [OF v] card_mono [of "{..<n}" "set p"] distinct_card [of p] by auto
  qed
  then have "finite {p. validFrom step es n {} q0 p}"
    by (rule finite_subset) (simp add: finite_lists_length_le)
  then show ?thesis by (simp add: confs_def)
qed

definition ameasure :: "'s \<Rightarrow> 'v entry list \<Rightarrow> nat \<Rightarrow> 's asearch \<Rightarrow> nat \<times> nat \<times> nat" where
  "ameasure q0 es n a = (card (confs q0 es n - aSeen a), length (aPath a), length (rem es (set (aPath a))) - aPos a)"

lemma astep_decreases:
  assumes wf: "wf_history es n" and inv: "ainv step equal q0 es n a" and ne: "rem es (set (aPath a)) \<noteq> []"
    and s: "astep step equal q0 es a = Inr a'"
  shows "(ameasure q0 es n a', ameasure q0 es n a) \<in> less_than <*lex*> less_than <*lex*> less_than"
proof -
  let ?S = "set (aPath a)" and ?q = "stateAfter step es q0 (aPath a)"
  let ?e = "rem es ?S ! aPos a"
  let ?c = "(insert (eid ?e) ?S, snd (stepOp step es ?q (eid ?e)))"
  have inv': "ainv step equal q0 es n a'" by (rule astep_inv [OF wf inv ne s])
  have k: "aPos a < length (rem es ?S)" using inv ne by (simp add: ainv_def)
  consider (push) "a' = \<lparr>aPath = aPath a @ [eid ?e], aPos = 0, aSeen = insert ?c (aSeen a)\<rparr>"
      "\<not> seen equal (aSeen a) (fst ?c) (snd ?c)"
    | (advance) "a' = a\<lparr>aPos := Suc (aPos a)\<rparr>"
    | (pop) "aPath a \<noteq> []" "aSeen a' = aSeen a" "aPath a' = butlast (aPath a)"
    using s by (auto simp: astep_def Let_def split: if_splits)
  then show ?thesis
  proof cases
    case push
    have "?c \<notin> aSeen a" using push(2) equal_refl by (auto simp: seen_def)
    moreover have "?c \<in> confs q0 es n"
      using inv' push(1) unfolding ainv_def confs_def by auto
    ultimately have "confs q0 es n - aSeen a' \<subset> confs q0 es n - aSeen a" using push(1) by auto
    then have "card (confs q0 es n - aSeen a') < card (confs q0 es n - aSeen a)"
      by (intro psubset_card_mono) (auto simp: finite_confs)
    then show ?thesis by (simp add: ameasure_def)
  next
    case advance
    with k show ?thesis by (auto simp: ameasure_def)
  next
    case pop
    then show ?thesis by (auto simp: ameasure_def)
  qed
qed

text \<open>The search ends with the right answer.\<close>

lemma arun_correct:
  assumes wf: "wf_history es n" and inv: "ainv step equal q0 es n a"
  shows "\<exists>k. arun step equal q0 es k a = Some (linearizable step q0 es n)"
  using inv
proof (induction a rule: wf_induct_rule [OF wf_inv_image [OF wf_lex_prod [OF wf_less_than wf_lex_prod [OF wf_less_than wf_less_than]],
      of "ameasure q0 es n"]])
  case (1 a)
  show ?case
  proof (cases "rem es (set (aPath a)) = []")
    case True
    have v: "validFrom step es n {} q0 (aPath a)" using "1.prems" by (simp add: ainv_def)
    have "set (aPath a) \<subseteq> {..<n}" using validFrom_props [OF v] by blast
    then have "set (aPath a) = {..<n}" using True rem_empty_iff [OF wf] by blast
    with v have "linearizable step q0 es n"
      unfolding linearizable_def linearization_iff [OF wf] by blast
    with True show ?thesis by (subst arun.simps) simp
  next
    case ne: False
    show ?thesis
    proof (cases "astep step equal q0 es a")
      case (Inl u)
      with astep_fail [OF wf "1.prems" ne Inl] ne show ?thesis
        by (intro exI [of _ 1], subst arun.simps) simp
    next
      case (Inr a')
      have "(a', a) \<in> inv_image (less_than <*lex*> less_than <*lex*> less_than) (ameasure q0 es n)"
        using astep_decreases [OF wf "1.prems" ne Inr] by simp
      from "1.IH" [OF this astep_inv [OF wf "1.prems" ne Inr]] obtain k where
        "arun step equal q0 es k a' = Some (linearizable step q0 es n)" by blast
      with ne Inr show ?thesis by (intro exI [of _ "Suc k"], subst arun.simps) simp
    qed
  qed
qed

end

interpretation shallow: search_model step ShallowEqual for step
  by unfold_locales (simp_all add: ShallowEqual_def)

end
