(* ===== verification/PorcupineCorrect.thy ===== *)
theory PorcupineCorrect
  imports PorcupineSearch
begin

text \<open>
  The checker implements the search on sequences: heap, bit set, cache and stack of
  \<open>checkSingle\<close> represent path, position and visited configurations of
  \<open>PorcupineSearch\<close>, and every round of its loop is one step of the search. Hence
  \<open>checkSingle\<close> answers, after finitely many rounds, whether the history is linearizable.
\<close>

section \<open>Addresses\<close>

text \<open>Entries are linked from the last to the first: address \<open>a\<close> holds entry \<open>a\<close> from the end.\<close>

definition addrs :: "'v entry list \<Rightarrow> nat set \<Rightarrow> nat list" where
  "addrs es S = filter (\<lambda>a. eid (rev es ! a) \<notin> S) (rev [0..<length es])"

definition addrOf :: "'v entry list \<Rightarrow> entryKind \<Rightarrow> nat \<Rightarrow> nat" where
  "addrOf es k x = the (find (\<lambda>a. ekind (rev es ! a) = k \<and> eid (rev es ! a) = x) [0..<length es])"

lemma addrs_entries: "map ((!) (rev es)) (addrs es S) = rem es S"
proof -
  have "map ((!) (rev es)) (rev [0..<length es]) = es"
    using map_nth [of "rev es"] by (simp flip: rev_map)
  then show ?thesis
    unfolding addrs_def rem_def by (metis (no_types, lifting) comp_apply filter_cong filter_map)
qed

lemma addrs_length: "length (addrs es S) = length (rem es S)"
  using addrs_entries [of es S] by (metis length_map)

lemma addrs_nth: "k < length (rem es S) \<Longrightarrow> rev es ! (addrs es S ! k) = rem es S ! k"
  using addrs_entries [of es S] by (metis addrs_length nth_map)

lemma addrs_sorted: "sorted_wrt (>) (addrs es S)"
  unfolding addrs_def by (intro sorted_wrt_filter) (simp add: sorted_wrt_rev)

lemma addrs_distinct: "distinct (addrs es S)"
  by (simp add: addrs_def)

lemma addr_unique:
  assumes wf: "wf_history es n" and a: "a < length es" "b < length es"
    and e: "ekind (rev es ! a) = ekind (rev es ! b)" "eid (rev es ! a) = eid (rev es ! b)"
  shows "a = b"
proof -
  have "length es - Suc a = length es - Suc b"
    using wf_unique [OF wf, of "length es - Suc a" "length es - Suc b"] a e by (simp add: rev_nth)
  with a show ?thesis by linarith
qed

lemma addrOf_props:
  assumes wf: "wf_history es n" and x: "x < n"
  shows "addrOf es k x < length es" "ekind (rev es ! addrOf es k x) = k" "eid (rev es ! addrOf es k x) = x"
proof -
  let ?P = "\<lambda>a. ekind (rev es ! a) = k \<and> eid (rev es ! a) = x"
  obtain j where j: "j < length es" "ekind (es ! j) = k" "eid (es ! j) = x" by (rule wf_complete [OF wf x])
  then have "?P (length es - Suc j)" by (simp add: rev_nth)
  moreover have "length es - Suc j < length es" using j by simp
  ultimately have "find ?P [0..<length es] \<noteq> None" by (auto simp: find_None_iff)
  then obtain a where "find ?P [0..<length es] = Some a" by auto
  with find_Some_in [OF this] show "addrOf es k x < length es" "ekind (rev es ! addrOf es k x) = k"
    "eid (rev es ! addrOf es k x) = x" by (auto simp: addrOf_def)
qed

lemma addrOf_eq:
  assumes "wf_history es n" "a < length es" "eid (rev es ! a) < n"
  shows "addrOf es (ekind (rev es ! a)) (eid (rev es ! a)) = a"
  using addrOf_props [OF assms(1,3)] addr_unique [OF assms(1) _ assms(2)] by blast

lemma ret_below_call:
  assumes wf: "wf_history es n" and x: "x < n"
  shows "addrOf es returnEntry x < addrOf es callEntry x"
proof -
  note r = addrOf_props [OF wf x, of returnEntry] and c = addrOf_props [OF wf x, of callEntry]
  let ?i = "length es - Suc (addrOf es returnEntry x)"
  have "?i < length es" "es ! ?i = rev es ! addrOf es returnEntry x" using r by (auto simp: rev_nth)
  then obtain j where j: "j < ?i" "ekind (es ! j) = callEntry" "eid (es ! j) = x"
    using wf_call [OF wf, of ?i] r by auto
  then have "length es - Suc j < length es" "rev es ! (length es - Suc j) = es ! j" by (auto simp: rev_nth)
  then have "length es - Suc j = addrOf es callEntry x"
    using addr_unique [OF wf _ c(1), of "length es - Suc j"] c j by simp
  with j show ?thesis by linarith
qed

lemma valueOf_eq:
  assumes wf: "wf_history es n" and x: "x < n"
  shows "valueOf es k x = evalue (rev es ! addrOf es k x)"
proof -
  let ?P = "\<lambda>e. ekind e = k \<and> eid e = x"
  note a = addrOf_props [OF wf x, of k]
  let ?e = "rev es ! addrOf es k x"
  have mem: "?e \<in> set es" using a(1) by (metis length_rev nth_mem set_rev)
  with a have "find ?P es \<noteq> None" by (auto simp: find_None_iff)
  then obtain e where e: "find ?P es = Some e" by auto
  from find_Some_in [OF this] have "e \<in> set es" "key e = key ?e" using a by (auto simp: key_def)
  moreover have "inj_on key (set es)" using wf_distinct [OF wf] by (simp add: distinct_map key_def [abs_def])
  ultimately have "e = ?e" using mem by (auto dest: inj_onD)
  with e show ?thesis by (simp add: valueOf_def)
qed

lemma addrs_split:
  assumes wf: "wf_history es n" and x: "x < n" "x \<notin> S"
  obtains A M R where "addrs es S = A @ addrOf es callEntry x # M @ addrOf es returnEntry x # R"
    "addrs es (insert x S) = A @ M @ R"
proof -
  let ?c = "addrOf es callEntry x" and ?r = "addrOf es returnEntry x"
  note c = addrOf_props [OF wf x(1), of callEntry] and r = addrOf_props [OF wf x(1), of returnEntry]
  have mem: "?c \<in> set (addrs es S)" "?r \<in> set (addrs es S)" using c r x by (auto simp: addrs_def)
  obtain A B where AB: "addrs es S = A @ ?c # B" using split_list [OF mem(1)] by blast
  have "?r \<notin> set A"
    using addrs_sorted [of es S] ret_below_call [OF wf x(1)] by (auto simp: AB sorted_wrt_append)
  moreover have "?r \<noteq> ?c" using c r by auto
  ultimately have "?r \<in> set B" using mem(2) AB by auto
  then obtain M R where B: "B = M @ ?r # R" using split_list by metis
  have other: "eid (rev es ! a) \<noteq> x" if "a \<in> set (A @ M @ R)" for a
  proof
    assume ax: "eid (rev es ! a) = x"
    have al: "a < length es" using that AB B by (auto simp: addrs_def dest!: arg_cong [of _ _ set])
    have "a = ?c \<or> a = ?r"
      using addrOf_eq [OF wf al] ax x(1) by (cases "ekind (rev es ! a)") auto
    with that addrs_distinct [of es S] show False by (auto simp: AB B)
  qed
  have "addrs es (insert x S) = filter (\<lambda>a. eid (rev es ! a) \<noteq> x) (addrs es S)"
    unfolding addrs_def by (simp add: conj_commute)
  also have "\<dots> = A @ M @ R"
    unfolding AB B using c(3) r(3) other by (auto simp: filter_id_conv)
  finally show thesis using AB B that by blast
qed

section \<open>The heap\<close>

definition headNode :: "'v node" where
  "headNode = \<lparr>nvalue = None, nmatch = None, nid = -1, nnext = None, nprev = None\<rparr>"

text \<open>What the nodes of a history hold; lifting and unlifting does not change it.\<close>

definition holds :: "'v entry list \<Rightarrow> 'v heap \<Rightarrow> bool" where
  "holds es h = (length h = Suc (length es) \<and>
     (\<forall>a < length es. nvalue (h ! a) = evalue (rev es ! a) \<and> nid (h ! a) = int (eid (rev es ! a)) \<and>
        nmatch (h ! a) = (if ekind (rev es ! a) = returnEntry then None
                          else Some (addrOf es returnEntry (eid (rev es ! a))))))"

lemma holds_same: "holds es h \<Longrightarrow> same_nodes h h' \<Longrightarrow> holds es h'"
  by (auto simp: holds_def same_nodes_def)

lemma retBefore_addr:
  assumes wf: "wf_history es n" and a: "a < length es" "ekind (rev es ! a) = callEntry"
  shows "retBefore (rev es) a (eid (rev es ! a)) = Some (addrOf es returnEntry (eid (rev es ! a)))"
proof -
  let ?x = "eid (rev es ! a)"
  let ?P = "\<lambda>b. ekind (rev es ! b) = returnEntry \<and> eid (rev es ! b) = ?x"
  have "rev es ! a \<in> set es" using a(1) by (metis length_rev nth_mem set_rev)
  then have x: "?x < n" using wf_ids [OF wf] by blast
  note r = addrOf_props [OF wf x, of returnEntry]
  have "addrOf es callEntry ?x = a" using addrOf_eq [OF wf a(1) x] a(2) by simp
  then have "addrOf es returnEntry ?x < a" using ret_below_call [OF wf x] by simp
  with r have "find ?P (rev [0..<a]) \<noteq> None" by (auto simp: find_None_iff)
  then obtain b where b: "find ?P (rev [0..<a]) = Some b" by auto
  with find_Some_in [OF this] have "b < length es" "?P b" using a by auto
  then have "b = addrOf es returnEntry ?x" using addr_unique [OF wf _ r(1), of b] r by simp
  with b show ?thesis by (simp add: retBefore_def)
qed

lemma seg_down:
  assumes "\<And>k. k < m \<Longrightarrow> nnext (h ! Suc k) = Some k \<and> nprev (h ! k) = Some (Suc k)"
  shows "seg h (rev [0..<Suc m])"
  using assms
proof (induction m)
  case (Suc m)
  then show ?case by (simp add: upt_Suc_append)
qed simp

text \<open>The heap before the first round.\<close>

lemma start_heap:
  assumes wf: "wf_history es n"
  obtains h h2 where "makeLinkedEntries es = Inr (h, if es = [] then None else Some (length es - 1))"
    "length h = length es" "nodeLength (length h) h (if es = [] then None else Some (length es - 1)) = Some (length es)"
    "insertBefore (h @ [headNode]) (length h) (if es = [] then None else Some (length es - 1)) = Inr h2"
    "holds es h2" "chain h2 (length es # addrs es {})"
proof -
  obtain h where h: "makeLinkedEntries es = Inr (h, if es = [] then None else Some (length es - 1))" "length h = length es"
    and nd: "\<And>a. a < length es \<Longrightarrow> nvalue (h ! a) = evalue (rev es ! a) \<and> nid (h ! a) = int (eid (rev es ! a)) \<and>
       nnext (h ! a) = (if a = 0 then None else Some (a - 1)) \<and>
       nprev (h ! a) = (if Suc a < length es then Some (Suc a) else None) \<and>
       nmatch (h ! a) = (if ekind (rev es ! a) = returnEntry then None else retBefore (rev es) a (eid (rev es ! a)))"
    by (rule makeLinkedEntries_ok [of es]) blast
  have nl: "nodeLength m h (Some k) = Some (Suc k)" if "k < m" "k < length es" for m k
    using that
  proof (induction k arbitrary: m)
    case 0
    then show ?case using nd [of 0] by (cases m) auto
  next
    case (Suc k)
    then obtain m' where "m = Suc m'" by (cases m) auto
    with Suc nd [of "Suc k"] show ?case by simp
  qed
  have len: "nodeLength (length h) h (if es = [] then None else Some (length es - 1)) = Some (length es)"
    using nl [of "length es - 1" "length h"] h(2) by (cases es) auto
  let ?h2 = "frontHeap h headNode"
  have last: "h \<noteq> [] \<Longrightarrow> nprev (h ! (length h - 1)) = None"
    using nd [of "length es - 1"] h(2) by (cases es) auto
  have ins: "insertBefore (h @ [headNode]) (length h) (if es = [] then None else Some (length es - 1)) = Inr ?h2"
    using insertBefore_front [OF last, of headNode] h(2) by (cases es; cases h) auto
  have lenh2: "length ?h2 = Suc (length es)" using h(2) by (auto simp: frontHeap_def)
  have nth: "?h2 ! a = (if a = length es then (if es = [] then headNode else headNode\<lparr>nnext := Some (length es - 1)\<rparr>)
      else if Suc a = length es then (h ! a)\<lparr>nprev := Some (length es)\<rparr> else h ! a)" if "a < Suc (length es)" for a
    using that h(2) by (auto simp: frontHeap_def nth_append nth_list_update)
  have "holds es ?h2"
    unfolding holds_def
  proof (intro conjI allI impI)
    fix a assume a: "a < length es"
    then have "nmatch (?h2 ! a) = nmatch (h ! a)" "nvalue (?h2 ! a) = nvalue (h ! a)" "nid (?h2 ! a) = nid (h ! a)"
      using nth [of a] by auto
    moreover have "ekind (rev es ! a) \<noteq> returnEntry \<Longrightarrow> ekind (rev es ! a) = callEntry"
      by (cases "ekind (rev es ! a)") auto
    ultimately show "nvalue (?h2 ! a) = evalue (rev es ! a)" "nid (?h2 ! a) = int (eid (rev es ! a))"
      "nmatch (?h2 ! a) = (if ekind (rev es ! a) = returnEntry then None
                          else Some (addrOf es returnEntry (eid (rev es ! a))))"
      using nd [OF a] retBefore_addr [OF wf a] by auto
  qed (use lenh2 in simp)
  moreover have "chain ?h2 (length es # addrs es {})"
  proof -
    have L: "length es # addrs es {} = rev [0..<Suc (length es)]" by (simp add: addrs_def)
    have "nnext (?h2 ! Suc k) = Some k \<and> nprev (?h2 ! k) = Some (Suc k)" if "k < length es" for k
      using that nth [of k] nth [of "Suc k"] nd [of k] nd [of "Suc k"] by auto
    then have "seg ?h2 (rev [0..<Suc (length es)])" by (rule seg_down)
    moreover have "nnext (?h2 ! 0) = None" using nth [of 0] nd [of 0] by (cases es) (auto simp: headNode_def)
    moreover have "last (rev [0..<Suc (length es)]) = 0" by (simp add: last_rev)
    ultimately show ?thesis unfolding L chain_def using lenh2 by auto
  qed
  ultimately show thesis using that [OF h len ins] by blast
qed

text \<open>The heap after a path has been lifted.\<close>

definition heapOf :: "'v entry list \<Rightarrow> 'v heap \<Rightarrow> nat list \<Rightarrow> 'v heap" where
  "heapOf es h p = foldl (\<lambda>h x. lifted h (addrOf es callEntry x)) h p"

lemma heapOf_step:
  assumes wf: "wf_history es n" and h: "holds es h" "chain h (length es # addrs es S)" and x: "x < n" "x \<notin> S"
  shows "lift h (Some (addrOf es callEntry x)) = Inr (lifted h (addrOf es callEntry x))"
    "unlift (lifted h (addrOf es callEntry x)) (Some (addrOf es callEntry x)) = Inr h"
    "holds es (lifted h (addrOf es callEntry x))"
    "chain (lifted h (addrOf es callEntry x)) (length es # addrs es (insert x S))"
proof -
  let ?c = "addrOf es callEntry x" and ?r = "addrOf es returnEntry x"
  obtain A M R where A: "addrs es S = A @ ?c # M @ ?r # R" "addrs es (insert x S) = A @ M @ R"
    by (rule addrs_split [OF wf x])
  obtain A' p where A': "length es # A = A' @ [p]" by (metis list.distinct(1) rev_exhaust)
  then have L: "length es # addrs es S = A' @ p # ?c # M @ ?r # R"
    "length es # addrs es (insert x S) = A' @ p # M @ R"
    unfolding A by (metis append.assoc append_Cons append_Nil)+
  have m: "nmatch (h ! ?c) = Some ?r"
    using h(1) addrOf_props [OF wf x(1), of callEntry] by (simp add: holds_def)
  note lk = lift_ok [OF h(2) [unfolded L(1)] m]
  show "lift h (Some ?c) = Inr (lifted h ?c)" "unlift (lifted h ?c) (Some ?c) = Inr h" using lk by blast+
  show "holds es (lifted h ?c)" using holds_same [OF h(1) lk(4)] .
  show "chain (lifted h ?c) (length es # addrs es (insert x S))" unfolding L(2) by (rule lk(2))
qed

lemma heapOf_ok:
  assumes wf: "wf_history es n" and h: "holds es h" "chain h (length es # addrs es {})"
    and p: "distinct p" "set p \<subseteq> {..<n}"
  shows "holds es (heapOf es h p) \<and> chain (heapOf es h p) (length es # addrs es (set p))"
  using p
proof (induction p rule: rev_induct)
  case Nil
  then show ?case using h by (simp add: heapOf_def)
next
  case (snoc x p)
  then have ih: "holds es (heapOf es h p)" "chain (heapOf es h p) (length es # addrs es (set p))"
    and x: "x < n" "x \<notin> set p" by auto
  from heapOf_step(3,4) [OF wf ih x] show ?case by (simp add: heapOf_def)
qed

section \<open>The simulation\<close>

text \<open>The stack of the checker: the call and the state before it, for every operation of the path.\<close>

definition callsOf :: "('s \<Rightarrow> 'v iface \<Rightarrow> 'v iface \<Rightarrow> bool \<times> 's) \<Rightarrow> 'v entry list \<Rightarrow> 's \<Rightarrow> nat list \<Rightarrow> (nat \<times> 's) list" where
  "callsOf step es q0 p =
    map (\<lambda>i. (addrOf es callEntry (p ! i), stateAfter step es q0 (take i p))) [0..<length p]"

lemma callsOf_snoc:
  "callsOf step es q0 (p @ [x]) = callsOf step es q0 p @ [(addrOf es callEntry x, stateAfter step es q0 p)]"
  by (auto simp: callsOf_def nth_append)

lemma callsOf_Nil_iff: "callsOf step es q0 p = [] \<longleftrightarrow> p = []"
  by (simp add: callsOf_def)

lemma callsOf_mem: "(a, q) \<in> set (callsOf step es q0 p) \<Longrightarrow> \<exists>x \<in> set p. a = addrOf es callEntry x"
  by (auto simp: callsOf_def)

text \<open>The cache of the checker holds the configurations entered.\<close>

definition cacheRep :: "nat \<Rightarrow> 's cache \<Rightarrow> (nat set \<times> 's) set \<Rightarrow> bool" where
  "cacheRep m c V = (bs.bucketed c \<and> (\<forall>k. \<forall>(b, q) \<in> set (c k). capacity b = m) \<and>
     V = {(bits b, q) | k b q. (b, q) \<in> set (c k)})"

lemma cacheContains_iff:
  assumes "cacheRep m c V" "capacity lin = m"
  shows "cacheContains equal c lin q \<longleftrightarrow> seen equal V (bits lin) q"
proof -
  have bk: "bs.bucketed c" and cp: "\<And>k b q. (b, q) \<in> set (c k) \<Longrightarrow> capacity b = m"
    and V: "V = {(bits b, q) | k b q. (b, q) \<in> set (c k)}"
    using assms(1) by (auto simp: cacheRep_def)
  have "cacheContains equal c lin q \<longleftrightarrow> bs.lookup equal c lin q"
    by (auto simp: cacheContains_def bs.lookup_def list_ex_iff)
  also have "\<dots> \<longleftrightarrow> (\<exists>k. \<exists>(b, q') \<in> set (c k). bitset_equals lin b \<and> equal q q')"
    by (rule bs.lookup_any_bucket [OF bk])
  also have "\<dots> \<longleftrightarrow> (\<exists>k b q'. (b, q') \<in> set (c k) \<and> bits lin = bits b \<and> equal q q')"
  proof -
    have "bitset_equals lin b \<longleftrightarrow> bits lin = bits b" if "(b, q') \<in> set (c k)" for k b q'
      using bs.eq_iff [of lin b] cp [OF that] assms(2) by (simp del: bitset_equals_iff)
    then show ?thesis unfolding Bex_def split_paired_Ex prod.case by metis
  qed
  also have "\<dots> \<longleftrightarrow> seen equal V (bits lin) q" unfolding seen_def V by auto
  finally show ?thesis .
qed

lemma cacheRep_insert:
  assumes "cacheRep m c V" "capacity lin = m"
  shows "cacheRep m (c(bitset_hash lin := c (bitset_hash lin) @ [(lin, q)])) (insert (bits lin, q) V)"
proof -
  have bk: "bs.bucketed c" and cp: "\<And>k b q. (b, q) \<in> set (c k) \<Longrightarrow> capacity b = m"
    and V: "V = {(bits b, q) | k b q. (b, q) \<in> set (c k)}"
    using assms(1) by (auto simp: cacheRep_def)
  let ?c = "c(bitset_hash lin := c (bitset_hash lin) @ [(lin, q)])"
  have mem: "(b, r) \<in> set (?c k) \<longleftrightarrow> (b, r) \<in> set (c k) \<or> k = bitset_hash lin \<and> b = lin \<and> r = q" for b r k
    by auto
  have "bs.bucketed ?c" using bk unfolding bs.bucketed_def by auto
  moreover have "\<forall>k. \<forall>(b, q) \<in> set (?c k). capacity b = m" using cp assms(2) by auto
  moreover have "insert (bits lin, q) V = {(bits b, r) | k b r. (b, r) \<in> set (?c k)}"
    unfolding V mem by blast
  ultimately show ?thesis by (simp add: cacheRep_def)
qed

definition simulates :: "('s \<Rightarrow> 'v iface \<Rightarrow> 'v iface \<Rightarrow> bool \<times> 's) \<Rightarrow> 's \<Rightarrow> 'v entry list \<Rightarrow> nat \<Rightarrow> 'v heap \<Rightarrow>
    ('v, 's) search \<Rightarrow> 's asearch \<Rightarrow> bool" where
  "simulates step q0 es n h0 s a = (let p = aPath a in
     sCalls s = callsOf step es q0 p \<and> sState s = stateAfter step es q0 p \<and> sHeap s = heapOf es h0 p \<and>
     (rem es (set p) \<noteq> [] \<longrightarrow> sEntry s = Some (addrs es (set p) ! aPos a)) \<and>
     bits (sLin s) = set p \<and> capacity (sLin s) = capacity (newBitset n) \<and>
     cacheRep (capacity (newBitset n)) (sCache s) (aSeen a) \<and> length (sLongest s) = n)"

lemma chain_next:
  assumes "chain h L" "Suc k < length L"
  shows "nnext (h ! (L ! k)) = Some (L ! Suc k)"
proof -
  have "L = take k L @ L ! k # L ! Suc k # drop (Suc (Suc k)) L"
    using assms(2) by (metis Cons_nth_drop_Suc Suc_lessD id_take_nth_drop)
  with assms(1) chain_nth(2) show ?thesis by metis
qed

text \<open>What the checker reads at the address of a remaining entry.\<close>

lemma read_entry:
  assumes wf: "wf_history es n" and h: "holds es h" and k: "k < length (rem es S)"
  defines "a \<equiv> addrs es S ! k" and "e \<equiv> rem es S ! k"
  shows "a < length es" "eid e < n" "eid e \<notin> S" "a = addrOf es (ekind e) (eid e)" "nid (h ! a) = int (eid e)"
    "nvalue (h ! a) = valueOf es (ekind e) (eid e)"
    "nmatch (h ! a) = (if ekind e = returnEntry then None else Some (addrOf es returnEntry (eid e)))"
    "nvalue (h ! addrOf es returnEntry (eid e)) = valueOf es returnEntry (eid e)"
proof -
  have "a \<in> set (addrs es S)" using k by (simp add: a_def addrs_length)
  then show a: "a < length es" by (auto simp: addrs_def)
  have e: "rev es ! a = e" unfolding a_def e_def by (rule addrs_nth [OF k])
  have "e \<in> set (rem es S)" using k by (simp add: e_def)
  then have "e \<in> set es" and nS: "eid e \<notin> S" by (auto simp: rem_def)
  then show x: "eid e < n" and "eid e \<notin> S" using wf_ids [OF wf] by auto
  show ad: "a = addrOf es (ekind e) (eid e)" using addrOf_eq [OF wf a] e x by simp
  have hd: "nvalue (h ! b) = evalue (rev es ! b)" if "b < length es" for b
    using h that by (simp add: holds_def)
  show "nid (h ! a) = int (eid e)"
    "nmatch (h ! a) = (if ekind e = returnEntry then None else Some (addrOf es returnEntry (eid e)))"
    using h a e by (simp_all add: holds_def)
  show "nvalue (h ! a) = valueOf es (ekind e) (eid e)"
    using hd [OF a] valueOf_eq [OF wf x] ad by simp
  show "nvalue (h ! addrOf es returnEntry (eid e)) = valueOf es returnEntry (eid e)"
    using hd addrOf_props(1) [OF wf x] valueOf_eq [OF wf x] by simp
qed

lemma updateLongest_ok:
  fixes calls :: "(nat \<times> 's) list"
  assumes "length lg = n" "\<And>a q. (a, q) \<in> set calls \<Longrightarrow> 0 \<le> nid (h ! a) \<and> nid (h ! a) < int n"
  shows "\<exists>lg'. updateLongest h calls lg = Inr lg' \<and> length lg' = n"
proof -
  define sq where "sq = map (\<lambda>(a, s). nid (h ! a)) calls"
  let ?f = "\<lambda>(a, s :: 's) lg. rbind (go_nth lg (nid (h ! a))) (\<lambda>old.
       if (case old of None \<Rightarrow> True | Some l \<Rightarrow> len calls > len l)
       then go_upd lg (nid (h ! a)) (Some sq) else Inr lg)"
  have "\<exists>lg'. for_each cs ?f lg = Inr lg' \<and> length lg' = n" if "set cs \<subseteq> set calls" for cs
    using that assms(1)
  proof (induction cs arbitrary: lg)
    case (Cons c cs)
    obtain a q where c: "c = (a, q)" by (cases c)
    with Cons.prems assms(2) have "0 \<le> nid (h ! a)" "nid (h ! a) < int n" by auto
    then have "\<exists>lg1. ?f c lg = Inr lg1 \<and> length lg1 = n"
      using Cons.prems(2)
      by (cases "case lg ! nat (nid (h ! a)) of None \<Rightarrow> True | Some l \<Rightarrow> len calls > len l")
        (simp_all add: c go_nth_def go_upd_def)
    then obtain lg1 where "?f c lg = Inr lg1" "length lg1 = n" by blast
    with Cons.IH [of lg1] Cons.prems(1) show ?case by auto
  qed simp
  from this [of calls] show ?thesis unfolding updateLongest_def Let_def sq_def by blast
qed

text \<open>The heap before the first round belongs to the history, and the model answers for every
  operation of the history.\<close>

definition answers :: "('s \<Rightarrow> 'v iface \<Rightarrow> 'v iface \<Rightarrow> (bool \<times> 's) res) \<Rightarrow> ('s \<Rightarrow> 'v iface \<Rightarrow> 'v iface \<Rightarrow> bool \<times> 's) \<Rightarrow>
    'v entry list \<Rightarrow> nat \<Rightarrow> bool" where
  "answers stepR step es n = (\<forall>x < n. \<forall>q. stepR q (valueOf es callEntry x) (valueOf es returnEntry x) = Inr (stepOp step es q x))"

definition run_ok :: "('s \<Rightarrow> 'v iface \<Rightarrow> 'v iface \<Rightarrow> (bool \<times> 's) res) \<Rightarrow> ('s \<Rightarrow> 'v iface \<Rightarrow> 'v iface \<Rightarrow> bool \<times> 's) \<Rightarrow>
    'v entry list \<Rightarrow> nat \<Rightarrow> 'v heap \<Rightarrow> bool" where
  "run_ok stepR step es n h0 = (wf_history es n \<and> holds es h0 \<and> chain h0 (length es # addrs es {}) \<and> answers stepR step es n)"

lemma run_okD:
  assumes "run_ok stepR step es n h0"
  shows run_wf: "wf_history es n" and run_holds: "holds es h0" and run_chain: "chain h0 (length es # addrs es {})"
  using assms by (simp_all add: run_ok_def)

lemma run_answers:
  "run_ok stepR step es n h0 \<Longrightarrow> x < n \<Longrightarrow> stepR q (valueOf es callEntry x) (valueOf es returnEntry x) = Inr (stepOp step es q x)"
  by (simp add: run_ok_def answers_def)

context search_model
begin

lemma heap_at:
  assumes rc: "run_ok stepR step es n h0" and prems: "ainv step equal q0 es n a" "simulates step q0 es n h0 s a"
  shows "holds es (sHeap s)" "chain (sHeap s) (length es # addrs es (set (aPath a)))"
proof -
  have "validFrom step es n {} q0 (aPath a)" using prems(1) by (simp add: ainv_def)
  from validFrom_props [OF this] have "distinct (aPath a)" "set (aPath a) \<subseteq> {..<n}" by auto
  from heapOf_ok [OF run_okD [OF rc] this] prems(2)
  show "holds es (sHeap s)" "chain (sHeap s) (length es # addrs es (set (aPath a)))"
    by (auto simp: simulates_def Let_def)
qed

lemma head_next:
  assumes "chain h (length es # addrs es S)"
  shows "nnext (h ! length es) = (if rem es S = [] then None else Some (addrs es S ! 0))"
proof (cases "rem es S = []")
  case True
  then have "addrs es S = []" using addrs_length [of es S] by simp
  with assms True show ?thesis by (simp add: chain_def)
next
  case False
  then have "Suc 0 < length (length es # addrs es S)" using addrs_length [of es S] by simp
  from chain_next [OF assms this] False show ?thesis by simp
qed

lemma entry_next:
  assumes "chain h (length es # addrs es S)" "Suc k < length (rem es S)"
  shows "nnext (h ! (addrs es S ! k)) = Some (addrs es S ! Suc k)"
  using chain_next [OF assms(1), of "Suc k"] assms(2) by (simp add: addrs_length)

lemma room: "x < n \<Longrightarrow> capacity b = capacity (newBitset n) \<Longrightarrow> x < capacity b"
  using bs.mk_cap [of n] by simp

text \<open>A round on a call entry.\<close>

lemma step_call:
  assumes rc: "run_ok stepR step es n h0" and inv: "ainv step equal q0 es n a" and sim: "simulates step q0 es n h0 s a"
    and ne: "rem es (set (aPath a)) \<noteq> []" and c: "ekind (rem es (set (aPath a)) ! aPos a) = callEntry"
  shows "\<exists>s' a'. searchStep stepR equal cp (length es) s = Inr (Inr s') \<and> astep step equal q0 es a = Inr a' \<and>
    simulates step q0 es n h0 s' a'"
proof -
  let ?S = "set (aPath a)" and ?q = "stateAfter step es q0 (aPath a)"
  let ?e = "rem es ?S ! aPos a" and ?ad = "addrs es ?S ! aPos a"
  let ?x = "eid ?e"
  let ?ok = "fst (stepOp step es ?q ?x)" and ?q' = "snd (stepOp step es ?q ?x)"
  have k: "aPos a < length (rem es ?S)" using inv ne by (simp add: ainv_def)
  note hp = heap_at [OF rc inv sim]
  note rd = read_entry [OF run_wf [OF rc] hp(1) k]
  have sm: "sCalls s = callsOf step es q0 (aPath a)" "sState s = ?q" "sHeap s = heapOf es h0 (aPath a)"
    "sEntry s = Some ?ad" "bits (sLin s) = ?S" "capacity (sLin s) = capacity (newBitset n)"
    "cacheRep (capacity (newBitset n)) (sCache s) (aSeen a)" "length (sLongest s) = n"
    using sim ne by (auto simp: simulates_def Let_def)
  have step: "stepR (sState s) (nvalue (sHeap s ! ?ad)) (nvalue (sHeap s ! addrOf es returnEntry ?x)) = Inr (?ok, ?q')"
    using rd(6,8) c sm(2) run_answers [OF rc rd(2)] by simp
  have match: "nmatch (sHeap s ! ?ad) = Some (addrOf es returnEntry ?x)" using rd(7) c by simp
  obtain lin where lin: "bitset_set (sLin s) ?x = Inr lin" "bits lin = insert ?x ?S" "capacity lin = capacity (newBitset n)"
    using bs.put_ok [OF room [OF rd(2) sm(6)]] sm(5,6) by auto
  have cc: "cacheContains equal (sCache s) lin ?q' \<longleftrightarrow> seen equal (aSeen a) (insert ?x ?S) ?q'"
    using cacheContains_iff [OF sm(7) lin(3)] lin(2) by simp
  show ?thesis
  proof (cases "?ok \<and> \<not> seen equal (aSeen a) (insert ?x ?S) ?q'")
    case True
    have ad: "?ad = addrOf es callEntry ?x" using rd(4) c by simp
    note hs = heapOf_step [OF run_wf [OF rc] hp rd(2,3), folded ad]
    define s' where "s' = s\<lparr>sCache := (sCache s)(bitset_hash lin := sCache s (bitset_hash lin) @ [(lin, ?q')]),
        sCalls := sCalls s @ [(?ad, ?q)], sState := ?q', sLin := lin, sHeap := lifted (sHeap s) ?ad,
        sEntry := nnext (lifted (sHeap s) ?ad ! length es)\<rparr>"
    have "searchStep stepR equal cp (length es) s = Inr (Inr s')"
      using True cc step match lin(1) hs(1) rd(5) sm(2,4)
      by (simp add: searchStep_def deref_def Let_def s'_def)
    moreover have "astep step equal q0 es a = Inr \<lparr>aPath = aPath a @ [?x], aPos = 0, aSeen = insert (insert ?x ?S, ?q') (aSeen a)\<rparr>"
      using True c by (simp add: astep_def Let_def)
    moreover have "simulates step q0 es n h0 s' \<lparr>aPath = aPath a @ [?x], aPos = 0, aSeen = insert (insert ?x ?S, ?q') (aSeen a)\<rparr>"
      using sm lin cacheRep_insert [OF sm(7) lin(3), of ?q'] head_next [OF hs(4)] ad
      by (simp add: simulates_def s'_def callsOf_snoc heapOf_def stepOp_def)
    ultimately show ?thesis by blast
  next
    case False
    have "Suc (aPos a) < length (rem es ?S)" by (rule rem_call_not_last [OF run_wf [OF rc] k c])
    from entry_next [OF hp(2) this] have nx: "nnext (sHeap s ! ?ad) = Some (addrs es ?S ! Suc (aPos a))" .
    have "searchStep stepR equal cp (length es) s = Inr (Inr (s\<lparr>sEntry := nnext (sHeap s ! ?ad)\<rparr>))"
      using False cc step match lin(1) rd(5) sm(2,4)
      by (auto simp: searchStep_def deref_def Let_def case_prod_unfold)
    moreover have "astep step equal q0 es a = Inr (a\<lparr>aPos := Suc (aPos a)\<rparr>)"
      using False c by (auto simp: astep_def Let_def)
    moreover have "simulates step q0 es n h0 (s\<lparr>sEntry := nnext (sHeap s ! ?ad)\<rparr>) (a\<lparr>aPos := Suc (aPos a)\<rparr>)"
      using sm nx by (simp add: simulates_def)
    ultimately show ?thesis by blast
  qed
qed

text \<open>A round on a return entry: the checker fails, or takes the last call back.\<close>

lemma step_return:
  assumes rc: "run_ok stepR step es n h0" and inv: "ainv step equal q0 es n a" and sim: "simulates step q0 es n h0 s a"
    and ne: "rem es (set (aPath a)) \<noteq> []" and c: "ekind (rem es (set (aPath a)) ! aPos a) = returnEntry"
    and p: "aPath a = p @ [x]"
  shows "\<exists>s' a'. searchStep stepR equal cp (length es) s = Inr (Inr s') \<and> astep step equal q0 es a = Inr a' \<and>
    simulates step q0 es n h0 s' a'"
proof -
  let ?S = "set (aPath a)" and ?q = "stateAfter step es q0 p" and ?h = "heapOf es h0 p"
  let ?ad = "addrs es ?S ! aPos a" and ?c = "addrOf es callEntry x"
  have k: "aPos a < length (rem es ?S)" using inv ne by (simp add: ainv_def)
  note hp = heap_at [OF rc inv sim]
  note rd = read_entry [OF run_wf [OF rc] hp(1) k]
  have sm: "sCalls s = callsOf step es q0 (p @ [x])" "sHeap s = lifted ?h ?c" "sEntry s = Some ?ad"
    "bits (sLin s) = insert x (set p)" "capacity (sLin s) = capacity (newBitset n)"
    "cacheRep (capacity (newBitset n)) (sCache s) (aSeen a)" "length (sLongest s) = n"
    using sim ne by (auto simp: simulates_def Let_def p heapOf_def)
  have v: "validFrom step es n {} q0 (p @ [x])" using inv by (simp add: ainv_def p)
  have d: "distinct p" "x \<notin> set p" "set p \<subseteq> {..<n}" "x < n" using validFrom_props [OF v] by auto
  have al: "allowed es n (set p) x" using v by (simp add: validFrom_append)
  note hq = heapOf_ok [OF run_okD [OF rc] d(1,3), THEN conjunct1] heapOf_ok [OF run_okD [OF rc] d(1,3), THEN conjunct2]
  note hs = heapOf_step [OF run_wf [OF rc] hq d(4,2)]
  have nidc: "nid (sHeap s ! addrOf es callEntry y) = int y" if "y < n" for y
    using hp(1) addrOf_props [OF run_wf [OF rc] that, of callEntry] by (simp add: holds_def)
  have "\<exists>lg. (if cp then updateLongest (sHeap s) (sCalls s) (sLongest s) else Inr (sLongest s)) = Inr lg \<and> length lg = n"
  proof (cases cp)
    case True
    have "0 \<le> nid (sHeap s ! b) \<and> nid (sHeap s ! b) < int n" if "(b, r) \<in> set (sCalls s)" for b r
    proof -
      from callsOf_mem [of b r step es q0 "p @ [x]"] that sm(1) obtain y where "y \<in> set (p @ [x])" "b = addrOf es callEntry y"
        by auto
      with nidc [of y] d show ?thesis by auto
    qed
    from updateLongest_ok [OF sm(7) this, of "sCalls s"] True show ?thesis by auto
  qed (use sm in simp)
  then obtain lg where lg: "(if cp then updateLongest (sHeap s) (sCalls s) (sLongest s) else Inr (sLongest s)) = Inr lg"
    "length lg = n" by blast
  obtain lin where lin: "bitset_clear (sLin s) x = Inr lin" "bits lin = set p" "capacity lin = capacity (newBitset n)"
    using bs.del_ok [OF room [OF d(4) sm(5)]] sm(4,5) d(2) by auto
  obtain A e B where A: "rem es (set p) = A @ e # B" "ekind e = callEntry" "eid e = x"
    by (rule rem_allowed_head [OF run_wf [OF rc] al])
  have nth: "rem es (set p) ! length A = e" "length A < length (rem es (set p))" using A(1) by auto
  have pos: "callPos es (set p) x = length A" using callPos_eq [OF run_wf [OF rc] nth(2)] nth(1) A by simp
  have "?c = addrs es (set p) ! length A" using read_entry(4) [OF run_wf [OF rc] hq(1) nth(2)] nth(1) A by simp
  moreover have "Suc (length A) < length (rem es (set p))"
    using rem_call_not_last [OF run_wf [OF rc] nth(2)] nth(1) A(2) by simp
  ultimately have nx: "nnext (?h ! ?c) = Some (addrs es (set p) ! Suc (callPos es (set p) x))"
    using entry_next [OF hq(2)] pos by simp
  define s' where "s' = s\<lparr>sLongest := lg, sState := ?q, sLin := lin, sCalls := callsOf step es q0 p,
      sHeap := ?h, sEntry := nnext (?h ! ?c)\<rparr>"
  have "searchStep stepR equal cp (length es) s = Inr (Inr s')"
    using rd(7) c sm(3) lg(1) lin(1) hs(2) nidc [OF d(4)]
    by (simp add: searchStep_def deref_def sm(1) sm(2) callsOf_snoc Let_def s'_def)
  moreover have "astep step equal q0 es a = Inr (a\<lparr>aPath := p, aPos := Suc (callPos es (set p) x)\<rparr>)"
    using c by (simp add: astep_def Let_def p)
  moreover have "simulates step q0 es n h0 s' (a\<lparr>aPath := p, aPos := Suc (callPos es (set p) x)\<rparr>)"
    using sm lin lg nx by (simp add: simulates_def s'_def)
  ultimately show ?thesis by blast
qed

lemma step_fails:
  assumes rc: "run_ok stepR step es n h0" and inv: "ainv step equal q0 es n a" and sim: "simulates step q0 es n h0 s a"
    and ne: "rem es (set (aPath a)) \<noteq> []" and c: "ekind (rem es (set (aPath a)) ! aPos a) = returnEntry"
    and p: "aPath a = []"
  shows "\<exists>lg. searchStep stepR equal cp (length es) s = Inr (Inl lg) \<and> astep step equal q0 es a = Inl ()"
proof -
  have k: "aPos a < length (rem es (set (aPath a)))" using inv ne by (simp add: ainv_def)
  note rd = read_entry [OF run_wf [OF rc] heap_at(1) [OF rc inv sim] k]
  have "sEntry s = Some (addrs es (set (aPath a)) ! aPos a)" "sCalls s = []"
    using sim ne by (auto simp: simulates_def Let_def p callsOf_def)
  with rd(7) c show ?thesis by (simp add: searchStep_def deref_def astep_def Let_def p)
qed

text \<open>Every round of the checker is a step of the search.\<close>

lemma searchStep_sim:
  assumes rc: "run_ok stepR step es n h0" and inv: "ainv step equal q0 es n a" and sim: "simulates step q0 es n h0 s a"
    and ne: "rem es (set (aPath a)) \<noteq> []"
  shows "(\<exists>lg. searchStep stepR equal cp (length es) s = Inr (Inl lg) \<and> astep step equal q0 es a = Inl ()) \<or>
    (\<exists>s' a'. searchStep stepR equal cp (length es) s = Inr (Inr s') \<and> astep step equal q0 es a = Inr a' \<and>
      simulates step q0 es n h0 s' a')"
proof (cases "ekind (rem es (set (aPath a)) ! aPos a)")
  case callEntry
  from step_call [OF rc inv sim ne this] show ?thesis by blast
next
  case ret: returnEntry
  show ?thesis
  proof (cases "aPath a" rule: rev_cases)
    case Nil
    from step_fails [OF rc inv sim ne ret this] show ?thesis by blast
  next
    case (snoc p x)
    from step_return [OF rc inv sim ne ret this] show ?thesis by blast
  qed
qed

text \<open>When no entry is left, the loop answers with the path, which is a linearization.\<close>

lemma searchLoop_end:
  assumes rc: "run_ok stepR step es n h0" and inv: "ainv step equal q0 es n a" and sim: "simulates step q0 es n h0 s a"
    and e: "rem es (set (aPath a)) = []"
  shows "searchLoop stepR equal cp (length es) n kill s = Inr (Some (True, replicate n (Some (map int (aPath a))))) \<and>
    linearization step q0 es n (aPath a)"
proof
  have v: "validFrom step es n {} q0 (aPath a)" using inv by (simp add: ainv_def)
  have sub: "set (aPath a) \<subseteq> {..<n}" using validFrom_props [OF v] by blast
  have nid: "nid (sHeap s ! addrOf es callEntry y) = int y" if "y < n" for y
    using heap_at(1) [OF rc inv sim] addrOf_props [OF run_wf [OF rc] that, of callEntry] by (simp add: holds_def)
  have "map (\<lambda>(b, q). nid (sHeap s ! b)) (callsOf step es q0 (aPath a)) = map int (aPath a)"
    using sub nid by (intro nth_equalityI) (auto simp: callsOf_def subset_iff)
  moreover have "sCalls s = callsOf step es q0 (aPath a)" using sim by (simp add: simulates_def Let_def)
  ultimately show "searchLoop stepR equal cp (length es) n kill s = Inr (Some (True, replicate n (Some (map int (aPath a)))))"
    using head_next [OF heap_at(2) [OF rc inv sim]] e by (subst searchLoop.simps) simp
  have "set (aPath a) = {..<n}" using rem_empty_iff [OF run_wf [OF rc] sub] e by simp
  with v show "linearization step q0 es n (aPath a)" by (simp add: linearization_iff [OF run_wf [OF rc]])
qed

lemma searchLoop_sim:
  assumes rc: "run_ok stepR step es n h0" and prems: "ainv step equal q0 es n a" "simulates step q0 es n h0 s a" "arun step equal q0 es k a = Some r"
  shows "\<exists>lg. searchLoop stepR equal cp (length es) n (replicate k False) s = Inr (Some (r, lg)) \<and>
    (r \<longrightarrow> (\<exists>xs. linearization step q0 es n xs \<and> lg = replicate n (Some (map int xs))))"
  using prems
proof (induction k arbitrary: a s)
  case 0
  then have "rem es (set (aPath a)) = []" "r"
    by (auto simp: arun.simps [of step equal q0 es 0] split: if_splits)
  with searchLoop_end [OF rc 0(1,2), of cp] show ?case by auto
next
  case (Suc k)
  show ?case
  proof (cases "rem es (set (aPath a)) = []")
    case True
    with searchLoop_end [OF rc Suc.prems(1,2), of cp] Suc.prems(3) show ?thesis
      by (auto simp: arun.simps [of step equal q0 es "Suc k"])
  next
    case ne: False
    with head_next [OF heap_at(2) [OF rc Suc.prems(1,2)]] have nx: "nnext (sHeap s ! length es) \<noteq> None" by simp
    from searchStep_sim [OF rc Suc.prems(1,2) ne, of cp] show ?thesis
    proof (elim disjE exE conjE)
      fix lg assume "searchStep stepR equal cp (length es) s = Inr (Inl lg)" "astep step equal q0 es a = Inl ()"
      with Suc.prems(3) ne nx show ?thesis
        by (simp add: searchLoop.simps [of _ _ _ _ _ "_ # _"] arun.simps [of step equal q0 es "Suc k"])
    next
      fix s' a' assume st: "searchStep stepR equal cp (length es) s = Inr (Inr s')" "astep step equal q0 es a = Inr a'"
        "simulates step q0 es n h0 s' a'"
      then have "arun step equal q0 es k a' = Some r"
        using Suc.prems(3) ne by (simp add: arun.simps [of step equal q0 es "Suc k"])
      from Suc.IH [OF astep_inv [OF run_wf [OF rc] Suc.prems(1) ne st(2)] st(3) this] st(1) nx show ?thesis
        by (auto simp: searchLoop.simps [of _ _ _ _ _ "_ # _"])
    qed
  qed
qed

text \<open>The whole check of one partition: the state the loop starts from, and its answer.\<close>

lemma checkSingle_start:
  assumes wf: "wf_history es n" and m: "answers (Step model) step es n" "Equal model = Some equal"
  obtains h0 s where "run_ok (Step model) step es n h0" "simulates step (Init model) es n h0 s astart"
    "sLongest s = replicate n None"
    "\<And>cp kill. checkSingle model es cp kill = searchLoop (Step model) equal cp (length es) n kill s"
proof -
  let ?e = "if es = [] then None else Some (length es - 1)"
  obtain h h2 where h: "makeLinkedEntries es = Inr (h, ?e)" "length h = length es"
      "nodeLength (length h) h ?e = Some (length es)" "insertBefore (h @ [headNode]) (length h) ?e = Inr h2"
      "holds es h2" "chain h2 (length es # addrs es {})"
    by (rule start_heap [OF wf])
  let ?s = "\<lparr>sHeap = h2, sEntry = ?e, sLin = newBitset n, sCache = (\<lambda>k. []), sCalls = [],
       sState = Init model, sLongest = replicate n None\<rparr>"
  have "run_ok (Step model) step es n h2" using wf h m by (simp add: run_ok_def)
  moreover have "addrs es {} = rev [0..<length es]" by (simp add: addrs_def)
  then have "simulates step (Init model) es n h2 ?s astart"
    using bs.mk_elems [of n]
    by (auto simp: simulates_def astart_def callsOf_def heapOf_def cacheRep_def bs.bucketed_def rem_def rev_nth)
  moreover have "length es div 2 = n" using wf_length [OF wf] by simp
  then have "checkSingle model es cp kill = searchLoop (Step model) equal cp (length es) n kill ?s" for cp kill
    using h m by (simp add: checkSingle_def headNode_def [symmetric] Let_def)
  ultimately show thesis using that [of h2 ?s] by simp
qed

lemma checkSingle_ok:
  assumes wf: "wf_history es n" and m: "answers (Step model) step es n" "Equal model = Some equal"
  shows "\<exists>k lg. checkSingle model es cp (replicate k False) = Inr (Some (linearizable step (Init model) es n, lg)) \<and>
    (linearizable step (Init model) es n \<longrightarrow>
      (\<exists>xs. linearization step (Init model) es n xs \<and> lg = replicate n (Some (map int xs))))"
proof -
  obtain h0 s where s: "run_ok (Step model) step es n h0" "simulates step (Init model) es n h0 s astart"
    "\<And>cp kill. checkSingle model es cp kill = searchLoop (Step model) equal cp (length es) n kill s"
    by (rule checkSingle_start [OF assms]) blast
  obtain k where k: "arun step equal (Init model) es k astart = Some (linearizable step (Init model) es n)"
    using arun_correct [OF wf ainv_start [OF wf]] by blast
  from searchLoop_sim [OF s(1) ainv_start [OF wf] s(2) k, of cp] s(3) show ?thesis by (intro exI [of _ k]) simp
qed

end

end
