(* ===== verification/PorcupineTop.thy ===== *)
theory PorcupineTop
  imports PorcupineCorrect
begin

text \<open>
  The entry points of the checker: recorded operations become well-formed histories, the
  order of the entries is the order in real time, and the goroutines that check the
  partitions are collected into one answer.
\<close>

section \<open>Recorded operations\<close>

text \<open>The specification in terms of the operations themselves: an order of all operations
  that the model can run and that never puts an operation before one that had returned
  when it was called.\<close>

fun runs :: "('s \<Rightarrow> 'v iface \<Rightarrow> 'v iface \<Rightarrow> bool \<times> 's) \<Rightarrow> 'v Operation list \<Rightarrow> 's \<Rightarrow> nat list \<Rightarrow> bool" where
  "runs step history q [] = True"
| "runs step history q (x # xs) =
    (let r = step q (opInput (history ! x)) (opOutput (history ! x)) in fst r \<and> runs step history (snd r) xs)"

definition linearizableOps :: "('s \<Rightarrow> 'v iface \<Rightarrow> 'v iface \<Rightarrow> bool \<times> 's) \<Rightarrow> 's \<Rightarrow> 'v Operation list \<Rightarrow> bool" where
  "linearizableOps step q history = (\<exists>xs. distinct xs \<and> set xs = {..<length history} \<and> runs step history q xs \<and>
     sorted_wrt (\<lambda>x y. \<not> opReturn (history ! y) < opCall (history ! x)) xs)"

definition timely :: "'v Operation list \<Rightarrow> bool" where
  "timely history = list_all (\<lambda>v. opCall v \<le> opReturn v) history"

definition entryOf :: "entryKind \<Rightarrow> 'v Operation \<Rightarrow> nat \<Rightarrow> 'v entry" where
  "entryOf k v x =
     \<lparr>ekind = k, evalue = (case k of callEntry \<Rightarrow> opInput v | returnEntry \<Rightarrow> opOutput v), eid = x,
      etime = (case k of callEntry \<Rightarrow> opCall v | returnEntry \<Rightarrow> opReturn v), eclient = opClientId v\<rparr>"

definition opEntry :: "entryKind \<Rightarrow> 'v Operation list \<Rightarrow> nat \<Rightarrow> 'v entry" where
  "opEntry k history x = entryOf k (history ! x) x"

lemma opEntry_sel [simp]:
  "ekind (opEntry k history x) = k" "eid (opEntry k history x) = x"
  "evalue (opEntry callEntry history x) = opInput (history ! x)"
  "evalue (opEntry returnEntry history x) = opOutput (history ! x)"
  "etime (opEntry callEntry history x) = opCall (history ! x)"
  "etime (opEntry returnEntry history x) = opReturn (history ! x)"
  by (simp_all add: opEntry_def entryOf_def)

lemma opEntry_inject [simp]: "opEntry k history x = opEntry k' history y \<longleftrightarrow> k = k' \<and> x = y"
  by (metis opEntry_sel(1,2))

lemma opEntries_eq:
  "opEntries k history = concat (map (\<lambda>x. [entryOf callEntry (history ! x) (k + x), entryOf returnEntry (history ! x) (k + x)])
     [0..<length history])"
proof (induction history arbitrary: k)
  case (Cons v history)
  have "[0..<length (v # history)] = 0 # map Suc [0..<length history]" by (simp add: map_Suc_upt upt_conv_Cons del: upt_Suc)
  then show ?case
    using Cons.IH [of "k + 1"] by (simp add: entryOf_def comp_def del: upt_Suc)
qed simp

lemma opEntries_0:
  "opEntries 0 history = concat (map (\<lambda>x. [opEntry callEntry history x, opEntry returnEntry history x]) [0..<length history])"
  using opEntries_eq [of 0 history] by (simp add: opEntry_def)

lemma ex_kind: "(\<exists>k. P k) \<longleftrightarrow> P callEntry \<or> P returnEntry"
  by (metis entryKind.exhaust)

lemma set_makeEntries: "set (makeEntries history) = {opEntry k history x | k x. x < length history}"
proof -
  have "set (makeEntries history) = (\<Union>x < length history. {opEntry callEntry history x, opEntry returnEntry history x})"
    by (auto simp: makeEntries_def opEntries_0)
  also have "\<dots> = {opEntry k history x | k x. x < length history}"
    by (auto simp: ex_kind)
  finally show ?thesis .
qed

lemma makeEntries_keys: "distinct (map (\<lambda>e. (ekind e, eid e)) (makeEntries history))" "length (makeEntries history) = 2 * length history"
proof -
  have "distinct (map (\<lambda>e. (ekind e, eid e)) (concat (map (\<lambda>x. [opEntry callEntry history x, opEntry returnEntry history x]) [0..<m])))" for m
    by (induction m) auto
  then have "distinct (map (\<lambda>e. (ekind e, eid e)) (opEntries 0 history))" by (simp add: opEntries_0)
  moreover have "mset (map (\<lambda>e. (ekind e, eid e)) (makeEntries history)) = mset (map (\<lambda>e. (ekind e, eid e)) (opEntries 0 history))"
    unfolding mset_map by (simp add: makeEntries_def)
  ultimately show "distinct (map (\<lambda>e. (ekind e, eid e)) (makeEntries history))"
    using mset_eq_imp_distinct_iff by blast
  have "length (concat (map (\<lambda>x. [opEntry callEntry history x, opEntry returnEntry history x]) [0..<m])) = 2 * m" for m
    by (induction m) auto
  then show "length (makeEntries history) = 2 * length history" by (simp add: makeEntries_def opEntries_0)
qed

lemma makeEntries_sorted:
  assumes "i < j" "j < length (makeEntries history)"
  shows "(etime (makeEntries history ! i), ekind (makeEntries history ! i)) \<le> (etime (makeEntries history ! j), ekind (makeEntries history ! j))"
  using sorted_sort_key [of "\<lambda>e. (etime e, ekind e)" "opEntries 0 history"] assms
  by (auto simp: makeEntries_def sorted_iff_nth_mono_less)

lemma makeEntries_nth:
  assumes "i < length (makeEntries history)"
  obtains k x where "x < length history" "makeEntries history ! i = opEntry k history x"
proof -
  have "makeEntries history ! i \<in> set (makeEntries history)" using assms by simp
  then show thesis unfolding set_makeEntries using that by auto
qed

lemma makeEntries_index:
  assumes "x < length history"
  obtains i where "i < length (makeEntries history)" "makeEntries history ! i = opEntry k history x"
proof -
  have "opEntry k history x \<in> set (makeEntries history)" using assms by (auto simp: set_makeEntries)
  then show thesis using that by (metis in_set_conv_nth)
qed

lemma makeEntries_wf:
  assumes t: "timely history"
  shows "wf_history (makeEntries history) (length history)"
  unfolding wf_history_def
proof (intro conjI allI impI)
  let ?es = "makeEntries history"
  show "\<forall>e \<in> set ?es. eid e < length history" by (auto simp: set_makeEntries)
  fix i assume i: "i < length ?es" "ekind (?es ! i) = returnEntry"
  obtain k x where "x < length history" "?es ! i = opEntry k history x" by (rule makeEntries_nth [OF i(1)])
  then have x: "x < length history" "?es ! i = opEntry returnEntry history x" using i(2) by auto
  obtain j where j: "j < length ?es" "?es ! j = opEntry callEntry history x"
    by (rule makeEntries_index [OF x(1)])
  have le: "opCall (history ! x) \<le> opReturn (history ! x)" using t x(1) by (auto simp: timely_def list_all_length)
  have "\<not> i \<le> j"
  proof
    assume "i \<le> j"
    then have "i < j" using j x by (cases "i = j") auto
    from makeEntries_sorted [OF this j(1)] show False
      using le by (simp add: j x less_eq_prod_def less_eq_entryKind_def)
  qed
  then show "\<exists>j<i. ekind (?es ! j) = callEntry \<and> eid (?es ! j) = eid (?es ! i)"
    using j x by (intro exI [of _ j]) simp
qed (rule makeEntries_keys)+

text \<open>The order of the entries is the order in real time.\<close>

lemma makeEntries_precedes:
  assumes "x < length history" "y < length history"
  shows "precedes (makeEntries history) x y \<longleftrightarrow> opReturn (history ! x) < opCall (history ! y)"
proof
  let ?es = "makeEntries history"
  assume "precedes ?es x y"
  then obtain i j where ij: "i < j" "j < length ?es" "ekind (?es ! i) = returnEntry" "eid (?es ! i) = x"
    "ekind (?es ! j) = callEntry" "eid (?es ! j) = y" by (auto simp: precedes_def)
  have "?es ! i = opEntry returnEntry history x"
    by (rule makeEntries_nth [of i history]) (use ij in auto)
  moreover have "?es ! j = opEntry callEntry history y"
    by (rule makeEntries_nth [of j history]) (use ij in auto)
  ultimately show "opReturn (history ! x) < opCall (history ! y)"
    using makeEntries_sorted [OF ij(1,2)] by (auto simp: less_eq_prod_def less_eq_entryKind_def)
next
  let ?es = "makeEntries history"
  assume lt: "opReturn (history ! x) < opCall (history ! y)"
  obtain i where i: "i < length ?es" "?es ! i = opEntry returnEntry history x" by (rule makeEntries_index [OF assms(1)])
  obtain j where j: "j < length ?es" "?es ! j = opEntry callEntry history y" by (rule makeEntries_index [OF assms(2)])
  have "\<not> j < i" using makeEntries_sorted [of j i history] i j lt by (auto simp: less_eq_prod_def)
  moreover have "i \<noteq> j" using i j by auto
  ultimately have "i < j" by simp
  then show "precedes ?es x y"
    unfolding precedes_def using i j by (intro exI [of _ i] exI [of _ j]) simp
qed

lemma makeEntries_value:
  assumes "timely history" "x < length history"
  shows "valueOf (makeEntries history) callEntry x = opInput (history ! x)"
    "valueOf (makeEntries history) returnEntry x = opOutput (history ! x)"
proof -
  have "valueOf (makeEntries history) k x = evalue (opEntry k history x)" for k
  proof -
    let ?P = "\<lambda>e. ekind e = k \<and> eid e = x"
    have mem: "opEntry k history x \<in> set (makeEntries history)" using assms(2) by (auto simp: set_makeEntries)
    then have "find ?P (makeEntries history) \<noteq> None" unfolding find_None_iff by (metis opEntry_sel(1,2))
    then obtain e where e: "find ?P (makeEntries history) = Some e" by auto
    from find_Some_in [OF this] have "e = opEntry k history x" by (auto simp: set_makeEntries)
    with e show ?thesis by (simp add: valueOf_def)
  qed
  then show "valueOf (makeEntries history) callEntry x = opInput (history ! x)"
    "valueOf (makeEntries history) returnEntry x = opOutput (history ! x)" by simp_all
qed

lemma legal_runs:
  assumes "timely history" "set xs \<subseteq> {..<length history}"
  shows "legal step (makeEntries history) q xs \<longleftrightarrow> runs step history q xs"
  using assms(2)
  by (induction xs arbitrary: q) (auto simp: stepOp_def makeEntries_value [OF assms(1)] Let_def)

lemma sorted_wrt_cong_set:
  "(\<And>x y. x \<in> set xs \<Longrightarrow> y \<in> set xs \<Longrightarrow> P x y = Q x y) \<Longrightarrow> sorted_wrt P xs = sorted_wrt Q xs"
  by (induction xs) auto

lemma linearizable_ops:
  assumes "timely history"
  shows "linearizable step q (makeEntries history) (length history) \<longleftrightarrow> linearizableOps step q history"
proof -
  have "linearization step q (makeEntries history) (length history) xs \<longleftrightarrow>
     distinct xs \<and> set xs = {..<length history} \<and> runs step history q xs \<and>
     sorted_wrt (\<lambda>x y. \<not> opReturn (history ! y) < opCall (history ! x)) xs" for xs
  proof (cases "set xs = {..<length history}")
    case True
    have "sorted_wrt (\<lambda>x y. \<not> precedes (makeEntries history) y x) xs \<longleftrightarrow>
        sorted_wrt (\<lambda>x y. \<not> opReturn (history ! y) < opCall (history ! x)) xs"
      using True by (intro sorted_wrt_cong_set) (auto simp: makeEntries_precedes)
    with legal_runs [OF assms, of xs step q] True show ?thesis by (simp add: linearization_def)
  qed (simp add: linearization_def)
  then show ?thesis by (simp add: linearizable_def linearizableOps_def)
qed

section \<open>More rounds than needed\<close>

lemma searchLoop_more:
  assumes "searchLoop step equal cp head n kill s = Inr (Some r)"
  shows "searchLoop step equal cp head n (kill @ ks) s = Inr (Some r)"
  using assms
proof (induction kill arbitrary: s)
  case Nil
  then show ?case
    by (subst searchLoop.simps, subst (asm) searchLoop.simps) (simp split: if_splits)
next
  case (Cons k kill)
  show ?case
  proof (cases "nnext (sHeap s ! head) = None \<or> k")
    case True
    with Cons.prems show ?thesis by (auto simp: searchLoop.simps [of _ _ _ _ _ "k # _"])
  next
    case False
    with Cons.prems obtain x where x: "searchStep step equal cp head s = Inr x"
      "(case x of Inl lg \<Rightarrow> Inr (Some (False, lg)) | Inr s' \<Rightarrow> searchLoop step equal cp head n kill s') = Inr (Some r)"
      by (auto simp: searchLoop.simps [of _ _ _ _ _ "k # kill"] rbind_eq_Inr)
    with False Cons.IH show ?thesis
      by (cases x) (auto simp: searchLoop.simps [of _ _ _ _ _ "_ # _"])
  qed
qed

lemma checkSingle_more:
  assumes "checkSingle model es cp kill = Inr (Some r)"
  shows "checkSingle model es cp (kill @ ks) = Inr (Some r)"
  using assms unfolding checkSingle_def Let_def rbind_eq_Inr
  by (auto simp: rbind_eq_Inr intro: searchLoop_more)

lemma checkSingle_enough:
  assumes "checkSingle model es cp (replicate k False) = Inr (Some r)" "k \<le> k'"
  shows "checkSingle model es cp (replicate k' False) = Inr (Some r)"
  using checkSingle_more [OF assms(1), of "replicate (k' - k) False"] assms(2)
  by (simp flip: replicate_add)

section \<open>All partitions\<close>

lemma collect_results:
  assumes "is \<noteq> []" "cnt + length is = n"
  shows "\<exists>c rest. collect info n ok cnt (map (\<lambda>i. Result i (f i) (lg i)) is) = Some (ok \<and> list_all f is, False, c, rest) \<and>
    (info \<longrightarrow> n \<le> c)"
  using assms
proof (induction "is" arbitrary: ok cnt)
  case (Cons i js)
  then show ?case using Cons.IH [of "cnt + 1" "ok \<and> f i"] by (cases "js = []") (auto simp: Let_def)
qed simp

lemma drain_done: "n \<le> c \<Longrightarrow> drain n c as"
  by (induction n c as rule: drain.induct) auto

lemma arrivals_results:
  assumes "\<And>i. i \<in> set is \<Longrightarrow> checkSingle model (hs ! i) info (kill i) = Inr (Some (f i, lg i))"
  shows "arrivals model hs info kill (map Some is) = Inr (map (\<lambda>i. Result i (f i) (lg i)) is)"
proof -
  let ?g = "\<lambda>ev as. case ev of None \<Rightarrow> Inr (as @ [Timeout])
      | Some i \<Rightarrow> rbind (checkSingle model (hs ! i) info (kill i)) (\<lambda>r.
          case r of None \<Rightarrow> Inr as | Some (ok, l) \<Rightarrow> Inr (as @ [Result i ok l]))"
  have "for_each (map Some is) ?g acc = Inr (acc @ map (\<lambda>i. Result i (f i) (lg i)) is)" for acc
    using assms
  proof (induction "is" arbitrary: acc)
    case (Cons i js)
    with Cons.IH [of "acc @ [Result i (f i) (lg i)]"] Cons.prems show ?case by simp
  qed simp
  from this [of "[]"] show ?thesis by (simp add: arrivals_def)
qed

lemma longestOf_results:
  assumes "i \<in> set is"
  shows "longestOf (map (\<lambda>i. Result i (f i) (lg i)) is) i = lg i"
proof -
  have "find (\<lambda>a. case a of Result j r l \<Rightarrow> j = i | Timeout \<Rightarrow> False) (map (\<lambda>i. Result i (f i) (lg i)) is) = Some (Result i (f i) (lg i))"
    using assms by (induction "is") auto
  then show ?thesis by (simp add: longestOf_def)
qed

text \<open>The answer when every partition is checked to its end, in whatever order they finish.\<close>

definition allInfo :: "'v entry list list \<Rightarrow> (nat \<Rightarrow> int list option list) \<Rightarrow> bool \<Rightarrow> 'v linearizationInfo" where
  "allInfo hs lg info = (if info then \<lparr>liHistory = hs, partialLinearizations = map (\<lambda>i. partials (lg i)) [0..<length hs]\<rparr>
     else \<lparr>liHistory = [], partialLinearizations = []\<rparr>)"

lemma checkParallel_results:
  assumes "\<And>i. i < length hs \<Longrightarrow> checkSingle model (hs ! i) info (kill i) = Inr (Some (f i, lg i))"
    and "hs \<noteq> []" "mset is = mset [0..<length hs]"
  shows "checkParallel model hs info kill (map Some is) =
    Inr (Some (if \<forall>i < length hs. f i then Ok else Illegal, allInfo hs lg info))"
proof -
  have is_set: "set is = {..<length hs}" using assms(3) by (metis atLeast_upt set_mset_mset)
  have len: "length is = length hs" using assms(3) by (metis length_upt minus_nat.diff_0 size_mset)
  with assms(2) have "is \<noteq> []" by auto
  have ar: "arrivals model hs info kill (map Some is) = Inr (map (\<lambda>i. Result i (f i) (lg i)) is)"
    using assms(1) is_set by (intro arrivals_results) auto
  obtain c rest where c: "collect info (length hs) True 0 (map (\<lambda>i. Result i (f i) (lg i)) is) = Some (list_all f is, False, c, rest)"
    "info \<longrightarrow> length hs \<le> c"
    using collect_results [OF \<open>is \<noteq> []\<close>, of 0 "length hs" info True f lg] len by auto
  have v: "verdict (list_all f is) False = (if \<forall>i < length hs. f i then Ok else Illegal)"
    using is_set by (auto simp: verdict_def list_all_iff)
  have "map (\<lambda>i. partials (longestOf (map (\<lambda>i. Result i (f i) (lg i)) is) i)) [0..<length hs] = map (\<lambda>i. partials (lg i)) [0..<length hs]"
    using is_set by (intro map_cong) (auto simp: longestOf_results)
  with ar c v drain_done [of "length hs" c rest] show ?thesis
    by (cases info) (simp_all add: checkParallel_def allInfo_def)
qed

context search_model
begin

lemma check_partitions:
  assumes wf: "\<And>i. i < length hs \<Longrightarrow> wf_history (hs ! i) (ns i) \<and> answers (Step model) step (hs ! i) (ns i)"
    and "hs \<noteq> []" "mset is = mset [0..<length hs]" and m: "Equal model = Some equal"
  shows "\<exists>lg k. \<forall>k' \<ge> k. checkParallel model hs info (\<lambda>i. replicate k' False) (map Some is) =
      Inr (Some (if \<forall>i < length hs. linearizable step (Init model) (hs ! i) (ns i) then Ok else Illegal, allInfo hs lg info)) \<and>
    (\<forall>i < length hs. linearizable step (Init model) (hs ! i) (ns i) \<longrightarrow>
      (\<exists>xs. linearization step (Init model) (hs ! i) (ns i) xs \<and> lg i = replicate (ns i) (Some (map int xs))))"
proof -
  let ?f = "\<lambda>i. linearizable step (Init model) (hs ! i) (ns i)"
  let ?L = "\<lambda>i lg. ?f i \<longrightarrow> (\<exists>xs. linearization step (Init model) (hs ! i) (ns i) xs \<and> lg = replicate (ns i) (Some (map int xs)))"
  have "\<forall>i. \<exists>k lg. i < length hs \<longrightarrow> checkSingle model (hs ! i) info (replicate k False) = Inr (Some (?f i, lg)) \<and> ?L i lg"
    using checkSingle_ok [OF conjunct1 [OF wf] conjunct2 [OF wf] m, of _ info] by blast
  then obtain ks lg where ks: "\<And>i. i < length hs \<Longrightarrow> checkSingle model (hs ! i) info (replicate (ks i) False) = Inr (Some (?f i, lg i))"
    and L: "\<And>i. i < length hs \<Longrightarrow> ?L i (lg i)"
    by metis
  define k where "k = Max (ks ` {..<length hs})"
  have "checkParallel model hs info (\<lambda>i. replicate k' False) (map Some is) =
      Inr (Some (if \<forall>i < length hs. ?f i then Ok else Illegal, allInfo hs lg info))" if "k \<le> k'" for k'
  proof (rule checkParallel_results [OF _ assms(2,3)])
    fix i assume i: "i < length hs"
    have "ks i \<le> k" unfolding k_def using i by (intro Max_ge) auto
    with that have "ks i \<le> k'" by simp
    from checkSingle_enough [OF ks [OF i] this] show "checkSingle model (hs ! i) info (replicate k' False) = Inr (Some (?f i, lg i))" .
  qed
  with L show ?thesis by (intro exI [of _ lg] exI [of _ k]) simp
qed

end

end
