(* ===== verification/KvModel.thy ===== *)
theory KvModel
  imports PorcupineTop "HOL-Library.List_Lexorder" "HOL-Library.Char_ord" "HOL-Library.AList"
begin

text \<open>
  The model of a key/value store that the tests hand to the checker (\<open>models/kv.go\<close>). It
  describes a single value and partitions a history by key. The last section shows that
  this is enough: a history is linearizable for a store with many keys exactly when every
  partition is linearizable for the model of one value.
\<close>

section \<open>The model\<close>

record KvInput =
  kvOp :: "8 word"
  kvKey :: string
  kvValue :: string

record KvOutput =
  kvOut :: string

text \<open>The values that the tests put into the fields of type \<open>interface{}\<close>.\<close>

datatype kvIface = InVal KvInput | OutVal KvOutput

fun asKvInput :: "kvIface iface \<Rightarrow> KvInput res" where
  "asKvInput (Some (InVal i)) = Inr i"
| "asKvInput v = Inl TypeAssertion"

fun asKvOutput :: "kvIface iface \<Rightarrow> KvOutput res" where
  "asKvOutput (Some (OutVal v)) = Inr v"
| "asKvOutput v = Inl TypeAssertion"

text \<open>\<open>Partition\<close>: the first loop collects the operations of every key, in their order.\<close>

definition addOperation :: "kvIface Operation \<Rightarrow> (string \<times> kvIface Operation list) list \<Rightarrow>
    (string \<times> kvIface Operation list) list res" where
  "addOperation v m =
    rbind (asKvInput (opInput v)) (\<lambda>inp.
    let old = (case map_of m (kvKey inp) of None \<Rightarrow> [] | Some l \<Rightarrow> l) in
    Inr (AList.update (kvKey inp) (old @ [v]) m))"

definition kvPartition :: "kvIface Operation list \<Rightarrow> kvIface Operation list list res" where
  "kvPartition history =
    rbind (for_each history addOperation []) (\<lambda>m.
    let keys = sort (map fst m) in
    Inr (map (\<lambda>k. the (map_of m k)) keys))"

definition kvStep :: "string \<Rightarrow> kvIface iface \<Rightarrow> kvIface iface \<Rightarrow> (bool \<times> string) res" where
  "kvStep state input out =
    rbind (asKvInput input) (\<lambda>inp.
    rbind (asKvOutput out) (\<lambda>otp.
    if kvOp inp = 0 then Inr (kvOut otp = state, state)
    else if kvOp inp = 1 then Inr (True, kvValue inp)
    else Inr (True, state @ kvValue inp)))"

definition kvDescribeOperation :: "kvIface iface \<Rightarrow> kvIface iface \<Rightarrow> string res" where
  "kvDescribeOperation input out =
    rbind (asKvInput input) (\<lambda>inp.
    rbind (asKvOutput out) (\<lambda>otp.
    if kvOp inp = 0 then Inr (''get('' @ [CHR 0x27] @ kvKey inp @ [CHR 0x27] @ '') -> '' @ [CHR 0x27] @ kvOut otp @ [CHR 0x27])
    else if kvOp inp = 1 then Inr (''put('' @ [CHR 0x27] @ kvKey inp @ [CHR 0x27] @ '', '' @ [CHR 0x27] @ kvValue inp @ [CHR 0x27] @ '')'')
    else if kvOp inp = 2 then Inr (''append('' @ [CHR 0x27] @ kvKey inp @ [CHR 0x27] @ '', '' @ [CHR 0x27] @ kvValue inp @ [CHR 0x27] @ '')'')
    else Inr ''<invalid>''))"

definition KvModel :: "(kvIface, string) Model" where
  "KvModel = \<lparr>Partition = Some kvPartition, PartitionEvent = None, Init = '''', Step = kvStep, Equal = None,
     DescribeOperation = Some (Describe kvDescribeOperation), DescribeState = None\<rparr>"

section \<open>Partitions\<close>

text \<open>Operations with a get, put or append as input and a reply as output.\<close>

definition typed :: "kvIface Operation \<Rightarrow> bool" where
  "typed v = (is_ok (asKvInput (opInput v)) \<and> is_ok (asKvOutput (opOutput v)))"

definition inputOf :: "kvIface iface \<Rightarrow> KvInput" where
  "inputOf i = (case asKvInput i of Inr inp \<Rightarrow> inp | Inl e \<Rightarrow> undefined)"

definition outOf :: "kvIface iface \<Rightarrow> string" where
  "outOf out = (case asKvOutput out of Inr otp \<Rightarrow> kvOut otp | Inl e \<Rightarrow> undefined)"

definition keyOf :: "kvIface Operation \<Rightarrow> string" where
  "keyOf v = kvKey (inputOf (opInput v))"

lemma typedD:
  assumes "typed v"
  shows "asKvInput (opInput v) = Inr (inputOf (opInput v))"
    "\<exists>otp. asKvOutput (opOutput v) = Inr otp \<and> kvOut otp = outOf (opOutput v)"
  using assms by (auto simp: typed_def is_ok_def inputOf_def outOf_def split: sum.splits)

lemma addOperation_ok:
  assumes "typed v"
  shows "addOperation v m = Inr (AList.update (keyOf v) ((case map_of m (keyOf v) of None \<Rightarrow> [] | Some l \<Rightarrow> l) @ [v]) m)"
  using typedD(1) [OF assms] by (simp add: addOperation_def keyOf_def)

lemma for_each_addOperation:
  assumes "list_all typed history"
  shows "\<exists>m. for_each history addOperation [] = Inr m \<and> distinct (map fst m) \<and> fst ` set m = keyOf ` set history \<and>
    (\<forall>k. map_of m k = (if k \<in> keyOf ` set history then Some (filter (\<lambda>v. keyOf v = k) history) else None))"
  using assms
proof (induction history rule: rev_induct)
  case (snoc v history)
  then obtain m where m: "for_each history addOperation [] = Inr m" "distinct (map fst m)" "fst ` set m = keyOf ` set history"
    "\<And>k. map_of m k = (if k \<in> keyOf ` set history then Some (filter (\<lambda>v. keyOf v = k) history) else None)" by auto
  let ?l = "(case map_of m (keyOf v) of None \<Rightarrow> [] | Some l \<Rightarrow> l) @ [v]"
  let ?m = "AList.update (keyOf v) ?l m"
  have l: "?l = filter (\<lambda>w. keyOf w = keyOf v) history @ [v]"
    by (auto simp: m(4) empty_filter_conv) (metis imageI)
  have "for_each (history @ [v]) addOperation [] = Inr ?m"
    using snoc.prems m(1) addOperation_ok [of v m] by (simp add: for_each_append)
  moreover have "distinct (map fst ?m)" using m(2) by (simp add: distinct_update)
  moreover have "fst ` set ?m = keyOf ` set (history @ [v])"
    using m(3) dom_update [of "keyOf v" ?l m] by (simp add: dom_map_of_conv_image_fst)
  moreover have "map_of ?m k = (if k \<in> keyOf ` set (history @ [v]) then Some (filter (\<lambda>v. keyOf v = k) (history @ [v])) else None)" for k
    unfolding update_conv' l by (auto simp: m(4))
  ultimately show ?case by blast
qed simp

definition keysOf :: "kvIface Operation list \<Rightarrow> string list" where
  "keysOf history = sort (remdups (map keyOf history))"

lemma kvPartition_ok:
  assumes "list_all typed history"
  shows "kvPartition history = Inr (map (\<lambda>k. filter (\<lambda>v. keyOf v = k) history) (keysOf history))"
proof -
  obtain m where m: "for_each history addOperation [] = Inr m" "distinct (map fst m)" "fst ` set m = keyOf ` set history"
    "\<And>k. map_of m k = (if k \<in> keyOf ` set history then Some (filter (\<lambda>v. keyOf v = k) history) else None)"
    using for_each_addOperation [OF assms] by auto
  have keys: "sort (map fst m) = keysOf history"
    unfolding keysOf_def using m(2,3) by (intro sorted_distinct_set_unique) auto
  have "map (\<lambda>k. the (map_of m k)) (keysOf history) = map (\<lambda>k. filter (\<lambda>v. keyOf v = k) history) (keysOf history)"
    by (intro map_cong) (auto simp: m(4) keysOf_def)
  with m(1) keys show ?thesis by (simp add: kvPartition_def Let_def)
qed

section \<open>Steps\<close>

text \<open>The step of the model without the type assertions, and the store with many keys.\<close>

definition kvApply :: "string \<Rightarrow> kvIface iface \<Rightarrow> kvIface iface \<Rightarrow> bool \<times> string" where
  "kvApply state input out = (let inp = inputOf input in
    if kvOp inp = 0 then (outOf out = state, state)
    else if kvOp inp = 1 then (True, kvValue inp)
    else (True, state @ kvValue inp))"

definition storeStep :: "(string \<Rightarrow> string) \<Rightarrow> kvIface iface \<Rightarrow> kvIface iface \<Rightarrow> bool \<times> (string \<Rightarrow> string)" where
  "storeStep st input out = (let k = kvKey (inputOf input); r = kvApply (st k) input out in (fst r, st(k := snd r)))"

lemma kvStep_ok: "typed v \<Longrightarrow> kvStep q (opInput v) (opOutput v) = Inr (kvApply q (opInput v) (opOutput v))"
  using typedD [of v] by (auto simp: kvStep_def kvApply_def Let_def)

lemma kv_answers:
  assumes "list_all typed history" "timely history"
  shows "answers kvStep kvApply (makeEntries history) (length history)"
  unfolding answers_def stepOp_def
  using assms(1) makeEntries_value [OF assms(2)] kvStep_ok by (auto simp: list_all_length)

section \<open>Locality\<close>

text \<open>Linearizations of the operations with the indices \<open>I\<close>.\<close>

definition inTime :: "'v Operation list \<Rightarrow> nat \<Rightarrow> nat \<Rightarrow> bool" where
  "inTime history x y = (\<not> opReturn (history ! y) < opCall (history ! x))"

definition linOn :: "('s \<Rightarrow> 'v iface \<Rightarrow> 'v iface \<Rightarrow> bool \<times> 's) \<Rightarrow> 's \<Rightarrow> 'v Operation list \<Rightarrow> nat set \<Rightarrow> bool" where
  "linOn step q history I = (\<exists>xs. distinct xs \<and> set xs = I \<and> runs step history q xs \<and> sorted_wrt (inTime history) xs)"

lemma linearizableOps_linOn: "linearizableOps step q history \<longleftrightarrow> linOn step q history {..<length history}"
  unfolding linearizableOps_def linOn_def inTime_def ..

lemma runs_map:
  assumes "\<And>j. j \<in> set xs \<Longrightarrow> sub ! j = history ! (f j)"
  shows "runs step sub q xs \<longleftrightarrow> runs step history q (map f xs)"
  using assms by (induction xs arbitrary: q) (auto simp: Let_def)

lemma linOn_filter:
  "linearizableOps step q (filter P history) \<longleftrightarrow> linOn step q history {i. i < length history \<and> P (history ! i)}"
proof -
  define ix where "ix = filter (\<lambda>i. P (history ! i)) [0..<length history]"
  have sub: "filter P history = map ((!) history) ix"
    using map_nth [of history] unfolding ix_def by (metis (no_types, lifting) comp_apply filter_cong filter_map)
  have d: "distinct ix" "set ix = {i. i < length history \<and> P (history ! i)}" by (auto simp: ix_def)
  have bij: "bij_betw ((!) ix) {..<length ix} (set ix)" by (rule bij_betw_nth [OF d(1)]) auto
  have same: "distinct (map ((!) ix) xs) \<and> set (map ((!) ix) xs) = set ix \<and> runs step history q (map ((!) ix) xs) \<and>
      sorted_wrt (inTime history) (map ((!) ix) xs) \<longleftrightarrow>
      distinct xs \<and> set xs = {..<length ix} \<and> runs step (filter P history) q xs \<and> sorted_wrt (inTime (filter P history)) xs"
    if xs: "set xs \<subseteq> {..<length ix}" for xs
  proof -
    have inj: "inj_on ((!) ix) (set xs)" using bij xs by (metis bij_betw_def inj_on_subset)
    have r: "runs step (filter P history) q xs \<longleftrightarrow> runs step history q (map ((!) ix) xs)"
      using xs by (intro runs_map) (auto simp: sub)
    have "sorted_wrt (inTime (filter P history)) xs \<longleftrightarrow> sorted_wrt (inTime history) (map ((!) ix) xs)"
      unfolding sorted_wrt_map using xs by (intro sorted_wrt_cong_set) (auto simp: inTime_def sub subset_iff)
    moreover have "set (map ((!) ix) xs) = set ix \<longleftrightarrow> set xs = {..<length ix}"
    proof
      assume "set (map ((!) ix) xs) = set ix"
      then have "(!) ix ` set xs = (!) ix ` {..<length ix}" using bij by (simp add: bij_betw_def)
      then show "set xs = {..<length ix}" using bij xs inj_on_image_eq_iff by (metis bij_betw_def subset_refl)
    qed (use bij in \<open>simp add: bij_betw_def\<close>)
    ultimately show ?thesis using inj r by (simp add: distinct_map)
  qed
  show ?thesis
    unfolding linearizableOps_linOn linOn_def d(2) [symmetric]
  proof (intro iffI; elim exE)
    fix xs assume "distinct xs \<and> set xs = {..<length (filter P history)} \<and> runs step (filter P history) q xs \<and>
      sorted_wrt (inTime (filter P history)) xs"
    with same [of xs] show "\<exists>ys. distinct ys \<and> set ys = set ix \<and> runs step history q ys \<and> sorted_wrt (inTime history) ys"
      by (metis length_map sub order_refl)
  next
    fix ys assume ys: "distinct ys \<and> set ys = set ix \<and> runs step history q ys \<and> sorted_wrt (inTime history) ys"
    define xs where "xs = map (inv_into {..<length ix} ((!) ix)) ys"
    have "ix ! inv_into {..<length ix} ((!) ix) y = y" if "y \<in> set ys" for y
      using f_inv_into_f [of y "(!) ix" "{..<length ix}"] bij_betw_imp_surj_on [OF bij] ys that by simp
    then have m: "map ((!) ix) xs = ys" unfolding xs_def by (simp add: map_idI)
    have "inv_into {..<length ix} ((!) ix) y \<in> {..<length ix}" if "y \<in> set ys" for y
      using inv_into_into [of y "(!) ix" "{..<length ix}"] bij_betw_imp_surj_on [OF bij] ys that by simp
    then have "set xs \<subseteq> {..<length ix}" by (auto simp: xs_def)
    with same [of xs] m ys show "\<exists>xs. distinct xs \<and> set xs = {..<length (filter P history)} \<and>
        runs step (filter P history) q xs \<and> sorted_wrt (inTime (filter P history)) xs"
      by (metis length_map sub)
  qed
qed

text \<open>
  Sequences of operations, one for each key and each in an order that agrees with real
  time, can be merged: the operation called first among the heads may always go first.
\<close>

lemma earliest_head:
  assumes t: "\<And>x. x \<in> A \<Longrightarrow> opCall (h ! x) \<le> opReturn (h ! x)"
    and K: "finite K" "\<And>k. k \<in> K \<Longrightarrow> set (sq k) \<subseteq> A \<and> sorted_wrt (inTime h) (sq k)"
    and ne: "k0 \<in> K" "sq k0 \<noteq> []"
  obtains k where "k \<in> K" "sq k \<noteq> []" "\<And>k' y. k' \<in> K \<Longrightarrow> y \<in> set (sq k') \<Longrightarrow> inTime h (hd (sq k)) y"
proof -
  let ?H = "{k \<in> K. sq k \<noteq> []}"
  define k where "k = arg_min_on (\<lambda>k. opCall (h ! hd (sq k))) ?H"
  have H: "finite ?H" "?H \<noteq> {}" using K(1) ne by auto
  have k: "k \<in> ?H" unfolding k_def by (rule arg_min_if_finite [OF H])
  have mn: "opCall (h ! hd (sq k)) \<le> opCall (h ! hd (sq k'))" if "k' \<in> ?H" for k'
    unfolding k_def by (rule arg_min_least [OF H that])
  have "inTime h (hd (sq k)) y" if kk: "k' \<in> K" and yk: "y \<in> set (sq k')" for k' y
  proof -
    obtain x ys where x: "sq k' = x # ys" using yk by (cases "sq k'") auto
    have c: "opCall (h ! hd (sq k)) \<le> opCall (h ! x)" using mn [of k'] kk x by simp
    have "opCall (h ! x) \<le> opReturn (h ! y)"
    proof (cases "y = x")
      case True
      with t K(2) [OF kk] x show ?thesis by auto
    next
      case False
      then have "y \<in> set ys" using yk x by simp
      with K(2) [OF kk] x have "inTime h x y" by auto
      then show ?thesis by (simp add: inTime_def)
    qed
    with c show ?thesis by (simp add: inTime_def)
  qed
  with k show thesis using that by blast
qed

lemma merge_keys:
  assumes t: "\<And>x. x \<in> A \<Longrightarrow> opCall (h ! x) \<le> opReturn (h ! x)" and K: "finite K"
  shows "(\<And>k. k \<in> K \<Longrightarrow> set (sq k) \<subseteq> A \<and> sorted_wrt (inTime h) (sq k) \<and> (\<forall>x \<in> set (sq k). ky x = k)) \<Longrightarrow>
    \<exists>zs. set zs = (\<Union>k \<in> K. set (sq k)) \<and> (\<forall>k \<in> K. filter (\<lambda>x. ky x = k) zs = sq k) \<and> sorted_wrt (inTime h) zs"
proof (induction "\<Sum>k \<in> K. length (sq k)" arbitrary: sq rule: less_induct)
  case less
  show ?case
  proof (cases "\<forall>k \<in> K. sq k = []")
    case True
    then show ?thesis by (intro exI [of _ "[]"]) auto
  next
    case False
    then obtain k0 where "k0 \<in> K" "sq k0 \<noteq> []" by blast
    obtain k where k: "k \<in> K" "sq k \<noteq> []" "\<And>k' y. k' \<in> K \<Longrightarrow> y \<in> set (sq k') \<Longrightarrow> inTime h (hd (sq k)) y"
      by (rule earliest_head [of A h K sq k0, OF t K _ \<open>k0 \<in> K\<close> \<open>sq k0 \<noteq> []\<close>]) (use less.prems in blast)+
    obtain x ys where x: "sq k = x # ys" using k(2) by (cases "sq k") auto
    let ?sq = "sq(k := ys)"
    have "(\<Sum>k \<in> K. length (?sq k)) < (\<Sum>k \<in> K. length (sq k))"
      using k(1) x by (intro sum_strict_mono_ex1 [OF K]) auto
    moreover have "set (?sq k') \<subseteq> A \<and> sorted_wrt (inTime h) (?sq k') \<and> (\<forall>x \<in> set (?sq k'). ky x = k')" if "k' \<in> K" for k'
      using less.prems [OF that] x by (cases "k' = k") auto
    ultimately obtain zs where zs: "set zs = (\<Union>k \<in> K. set (?sq k))" "\<And>k. k \<in> K \<Longrightarrow> filter (\<lambda>x. ky x = k) zs = ?sq k"
      "sorted_wrt (inTime h) zs"
      using less.hyps [of ?sq] by metis
    have kx: "ky x = k" using less.prems [OF k(1)] x by auto
    have sub: "set zs \<subseteq> (\<Union>k \<in> K. set (sq k))" using zs(1) x by (auto split: if_splits)
    have "set (x # zs) = (\<Union>k \<in> K. set (sq k))"
    proof
      show "set (x # zs) \<subseteq> (\<Union>k \<in> K. set (sq k))" using sub k(1) x by (auto intro!: bexI [of _ k])
      have "set (sq k') \<subseteq> insert x (set (?sq k'))" for k' using x by auto
      then show "(\<Union>k \<in> K. set (sq k)) \<subseteq> set (x # zs)" unfolding list.set zs(1) by blast
    qed
    moreover have "filter (\<lambda>x. ky x = k') (x # zs) = sq k'" if "k' \<in> K" for k'
      using zs(2) [OF that] kx x by auto
    moreover have "sorted_wrt (inTime h) (x # zs)" using zs(3) k(3) sub x by auto
    ultimately show ?thesis by (intro exI [of _ "x # zs"]) blast
  qed
qed

lemma distinct_by_filters: "(\<And>k. distinct (filter (\<lambda>x. f x = k) zs)) \<Longrightarrow> distinct zs"
proof (induction zs)
  case (Cons x zs)
  have "distinct (filter (\<lambda>y. f y = k) zs)" for k using Cons.prems [of k] by (auto split: if_splits)
  moreover have "x \<notin> set zs" using Cons.prems [of "f x"] by auto
  ultimately show ?case using Cons.IH by simp
qed simp

text \<open>A store whose steps act on the component of one key, and only there.\<close>

locale keyed_store =
  fixes key :: "'v Operation \<Rightarrow> 'k"
    and app :: "'s \<Rightarrow> 'v iface \<Rightarrow> 'v iface \<Rightarrow> bool \<times> 's"
    and sstep :: "('k \<Rightarrow> 's) \<Rightarrow> 'v iface \<Rightarrow> 'v iface \<Rightarrow> bool \<times> ('k \<Rightarrow> 's)"
  assumes fst_sstep: "fst (sstep st (opInput v) (opOutput v)) = fst (app (st (key v)) (opInput v) (opOutput v))"
    and snd_sstep: "snd (sstep st (opInput v) (opOutput v)) = st(key v := snd (app (st (key v)) (opInput v) (opOutput v)))"
begin

lemma runs_split:
  "runs sstep h st zs \<longleftrightarrow> (\<forall>k. runs app h (st k) (filter (\<lambda>i. key (h ! i) = k) zs))"
proof (induction zs arbitrary: st)
  case (Cons x zs)
  let ?k = "key (h ! x)" and ?r = "app (st (key (h ! x))) (opInput (h ! x)) (opOutput (h ! x))"
  have "(\<forall>k. runs app h (st k) (filter (\<lambda>i. key (h ! i) = k) (x # zs))) \<longleftrightarrow>
      fst ?r \<and> (\<forall>k. runs app h ((st(?k := snd ?r)) k) (filter (\<lambda>i. key (h ! i) = k) zs))"
    by (auto simp: Let_def)
  moreover have "runs sstep h st (x # zs) \<longleftrightarrow> fst ?r \<and> runs sstep h (st(?k := snd ?r)) zs"
    by (simp add: fst_sstep snd_sstep Let_def)
  ultimately show ?case using Cons.IH [of "st(?k := snd ?r)"] by blast
qed simp

lemma locality:
  assumes t: "timely h"
  shows "linearizableOps sstep st h \<longleftrightarrow> (\<forall>k. linearizableOps app (st k) (filter (\<lambda>v. key v = k) h))"
  unfolding linearizableOps_linOn [of sstep] linOn_filter
proof
  assume "linOn sstep st h {..<length h}"
  then obtain zs where zs: "distinct zs" "set zs = {..<length h}" "runs sstep h st zs" "sorted_wrt (inTime h) zs"
    by (auto simp: linOn_def)
  show "\<forall>k. linOn app (st k) h {i. i < length h \<and> key (h ! i) = k}"
  proof
    fix k
    from zs(3) have "runs app h (st k) (filter (\<lambda>i. key (h ! i) = k) zs)" by (simp add: runs_split)
    with zs show "linOn app (st k) h {i. i < length h \<and> key (h ! i) = k}"
      unfolding linOn_def
      by (intro exI [of _ "filter (\<lambda>i. key (h ! i) = k) zs"]) (auto intro: sorted_wrt_filter)
  qed
next
  assume "\<forall>k. linOn app (st k) h {i. i < length h \<and> key (h ! i) = k}"
  then have "\<forall>k. \<exists>xs. distinct xs \<and> set xs = {i. i < length h \<and> key (h ! i) = k} \<and> runs app h (st k) xs \<and> sorted_wrt (inTime h) xs"
    by (simp add: linOn_def)
  then obtain sq where sq: "\<And>k. distinct (sq k) \<and> set (sq k) = {i. i < length h \<and> key (h ! i) = k} \<and>
      runs app h (st k) (sq k) \<and> sorted_wrt (inTime h) (sq k)" by metis
  let ?K = "(\<lambda>i. key (h ! i)) ` {..<length h}"
  have "\<exists>zs. set zs = (\<Union>k \<in> ?K. set (sq k)) \<and> (\<forall>k \<in> ?K. filter (\<lambda>i. key (h ! i) = k) zs = sq k) \<and> sorted_wrt (inTime h) zs"
  proof (rule merge_keys)
    show "opCall (h ! x) \<le> opReturn (h ! x)" if "x \<in> {..<length h}" for x
      using t that by (simp add: timely_def list_all_length)
    show "set (sq k) \<subseteq> {..<length h} \<and> sorted_wrt (inTime h) (sq k) \<and> (\<forall>x \<in> set (sq k). key (h ! x) = k)" for k
      using sq [of k] by auto
  qed simp
  then obtain zs where zs: "set zs = (\<Union>k \<in> ?K. set (sq k))" "\<And>k. k \<in> ?K \<Longrightarrow> filter (\<lambda>i. key (h ! i) = k) zs = sq k"
    "sorted_wrt (inTime h) zs" by blast
  have elems: "set (sq k) = {i. i < length h \<and> key (h ! i) = k}" for k using sq [of k] by blast
  then have st: "set zs = {..<length h}" unfolding zs(1) by auto
  have f: "filter (\<lambda>i. key (h ! i) = k) zs = sq k" for k
  proof (cases "k \<in> ?K")
    case False
    then have "{i. i < length h \<and> key (h ! i) = k} = {}" by auto
    with elems [of k] have "sq k = []" by simp
    with False st show ?thesis by (auto simp: filter_empty_conv)
  qed (rule zs(2))
  have "distinct zs" by (rule distinct_by_filters [of "\<lambda>i. key (h ! i)"]) (use sq f in metis)
  moreover have "runs sstep h st zs" unfolding runs_split f using sq by blast
  ultimately show "linOn sstep st h {..<length h}" unfolding linOn_def using st zs(3) by blast
qed

end

interpretation kv: keyed_store keyOf kvApply storeStep
  by unfold_locales (simp_all add: storeStep_def keyOf_def Let_def)

end
