(* ===== verification/PorcupineProperties.thy ===== *)
theory PorcupineProperties
  imports KvModel
begin

text \<open>
  The properties of the linearizability checker: the whole check of a key/value history,
  the check of one partition, the conversion of recorded operations and events, the event
  list, the bit set, and what happens on an empty history.
\<close>

section \<open>Key/value histories\<close>

lemma filter_all_keys:
  assumes "\<And>k. k \<notin> keyOf ` set h \<Longrightarrow> P (filter (\<lambda>v. keyOf v = k) h)"
  shows "(\<forall>i < length (keysOf h). P (filter (\<lambda>v. keyOf v = keysOf h ! i) h)) \<longleftrightarrow> (\<forall>k. P (filter (\<lambda>v. keyOf v = k) h))"
proof -
  have "(\<forall>i < length (keysOf h). P (filter (\<lambda>v. keyOf v = keysOf h ! i) h)) \<longleftrightarrow>
      (\<forall>k \<in> set (keysOf h). P (filter (\<lambda>v. keyOf v = k) h))"
    by (simp add: all_set_conv_all_nth)
  moreover have "set (keysOf h) = keyOf ` set h" by (simp add: keysOf_def)
  ultimately show ?thesis using assms by blast
qed

lemma linearizableOps_Nil: "linearizableOps step q []"
  by (auto simp: linearizableOps_def)

lemma kv_partitions_answer:
  assumes "list_all typed h" "timely h" and i: "i < length (keysOf h)"
  defines "p \<equiv> filter (\<lambda>v. keyOf v = keysOf h ! i) h"
  shows "timely p" "wf_history (makeEntries p) (length p)" "answers kvStep kvApply (makeEntries p) (length p)"
proof -
  show t: "timely p" using assms(2) by (auto simp: p_def timely_def list_all_iff)
  then show "wf_history (makeEntries p) (length p)" by (rule makeEntries_wf)
  have "list_all typed p" using assms(1) by (auto simp: p_def list_all_iff)
  then show "answers kvStep kvApply (makeEntries p) (length p)" using t by (rule kv_answers)
qed

lemma kv_fill:
  "Partition (fillDefault KvModel) = Some kvPartition" "Step (fillDefault KvModel) = kvStep"
  "Init (fillDefault KvModel) = ''''" "Equal (fillDefault KvModel) = Some ShallowEqual"
  by (simp_all add: fillDefault_def KvModel_def Let_def)

text \<open>
  C4: checking a recorded history of gets, puts and appends with \<open>KvModel\<close> ends for every
  order in which the goroutines of the partitions deliver, and answers whether the whole
  history is linearizable for a store with many keys: partitioning by key and searching
  each partition with a cache of configurations loses nothing and adds nothing.
\<close>

theorem kv_check_correct:
  assumes "list_all typed history" "timely history" "history \<noteq> []"
    and "mset is = mset [0..<length (keysOf history)]"
  shows "\<exists>k. \<forall>k' \<ge> k. CheckOperations KvModel history (\<lambda>i. replicate k' False) (map Some is) =
    Inr (Some (linearizableOps storeStep (\<lambda>key. '''') history))"
proof -
  let ?hs = "map (\<lambda>k. filter (\<lambda>v. keyOf v = k) history) (keysOf history)"
  let ?es = "map makeEntries ?hs" and ?ns = "\<lambda>i. length (?hs ! i)" and ?m = "fillDefault KvModel"
  have "set (keysOf history) \<noteq> {}" using assms(3) by (simp add: keysOf_def)
  then have ne: "?es \<noteq> []" by simp
  have wf: "wf_history (?es ! i) (?ns i) \<and> answers (Step ?m) kvApply (?es ! i) (?ns i)" if "i < length ?es" for i
    using kv_partitions_answer [OF assms(1,2), of i] that by (simp add: kv_fill)
  have part: "the (Partition ?m) history = Inr ?hs"
    using kvPartition_ok [OF assms(1)] by (simp add: kv_fill)
  have eqm: "Equal ?m = Some ShallowEqual" "Init ?m = ''''" by (simp_all add: kv_fill)
  have "linearizable kvApply '''' (?es ! i) (?ns i) \<longleftrightarrow> linearizableOps kvApply '''' (?hs ! i)" if "i < length ?es" for i
    using kv_partitions_answer(1) [OF assms(1,2), of i] that by (simp add: linearizable_ops)
  then have "(\<forall>i < length ?es. linearizable kvApply '''' (?es ! i) (?ns i)) \<longleftrightarrow>
      (\<forall>i < length (keysOf history). linearizableOps kvApply '''' (filter (\<lambda>v. keyOf v = keysOf history ! i) history))"
    by simp
  also have "\<dots> \<longleftrightarrow> (\<forall>k. linearizableOps kvApply '''' (filter (\<lambda>v. keyOf v = k) history))"
  proof (rule filter_all_keys)
    fix k assume "k \<notin> keyOf ` set history"
    then have "filter (\<lambda>v. keyOf v = k) history = []" by (auto simp: filter_empty_conv)
    then show "linearizableOps kvApply '''' (filter (\<lambda>v. keyOf v = k) history)" by (simp only: linearizableOps_Nil)
  qed
  also have "\<dots> \<longleftrightarrow> linearizableOps storeStep (\<lambda>key. '''') history" using kv.locality [OF assms(2), of "\<lambda>key. ''''"] by simp
  finally have all: "(\<forall>i < length ?es. linearizable kvApply '''' (?es ! i) (?ns i)) \<longleftrightarrow> linearizableOps storeStep (\<lambda>key. '''') history" .
  have "mset is = mset [0..<length ?es]" using assms(4) by simp
  from shallow.check_partitions [OF wf ne this eqm(1), of False] obtain lg k where
    k: "\<And>k'. k \<le> k' \<Longrightarrow> checkParallel ?m ?es False (\<lambda>i. replicate k' False) (map Some is) =
      Inr (Some (if \<forall>i < length ?es. linearizable kvApply '''' (?es ! i) (?ns i) then Ok else Illegal, allInfo ?es lg False))"
    unfolding eqm(2) by blast
  have "CheckOperations KvModel history (\<lambda>i. replicate k' False) (map Some is) =
    Inr (Some (linearizableOps storeStep (\<lambda>key. '''') history))" if "k \<le> k'" for k'
    using part k [OF that] all by (simp add: CheckOperations_def checkOperations_def Let_def)
  then show ?thesis by blast
qed

text \<open>Two clients: a put of x by one, then a get of the same key by the other, and a key of its own.\<close>

definition sampleHistory :: "kvIface Operation list" where
  "sampleHistory =
    [\<lparr>opClientId = 0, opInput = Some (InVal \<lparr>kvOp = 1, kvKey = ''k'', kvValue = ''x''\<rparr>), opCall = 0,
      opOutput = Some (OutVal \<lparr>kvOut = ''''\<rparr>), opReturn = 5\<rparr>,
     \<lparr>opClientId = 1, opInput = Some (InVal \<lparr>kvOp = 0, kvKey = ''k'', kvValue = ''''\<rparr>), opCall = 2,
      opOutput = Some (OutVal \<lparr>kvOut = ''x''\<rparr>), opReturn = 4\<rparr>,
     \<lparr>opClientId = 1, opInput = Some (InVal \<lparr>kvOp = 2, kvKey = ''l'', kvValue = ''y''\<rparr>), opCall = 6,
      opOutput = Some (OutVal \<lparr>kvOut = ''''\<rparr>), opReturn = 7\<rparr>]"

lemma sample_typed: "list_all typed sampleHistory" "timely sampleHistory" "sampleHistory \<noteq> []"
  by (simp_all add: sampleHistory_def typed_def timely_def is_ok_def)

lemma sample_keys: "length (keysOf sampleHistory) = 2"
  by (simp add: keysOf_def sampleHistory_def keyOf_def inputOf_def)

theorem kv_check_correct_witness:
  "list_all typed sampleHistory \<and> timely sampleHistory \<and>
   (\<exists>k. \<forall>k' \<ge> k. CheckOperations KvModel sampleHistory (\<lambda>i. replicate k' False) (map Some [1, 0]) =
    Inr (Some (linearizableOps storeStep (\<lambda>key. '''') sampleHistory)))"
proof -
  have "mset [1, 0] = mset [0..<length (keysOf sampleHistory)]" by (simp add: sample_keys numeral_2_eq_2)
  from kv_check_correct [OF sample_typed this] sample_typed show ?thesis by blast
qed

text \<open>
  An empty history has no partitions, so no goroutine is started. Without a timeout the
  main goroutine of \<open>checkParallel\<close> waits for ever; with one, the answer is \<open>Unknown\<close>. Nothing
  to check is never \<open>Ok\<close>.
\<close>

theorem empty_history_blocks:
  "CheckOperations KvModel [] kill [] = Inr None \<and> CheckOperationsTimeout KvModel [] kill [None] = Inr (Some Unknown)"
  by (simp add: CheckOperations_def CheckOperationsTimeout_def checkOperations_def fillDefault_def KvModel_def
      kvPartition_def checkParallel_def arrivals_def verdict_def Let_def)

section \<open>One partition\<close>

text \<open>
  C9: the depth-first search over the linked list ends on every well-formed history and
  for every model that answers on its operations. It returns true exactly when the history
  is linearizable, and then every operation is reported with one and the same sequence,
  which is a linearization of the history.
\<close>

theorem check_single_correct:
  assumes "wf_history es n" "answers (Step model) step es n" "Equal model = Some ShallowEqual"
  shows "\<exists>k lg. \<forall>k' \<ge> k. checkSingle model es cp (replicate k' False) = Inr (Some (linearizable step (Init model) es n, lg)) \<and>
    (linearizable step (Init model) es n \<longrightarrow>
      (\<exists>xs. linearization step (Init model) es n xs \<and> lg = replicate n (Some (map int xs))))"
proof -
  from shallow.checkSingle_ok [OF assms, of cp] obtain k lg where
    k: "checkSingle model es cp (replicate k False) = Inr (Some (linearizable step (Init model) es n, lg))"
    "linearizable step (Init model) es n \<longrightarrow> (\<exists>xs. linearization step (Init model) es n xs \<and> lg = replicate n (Some (map int xs)))"
    by blast
  show ?thesis using checkSingle_enough [OF k(1)] k(2) by blast
qed

definition sampleEntries :: "kvIface entry list" where
  "sampleEntries = makeEntries (take 2 sampleHistory)"

theorem check_single_correct_witness:
  "wf_history sampleEntries 2 \<and>
   (\<exists>k lg. \<forall>k' \<ge> k. checkSingle (KvModel\<lparr>Equal := Some ShallowEqual\<rparr>) sampleEntries True (replicate k' False) =
      Inr (Some (linearizable kvApply '''' sampleEntries 2, lg)) \<and>
    (linearizable kvApply '''' sampleEntries 2 \<longrightarrow>
      (\<exists>xs. linearization kvApply '''' sampleEntries 2 xs \<and> lg = replicate 2 (Some (map int xs)))))"
proof -
  let ?h = "take 2 sampleHistory"
  have h: "list_all typed ?h" "timely ?h" "length ?h = 2"
    by (simp_all add: sampleHistory_def typed_def timely_def is_ok_def)
  have wf: "wf_history sampleEntries 2" using makeEntries_wf [OF h(2)] h(3) by (simp add: sampleEntries_def)
  have an: "answers (Step (KvModel\<lparr>Equal := Some ShallowEqual\<rparr>)) kvApply sampleEntries 2"
    using kv_answers [OF h(1,2)] h(3) by (simp add: sampleEntries_def KvModel_def)
  from check_single_correct [OF wf an, of True] wf show ?thesis by (simp add: KvModel_def)
qed

section \<open>The event list\<close>

text \<open>
  C35: on a linked list of nodes, \<open>lift\<close> takes a call and the return it points to out of the
  list without following nil, leaves the values, matches and ids of all nodes as they are,
  and \<open>unlift\<close> puts both back so that the whole heap is as before.
\<close>

theorem lift_unlift:
  assumes "chain h (A @ p # a # M @ m # R)" "nmatch (h ! a) = Some m"
  shows "\<exists>h'. lift h (Some a) = Inr h' \<and> chain h' (A @ p # M @ R) \<and> same_nodes h h' \<and> unlift h' (Some a) = Inr h"
  using lift_ok [OF assms] by blast

definition sampleHeap :: "nat node list" where
  "sampleHeap =
    [\<lparr>nvalue = Some 7, nmatch = None, nid = 0, nnext = None, nprev = Some 1\<rparr>,
     \<lparr>nvalue = Some 3, nmatch = Some 0, nid = 0, nnext = Some 0, nprev = Some 2\<rparr>,
     \<lparr>nvalue = None, nmatch = None, nid = -1, nnext = Some 1, nprev = None\<rparr>]"

theorem lift_unlift_witness:
  "\<exists>h'. lift sampleHeap (Some 1) = Inr h' \<and> chain h' [2] \<and> same_nodes sampleHeap h' \<and> unlift h' (Some 1) = Inr sampleHeap"
  using lift_unlift [of sampleHeap "[]" 2 1 "[]" 0 "[]"] by (simp add: chain_def sampleHeap_def)

section \<open>The bit set\<close>

text \<open>
  The words of the bit set stand for a set of positions. A new bit set has room for the
  positions asked for; setting and clearing a position in range neither panics nor touches
  other positions, \<open>get\<close> reads membership, and on bit sets of one size \<open>equals\<close> is equality of
  the sets and implies equal hashes.
\<close>

theorem bitset_refines_set:
  "bits (newBitset n) = {} \<and> n \<le> capacity (newBitset n) \<and>
   (i < capacity b \<longrightarrow>
     (\<exists>b'. bitset_set b i = Inr b' \<and> bits b' = insert i (bits b) \<and> capacity b' = capacity b) \<and>
     (\<exists>b'. bitset_clear b i = Inr b' \<and> bits b' = bits b - {i} \<and> capacity b' = capacity b) \<and>
     bitset_get b i = Inr (i \<in> bits b)) \<and>
   (capacity b = capacity c \<longrightarrow> (bitset_equals b c \<longleftrightarrow> bits b = bits c) \<and> (bits b = bits c \<longrightarrow> bitset_hash b = bitset_hash c))"
proof (intro conjI impI)
  show "bits (newBitset n) = {}" "n \<le> capacity (newBitset n)" by (rule bs.mk_elems bs.mk_cap)+
  assume i: "i < capacity b"
  show "\<exists>b'. bitset_set b i = Inr b' \<and> bits b' = insert i (bits b) \<and> capacity b' = capacity b" by (rule bs.put_ok [OF i])
  show "\<exists>b'. bitset_clear b i = Inr b' \<and> bits b' = bits b - {i} \<and> capacity b' = capacity b" by (rule bs.del_ok [OF i])
  show "bitset_get b i = Inr (i \<in> bits b)" by (rule bs.has_ok [OF i])
next
  assume c: "capacity b = capacity c"
  show eq: "bitset_equals b c \<longleftrightarrow> bits b = bits c" by (rule bs.eq_iff [OF c])
  show "bits b = bits c \<Longrightarrow> bitset_hash b = bitset_hash c" using eq bs.eq_hash by blast
qed

theorem bitset_refines_set_witness:
  "65 < capacity (newBitset 70) \<and>
   (\<exists>b'. bitset_set (newBitset 70) 65 = Inr b' \<and> bits b' = insert 65 (bits (newBitset 70)) \<and> capacity b' = capacity (newBitset 70)) \<and>
   bitset_get (newBitset 70) 65 = Inr (65 \<in> bits (newBitset 70)) \<and> bitset_equals (newBitset 70) (newBitset 70)"
proof -
  have "65 < capacity (newBitset 70)" using bs.mk_cap [of 70] by linarith
  with bitset_refines_set [of 70 65 "newBitset 70" "newBitset 70"] show ?thesis by blast
qed

end
