(* ===== verification/Labgob.thy ===== *)
theory Labgob
  imports Prelude "HOL-Library.Char_ord"
begin

text \<open>
  The checks around Go's encoder (\<open>labgob/labgob.go\<close>): every type that is sent is searched for
  fields with lower-case names, which the encoder would silently drop, and every variable
  that is decoded into is searched for non-default values, which it would silently keep.

  The Go types of a program are a table; a type is an index into it, so that types may
  refer to each other in cycles. The encoder itself (\<open>encoding/gob\<close>) is a parameter.
\<close>

section \<open>Types and values\<close>

datatype goKind =
    KStruct "(string \<times> nat) list"
  | KElem nat
  | KMap nat nat
  | KOther

record goType =
  tName :: string
  tKind :: goKind

text \<open>The global variables: the types checked so far, the number of errors, and what was printed.\<close>

record gobState =
  checked :: "nat set"
  errorCount :: nat
  printed :: "string list"

text \<open>The first letter of a field name, for names that start with an ASCII character.\<close>

definition isUpperName :: "string \<Rightarrow> bool" where
  "isUpperName s = (case s of [] \<Rightarrow> False | c # cs \<Rightarrow> CHR ''A'' \<le> c \<and> c \<le> CHR ''Z'')"

definition lowerFieldError :: "string \<Rightarrow> string \<Rightarrow> string" where
  "lowerFieldError f t = ''labgob error: lower-case field '' @ f @ '' of '' @ t @ '' in RPC or persist/snapshot will break your Raft''"

section \<open>Checking types\<close>

definition noteField :: "goType \<Rightarrow> string \<Rightarrow> gobState \<Rightarrow> gobState" where
  "noteField t f st =
    (if isUpperName f = False
     then st\<lparr>printed := printed st @ [lowerFieldError f (tName t)], errorCount := errorCount st + 1\<rparr>
     else st)"

text \<open>
  \<open>checkType\<close>. The recursion is bounded by the first argument; \<open>None\<close> says that the bound
  was reached, which the theorems below exclude.
\<close>

fun checkType :: "nat \<Rightarrow> goType list \<Rightarrow> nat \<Rightarrow> gobState \<Rightarrow> gobState option" where
  "checkType 0 env t st = None"
| "checkType (Suc fuel) env t st =
    (if t \<in> checked st then Some st
     else
     let st1 = st\<lparr>checked := insert t (checked st)\<rparr> in
     case tKind (env ! t) of
       KStruct fs \<Rightarrow>
         foldl (\<lambda>r f. Option.bind r (\<lambda>s. checkType fuel env (snd f) (noteField (env ! t) (fst f) s))) (Some st1) fs
     | KElem e \<Rightarrow> checkType fuel env e st1
     | KMap e k \<Rightarrow> Option.bind (checkType fuel env e st1) (checkType fuel env k)
     | KOther \<Rightarrow> Some st1)"

text \<open>\<open>checkValue\<close>: \<open>reflect.TypeOf(nil)\<close> is nil, and asking it for its kind panics.\<close>

definition checkValue :: "nat \<Rightarrow> goType list \<Rightarrow> nat option \<Rightarrow> gobState \<Rightarrow> gobState option res" where
  "checkValue fuel env v st = (case v of None \<Rightarrow> Inl NilDereference | Some t \<Rightarrow> Inr (checkType fuel env t st))"

section \<open>Checking values\<close>

text \<open>A basic value knows its type and whether it is the zero value of that type.\<close>

datatype goValue =
    VStruct string "(string \<times> goValue) list"
  | VPtr "goValue option"
  | VBasic string bool
  | VOther

definition nonDefaultWarning :: "string \<Rightarrow> string" where
  "nonDefaultWarning what = ''labgob warning: Decoding into a non-default variable/field '' @ what @ '' may not work''"

definition noteNonDefault :: "string \<Rightarrow> string \<Rightarrow> gobState \<Rightarrow> gobState" where
  "noteNonDefault name typ st =
    (let st1 = (if errorCount st < 1
                then st\<lparr>printed := printed st @ [nonDefaultWarning (if name = [] then typ else name)]\<rparr>
                else st) in
     st1\<lparr>errorCount := errorCount st1 + 1\<rparr>)"

fun checkDefault1 :: "goValue \<Rightarrow> nat \<Rightarrow> string \<Rightarrow> gobState \<Rightarrow> gobState" where
  "checkDefault1 (VStruct t fs) depth name st =
    (if depth > 3 then st
     else fold (\<lambda>f s. checkDefault1 (snd f) (depth + 1) (if name \<noteq> [] then name @ ''.'' @ fst f else fst f) s) fs st)"
| "checkDefault1 (VPtr p) depth name st =
    (if depth > 3 then st
     else case p of None \<Rightarrow> st | Some v \<Rightarrow> checkDefault1 v (depth + 1) name st)"
| "checkDefault1 (VBasic t zero) depth name st =
    (if depth > 3 then st else if zero = False then noteNonDefault name t st else st)"
| "checkDefault1 VOther depth name st = st"

definition checkDefault :: "goValue option \<Rightarrow> gobState \<Rightarrow> gobState" where
  "checkDefault v st = (case v of None \<Rightarrow> st | Some x \<Rightarrow> checkDefault1 x 1 [] st)"

section \<open>Encoder and decoder\<close>

text \<open>\<open>gob\<close> stands for the encoder or decoder of the standard library.\<close>

definition Encode :: "('e \<Rightarrow> 'r) \<Rightarrow> nat \<Rightarrow> goType list \<Rightarrow> nat option \<Rightarrow> 'e \<Rightarrow> gobState \<Rightarrow> (gobState option \<times> 'r) res" where
  "Encode gob fuel env ty e st = rbind (checkValue fuel env ty st) (\<lambda>st'. Inr (st', gob e))"

definition Decode :: "('e \<Rightarrow> 'r) \<Rightarrow> nat \<Rightarrow> goType list \<Rightarrow> nat option \<Rightarrow> goValue option \<Rightarrow> 'e \<Rightarrow> gobState \<Rightarrow> (gobState option \<times> 'r) res" where
  "Decode gob fuel env ty v e st =
    rbind (checkValue fuel env ty st) (\<lambda>st'. Inr (map_option (checkDefault v) st', gob e))"

definition Register :: "('e \<Rightarrow> 'r) \<Rightarrow> nat \<Rightarrow> goType list \<Rightarrow> nat option \<Rightarrow> 'e \<Rightarrow> gobState \<Rightarrow> (gobState option \<times> 'r) res" where
  "Register gob fuel env ty value st = rbind (checkValue fuel env ty st) (\<lambda>st'. Inr (st', gob value))"

text \<open>\<open>EncodeValue\<close> and \<open>RegisterName\<close> take a reflected value and a name besides.\<close>

definition EncodeValue :: "('e \<Rightarrow> 'r) \<Rightarrow> nat \<Rightarrow> goType list \<Rightarrow> nat option \<Rightarrow> 'e \<Rightarrow> gobState \<Rightarrow> (gobState option \<times> 'r) res" where
  "EncodeValue gob fuel env ty value st = rbind (checkValue fuel env ty st) (\<lambda>st'. Inr (st', gob value))"

definition RegisterName :: "(string \<Rightarrow> 'e \<Rightarrow> 'r) \<Rightarrow> nat \<Rightarrow> goType list \<Rightarrow> nat option \<Rightarrow> string \<Rightarrow> 'e \<Rightarrow> gobState \<Rightarrow>
    (gobState option \<times> 'r) res" where
  "RegisterName gob fuel env ty name value st = rbind (checkValue fuel env ty st) (\<lambda>st'. Inr (st', gob name value))"

section \<open>What the check of types reaches\<close>

text \<open>The types a type is made of, with the field names that are looked at before each.\<close>

definition parts :: "goType list \<Rightarrow> nat \<Rightarrow> (string option \<times> nat) list" where
  "parts env t = (case tKind (env ! t) of
     KStruct fs \<Rightarrow> map (\<lambda>f. (Some (fst f), snd f)) fs
   | KElem e \<Rightarrow> [(None, e)] | KMap e k \<Rightarrow> [(None, e), (None, k)] | KOther \<Rightarrow> [])"

definition partOf :: "goType list \<Rightarrow> (nat \<times> nat) set" where
  "partOf env = {(t, u). u \<in> snd ` set (parts env t)}"

definition lowerName :: "string option \<Rightarrow> bool" where
  "lowerName f = (case f of None \<Rightarrow> False | Some s \<Rightarrow> \<not> isUpperName s)"

definition lowerFields :: "goType list \<Rightarrow> nat \<Rightarrow> nat" where
  "lowerFields env t = length (filter (\<lambda>p. lowerName (fst p)) (parts env t))"

definition closed_env :: "goType list \<Rightarrow> bool" where
  "closed_env env = (\<forall>t < length env. \<forall>p \<in> set (parts env t). snd p < length env)"

definition noteName :: "goType \<Rightarrow> string option \<Rightarrow> gobState \<Rightarrow> gobState" where
  "noteName t f st = (case f of None \<Rightarrow> st | Some s \<Rightarrow> noteField t s st)"

lemma noteName_sel [simp]:
  "checked (noteName t f st) = checked st"
  "errorCount (noteName t f st) = errorCount st + (if lowerName f then 1 else 0)"
  by (auto simp: noteName_def noteField_def lowerName_def split: option.splits)

lemma checkType_parts:
  "checkType (Suc fuel) env t st =
    (if t \<in> checked st then Some st
     else foldl (\<lambda>r p. Option.bind r (\<lambda>s. checkType fuel env (snd p) (noteName (env ! t) (fst p) s)))
       (Some (st\<lparr>checked := insert t (checked st)\<rparr>)) (parts env t))"
proof (cases "tKind (env ! t)")
  case (KStruct fs)
  have "foldl (\<lambda>r p. Option.bind r (\<lambda>s. checkType fuel env (snd p) (noteName (env ! t) (fst p) s))) r (map (\<lambda>f. (Some (fst f), snd f)) fs) =
      foldl (\<lambda>r f. Option.bind r (\<lambda>s. checkType fuel env (snd f) (noteField (env ! t) (fst f) s))) r fs" for r
    by (induction fs arbitrary: r) (auto simp: noteName_def)
  with KStruct show ?thesis by (simp add: parts_def Let_def)
next
  case (KMap e k)
  then show ?thesis by (simp add: parts_def noteName_def Let_def)
qed (auto simp: parts_def noteName_def Let_def)

text \<open>What a call has done: everything new is reachable, complete, and counted once; \<open>k\<close> errors
  come on top.\<close>

definition visited :: "goType list \<Rightarrow> nat set \<Rightarrow> nat \<Rightarrow> gobState \<Rightarrow> gobState \<Rightarrow> bool" where
  "visited env R k st st' = (checked st \<subseteq> checked st' \<and> checked st' - checked st \<subseteq> R \<inter> {..<length env} \<and>
     errorCount st' = errorCount st + k + (\<Sum>u \<in> checked st' - checked st. lowerFields env u) \<and>
     (\<forall>u \<in> checked st' - checked st. partOf env `` {u} \<subseteq> checked st'))"

lemma visited_refl: "visited env R 0 st st"
  by (simp add: visited_def)

lemma visited_trans:
  assumes "visited env R k st1 st2" "visited env R k' st2 st3"
  shows "visited env R (k + k') st1 st3"
proof -
  let ?A = "checked st2 - checked st1" and ?B = "checked st3 - checked st2"
  have sub: "checked st1 \<subseteq> checked st2" "checked st2 \<subseteq> checked st3" "?A \<subseteq> R \<inter> {..<length env}" "?B \<subseteq> R \<inter> {..<length env}"
    and er: "errorCount st2 = errorCount st1 + k + sum (lowerFields env) ?A" "errorCount st3 = errorCount st2 + k' + sum (lowerFields env) ?B"
    and cl: "\<And>u. u \<in> ?A \<Longrightarrow> partOf env `` {u} \<subseteq> checked st2" "\<And>u. u \<in> ?B \<Longrightarrow> partOf env `` {u} \<subseteq> checked st3"
    using assms by (auto simp: visited_def)
  have un: "checked st3 - checked st1 = ?A \<union> ?B" using sub by auto
  have "finite ?A" "finite ?B" using sub(3,4) finite_subset [of _ "{..<length env}"] by auto
  moreover have "?A \<inter> ?B = {}" by auto
  ultimately have "sum (lowerFields env) (checked st3 - checked st1) = sum (lowerFields env) ?A + sum (lowerFields env) ?B"
    unfolding un by (rule sum.union_disjoint)
  moreover have "\<forall>u \<in> checked st3 - checked st1. partOf env `` {u} \<subseteq> checked st3" unfolding un using cl sub(2) by blast
  ultimately show ?thesis using sub er un by (auto simp: visited_def)
qed

definition enough :: "nat \<Rightarrow> goType list \<Rightarrow> gobState \<Rightarrow> bool" where
  "enough fuel env st = (card ({..<length env} - checked st) < fuel)"

lemma enough_mono: "enough fuel env st \<Longrightarrow> checked st \<subseteq> checked st' \<Longrightarrow> enough fuel env st'"
  unfolding enough_def by (meson Diff_mono card_mono finite_Diff finite_lessThan le_less_trans order_refl)

text \<open>The loop over the parts of a type.\<close>

lemma walk_parts:
  assumes ih: "\<And>u st. \<lbrakk>u < length env; enough fuel env st\<rbrakk> \<Longrightarrow>
      \<exists>st'. checkType fuel env u st = Some st' \<and> visited env ((partOf env)\<^sup>* `` {u}) 0 st st' \<and> u \<in> checked st'"
    and ps: "\<And>p. p \<in> set ps \<Longrightarrow> snd p < length env \<and> (partOf env)\<^sup>* `` {snd p} \<subseteq> R" and "enough fuel env st"
  shows "\<exists>st'. foldl (\<lambda>r p. Option.bind r (\<lambda>s. checkType fuel env (snd p) (noteName ty (fst p) s))) (Some st) ps = Some st' \<and>
    visited env R (length (filter (\<lambda>p. lowerName (fst p)) ps)) st st' \<and>
    snd ` set ps \<subseteq> checked st'"
  using ps assms(3)
proof (induction ps arbitrary: st)
  case Nil
  then show ?case by (simp add: visited_refl)
next
  case (Cons p ps)
  let ?n = "noteName ty (fst p) st"
  let ?k = "if lowerName (fst p) then 1 else (0 :: nat)"
  have "enough fuel env ?n" using Cons.prems(2) by (simp add: enough_def)
  with ih [of "snd p" ?n] Cons.prems(1) [of p] obtain st1 where st1: "checkType fuel env (snd p) ?n = Some st1"
    "visited env ((partOf env)\<^sup>* `` {snd p}) 0 ?n st1" "snd p \<in> checked st1" by auto
  have v1: "visited env R ?k st st1" using st1(2) Cons.prems(1) [of p] unfolding visited_def by auto
  then have "enough fuel env st1" using Cons.prems(2) enough_mono unfolding visited_def by blast
  with Cons.IH [of st1] Cons.prems(1) obtain st' where st': "foldl (\<lambda>r p. Option.bind r (\<lambda>s. checkType fuel env (snd p) (noteName ty (fst p) s))) (Some st1) ps = Some st'"
    "visited env R (length (filter (\<lambda>p. lowerName (fst p)) ps)) st1 st'"
    "snd ` set ps \<subseteq> checked st'" by auto
  have "visited env R (length (filter (\<lambda>p. lowerName (fst p)) (p # ps))) st st'"
    using visited_trans [OF v1 st'(2)] by (simp split: if_splits)
  moreover have "snd p \<in> checked st'" using st1(3) st'(2) by (auto simp: visited_def)
  ultimately show ?case using st1(1) st' by auto
qed

lemma checkType_visits:
  assumes env: "closed_env env"
  shows "t < length env \<Longrightarrow> enough fuel env st \<Longrightarrow>
    \<exists>st'. checkType fuel env t st = Some st' \<and> visited env ((partOf env)\<^sup>* `` {t}) 0 st st' \<and> t \<in> checked st'"
proof (induction fuel arbitrary: t st)
  case 0
  then show ?case by (simp add: enough_def)
next
  case (Suc fuel)
  show ?case
  proof (cases "t \<in> checked st")
    case True
    then show ?thesis by (simp add: visited_refl)
  next
    case False
    let ?st = "st\<lparr>checked := insert t (checked st)\<rparr>" and ?R = "(partOf env)\<^sup>* `` {t}"
    have "checked ?st = insert t (checked st)" by simp
    then have "card ({..<length env} - checked ?st) < card ({..<length env} - checked st)"
      using False Suc.prems(1) by (intro psubset_card_mono) auto
    then have en: "enough fuel env ?st" using Suc.prems(2) by (simp add: enough_def)
    have ps: "snd p < length env \<and> (partOf env)\<^sup>* `` {snd p} \<subseteq> ?R" if "p \<in> set (parts env t)" for p
    proof -
      have "(t, snd p) \<in> partOf env" using that by (auto simp: partOf_def)
      then show ?thesis using env Suc.prems(1) that by (auto simp: closed_env_def intro: converse_rtrancl_into_rtrancl)
    qed
    obtain st' where st': "foldl (\<lambda>r p. Option.bind r (\<lambda>s. checkType fuel env (snd p) (noteName (env ! t) (fst p) s))) (Some ?st) (parts env t) = Some st'"
      "visited env ?R (lowerFields env t) ?st st'" "snd ` set (parts env t) \<subseteq> checked st'"
      using walk_parts [of env fuel "parts env t" ?R ?st "env ! t", OF Suc.IH ps en] unfolding lowerFields_def by blast
    have new: "checked st' - checked st = insert t (checked st' - checked ?st)" using st'(2) False by (auto simp: visited_def)
    have "finite (checked st' - checked ?st)" using st'(2) finite_subset [of _ "{..<length env}"] by (auto simp: visited_def)
    then have sm: "sum (lowerFields env) (checked st' - checked st) = lowerFields env t + sum (lowerFields env) (checked st' - checked ?st)"
      unfolding new by simp
    have c: "checked ?st = insert t (checked st)" "errorCount ?st = errorCount st" by simp_all
    have v: "checked ?st \<subseteq> checked st'" "checked st' - checked ?st \<subseteq> ?R \<inter> {..<length env}"
      "errorCount st' = errorCount ?st + lowerFields env t + sum (lowerFields env) (checked st' - checked ?st)"
      "\<forall>u \<in> checked st' - checked ?st. partOf env `` {u} \<subseteq> checked st'"
      using st'(2) unfolding visited_def by blast+
    have "visited env ?R 0 st st'"
      unfolding visited_def
    proof (intro conjI ballI)
      show "checked st \<subseteq> checked st'" using v(1) c(1) by blast
      show "checked st' - checked st \<subseteq> ?R \<inter> {..<length env}" unfolding new using v(2) Suc.prems(1) by auto
      show "errorCount st' = errorCount st + 0 + sum (lowerFields env) (checked st' - checked st)" using v(3) sm c(2) by simp
      fix u assume "u \<in> checked st' - checked st"
      then have "u = t \<or> u \<in> checked st' - checked ?st" using new by blast
      then show "partOf env `` {u} \<subseteq> checked st'" using v(4) st'(3) by (auto simp: partOf_def)
    qed
    moreover have "t \<in> checked st'" using new by blast
    ultimately show ?thesis using st'(1) False by (simp only: checkType_parts) simp
  qed
qed

text \<open>
  C32: the check of a type ends, also for types that refer to themselves, with as many levels
  as the program has types. It visits exactly the types the given one is made of, each once,
  and reports one error for every field among them whose name is not capitalized; checking
  the type again reports nothing.
\<close>

theorem check_type_complete:
  assumes "closed_env env" "t < length env" "length env < fuel"
  shows "\<exists>st. checkType fuel env t \<lparr>checked = {}, errorCount = 0, printed = []\<rparr> = Some st \<and>
    checked st = (partOf env)\<^sup>* `` {t} \<and>
    errorCount st = (\<Sum>u \<in> (partOf env)\<^sup>* `` {t}. lowerFields env u) \<and>
    checkType fuel env t st = Some st"
proof -
  let ?st0 = "\<lparr>checked = {}, errorCount = 0, printed = []\<rparr>"
  have "enough fuel env ?st0" using assms(3) by (simp add: enough_def)
  from checkType_visits [OF assms(1,2) this] obtain st where st: "checkType fuel env t ?st0 = Some st"
    "visited env ((partOf env)\<^sup>* `` {t}) 0 ?st0 st" "t \<in> checked st" by blast
  have sub: "checked st \<subseteq> (partOf env)\<^sup>* `` {t}" and cl: "\<And>u v. u \<in> checked st \<Longrightarrow> (u, v) \<in> partOf env \<Longrightarrow> v \<in> checked st"
    using st(2) by (auto simp: visited_def)
  have "u \<in> checked st" if "(t, u) \<in> (partOf env)\<^sup>*" for u
    using that by induction (use st(3) cl in auto)
  with sub have eq: "checked st = (partOf env)\<^sup>* `` {t}" by auto
  moreover have "errorCount st = (\<Sum>u \<in> (partOf env)\<^sup>* `` {t}. lowerFields env u)" using st(2) eq by (simp add: visited_def)
  moreover have "checkType fuel env t st = Some st" using st(3) assms(3) by (cases fuel) auto
  ultimately show ?thesis using st(1) by blast
qed

text \<open>A list node that points to itself, with one lower-case field.\<close>

definition nodeTypes :: "goType list" where
  "nodeTypes = [\<lparr>tName = ''Node'', tKind = KStruct [(''Value'', 2), (''next'', 1)]\<rparr>, \<lparr>tName = [], tKind = KElem 0\<rparr>,
     \<lparr>tName = ''int'', tKind = KOther\<rparr>]"

theorem check_type_complete_witness:
  "closed_env nodeTypes \<and> (\<exists>st. checkType 4 nodeTypes 0 \<lparr>checked = {}, errorCount = 0, printed = []\<rparr> = Some st \<and>
    checked st = (partOf nodeTypes)\<^sup>* `` {0} \<and> errorCount st = 1)"
proof -
  have env: "closed_env nodeTypes"
    by (auto simp: closed_env_def nodeTypes_def parts_def less_Suc_eq numeral_3_eq_3)
  have run: "\<exists>s. checkType 4 nodeTypes 0 \<lparr>checked = {}, errorCount = 0, printed = []\<rparr> = Some s \<and> errorCount s = 1"
    by (simp add: eval_nat_numeral nodeTypes_def noteField_def isUpperName_def less_eq_char_def)
  have "0 < length nodeTypes" "length nodeTypes < 4" by (simp_all add: nodeTypes_def)
  from check_type_complete [OF env this] run env show ?thesis by auto
qed

section \<open>What the check of values finds\<close>

text \<open>The basic values in a value, with their depth, their path and whether they are zero.\<close>

fun leaves :: "goValue \<Rightarrow> nat \<Rightarrow> string \<Rightarrow> (nat \<times> string \<times> bool) list" where
  "leaves (VStruct t fs) d name =
    concat (map (\<lambda>f. leaves (snd f) (d + 1) (if name \<noteq> [] then name @ ''.'' @ fst f else fst f)) fs)"
| "leaves (VPtr p) d name = (case p of None \<Rightarrow> [] | Some v \<Rightarrow> leaves v (d + 1) name)"
| "leaves (VBasic t zero) d name = [(d, if name = [] then t else name, zero)]"
| "leaves VOther d name = []"

definition noteLeaf :: "nat \<times> string \<times> bool \<Rightarrow> gobState \<Rightarrow> gobState" where
  "noteLeaf l st = (if fst l \<le> 3 \<and> \<not> snd (snd l) then noteNonDefault (fst (snd l)) [] st else st)"

lemma fold_stay: "(\<And>l s. l \<in> set ls \<Longrightarrow> f l s = s) \<Longrightarrow> fold f ls s = s"
  by (induction ls) auto

lemma leaves_deep: "l \<in> set (leaves v d name) \<Longrightarrow> d \<le> fst l"
  by (induction v d name rule: leaves.induct) (fastforce split: option.splits)+

lemma noteNonDefault_path: "noteNonDefault (if name = [] then t else name) [] st = noteNonDefault name t st"
  by (simp add: noteNonDefault_def)

lemma checkDefault1_leaves: "checkDefault1 v d name st = fold noteLeaf (leaves v d name) st"
proof (induction v d name arbitrary: st rule: leaves.induct)
  case (1 t fs d name)
  show ?case
  proof (cases "d > 3")
    case True
    have "noteLeaf l st = st" if "l \<in> set (leaves (VStruct t fs) d name)" for l st
      using leaves_deep [OF that] True by (simp add: noteLeaf_def)
    then have "fold noteLeaf (leaves (VStruct t fs) d name) st = st" by (rule fold_stay)
    with True show ?thesis by simp
  next
    case False
    define nm where "nm f = (if name \<noteq> [] then name @ ''.'' @ fst f else fst f)" for f :: "string \<times> goValue"
    have ih: "checkDefault1 (snd f) (d + 1) (nm f) st = fold noteLeaf (leaves (snd f) (d + 1) (nm f)) st" if "f \<in> set fs" for f st
      unfolding nm_def by (rule "1.IH" [OF that])
    have "fold (\<lambda>f s. checkDefault1 (snd f) (d + 1) (nm f) s) gs st =
        fold noteLeaf (concat (map (\<lambda>f. leaves (snd f) (d + 1) (nm f)) gs)) st" if "set gs \<subseteq> set fs" for gs st
      using that by (induction gs arbitrary: st) (simp_all add: ih [simplified])
    with False show ?thesis by (simp add: nm_def)
  qed
next
  case (2 p d name)
  then show ?case
  proof (cases p)
    case (Some v)
    show ?thesis
    proof (cases "d > 3")
      case True
      have "noteLeaf l st = st" if "l \<in> set (leaves v (d + 1) name)" for l st
        using leaves_deep [OF that] True by (simp add: noteLeaf_def)
      then have "fold noteLeaf (leaves v (d + 1) name) st = st" by (rule fold_stay)
      with True Some show ?thesis by simp
    qed (use 2 Some in simp)
  qed simp
next
  case (3 t zero d name)
  then show ?case using noteNonDefault_path [of name t st] by (simp add: noteLeaf_def)
qed simp

definition nonDefaults :: "goValue \<Rightarrow> (nat \<times> string \<times> bool) list" where
  "nonDefaults v = filter (\<lambda>l. fst l \<le> 3 \<and> \<not> snd (snd l)) (leaves v 1 [])"

lemma fold_noteLeaf:
  "errorCount (fold noteLeaf ls st) = errorCount st + length (filter (\<lambda>l. fst l \<le> 3 \<and> \<not> snd (snd l)) ls)"
  "printed (fold noteLeaf ls st) = printed st @
     (case filter (\<lambda>l. fst l \<le> 3 \<and> \<not> snd (snd l)) ls of
        [] \<Rightarrow> [] | l # _ \<Rightarrow> if errorCount st = 0 then [nonDefaultWarning (fst (snd l))] else [])"
  "checked (fold noteLeaf ls st) = checked st"
proof (induction ls arbitrary: st)
  case (Cons l ls)
  { case 1 show ?case using Cons(1) [of "noteLeaf l st"] by (simp add: noteLeaf_def noteNonDefault_def Let_def)
  next
    case 2 show ?case using Cons(2) [of "noteLeaf l st"]
      by (simp add: noteLeaf_def noteNonDefault_def Let_def split: list.splits)
  next
    case 3 show ?case using Cons(3) [of "noteLeaf l st"] by (simp add: noteLeaf_def noteNonDefault_def Let_def) }
qed simp_all

text \<open>
  Decoding into a variable reports exactly the basic values in it that are not zero and
  at most two levels below the variable: each is counted, and the first of them is printed
  with its path if nothing was reported before. A struct inside the struct that a pointer
  points to is not looked into.
\<close>

theorem check_default_finds:
  "errorCount (checkDefault (Some v) st) = errorCount st + length (nonDefaults v) \<and>
   printed (checkDefault (Some v) st) = printed st @
     (case nonDefaults v of [] \<Rightarrow> [] | l # _ \<Rightarrow> if errorCount st = 0 then [nonDefaultWarning (fst (snd l))] else []) \<and>
   nonDefaults (VPtr (Some (VStruct ''QueryReply'' [(''Err'', VBasic ''string'' True),
     (''Config'', VStruct ''Config'' [(''Num'', VBasic ''int'' False)])]))) = []"
  by (simp add: checkDefault_def checkDefault1_leaves fold_noteLeaf nonDefaults_def split: list.splits)

end
