(* ===== verification/KvClerk.thy ===== *)
theory KvClerk
  imports RaftPeer
begin

text \<open>
  The key/value service on Raft (\<open>kvraft\<close>): the clerk that retries a request at one server
  after the other until one of them answers as the leader, and the server, whose handlers
  are still empty.

  A remote call is a parameter: \<open>net i s args\<close> is what the \<open>i\<close>-th attempt gets from server
  \<open>s\<close>, \<open>None\<close> for a failed call. The loops of the clerk are bounded by the number of
  attempts; running out of attempts is \<open>None\<close>.
\<close>

section \<open>Messages\<close>

definition OK :: string where "OK = ''OK''"
definition ErrNoKey :: string where "ErrNoKey = ''ErrNoKey''"
definition ErrWrongLeader :: string where "ErrWrongLeader = ''ErrWrongLeader''"

record PutAppendArgs =
  paKey :: string
  paValue :: string
  paOp :: string
  paClientId :: int
  paSeq :: int

record PutAppendReply =
  paErr :: string

record GetArgs =
  gKey :: string
  gClientId :: int
  gSeq :: int

record GetReply =
  gErr :: string
  gValue :: string

section \<open>The clerk\<close>

text \<open>\<open>servers\<close> is the number of end points.\<close>

record Clerk =
  ckServers :: int
  ckId :: int
  leaderId :: int
  ckSeq :: int

definition MakeClerk :: "int \<Rightarrow> int \<Rightarrow> Clerk" where
  "MakeClerk servers nrand = \<lparr>ckServers = servers, ckId = nrand, leaderId = 0, ckSeq = 0\<rparr>"

text \<open>Selecting \<open>ck.servers[serverId]\<close> panics when there is no such server.\<close>

definition serverOf :: "Clerk \<Rightarrow> int \<Rightarrow> int res" where
  "serverOf ck s = (if 0 \<le> s \<and> s < ckServers ck then Inr s else Inl IndexOutOfRange)"

fun getLoop :: "(nat \<Rightarrow> int \<Rightarrow> GetArgs \<Rightarrow> GetReply option) \<Rightarrow> GetArgs \<Rightarrow> nat \<Rightarrow> nat \<Rightarrow> int \<Rightarrow> Clerk \<Rightarrow>
    (Clerk \<times> string) option res" where
  "getLoop net args 0 i serverId ck = Inr None"
| "getLoop net args (Suc fuel) i serverId ck =
    rbind (serverOf ck serverId) (\<lambda>srv.
    case net i srv args of
      Some reply \<Rightarrow>
        if gErr reply = ErrNoKey then Inr (Some (ck\<lparr>leaderId := serverId\<rparr>, []))
        else if gErr reply = OK then Inr (Some (ck\<lparr>leaderId := serverId\<rparr>, gValue reply))
        else if gErr reply = ErrWrongLeader then getLoop net args fuel (i + 1) ((serverId + 1) mod ckServers ck) ck
        else getLoop net args fuel (i + 1) ((serverId + 1) mod ckServers ck) ck
    | None \<Rightarrow> getLoop net args fuel (i + 1) ((serverId + 1) mod ckServers ck) ck)"

definition Get :: "(nat \<Rightarrow> int \<Rightarrow> GetArgs \<Rightarrow> GetReply option) \<Rightarrow> nat \<Rightarrow> Clerk \<Rightarrow> string \<Rightarrow> (Clerk \<times> string) option res" where
  "Get net fuel ck key =
    (let ck1 = ck\<lparr>ckSeq := ckSeq ck + 1\<rparr>;
         args = \<lparr>gKey = key, gClientId = ckId ck1, gSeq = ckSeq ck1\<rparr> in
     getLoop net args fuel 0 (leaderId ck1) ck1)"

fun putAppendLoop :: "(nat \<Rightarrow> int \<Rightarrow> PutAppendArgs \<Rightarrow> PutAppendReply option) \<Rightarrow> PutAppendArgs \<Rightarrow> nat \<Rightarrow> nat \<Rightarrow> int \<Rightarrow> Clerk \<Rightarrow>
    Clerk option res" where
  "putAppendLoop net args 0 i serverId ck = Inr None"
| "putAppendLoop net args (Suc fuel) i serverId ck =
    rbind (serverOf ck serverId) (\<lambda>srv.
    case net i srv args of
      Some reply \<Rightarrow>
        if paErr reply = OK then Inr (Some (ck\<lparr>leaderId := serverId\<rparr>))
        else if paErr reply = ErrWrongLeader then putAppendLoop net args fuel (i + 1) ((serverId + 1) mod ckServers ck) ck
        else putAppendLoop net args fuel (i + 1) ((serverId + 1) mod ckServers ck) ck
    | None \<Rightarrow> putAppendLoop net args fuel (i + 1) ((serverId + 1) mod ckServers ck) ck)"

definition PutAppend :: "(nat \<Rightarrow> int \<Rightarrow> PutAppendArgs \<Rightarrow> PutAppendReply option) \<Rightarrow> nat \<Rightarrow> Clerk \<Rightarrow> string \<Rightarrow> string \<Rightarrow> string \<Rightarrow>
    Clerk option res" where
  "PutAppend net fuel ck key value op =
    (let ck1 = ck\<lparr>ckSeq := ckSeq ck + 1\<rparr>;
         args = \<lparr>paKey = key, paValue = value, paOp = op, paClientId = ckId ck1, paSeq = ckSeq ck1\<rparr> in
     putAppendLoop net args fuel 0 (leaderId ck1) ck1)"

definition Put :: "(nat \<Rightarrow> int \<Rightarrow> PutAppendArgs \<Rightarrow> PutAppendReply option) \<Rightarrow> nat \<Rightarrow> Clerk \<Rightarrow> string \<Rightarrow> string \<Rightarrow> Clerk option res" where
  "Put net fuel ck key value = PutAppend net fuel ck key value ''Put''"

definition Append :: "(nat \<Rightarrow> int \<Rightarrow> PutAppendArgs \<Rightarrow> PutAppendReply option) \<Rightarrow> nat \<Rightarrow> Clerk \<Rightarrow> string \<Rightarrow> string \<Rightarrow> Clerk option res" where
  "Append net fuel ck key value = PutAppend net fuel ck key value ''Append''"

section \<open>The server\<close>

record KvOp =
  opSeqId :: int
  opKey :: string
  opValue :: string
  opClient :: int
  opIndex :: int
  opType :: string

text \<open>The server on its Raft peer. \<open>StartKVServer\<close> leaves the maps nil.\<close>

record KVServer =
  kvMe :: int
  kvRf :: "KvOp Raft"
  kvDead :: int
  maxraftstate :: int
  replayedIndex :: int
  seqMap :: "int \<rightharpoonup> int"
  kvPersist :: "string \<rightharpoonup> string"
  lastIncludeIndex :: int

text \<open>The handlers have no body: state and reply stay as they are.\<close>

definition KVServer_Get :: "KVServer \<Rightarrow> GetArgs \<Rightarrow> GetReply \<Rightarrow> KVServer \<times> GetReply" where
  "KVServer_Get kv args reply = (kv, reply)"

definition KVServer_PutAppend :: "KVServer \<Rightarrow> PutAppendArgs \<Rightarrow> PutAppendReply \<Rightarrow> KVServer \<times> PutAppendReply" where
  "KVServer_PutAppend kv args reply = (kv, reply)"

definition KVServer_Kill :: "KVServer \<Rightarrow> KVServer" where
  "KVServer_Kill kv = kv\<lparr>kvDead := 1, kvRf := Kill (kvRf kv)\<rparr>"

definition KVServer_killed :: "KVServer \<Rightarrow> bool" where
  "KVServer_killed kv = (let z = kvDead kv in z = 1)"

definition StartKVServer :: "int \<Rightarrow> int \<Rightarrow> KvOp Persister \<Rightarrow> int \<Rightarrow> int \<Rightarrow> int \<Rightarrow> KVServer option" where
  "StartKVServer servers self ps maxraft now rnd =
    map_option (\<lambda>rf. \<lparr>kvMe = self, kvRf = rf, kvDead = 0, maxraftstate = maxraft, replayedIndex = 0,
      seqMap = Map.empty, kvPersist = Map.empty, lastIncludeIndex = 0\<rparr>) (Make servers self ps now rnd)"

section \<open>Round robin\<close>

text \<open>
  What the loops of the clerk share: attempt \<open>i\<close> at server \<open>s\<close> either decides the loop or
  moves on to the next server. \<open>fin\<close> makes the result of the server that decided.
\<close>

locale round_robin =
  fixes loop :: "nat \<Rightarrow> nat \<Rightarrow> int \<Rightarrow> 'out option res"
    and decide :: "nat \<Rightarrow> int \<Rightarrow> 'res option"
    and fin :: "int \<Rightarrow> 'res \<Rightarrow> 'out"
    and n :: int
  assumes loop_0: "loop 0 i s = Inr None"
    and loop_Suc: "0 \<le> s \<Longrightarrow> s < n \<Longrightarrow> loop (Suc k) i s =
      (case decide i s of Some r \<Rightarrow> Inr (Some (fin s r)) | None \<Rightarrow> loop k (i + 1) ((s + 1) mod n))"
begin

lemma loop_skips:
  assumes "0 \<le> s" "s < n" "\<And>j. j < m \<Longrightarrow> decide (i + j) ((s + int j) mod n) = None"
  shows "loop (m + k) i s = loop k (i + m) ((s + int m) mod n)"
  using assms
proof (induction m arbitrary: i s)
  case 0
  then show ?case by simp
next
  case (Suc m)
  let ?s = "(s + 1) mod n"
  have s: "0 \<le> ?s" "?s < n" using Suc.prems(1,2) by simp_all
  have shift: "(?s + int j) mod n = (s + int (Suc j)) mod n" for j
    using mod_add_left_eq [of "s + 1" n "int j"] by (simp add: algebra_simps)
  have "decide i s = None" using Suc.prems(3) [of 0] Suc.prems(1,2) by simp
  then have "loop (Suc m + k) i s = loop (m + k) (i + 1) ?s" using loop_Suc [OF Suc.prems(1,2)] by simp
  also have "\<dots> = loop k (i + 1 + m) ((?s + int m) mod n)"
    using Suc.prems(3) [of "Suc _"] shift by (intro Suc.IH s) simp
  finally show ?case using shift by simp
qed

lemma first_decision:
  assumes "0 \<le> s" "s < n" "\<And>j. j < m \<Longrightarrow> decide j ((s + int j) mod n) = None"
    and "decide m ((s + int m) mod n) = Some r" "m < fuel"
  shows "loop fuel 0 s = Inr (Some (fin ((s + int m) mod n) r))"
proof -
  obtain k where "fuel = m + Suc k" using assms(5) less_imp_add_positive by (metis Suc_pred' add_Suc_right)
  moreover have "loop (m + Suc k) 0 s = loop (Suc k) m ((s + int m) mod n)"
    using loop_skips [OF assms(1,2), of m 0 "Suc k"] assms(3) by simp
  moreover have "0 \<le> (s + int m) mod n" "(s + int m) mod n < n" using assms(1,2) by simp_all
  ultimately show ?thesis using loop_Suc assms(4) by simp
qed

text \<open>A server that always decides is reached within one round.\<close>

lemma one_round:
  assumes "0 \<le> s" "s < n" "0 \<le> t" "t < n" "\<And>i. decide i t \<noteq> None"
  shows "\<exists>m r. m < nat n \<and> decide m ((s + int m) mod n) = Some r \<and> loop (nat n) 0 s = Inr (Some (fin ((s + int m) mod n) r))"
proof -
  let ?P = "\<lambda>m. decide m ((s + int m) mod n) \<noteq> None"
  let ?d = "nat ((t - s) mod n)"
  have "(s + int ?d) mod n = t" using assms(1-4) by (simp add: mod_add_right_eq)
  then have ex: "?P ?d" using assms(5) by simp
  define m where "m = (LEAST m. ?P m)"
  have m: "?P m" "\<And>j. j < m \<Longrightarrow> \<not> ?P j" unfolding m_def using ex LeastI [of ?P] not_less_Least [of _ ?P] by blast+
  have "m \<le> ?d" unfolding m_def using ex by (rule Least_le)
  moreover have "?d < nat n" using assms(1,2) by (simp add: nat_less_eq_zless)
  ultimately have lt: "m < nat n" by (rule le_less_trans)
  obtain r where r: "decide m ((s + int m) mod n) = Some r" using m(1) by auto
  have "loop (nat n) 0 s = Inr (Some (fin ((s + int m) mod n) r))"
    using m(2) by (intro first_decision [OF assms(1,2) _ r lt]) blast
  with lt r show ?thesis by blast
qed

lemma never_decides:
  assumes "0 \<le> s" "s < n" "\<And>i t. decide i t = None"
  shows "loop k 0 s = Inr None"
  using loop_skips [OF assms(1,2), of k 0 0] assms(3) by (simp add: loop_0)

end

text \<open>What decides a get and a put or append.\<close>

definition getDecision :: "GetReply option \<Rightarrow> string option" where
  "getDecision rep = (case rep of
     None \<Rightarrow> None
   | Some r \<Rightarrow> if gErr r = ErrNoKey then Some [] else if gErr r = OK then Some (gValue r) else None)"

definition putDecision :: "PutAppendReply option \<Rightarrow> unit option" where
  "putDecision rep = (case rep of None \<Rightarrow> None | Some r \<Rightarrow> if paErr r = OK then Some () else None)"

interpretation get: round_robin "\<lambda>fuel i s. getLoop net args fuel i s ck" "\<lambda>i s. getDecision (net i s args)"
    "\<lambda>s v. (ck\<lparr>leaderId := s\<rparr>, v)" "ckServers ck" for net args ck
  by unfold_locales (auto simp: serverOf_def getDecision_def split: option.splits)

interpretation put: round_robin "\<lambda>fuel i s. putAppendLoop net args fuel i s ck" "\<lambda>i s. putDecision (net i s args)"
    "\<lambda>s v. ck\<lparr>leaderId := s\<rparr>" "ckServers ck" for net args ck
  by unfold_locales (auto simp: serverOf_def putDecision_def split: option.splits)

section \<open>Properties\<close>

text \<open>
  C20: a get asks the servers in turn, starting with the last known leader, and returns the
  answer of the first that replies with a value or with \<open>ErrNoKey\<close>, whatever failed calls
  and other replies come before. All attempts carry the same client and a sequence number
  one above the previous request, and the server that answered is remembered.
\<close>

theorem kv_get_first_answer:
  assumes "0 \<le> leaderId ck" "leaderId ck < ckServers ck" and "m < fuel"
    and "\<And>j. j < m \<Longrightarrow> getDecision (net j ((leaderId ck + int j) mod ckServers ck)
            \<lparr>gKey = key, gClientId = ckId ck, gSeq = ckSeq ck + 1\<rparr>) = None"
    and "getDecision (net m ((leaderId ck + int m) mod ckServers ck) \<lparr>gKey = key, gClientId = ckId ck, gSeq = ckSeq ck + 1\<rparr>) = Some v"
  shows "Get net fuel ck key =
    Inr (Some (ck\<lparr>ckSeq := ckSeq ck + 1, leaderId := (leaderId ck + int m) mod ckServers ck\<rparr>, v))"
  using get.first_decision [of "leaderId ck" "ck\<lparr>ckSeq := ckSeq ck + 1\<rparr>" m net
      "\<lparr>gKey = key, gClientId = ckId ck, gSeq = ckSeq ck + 1\<rparr>" v fuel] assms
  by (simp add: Get_def)

text \<open>Three servers, of which the second leads.\<close>

definition secondLeads :: "nat \<Rightarrow> int \<Rightarrow> GetArgs \<Rightarrow> GetReply option" where
  "secondLeads i s args = (if s = 1 then Some \<lparr>gErr = OK, gValue = ''v''\<rparr>
     else if s = 2 then None else Some \<lparr>gErr = ErrWrongLeader, gValue = []\<rparr>)"

theorem kv_get_first_answer_witness:
  "Get secondLeads 5 (MakeClerk 3 42) ''k'' =
    Inr (Some ((MakeClerk 3 42)\<lparr>ckSeq := 1, leaderId := 1\<rparr>, ''v''))"
proof -
  have h: "getDecision (secondLeads 0 0 a) = None" "getDecision (secondLeads 1 1 a) = Some ''v''" for a
    by (simp_all add: getDecision_def secondLeads_def OK_def ErrNoKey_def ErrWrongLeader_def)
  show ?thesis
    using kv_get_first_answer [of "MakeClerk 3 42" 1 5 secondLeads "''k''" "''v''"] h by (simp add: MakeClerk_def)
qed

text \<open>
  A clerk reaches the leader: when one of the servers always answers a put or append with
  \<open>OK\<close>, the request returns after at most as many attempts as there are servers, whichever
  server the clerk starts with and whatever the others do.
\<close>

theorem kv_put_reaches_leader:
  assumes "0 \<le> leaderId ck" "leaderId ck < ckServers ck" "0 \<le> t" "t < ckServers ck"
    and "\<And>i args. \<exists>r. net i t args = Some r \<and> paErr r = OK"
  shows "\<exists>s. PutAppend net (nat (ckServers ck)) ck key value op = Inr (Some (ck\<lparr>ckSeq := ckSeq ck + 1, leaderId := s\<rparr>)) \<and>
    0 \<le> s \<and> s < ckServers ck"
proof -
  let ?ck = "ck\<lparr>ckSeq := ckSeq ck + 1\<rparr>"
  let ?args = "\<lparr>paKey = key, paValue = value, paOp = op, paClientId = ckId ck, paSeq = ckSeq ck + 1\<rparr>"
  have "putDecision (net i t ?args) \<noteq> None" for i using assms(5) [of i ?args] by (auto simp: putDecision_def)
  then obtain m where "putAppendLoop net ?args (nat (ckServers ck)) 0 (leaderId ck) ?ck =
      Inr (Some (?ck\<lparr>leaderId := (leaderId ck + int m) mod ckServers ck\<rparr>))"
    using put.one_round [of "leaderId ck" ?ck t net ?args] assms(1-4) by auto
  moreover have "0 \<le> (leaderId ck + int m) mod ckServers ck" "(leaderId ck + int m) mod ckServers ck < ckServers ck"
    using assms(1,2) by simp_all
  ultimately show ?thesis
    by (intro exI [of _ "(leaderId ck + int m) mod ckServers ck"]) (simp add: PutAppend_def)
qed

definition secondStores :: "nat \<Rightarrow> int \<Rightarrow> PutAppendArgs \<Rightarrow> PutAppendReply option" where
  "secondStores i s args = (if s = 1 then Some \<lparr>paErr = OK\<rparr> else None)"

theorem kv_put_reaches_leader_witness:
  "\<exists>s. PutAppend secondStores 3 (MakeClerk 3 42) ''k'' ''v'' ''Put'' = Inr (Some ((MakeClerk 3 42)\<lparr>ckSeq := 1, leaderId := s\<rparr>)) \<and>
    0 \<le> s \<and> s < 3"
  using kv_put_reaches_leader [of "MakeClerk 3 42" 1 secondStores "''k''" "''v''" "''Put''"]
  by (simp add: MakeClerk_def secondStores_def)

text \<open>
  C34: against the servers of the repository the clerk never returns: their handlers leave the
  reply as it came, so every attempt that gets through has an empty error, and the clerk
  tries again for ever.
\<close>

theorem kv_clerk_never_returns:
  assumes "0 \<le> leaderId ck" "leaderId ck < ckServers ck"
    and "\<And>i s args. gnet i s args = None \<or> gnet i s args = Some (snd (KVServer_Get (kvs s) args \<lparr>gErr = [], gValue = []\<rparr>))"
    and "\<And>i s args. pnet i s args = None \<or> pnet i s args = Some (snd (KVServer_PutAppend (kvs s) args \<lparr>paErr = []\<rparr>))"
  shows "Get gnet fuel ck key = Inr None \<and> Put pnet fuel ck key value = Inr None \<and> Append pnet fuel ck key value = Inr None"
proof -
  have "getDecision (gnet i s args) = None" for i s args
    using assms(3) [of i s args] by (auto simp: getDecision_def KVServer_Get_def OK_def ErrNoKey_def)
  then have g: "getLoop gnet args fuel 0 (leaderId ck) (ck\<lparr>ckSeq := ckSeq ck + 1\<rparr>) = Inr None" for args
    using get.never_decides [of "leaderId ck" "ck\<lparr>ckSeq := ckSeq ck + 1\<rparr>" gnet args fuel] assms(1,2) by simp
  have "putDecision (pnet i s args) = None" for i s args
    using assms(4) [of i s args] by (auto simp: putDecision_def KVServer_PutAppend_def OK_def)
  then have p: "putAppendLoop pnet args fuel 0 (leaderId ck) (ck\<lparr>ckSeq := ckSeq ck + 1\<rparr>) = Inr None" for args
    using put.never_decides [of "leaderId ck" "ck\<lparr>ckSeq := ckSeq ck + 1\<rparr>" pnet args fuel] assms(1,2) by simp
  show ?thesis using g p by (simp add: Get_def Put_def Append_def PutAppend_def)
qed

theorem kv_clerk_never_returns_witness:
  "\<forall>kv. Get (\<lambda>i s args. Some (snd (KVServer_Get kv args \<lparr>gErr = [], gValue = []\<rparr>))) 1000 (MakeClerk 3 42) ''k'' = Inr None"
proof
  fix kv
  show "Get (\<lambda>i s args. Some (snd (KVServer_Get kv args \<lparr>gErr = [], gValue = []\<rparr>))) 1000 (MakeClerk 3 42) ''k'' = Inr None"
    using kv_clerk_never_returns [of "MakeClerk 3 42" "\<lambda>i s args. Some (snd (KVServer_Get kv args \<lparr>gErr = [], gValue = []\<rparr>))"
        "\<lambda>s. kv" "\<lambda>i s args. None" 1000 "''k''"]
    by (simp add: MakeClerk_def)
qed

end
