(* ===== verification/ShardClerk.thy ===== *)
theory ShardClerk
  imports RaftPeer
begin

text \<open>
  The sharded service: the shard controller (\<open>shardctrler\<close>), whose clerk asks one server
  after the other, round after round, and the clerk of the sharded key/value store
  (\<open>shardkv\<close>), which asks the group that its configuration names for the shard of a key and
  fetches the latest configuration when that fails. The handlers of both servers are empty.

  A remote call is a parameter that knows the round and the server; loops are bounded by the
  number of rounds, \<open>None\<close> when they are used up.
\<close>

section \<open>The shard controller\<close>

definition NShards :: int where "NShards = 10"

record Config =
  cfNum :: int
  cfShards :: "int list"
  cfGroups :: "int \<rightharpoonup> string list"

text \<open>The zero value; reading a nil map finds nothing.\<close>

definition zeroConfig :: Config where
  "zeroConfig = \<lparr>cfNum = 0, cfShards = replicate (nat NShards) 0, cfGroups = Map.empty\<rparr>"

record JoinArgs =
  jServers :: "int \<rightharpoonup> string list"

record LeaveArgs =
  lGIDs :: "int list"

record MoveArgs =
  mShard :: int
  mGID :: int

record QueryArgs =
  qNum :: int

text \<open>The replies of \<open>Join\<close>, \<open>Leave\<close> and \<open>Move\<close> have the same fields.\<close>

record CtrlReply =
  WrongLeader :: bool
  cErr :: string

record QueryReply = CtrlReply +
  qConfig :: Config

text \<open>The inner loop: each known server in turn.\<close>

fun tryServers :: "(nat \<Rightarrow> 'a \<Rightarrow> 'rep option) \<Rightarrow> ('rep \<Rightarrow> bool) \<Rightarrow> nat \<Rightarrow> 'a list \<Rightarrow> 'rep option" where
  "tryServers call wrong r [] = None"
| "tryServers call wrong r (srv # servers) =
    (case call r srv of
       Some reply \<Rightarrow> if wrong reply = False then Some reply else tryServers call wrong r servers
     | None \<Rightarrow> tryServers call wrong r servers)"

fun ctrlLoop :: "(nat \<Rightarrow> 'a \<Rightarrow> 'rep option) \<Rightarrow> ('rep \<Rightarrow> bool) \<Rightarrow> nat \<Rightarrow> nat \<Rightarrow> 'a list \<Rightarrow> 'rep option" where
  "ctrlLoop call wrong 0 r servers = None"
| "ctrlLoop call wrong (Suc fuel) r servers =
    (case tryServers call wrong r servers of
       Some reply \<Rightarrow> Some reply
     | None \<Rightarrow> ctrlLoop call wrong fuel (r + 1) servers)"

definition Query :: "(QueryArgs \<Rightarrow> nat \<Rightarrow> 'a \<Rightarrow> QueryReply option) \<Rightarrow> nat \<Rightarrow> 'a list \<Rightarrow> int \<Rightarrow> Config option" where
  "Query net fuel servers num = map_option qConfig (ctrlLoop (net \<lparr>qNum = num\<rparr>) WrongLeader fuel 0 servers)"

definition Join :: "(JoinArgs \<Rightarrow> nat \<Rightarrow> 'a \<Rightarrow> CtrlReply option) \<Rightarrow> nat \<Rightarrow> 'a list \<Rightarrow> (int \<rightharpoonup> string list) \<Rightarrow> unit option" where
  "Join net fuel servers groups = map_option (\<lambda>r. ()) (ctrlLoop (net \<lparr>jServers = groups\<rparr>) WrongLeader fuel 0 servers)"

definition Leave :: "(LeaveArgs \<Rightarrow> nat \<Rightarrow> 'a \<Rightarrow> CtrlReply option) \<Rightarrow> nat \<Rightarrow> 'a list \<Rightarrow> int list \<Rightarrow> unit option" where
  "Leave net fuel servers gids = map_option (\<lambda>r. ()) (ctrlLoop (net \<lparr>lGIDs = gids\<rparr>) WrongLeader fuel 0 servers)"

definition Move :: "(MoveArgs \<Rightarrow> nat \<Rightarrow> 'a \<Rightarrow> CtrlReply option) \<Rightarrow> nat \<Rightarrow> 'a list \<Rightarrow> int \<Rightarrow> int \<Rightarrow> unit option" where
  "Move net fuel servers shard gid = map_option (\<lambda>r. ()) (ctrlLoop (net \<lparr>mShard = shard, mGID = gid\<rparr>) WrongLeader fuel 0 servers)"

text \<open>The server and its empty handlers; commands of type \<open>Op\<close> carry nothing.\<close>

record ShardCtrler =
  scMe :: int
  scRf :: "unit Raft"
  configs :: "Config list"

definition ShardCtrler_Join :: "ShardCtrler \<Rightarrow> JoinArgs \<Rightarrow> CtrlReply \<Rightarrow> ShardCtrler \<times> CtrlReply" where
  "ShardCtrler_Join sc args reply = (sc, reply)"

definition ShardCtrler_Leave :: "ShardCtrler \<Rightarrow> LeaveArgs \<Rightarrow> CtrlReply \<Rightarrow> ShardCtrler \<times> CtrlReply" where
  "ShardCtrler_Leave sc args reply = (sc, reply)"

definition ShardCtrler_Move :: "ShardCtrler \<Rightarrow> MoveArgs \<Rightarrow> CtrlReply \<Rightarrow> ShardCtrler \<times> CtrlReply" where
  "ShardCtrler_Move sc args reply = (sc, reply)"

definition ShardCtrler_Query :: "ShardCtrler \<Rightarrow> QueryArgs \<Rightarrow> QueryReply \<Rightarrow> ShardCtrler \<times> QueryReply" where
  "ShardCtrler_Query sc args reply = (sc, reply)"

definition ShardCtrler_Kill :: "ShardCtrler \<Rightarrow> ShardCtrler" where
  "ShardCtrler_Kill sc = sc\<lparr>scRf := Kill (scRf sc)\<rparr>"

definition ShardCtrler_Raft :: "ShardCtrler \<Rightarrow> unit Raft" where
  "ShardCtrler_Raft sc = scRf sc"

definition ShardCtrler_StartServer :: "int \<Rightarrow> int \<Rightarrow> unit Persister \<Rightarrow> int \<Rightarrow> int \<Rightarrow> ShardCtrler option" where
  "ShardCtrler_StartServer servers self ps now rnd =
    map_option (\<lambda>rf. \<lparr>scMe = self, scRf = rf, configs = [zeroConfig\<lparr>cfGroups := Map.empty\<rparr>]\<rparr>)
      (Make servers self ps now rnd)"

section \<open>The sharded store\<close>

definition key2shard :: "string \<Rightarrow> int" where
  "key2shard key = (let shard = (if length key > 0 then int (of_char (key ! 0)) else 0) in shard mod NShards)"

record PutAppendArgs =
  spKey :: string
  spValue :: string
  spOp :: string

record GetArgs =
  sgKey :: string

record GetReply =
  sgErr :: string
  sgValue :: string

text \<open>What one server's answer means for the loop over the servers of a group.\<close>

datatype 'v attempt = Return 'v | Break | Continue

definition getAttempt :: "GetReply option \<Rightarrow> string attempt" where
  "getAttempt rep = (case rep of
     None \<Rightarrow> Continue
   | Some reply \<Rightarrow>
       if sgErr reply = ''OK'' \<or> sgErr reply = ''ErrNoKey'' then Return (sgValue reply)
       else if sgErr reply = ''ErrWrongGroup'' then Break else Continue)"

definition putAttempt :: "string option \<Rightarrow> unit attempt" where
  "putAttempt rep = (case rep of
     None \<Rightarrow> Continue
   | Some err \<Rightarrow> if err = ''OK'' then Return () else if err = ''ErrWrongGroup'' then Break else Continue)"

fun tryGroup :: "(string \<Rightarrow> 'v attempt) \<Rightarrow> string list \<Rightarrow> 'v option" where
  "tryGroup att [] = None"
| "tryGroup att (srv # servers) =
    (case att srv of Return v \<Rightarrow> Some v | Break \<Rightarrow> None | Continue \<Rightarrow> tryGroup att servers)"

text \<open>
  The loop that \<open>Get\<close> and \<open>PutAppend\<close> share: \<open>att r srv\<close> is the outcome of asking \<open>srv\<close> in
  round \<open>r\<close>; \<open>query r\<close> is what \<open>ck.sm.Query(-1)\<close> returns at the end of round \<open>r\<close>, \<open>None\<close> if it
  does not. The result has the configuration the clerk ends with.
\<close>

fun shardLoop :: "(nat \<Rightarrow> string \<Rightarrow> 'v attempt) \<Rightarrow> (nat \<Rightarrow> Config option) \<Rightarrow> string \<Rightarrow> nat \<Rightarrow> nat \<Rightarrow> Config \<Rightarrow>
    (Config \<times> 'v) option res" where
  "shardLoop att query key 0 r config = Inr None"
| "shardLoop att query key (Suc fuel) r config =
    (let shard = key2shard key in
     rbind (go_nth (cfShards config) shard) (\<lambda>gid.
     case (case cfGroups config gid of Some servers \<Rightarrow> tryGroup (att r) servers | None \<Rightarrow> None) of
       Some v \<Rightarrow> Inr (Some (config, v))
     | None \<Rightarrow> (case query r of
         None \<Rightarrow> Inr None
       | Some config' \<Rightarrow> shardLoop att query key fuel (r + 1) config')))"

definition Get :: "(GetArgs \<Rightarrow> nat \<Rightarrow> string \<Rightarrow> GetReply option) \<Rightarrow> (nat \<Rightarrow> Config option) \<Rightarrow> nat \<Rightarrow> Config \<Rightarrow> string \<Rightarrow>
    (Config \<times> string) option res" where
  "Get net query fuel config key = shardLoop (\<lambda>r srv. getAttempt (net \<lparr>sgKey = key\<rparr> r srv)) query key fuel 0 config"

definition PutAppend :: "(PutAppendArgs \<Rightarrow> nat \<Rightarrow> string \<Rightarrow> string option) \<Rightarrow> (nat \<Rightarrow> Config option) \<Rightarrow> nat \<Rightarrow> Config \<Rightarrow>
    string \<Rightarrow> string \<Rightarrow> string \<Rightarrow> (Config \<times> unit) option res" where
  "PutAppend net query fuel config key value op =
    shardLoop (\<lambda>r srv. putAttempt (net \<lparr>spKey = key, spValue = value, spOp = op\<rparr> r srv)) query key fuel 0 config"

definition Put :: "(PutAppendArgs \<Rightarrow> nat \<Rightarrow> string \<Rightarrow> string option) \<Rightarrow> (nat \<Rightarrow> Config option) \<Rightarrow> nat \<Rightarrow> Config \<Rightarrow>
    string \<Rightarrow> string \<Rightarrow> (Config \<times> unit) option res" where
  "Put net query fuel config key value = PutAppend net query fuel config key value ''Put''"

definition Append :: "(PutAppendArgs \<Rightarrow> nat \<Rightarrow> string \<Rightarrow> string option) \<Rightarrow> (nat \<Rightarrow> Config option) \<Rightarrow> nat \<Rightarrow> Config \<Rightarrow>
    string \<Rightarrow> string \<Rightarrow> (Config \<times> unit) option res" where
  "Append net query fuel config key value = PutAppend net query fuel config key value ''Append''"

text \<open>
  A server of a group, with end points named by \<open>'e\<close>. Its handlers too are empty; the reply of a
  put is its error code.
\<close>

record 'e ShardKV =
  skMe :: int
  skRf :: "unit Raft"
  skMakeEnd :: "string \<Rightarrow> 'e"
  skGid :: int
  skCtrlers :: "'e list"
  skMaxraftstate :: int

definition ShardKV_Get :: "'e ShardKV \<Rightarrow> GetArgs \<Rightarrow> GetReply \<Rightarrow> 'e ShardKV \<times> GetReply" where
  "ShardKV_Get kv args reply = (kv, reply)"

definition ShardKV_PutAppend :: "'e ShardKV \<Rightarrow> PutAppendArgs \<Rightarrow> string \<Rightarrow> 'e ShardKV \<times> string" where
  "ShardKV_PutAppend kv args reply = (kv, reply)"

definition ShardKV_Kill :: "'e ShardKV \<Rightarrow> 'e ShardKV" where
  "ShardKV_Kill kv = kv\<lparr>skRf := Kill (skRf kv)\<rparr>"

definition ShardKV_StartServer :: "int \<Rightarrow> int \<Rightarrow> unit Persister \<Rightarrow> int \<Rightarrow> int \<Rightarrow> 'e list \<Rightarrow> (string \<Rightarrow> 'e) \<Rightarrow> int \<Rightarrow> int \<Rightarrow>
    'e ShardKV option" where
  "ShardKV_StartServer servers self ps maxraft gid ctrlers make_end now rnd =
    map_option (\<lambda>rf. \<lparr>skMe = self, skRf = rf, skMakeEnd = make_end, skGid = gid, skCtrlers = ctrlers,
      skMaxraftstate = maxraft\<rparr>) (Make servers self ps now rnd)"

section \<open>Facts about the loops\<close>

lemma tryServers_Some:
  "tryServers call wrong r servers = Some rep \<Longrightarrow> \<exists>srv \<in> set servers. call r srv = Some rep \<and> \<not> wrong rep"
  by (induction servers) (auto split: option.splits if_splits)

lemma tryServers_None:
  "tryServers call wrong r servers = None \<longleftrightarrow> (\<forall>srv \<in> set servers. \<forall>rep. call r srv = Some rep \<longrightarrow> wrong rep)"
  by (induction servers) (auto split: option.splits)

lemma ctrlLoop_Some:
  "ctrlLoop call wrong fuel r servers = Some rep \<Longrightarrow>
    \<exists>q srv. r \<le> q \<and> q < r + fuel \<and> srv \<in> set servers \<and> call q srv = Some rep \<and> \<not> wrong rep"
proof (induction fuel arbitrary: r)
  case (Suc fuel)
  show ?case
  proof (cases "tryServers call wrong r servers")
    case None
    with Suc.IH [of "r + 1"] Suc.prems obtain q srv where "r + 1 \<le> q" "q < r + 1 + fuel" "srv \<in> set servers"
      "call q srv = Some rep" "\<not> wrong rep" by auto
    then show ?thesis by (intro exI [of _ q] exI [of _ srv]) simp
  next
    case (Some rep')
    with Suc.prems tryServers_Some [OF Some] show ?thesis by auto
  qed
qed simp

lemma ctrlLoop_answers:
  assumes "srv \<in> set servers" "call q srv = Some rep" "\<not> wrong rep"
  shows "r \<le> q \<Longrightarrow> q < r + fuel \<Longrightarrow> ctrlLoop call wrong fuel r servers \<noteq> None"
proof (induction fuel arbitrary: r)
  case (Suc fuel)
  show ?case
  proof (cases "r = q")
    case True
    then have "tryServers call wrong r servers \<noteq> None" using assms by (auto simp: tryServers_None)
    then show ?thesis by auto
  next
    case False
    with Suc show ?thesis by (auto split: option.splits)
  qed
qed simp

lemma tryGroup_Some: "tryGroup att servers = Some v \<Longrightarrow> \<exists>srv \<in> set servers. att srv = Return v"
  by (induction servers) (auto split: attempt.splits)

lemma key2shard_range: "0 \<le> key2shard key \<and> key2shard key < NShards"
  by (simp add: key2shard_def NShards_def Let_def)

text \<open>Configurations as Go has them: an array of \<open>NShards\<close> group ids.\<close>

definition wf_config :: "Config \<Rightarrow> bool" where
  "wf_config c = (length (cfShards c) = nat NShards)"

definition ownerOf :: "Config \<Rightarrow> string \<Rightarrow> int" where
  "ownerOf c key = cfShards c ! nat (key2shard key)"

lemma shard_lookup: "wf_config c \<Longrightarrow> go_nth (cfShards c) (key2shard key) = Inr (ownerOf c key)"
  using key2shard_range [of key] by (simp add: wf_config_def ownerOf_def go_nth_def NShards_def)

lemma shardLoop_result:
  assumes "wf_config config" "\<And>q c. query q = Some c \<Longrightarrow> wf_config c"
  shows "case shardLoop att query key fuel r config of
      Inl e \<Rightarrow> False
    | Inr None \<Rightarrow> True
    | Inr (Some (c, v)) \<Rightarrow> \<exists>q servers srv. cfGroups c (ownerOf c key) = Some servers \<and> srv \<in> set servers \<and> att q srv = Return v"
  using assms(1)
proof (induction fuel arbitrary: r config)
  case (Suc fuel)
  show ?case
  proof (cases "case cfGroups config (ownerOf config key) of Some servers \<Rightarrow> tryGroup (att r) servers | None \<Rightarrow> None")
    case None
    show ?thesis
    proof (cases "query r")
      case (Some c)
      with Suc.IH [OF assms(2) [OF Some]] None show ?thesis by (simp add: shard_lookup [OF Suc.prems] Let_def)
    qed (use None in \<open>simp add: shard_lookup [OF Suc.prems] Let_def\<close>)
  next
    case (Some v)
    then obtain servers where "cfGroups config (ownerOf config key) = Some servers" "tryGroup (att r) servers = Some v"
      by (auto split: option.splits)
    with tryGroup_Some [of "att r" servers v] show ?thesis by (auto simp: shard_lookup [OF Suc.prems] Let_def)
  qed
qed simp

text \<open>Without groups, and with queries that change nothing, the loop has no one to ask.\<close>

lemma shardLoop_no_groups:
  assumes "\<And>q c. query q = Some c \<Longrightarrow> c = zeroConfig"
  shows "shardLoop att query key fuel r zeroConfig = Inr None"
proof (induction fuel arbitrary: r)
  case (Suc fuel)
  have "wf_config zeroConfig" "cfGroups zeroConfig gid = None" for gid
    by (simp_all add: wf_config_def zeroConfig_def)
  with Suc assms show ?case by (auto simp: shard_lookup Let_def split: option.splits)
qed simp

section \<open>Properties\<close>

text \<open>
  C27: a get on the sharded store returns only what a server of the right group has said. The
  shard of a key is always in range, so no index panics; a value that is returned comes
  with \<open>OK\<close> or \<open>ErrNoKey\<close> from a server of the group that owns the key's shard in the
  configuration the clerk then has.
\<close>

theorem shard_get_owner:
  assumes "wf_config config" "\<And>q c. query q = Some c \<Longrightarrow> wf_config c"
  shows "case Get net query fuel config key of
      Inl e \<Rightarrow> False
    | Inr None \<Rightarrow> True
    | Inr (Some (c, v)) \<Rightarrow> \<exists>q servers srv rep. cfGroups c (ownerOf c key) = Some servers \<and> srv \<in> set servers \<and>
        net \<lparr>sgKey = key\<rparr> q srv = Some rep \<and> (sgErr rep = ''OK'' \<or> sgErr rep = ''ErrNoKey'') \<and> v = sgValue rep"
proof -
  have att: "\<exists>rep. o' = Some rep \<and> (sgErr rep = ''OK'' \<or> sgErr rep = ''ErrNoKey'') \<and> v = sgValue rep"
    if "getAttempt o' = Return v" for o' v
    using that by (auto simp: getAttempt_def split: option.splits if_splits)
  show ?thesis
    using shardLoop_result [OF assms, where att = "\<lambda>r srv. getAttempt (net \<lparr>sgKey = key\<rparr> r srv)" and key = key
        and fuel = fuel and r = 0]
    unfolding Get_def by (fastforce split: sum.splits option.splits dest: att)
qed

definition oneGroup :: Config where
  "oneGroup = \<lparr>cfNum = 1, cfShards = replicate (nat NShards) 7, cfGroups = [7 \<mapsto> [''s0'', ''s1'']]\<rparr>"

theorem shard_get_owner_witness:
  "wf_config oneGroup \<and>
   Get (\<lambda>args r srv. if srv = ''s1'' then Some \<lparr>sgErr = ''OK'', sgValue = ''v''\<rparr> else None) (\<lambda>q. Some oneGroup) 2 oneGroup ''k''
     = Inr (Some (oneGroup, ''v'')) \<and>
   (\<exists>srv servers. cfGroups oneGroup (ownerOf oneGroup ''k'') = Some servers \<and> srv \<in> set servers)"
proof -
  let ?net = "\<lambda>(args :: GetArgs) (r :: nat) srv. if srv = ''s1'' then Some \<lparr>sgErr = ''OK'', sgValue = ''v''\<rparr> else None"
  have wf: "wf_config oneGroup" by (simp add: wf_config_def oneGroup_def NShards_def)
  have sh: "go_nth (cfShards oneGroup) (key2shard key) = Inr 7" for key
    using shard_lookup [OF wf, of key] key2shard_range [of key]
    by (simp add: ownerOf_def oneGroup_def)
  have run: "Get ?net (\<lambda>q. Some oneGroup) 2 oneGroup ''k'' = Inr (Some (oneGroup, ''v''))"
    using sh by (simp add: Get_def eval_nat_numeral getAttempt_def oneGroup_def)
  from shard_get_owner [where config = oneGroup and query = "\<lambda>q. Some oneGroup" and net = ?net and fuel = 2 and key = "''k''"] wf run
  show ?thesis by auto
qed

text \<open>
  Asking the shard controller: a query returns a configuration exactly when in some round
  some server replies that it is not the wrong leader, and what it returns is the
  configuration of such a reply.
\<close>

theorem query_answers:
  "(Query net fuel servers num \<noteq> None \<longleftrightarrow>
     (\<exists>q < fuel. \<exists>srv \<in> set servers. \<exists>rep. net \<lparr>qNum = num\<rparr> q srv = Some rep \<and> \<not> WrongLeader rep)) \<and>
   (Query net fuel servers num = Some c \<longrightarrow>
     (\<exists>q < fuel. \<exists>srv \<in> set servers. \<exists>rep. net \<lparr>qNum = num\<rparr> q srv = Some rep \<and> \<not> WrongLeader rep \<and> qConfig rep = c))"
proof -
  let ?l = "ctrlLoop (net \<lparr>qNum = num\<rparr>) WrongLeader fuel 0 servers"
  have some: "\<exists>q < fuel. \<exists>srv \<in> set servers. net \<lparr>qNum = num\<rparr> q srv = Some rep \<and> \<not> WrongLeader rep" if "?l = Some rep" for rep
    using ctrlLoop_Some [OF that] by auto
  have "?l \<noteq> None" if "q < fuel" "srv \<in> set servers" "net \<lparr>qNum = num\<rparr> q srv = Some rep" "\<not> WrongLeader rep" for q srv rep
    using ctrlLoop_answers [where call = "net \<lparr>qNum = num\<rparr>" and wrong = WrongLeader and r = 0 and fuel = fuel, OF that(2-4)] that(1)
    by simp
  with some show ?thesis unfolding Query_def by (auto; blast)
qed

theorem query_answers_witness:
  "\<exists>q < 3 :: nat. \<exists>srv \<in> set [0 :: nat, 1]. \<exists>rep.
     (if q = 2 \<and> srv = 1 then Some \<lparr>WrongLeader = False, cErr = ''OK'', qConfig = oneGroup\<rparr> else None) = Some rep \<and>
     \<not> WrongLeader rep \<and> qConfig rep = oneGroup"
proof -
  let ?net = "\<lambda>(a :: QueryArgs) (q :: nat) (srv :: nat).
    if q = 2 \<and> srv = 1 then Some \<lparr>WrongLeader = False, cErr = ''OK'', qConfig = oneGroup\<rparr> else None"
  have "Query ?net 3 [0, 1] (-1) = Some oneGroup" by (simp add: Query_def eval_nat_numeral)
  with query_answers [of ?net 3 "[0, 1]" "-1" oneGroup] show ?thesis by blast
qed

text \<open>
  With the controllers of the repository no request to the sharded store returns: their
  handlers leave the reply as it came, so every query that gets through yields the zero
  configuration, which assigns all shards to a group that does not exist.
\<close>

theorem shard_clerk_never_returns:
  assumes "\<And>args q srv. cnet args q srv = None \<or>
      cnet args q srv = Some (snd (ShardCtrler_Query (sc srv) args \<lparr>WrongLeader = False, cErr = [], qConfig = zeroConfig\<rparr>))"
  shows "Get net (\<lambda>r. Query cnet qfuel ctrlers (-1)) fuel zeroConfig key = Inr None \<and>
    Put pnet (\<lambda>r. Query cnet qfuel ctrlers (-1)) fuel zeroConfig key value = Inr None"
proof -
  have "c = zeroConfig" if "Query cnet qfuel ctrlers (-1) = Some c" for c
  proof -
    from that obtain rep where "ctrlLoop (cnet \<lparr>qNum = -1\<rparr>) WrongLeader qfuel 0 ctrlers = Some rep" "qConfig rep = c"
      by (auto simp: Query_def)
    from ctrlLoop_Some [OF this(1)] this(2) assms show ?thesis
      by (auto simp: ShardCtrler_Query_def) (metis QueryReply.select_convs(1) option.distinct(1) option.inject)
  qed
  then show ?thesis by (simp add: Get_def Put_def PutAppend_def shardLoop_no_groups)
qed

theorem shard_clerk_never_returns_witness:
  "\<forall>sc. Get (\<lambda>args r srv. None)
     (\<lambda>r. Query (\<lambda>args q (srv :: nat). Some (snd (ShardCtrler_Query sc args \<lparr>WrongLeader = False, cErr = [], qConfig = zeroConfig\<rparr>))) 5 [0] (-1))
     100 zeroConfig ''k'' = Inr None"
proof
  fix sc :: ShardCtrler
  let ?cnet = "\<lambda>args (q :: nat) (srv :: nat).
    Some (snd (ShardCtrler_Query sc args \<lparr>WrongLeader = False, cErr = [], qConfig = zeroConfig\<rparr>))"
  show "Get (\<lambda>args r srv. None) (\<lambda>r. Query ?cnet 5 [0] (-1)) 100 zeroConfig ''k'' = Inr None"
    using shard_clerk_never_returns [of ?cnet "\<lambda>srv. sc" "\<lambda>args r srv. None" 5 "[0]" 100 "''k''"] by blast
qed

end
