(* ===== verification/MapReduce.thy ===== *)
theory MapReduce
  imports Prelude "HOL-Library.Word" "HOL-Library.List_Lexorder" "HOL-Library.Char_ord"
begin

text \<open>
  The MapReduce lab: the data of \<open>mr/worker.go\<close>, the hash that chooses a reduce task, the
  coordinator stub, the sequential driver \<open>main/mrsequential.go\<close> and the applications of
  \<open>mrapps/\<close>.

  Go strings are sequences of bytes, compared byte by byte; the characters of HOL strings are the
  bytes. What the driver takes from outside is an argument: the contents of files, and
  \<open>sort.Sort\<close>, which orders by key and leaves the order of equal keys open. Time spent asleep
  is a number of milliseconds in the result, an exit of the process is \<open>None\<close>.
\<close>

unbundle bit_operations_syntax

section \<open>Strings as Go has them\<close>

definition newline :: string where
  "newline = [char_of (10 :: nat)]"

fun Join :: "string list \<Rightarrow> string \<Rightarrow> string" where
  "Join [] sep = []"
| "Join [s] sep = s"
| "Join (s # ss) sep = s @ sep @ Join ss sep"

text \<open>The first code point of a string in UTF-8 and its width; \<open>0xFFFD\<close> with width one if it has none.\<close>

definition within :: "nat \<Rightarrow> nat \<Rightarrow> nat \<Rightarrow> bool" where
  "within lo hi b = (lo \<le> b \<and> b \<le> hi)"

definition contByte :: "nat \<Rightarrow> bool" where
  "contByte = within 128 191"

definition secondByte :: "nat \<Rightarrow> nat \<Rightarrow> bool" where
  "secondByte b0 b1 =
    (if b0 = 224 then within 160 191 b1 else if b0 = 237 then within 128 159 b1
     else if b0 = 240 then within 144 191 b1 else if b0 = 244 then within 128 143 b1 else contByte b1)"

definition decodeRune :: "string \<Rightarrow> nat \<times> nat" where
  "decodeRune s =
    (case map of_char s of
       [] \<Rightarrow> (65533, 0)
     | b0 # bs \<Rightarrow>
         if b0 < 128 then (b0, 1)
         else (case bs of
           b1 # cs \<Rightarrow>
             if within 194 223 b0 \<and> contByte b1 then ((b0 - 192) * 64 + (b1 - 128), 2)
             else (case cs of
               b2 # ds \<Rightarrow>
                 if within 224 239 b0 \<and> secondByte b0 b1 \<and> contByte b2
                 then ((b0 - 224) * 4096 + (b1 - 128) * 64 + (b2 - 128), 3)
                 else (case ds of
                   b3 # es \<Rightarrow>
                     if within 240 244 b0 \<and> secondByte b0 b1 \<and> contByte b2 \<and> contByte b3
                     then ((b0 - 240) * 262144 + (b1 - 128) * 4096 + (b2 - 128) * 64 + (b3 - 128), 4)
                     else (65533, 1)
                 | [] \<Rightarrow> (65533, 1))
             | [] \<Rightarrow> (65533, 1))
         | [] \<Rightarrow> (65533, 1)))"

text \<open>
  The loop of \<open>strings.FieldsFunc\<close> over the code points: the word being read, if one is, is
  \<open>cur\<close>.
\<close>

function fieldsFrom :: "(nat \<Rightarrow> bool) \<Rightarrow> string option \<Rightarrow> string \<Rightarrow> string list" where
  "fieldsFrom f cur [] = (case cur of None \<Rightarrow> [] | Some w \<Rightarrow> [w])"
| "fieldsFrom f cur (c # s) =
    (let (r, n) = decodeRune (c # s); here = take n (c # s); rest = drop (max 1 n) (c # s) in
     if f r then (case cur of None \<Rightarrow> [] | Some w \<Rightarrow> [w]) @ fieldsFrom f None rest
     else fieldsFrom f (Some (case cur of None \<Rightarrow> here | Some w \<Rightarrow> w @ here)) rest)"
  by pat_completeness auto
termination by (relation "measure (\<lambda>(f, cur, s). length s)") auto

definition FieldsFunc :: "string \<Rightarrow> (nat \<Rightarrow> bool) \<Rightarrow> string list" where
  "FieldsFunc s f = fieldsFrom f None s"

section \<open>The worker, the coordinator\<close>

record KeyValue =
  Key :: string
  Value :: string

text \<open>The 32-bit FNV-1a hash of \<open>hash/fnv\<close>, with its offset basis and prime.\<close>

definition fnv32a :: "string \<Rightarrow> 32 word" where
  "fnv32a s = fold (\<lambda>c h. (h XOR word_of_nat (of_char c)) * 16777619) s 2166136261"

definition ihash :: "string \<Rightarrow> int" where
  "ihash key = uint (fnv32a key AND 0x7fffffff)"

record ExampleArgs =
  exX :: "64 word"

record ExampleReply =
  exY :: "64 word"

definition Example :: "ExampleArgs \<Rightarrow> ExampleReply \<Rightarrow> ExampleReply" where
  "Example args reply = reply\<lparr>exY := exX args + 1\<rparr>"

definition coordinatorSock :: "int \<Rightarrow> string" where
  "coordinatorSock uid = ''/var/tmp/5840-mr-'' @ Itoa uid"

text \<open>
  A remote call. \<open>dial\<close> opens the socket: the text of an error, or a connection, which makes a call
  with its argument and the variable for the reply and gives the text of an error, if there is one,
  and the reply. The result: whether the call succeeded, the reply, and what was printed.
\<close>

definition mr_call :: "(string \<Rightarrow> string + (string \<Rightarrow> 'a \<Rightarrow> 'r \<Rightarrow> string option \<times> 'r)) \<Rightarrow> int \<Rightarrow> string \<Rightarrow> 'a \<Rightarrow> 'r \<Rightarrow>
    (bool \<times> 'r \<times> string) res" where
  "mr_call dial uid rpcname args reply =
    (let sockname = coordinatorSock uid in
     case dial sockname of
       Inl err \<Rightarrow> Inl (LogFatal (''dialing:'' @ err))
     | Inr c \<Rightarrow> (case c rpcname args reply of
         (None, reply') \<Rightarrow> Inr (True, reply', [])
       | (Some err, reply') \<Rightarrow> Inr (False, reply', err @ newline)))"

text \<open>What \<open>CallExample\<close> prints.\<close>

definition CallExample :: "(string \<Rightarrow> string + (string \<Rightarrow> ExampleArgs \<Rightarrow> ExampleReply \<Rightarrow> string option \<times> ExampleReply)) \<Rightarrow>
    int \<Rightarrow> string res" where
  "CallExample dial uid =
    (let args = \<lparr>exX = 99\<rparr>; reply = \<lparr>exY = 0\<rparr> in
     rbind (mr_call dial uid ''Coordinator.Example'' args reply) (\<lambda>(ok, reply', out).
     Inr (out @ (if ok then ''reply.Y '' @ Itoa (sint (exY reply')) @ newline else ''call failed!'' @ newline))))"

text \<open>The worker has no body: it returns at once.\<close>

definition Worker :: "(string \<Rightarrow> string \<Rightarrow> KeyValue list) \<Rightarrow> (string \<Rightarrow> string list \<Rightarrow> string) \<Rightarrow> unit" where
  "Worker mapf reducef = ()"

text \<open>
  The coordinator listens on its socket, after it has removed a file of that name. \<open>remove\<close> and
  \<open>listen\<close> are the operating system's, on its state \<open>w\<close>; serving requests is what happens later.
\<close>

definition mr_server :: "(string \<Rightarrow> 'w \<Rightarrow> 'w) \<Rightarrow> (string \<Rightarrow> 'w \<Rightarrow> string + 'w) \<Rightarrow> int \<Rightarrow> 'w \<Rightarrow> 'w res" where
  "mr_server remove listen uid w =
    (let sockname = coordinatorSock uid in
     case listen sockname (remove sockname w) of
       Inl e \<Rightarrow> Inl (LogFatal (''listen error:'' @ e))
     | Inr w' \<Rightarrow> Inr w')"

text \<open>The coordinator has no fields; making it starts the server.\<close>

definition MakeCoordinator :: "(string \<Rightarrow> 'w \<Rightarrow> 'w) \<Rightarrow> (string \<Rightarrow> 'w \<Rightarrow> string + 'w) \<Rightarrow> int \<Rightarrow> string list \<Rightarrow> int \<Rightarrow> 'w \<Rightarrow>
    (unit \<times> 'w) res" where
  "MakeCoordinator remove listen uid files nReduce w = rbind (mr_server remove listen uid w) (\<lambda>w'. Inr ((), w'))"

definition Done :: bool where
  "Done = (let ret = False in ret)"

text \<open>The main loop of \<open>mrcoordinator.go\<close>, for a number of rounds; \<open>None\<close> when they are used up.\<close>

fun coordinatorLoop :: "nat \<Rightarrow> unit option" where
  "coordinatorLoop 0 = None"
| "coordinatorLoop (Suc fuel) = (if Done = False then coordinatorLoop fuel else Some ())"

text \<open>The whole program: a usage message (\<open>None\<close>), or the end of the loop, which has its own bound.\<close>

definition mrcoordinator :: "(string \<Rightarrow> 'w \<Rightarrow> 'w) \<Rightarrow> (string \<Rightarrow> 'w \<Rightarrow> string + 'w) \<Rightarrow> int \<Rightarrow> nat \<Rightarrow> string list \<Rightarrow> 'w \<Rightarrow>
    ('w \<times> unit option) option res" where
  "mrcoordinator remove listen uid fuel args w =
    (if length args < 2 then Inr None
     else rbind (MakeCoordinator remove listen uid (drop 1 args) 10 w) (\<lambda>(m, w'). Inr (Some (w', coordinatorLoop fuel))))"

section \<open>The sequential driver\<close>

definition ByKey_Less :: "KeyValue list \<Rightarrow> int \<Rightarrow> int \<Rightarrow> bool res" where
  "ByKey_Less a i j = rbind (go_nth a i) (\<lambda>x. rbind (go_nth a j) (\<lambda>y. Inr (Key x < Key y)))"

definition ByKey_Swap :: "KeyValue list \<Rightarrow> int \<Rightarrow> int \<Rightarrow> KeyValue list res" where
  "ByKey_Swap a i j =
    rbind (go_nth a i) (\<lambda>x. rbind (go_nth a j) (\<lambda>y. rbind (go_upd a i y) (\<lambda>a'. go_upd a' j x)))"

text \<open>What a run ends with: a usage message, a fatal error, a panic, or the output file.\<close>

datatype outcome = Usage | Failed go_error | Output string

text \<open>
  A plugin, if it can be opened, is a table of symbols; a symbol is asserted to have the type of a
  map or reduce function.
\<close>

datatype symbol =
    MapFun "string \<Rightarrow> string \<Rightarrow> KeyValue list"
  | ReduceFun "string \<Rightarrow> string list \<Rightarrow> string"
  | OtherSymbol

definition loadPlugin :: "(string \<Rightarrow> (string \<rightharpoonup> symbol) option) \<Rightarrow> string \<Rightarrow>
    outcome + (string \<Rightarrow> string \<Rightarrow> KeyValue list) \<times> (string \<Rightarrow> string list \<Rightarrow> string)" where
  "loadPlugin plugin filename =
    (case plugin filename of
       None \<Rightarrow> Inl (Failed (LogFatal (''cannot load plugin '' @ filename)))
     | Some p \<Rightarrow> (case p ''Map'' of
         None \<Rightarrow> Inl (Failed (LogFatal (''cannot find Map in '' @ filename)))
       | Some (MapFun mapf) \<Rightarrow> (case p ''Reduce'' of
           None \<Rightarrow> Inl (Failed (LogFatal (''cannot find Reduce in '' @ filename)))
         | Some (ReduceFun reducef) \<Rightarrow> Inr (mapf, reducef)
         | Some _ \<Rightarrow> Inl (Failed TypeAssertion))
       | Some _ \<Rightarrow> Inl (Failed TypeAssertion)))"

text \<open>The loop over the input files: \<open>input name\<close> is \<open>None\<close> if it cannot be opened, \<open>Some None\<close> if not read.\<close>

fun readInputs :: "(string \<Rightarrow> string option option) \<Rightarrow> (string \<Rightarrow> string \<Rightarrow> KeyValue list) \<Rightarrow> string list \<Rightarrow> KeyValue list \<Rightarrow>
    outcome + KeyValue list" where
  "readInputs input mapf [] intermediate = Inr intermediate"
| "readInputs input mapf (filename # names) intermediate =
    (case input filename of
       None \<Rightarrow> Inl (Failed (LogFatal (''cannot open '' @ filename)))
     | Some None \<Rightarrow> Inl (Failed (LogFatal (''cannot read '' @ filename)))
     | Some (Some content) \<Rightarrow> readInputs input mapf names (intermediate @ mapf filename content))"

text \<open>The index behind the run of pairs with the key of position \<open>i\<close>.\<close>

function runEnd :: "KeyValue list \<Rightarrow> nat \<Rightarrow> nat \<Rightarrow> nat" where
  "runEnd xs i j = (if j < length xs \<and> Key (xs ! j) = Key (xs ! i) then runEnd xs i (j + 1) else j)"
  by auto
termination by (relation "measure (\<lambda>(xs, i, j). length xs - j)") auto

declare runEnd.simps [simp del]

lemma runEnd_le: "j \<le> runEnd xs i j"
  by (induction xs i j rule: runEnd.induct) (subst runEnd.simps, auto)

definition outputLine :: "string \<Rightarrow> string \<Rightarrow> string" where
  "outputLine key output = key @ '' '' @ output @ newline"

function reduceLoop :: "(string \<Rightarrow> string list \<Rightarrow> string) \<Rightarrow> KeyValue list \<Rightarrow> nat \<Rightarrow> string \<Rightarrow> string" where
  "reduceLoop reducef xs i ofile =
    (if i < length xs then
       let j = runEnd xs i (i + 1);
           values = map (\<lambda>k. Value (xs ! k)) [i ..< j];
           output = reducef (Key (xs ! i)) values
       in reduceLoop reducef xs j (ofile @ outputLine (Key (xs ! i)) output)
     else ofile)"
  by auto
termination
  by (relation "measure (\<lambda>(reducef, xs, i, ofile). length xs - i)") (auto intro: diff_less_mono2 less_le_trans [OF _ runEnd_le])

declare reduceLoop.simps [simp del]

definition mrsequential :: "(KeyValue list \<Rightarrow> KeyValue list) \<Rightarrow> (string \<Rightarrow> (string \<rightharpoonup> symbol) option) \<Rightarrow>
    (string \<Rightarrow> string option option) \<Rightarrow> string list \<Rightarrow> outcome" where
  "mrsequential sortByKey plugin input args =
    (if length args < 3 then Usage
     else case loadPlugin plugin (args ! 1) of
       Inl e \<Rightarrow> e
     | Inr (mapf, reducef) \<Rightarrow> (case readInputs input mapf (drop 2 args) [] of
         Inl e \<Rightarrow> e
       | Inr intermediate \<Rightarrow> Output (reduceLoop reducef (sortByKey intermediate) 0 [])))"

text \<open>\<open>mrworker.go\<close> has the same loader, word for word, and runs the worker; its output is empty.\<close>

definition worker_loadPlugin :: "(string \<Rightarrow> (string \<rightharpoonup> symbol) option) \<Rightarrow> string \<Rightarrow>
    outcome + (string \<Rightarrow> string \<Rightarrow> KeyValue list) \<times> (string \<Rightarrow> string list \<Rightarrow> string)" where
  "worker_loadPlugin = loadPlugin"

definition mrworker :: "(string \<Rightarrow> (string \<rightharpoonup> symbol) option) \<Rightarrow> string list \<Rightarrow> outcome" where
  "mrworker plugin args =
    (if length args \<noteq> 2 then Usage
     else case worker_loadPlugin plugin (args ! 1) of
       Inl e \<Rightarrow> e
     | Inr (mapf, reducef) \<Rightarrow> (let u = Worker mapf reducef in Output []))"

section \<open>The applications\<close>

text \<open>\<open>wc.go\<close>; \<open>isLetter\<close> is \<open>unicode.IsLetter\<close>.\<close>

definition wc_Map :: "(nat \<Rightarrow> bool) \<Rightarrow> string \<Rightarrow> string \<Rightarrow> KeyValue list" where
  "wc_Map isLetter filename contents =
    (let ff = (\<lambda>r. \<not> isLetter r); ws = FieldsFunc contents ff in map (\<lambda>w. \<lparr>Key = w, Value = ''1''\<rparr>) ws)"

definition wc_Reduce :: "string \<Rightarrow> string list \<Rightarrow> string" where
  "wc_Reduce key values = Itoa (len values)"

text \<open>\<open>indexer.go\<close>: each word once, in the order \<open>mapOrder\<close> in which Go walks over the map.\<close>

definition indexer_Map :: "(string list \<Rightarrow> string list) \<Rightarrow> (nat \<Rightarrow> bool) \<Rightarrow> string \<Rightarrow> string \<Rightarrow> KeyValue list" where
  "indexer_Map mapOrder isLetter document value =
    map (\<lambda>w. \<lparr>Key = w, Value = document\<rparr>) (mapOrder (remdups (FieldsFunc value (\<lambda>x. \<not> isLetter x))))"

definition indexer_Reduce :: "string \<Rightarrow> string list \<Rightarrow> string" where
  "indexer_Reduce key values = (let vs = sort values in Itoa (len vs) @ '' '' @ Join vs '','')"

text \<open>\<open>crash.go\<close>: a random number below 1000 decides between an exit, a delay and neither.\<close>

definition crash_maybeCrash :: "int \<Rightarrow> int \<Rightarrow> int option" where
  "crash_maybeCrash rr ms = (if rr < 330 then None else if rr < 660 then Some ms else Some 0)"

definition crash_Map :: "int \<Rightarrow> int \<Rightarrow> string \<Rightarrow> string \<Rightarrow> (int \<times> KeyValue list) option" where
  "crash_Map rr ms filename contents =
    map_option (\<lambda>slept. (slept,
      [\<lparr>Key = ''a'', Value = filename\<rparr>, \<lparr>Key = ''b'', Value = Itoa (len filename)\<rparr>,
       \<lparr>Key = ''c'', Value = Itoa (len contents)\<rparr>, \<lparr>Key = ''d'', Value = ''xyzzy''\<rparr>])) (crash_maybeCrash rr ms)"

definition crash_Reduce :: "int \<Rightarrow> int \<Rightarrow> string \<Rightarrow> string list \<Rightarrow> (int \<times> string) option" where
  "crash_Reduce rr ms key values = map_option (\<lambda>slept. (slept, Join (sort values) '' '')) (crash_maybeCrash rr ms)"

text \<open>\<open>nocrash.go\<close> is the same without the crash.\<close>

definition nocrash_maybeCrash :: "int \<Rightarrow> int option" where
  "nocrash_maybeCrash rr = (if False \<and> rr < 500 then None else Some 0)"

definition nocrash_Map :: "int \<Rightarrow> string \<Rightarrow> string \<Rightarrow> (int \<times> KeyValue list) option" where
  "nocrash_Map rr filename contents =
    map_option (\<lambda>slept. (slept,
      [\<lparr>Key = ''a'', Value = filename\<rparr>, \<lparr>Key = ''b'', Value = Itoa (len filename)\<rparr>,
       \<lparr>Key = ''c'', Value = Itoa (len contents)\<rparr>, \<lparr>Key = ''d'', Value = ''xyzzy''\<rparr>])) (nocrash_maybeCrash rr)"

definition nocrash_Reduce :: "int \<Rightarrow> string \<Rightarrow> string list \<Rightarrow> (int \<times> string) option" where
  "nocrash_Reduce rr key values = map_option (\<lambda>slept. (slept, Join (sort values) '' '')) (nocrash_maybeCrash rr)"

text \<open>\<open>early_exit.go\<close>.\<close>

definition Contains :: "string \<Rightarrow> string \<Rightarrow> bool" where
  "Contains s sub = list_ex (\<lambda>i. take (length sub) (drop i s) = sub) [0 ..< length s + 1]"

definition early_exit_Map :: "string \<Rightarrow> string \<Rightarrow> KeyValue list" where
  "early_exit_Map filename contents = [\<lparr>Key = filename, Value = ''1''\<rparr>]"

definition early_exit_Reduce :: "string \<Rightarrow> string list \<Rightarrow> int \<times> string" where
  "early_exit_Reduce key values =
    (if Contains key ''sherlock'' \<or> Contains key ''tom'' then 3000 else 0, Itoa (len values))"

text \<open>\<open>jobcount.go\<close>: its state is the counter of the process; \<open>dir\<close> lists the working directory, which
  can be read, and \<open>writable\<close> says which files can be written; a failure panics.\<close>

definition HasPrefix :: "string \<Rightarrow> string \<Rightarrow> bool" where
  "HasPrefix s pre = (length pre \<le> length s \<and> take (length pre) s = pre)"

definition writeFile :: "(string \<Rightarrow> bool) \<Rightarrow> string \<Rightarrow> string list \<Rightarrow> string list res" where
  "writeFile writable f dir =
    (if writable f then Inr (if f \<in> set dir then dir else dir @ [f]) else Inl (GoPanic f))"

definition jobcount_Map :: "(string \<Rightarrow> bool) \<Rightarrow> int \<Rightarrow> int \<Rightarrow> string \<Rightarrow> string \<Rightarrow> int \<times> string list \<Rightarrow>
    ((int \<times> string list) \<times> int \<times> KeyValue list) res" where
  "jobcount_Map writable pid rnd filename contents = (\<lambda>(count, dir).
    let f = ''mr-worker-jobcount-'' @ Itoa pid @ ''-'' @ Itoa count in
    rbind (writeFile writable f dir) (\<lambda>dir'. Inr ((count + 1, dir'), 2000 + rnd, [\<lparr>Key = ''a'', Value = ''x''\<rparr>])))"

definition jobcount_Reduce :: "string list \<Rightarrow> string \<Rightarrow> string list \<Rightarrow> string" where
  "jobcount_Reduce dir key values = Itoa (len (filter (\<lambda>f. HasPrefix f ''mr-worker-jobcount'') dir))"

text \<open>
  \<open>mtiming.go\<close> and \<open>rtiming.go\<close>: \<open>sscan\<close> reads the process id from a name after a prefix
  (\<open>fmt.Sscanf\<close>), \<open>alive\<close> is the answer of \<open>kill(pid, 0)\<close>, \<open>dir\<close> is the directory, which can be
  read, when the file is written, and \<open>dir'\<close> when it is removed a second later. The results have
  the directory that is left and the time slept. The source has \<open>nparallel\<close> twice, once in each file.
\<close>

record system =
  writable :: "string \<Rightarrow> bool"
  sscan :: "string \<Rightarrow> string \<Rightarrow> int option"
  alive :: "int \<Rightarrow> bool"

definition nparallel :: "system \<Rightarrow> int \<Rightarrow> string list \<Rightarrow> string list \<Rightarrow> string \<Rightarrow> (string list \<times> int \<times> int) res" where
  "nparallel sys pid dir dir' phase =
    (let myfilename = ''mr-worker-'' @ phase @ ''-'' @ Itoa pid in
     rbind (writeFile (writable sys) myfilename dir) (\<lambda>names.
     let ret = fold (\<lambda>name ret. case sscan sys (''mr-worker-'' @ phase @ ''-'') name of
                   Some xpid \<Rightarrow> if alive sys xpid then ret + 1 else ret
                 | None \<Rightarrow> ret) (take 1000000 names) 0 in
     if myfilename \<in> set dir' then Inr (filter (\<lambda>f. f \<noteq> myfilename) dir', 1000, ret) else Inl (GoPanic myfilename)))"

definition mtiming_Map :: "system \<Rightarrow> int \<Rightarrow> string list \<Rightarrow> string list \<Rightarrow> string \<Rightarrow> string \<Rightarrow> string \<Rightarrow>
    (string list \<times> int \<times> KeyValue list) res" where
  "mtiming_Map sys pid dir dir' ts filename contents =
    rbind (nparallel sys pid dir dir' ''map'') (\<lambda>(d, slept, n). Inr (d, slept,
      [\<lparr>Key = ''times-'' @ Itoa pid, Value = ts\<rparr>, \<lparr>Key = ''parallel-'' @ Itoa pid, Value = Itoa n\<rparr>]))"

definition mtiming_Reduce :: "string \<Rightarrow> string list \<Rightarrow> string" where
  "mtiming_Reduce key values = Join (sort values) '' ''"

definition rtiming_nparallel :: "system \<Rightarrow> int \<Rightarrow> string list \<Rightarrow> string list \<Rightarrow> string \<Rightarrow> (string list \<times> int \<times> int) res" where
  "rtiming_nparallel sys pid dir dir' phase =
    (let myfilename = ''mr-worker-'' @ phase @ ''-'' @ Itoa pid in
     rbind (writeFile (writable sys) myfilename dir) (\<lambda>names.
     let ret = fold (\<lambda>name ret. case sscan sys (''mr-worker-'' @ phase @ ''-'') name of
                   Some xpid \<Rightarrow> if alive sys xpid then ret + 1 else ret
                 | None \<Rightarrow> ret) (take 1000000 names) 0 in
     if myfilename \<in> set dir' then Inr (filter (\<lambda>f. f \<noteq> myfilename) dir', 1000, ret) else Inl (GoPanic myfilename)))"

definition rtiming_Map :: "string \<Rightarrow> string \<Rightarrow> KeyValue list" where
  "rtiming_Map filename contents =
    [\<lparr>Key = ''a'', Value = ''1''\<rparr>, \<lparr>Key = ''b'', Value = ''1''\<rparr>, \<lparr>Key = ''c'', Value = ''1''\<rparr>,
     \<lparr>Key = ''d'', Value = ''1''\<rparr>, \<lparr>Key = ''e'', Value = ''1''\<rparr>, \<lparr>Key = ''f'', Value = ''1''\<rparr>,
     \<lparr>Key = ''g'', Value = ''1''\<rparr>, \<lparr>Key = ''h'', Value = ''1''\<rparr>, \<lparr>Key = ''i'', Value = ''1''\<rparr>,
     \<lparr>Key = ''j'', Value = ''1''\<rparr>]"

definition rtiming_Reduce :: "system \<Rightarrow> int \<Rightarrow> string list \<Rightarrow> string list \<Rightarrow> string \<Rightarrow> string list \<Rightarrow>
    (string list \<times> int \<times> string) res" where
  "rtiming_Reduce sys pid dir dir' key values =
    rbind (rtiming_nparallel sys pid dir dir' ''reduce'') (\<lambda>(d, slept, n). Inr (d, slept, Itoa n))"

lemma rtiming_nparallel_same: "rtiming_nparallel = nparallel"
  by (intro ext) (simp only: rtiming_nparallel_def nparallel_def)

section \<open>The reduce loop by groups\<close>

text \<open>What the two index loops compute: the runs of equal keys with their values.\<close>

function groupRuns :: "KeyValue list \<Rightarrow> (string \<times> string list) list" where
  "groupRuns [] = []"
| "groupRuns (x # xs) =
    (Key x, Value x # map Value (takeWhile (\<lambda>y. Key y = Key x) xs)) # groupRuns (dropWhile (\<lambda>y. Key y = Key x) xs)"
  by pat_completeness auto
termination by (relation "measure length") (auto simp: less_Suc_eq_le length_dropWhile_le)

lemma runEnd_takeWhile:
  "j \<le> length xs \<Longrightarrow> runEnd xs i j = j + length (takeWhile (\<lambda>y. Key y = Key (xs ! i)) (drop j xs))"
proof (induction xs i j rule: runEnd.induct)
  case (1 xs i j)
  show ?case
  proof (cases "j < length xs")
    case True
    with 1 show ?thesis by (subst runEnd.simps) (simp add: Cons_nth_drop_Suc [symmetric])
  qed (use 1 in \<open>subst runEnd.simps, simp\<close>)
qed

lemma map_nth_range: "j \<le> length xs \<Longrightarrow> map (\<lambda>k. f (xs ! k)) [i ..< j] = map f (take (j - i) (drop i xs))"
  by (rule nth_equalityI) auto

lemma reduceLoop_groupRuns:
  "reduceLoop reducef xs i ofile =
    ofile @ concat (map (\<lambda>(k, vs). outputLine k (reducef k vs)) (groupRuns (drop i xs)))"
proof (induction reducef xs i ofile rule: reduceLoop.induct)
  case (1 reducef xs i ofile)
  show ?case
  proof (cases "i < length xs")
    case True
    define t where "t = takeWhile (\<lambda>y. Key y = Key (xs ! i)) (drop (Suc i) xs)"
    define j where "j = runEnd xs i (Suc i)"
    have j: "j = Suc i + length t" using True by (simp add: j_def t_def runEnd_takeWhile)
    have "length t \<le> length xs - (Suc i)" using length_takeWhile_le [of _ "drop (Suc i) xs"] by (simp add: t_def)
    then have jl: "j \<le> length xs" using j True by simp
    have drop: "drop i xs = xs ! i # drop (Suc i) xs" using True by (simp add: Cons_nth_drop_Suc)
    have "drop (length t) (drop (Suc i) xs) = dropWhile (\<lambda>y. Key y = Key (xs ! i)) (drop (Suc i) xs)"
      unfolding t_def by (simp add: dropWhile_eq_drop)
    then have rest: "dropWhile (\<lambda>y. Key y = Key (xs ! i)) (drop (Suc i) xs) = drop j xs" by (simp add: j add.commute)
    have vals: "map (\<lambda>k. Value (xs ! k)) [i ..< j] = Value (xs ! i) # map Value t"
    proof -
      have "map (\<lambda>k. Value (xs ! k)) [i ..< j] = map Value (take (Suc (length t)) (drop i xs))"
        using map_nth_range [OF jl, of Value i] by (simp only: j) simp
      also have "take (Suc (length t)) (drop i xs) = xs ! i # t" unfolding drop by (simp add: t_def takeWhile_eq_take [symmetric])
      finally show ?thesis by simp
    qed
    from 1 [OF True refl refl refl] show ?thesis using True
      by (subst reduceLoop.simps) (simp add: Let_def drop rest t_def [symmetric] j_def [symmetric] vals)
  qed (subst reduceLoop.simps, simp)
qed

lemma sorted_runs:
  assumes "sorted (map Key (x # xs))"
  shows "takeWhile (\<lambda>y. Key y = Key x) xs = filter (\<lambda>y. Key y = Key x) xs"
    and "dropWhile (\<lambda>y. Key y = Key x) xs = filter (\<lambda>y. Key y \<noteq> Key x) xs"
  using assms
proof (induction xs)
  case (Cons y ys)
  {
    case 1
    with Cons show ?case by (auto simp: filter_empty_conv intro!: sym [of "filter _ _"]) (metis order.antisym)
  next
    case 2
    with Cons show ?case by (auto simp: filter_id_conv intro!: sym [of "filter _ _"]) (metis order.antisym)
  }
qed auto

text \<open>On a sorted list every key makes one run, which holds all its values.\<close>

lemma groupRuns_sorted:
  "sorted (map Key xs) \<Longrightarrow>
    groupRuns xs = map (\<lambda>k. (k, map Value (filter (\<lambda>y. Key y = k) xs))) (sorted_list_of_set (Key ` set xs))"
proof (induction xs rule: groupRuns.induct)
  case (2 x xs)
  let ?d = "filter (\<lambda>y. Key y \<noteq> Key x) xs"
  have less: "Key x < k" if "k \<in> Key ` set ?d" for k using 2(2) that by (auto simp: order.strict_iff_order)
  have keys: "Key ` set (x # xs) = insert (Key x) (Key ` set ?d)" by auto
  have "sorted_list_of_set (Key ` set (x # xs)) = Key x # sorted_list_of_set (Key ` set ?d)"
  proof (rule sorted_distinct_set_unique)
    show "sorted (Key x # sorted_list_of_set (Key ` set ?d))" using less by (auto simp: less_imp_le)
    show "distinct (Key x # sorted_list_of_set (Key ` set ?d))" using less by auto
    show "sorted (sorted_list_of_set (Key ` set (x # xs)))" by (rule sorted_sorted_list_of_set)
    show "distinct (sorted_list_of_set (Key ` set (x # xs)))" by (rule distinct_sorted_list_of_set)
    show "set (sorted_list_of_set (Key ` set (x # xs))) = set (Key x # sorted_list_of_set (Key ` set ?d))"
    proof -
      have "set (sorted_list_of_set (Key ` set (x # xs))) = Key ` set (x # xs)" by (rule set_sorted_list_of_set) simp
      then show ?thesis unfolding keys by simp
    qed
  qed
  moreover have "map Value (filter (\<lambda>y. Key y = k) ?d) = map Value (filter (\<lambda>y. Key y = k) (x # xs))"
    if "k \<in> Key ` set ?d" for k
    using less [OF that] by (auto intro!: arg_cong [where f = "map Value"] filter_cong)
  moreover have "groupRuns ?d = map (\<lambda>k. (k, map Value (filter (\<lambda>y. Key y = k) ?d))) (sorted_list_of_set (Key ` set ?d))"
    using 2(1) 2(2) sorted_runs [OF 2(2)] by (simp add: sorted_filter)
  ultimately show ?case using sorted_runs [OF 2(2)] by simp
qed simp

lemma readInputs_all:
  assumes "\<And>n. n \<in> set names \<Longrightarrow> input n = Some (Some (content n))"
  shows "readInputs input mapf names acc = Inr (acc @ concat (map (\<lambda>n. mapf n (content n)) names))"
  using assms by (induction names arbitrary: acc) auto

text \<open>The driver with a readable plugin and readable inputs, for any sort by key.\<close>

lemma mrsequential_groups:
  assumes "\<And>xs. mset (sortByKey xs) = mset xs" "\<And>xs. sorted (map Key (sortByKey xs))"
    and "plugin (args ! 1) = Some [''Map'' \<mapsto> MapFun mapf, ''Reduce'' \<mapsto> ReduceFun reducef]"
    and "length args \<ge> 3" "\<And>n. n \<in> set (drop 2 args) \<Longrightarrow> input n = Some (Some (content n))"
  defines "kvs \<equiv> concat (map (\<lambda>n. mapf n (content n)) (drop 2 args))"
  shows "mrsequential sortByKey plugin input args =
    Output (concat (map (\<lambda>k. outputLine k (reducef k (map Value (filter (\<lambda>y. Key y = k) (sortByKey kvs)))))
      (sorted_list_of_set (Key ` set kvs))))"
proof -
  have "set (sortByKey kvs) = set kvs" using assms(1) [of kvs] by (metis set_mset_mset)
  then show ?thesis using assms
    by (simp add: mrsequential_def loadPlugin_def readInputs_all reduceLoop_groupRuns groupRuns_sorted comp_def)
qed

section \<open>Properties\<close>

text \<open>
  C26: the sequential driver with the word count application counts words. For every way to sort by
  key, the output file has one line for each word of the input files, in ascending order of the
  words, with the number of times the word occurs in all files together.
\<close>

theorem wc_counts:
  assumes "\<And>xs. mset (sortByKey xs) = mset xs" "\<And>xs. sorted (map Key (sortByKey xs))"
    and "plugin (args ! 1) = Some [''Map'' \<mapsto> MapFun (wc_Map isLetter), ''Reduce'' \<mapsto> ReduceFun wc_Reduce]"
    and "length args \<ge> 3" "\<And>n. n \<in> set (drop 2 args) \<Longrightarrow> input n = Some (Some (content n))"
  defines "ws \<equiv> concat (map (\<lambda>n. FieldsFunc (content n) (\<lambda>r. \<not> isLetter r)) (drop 2 args))"
  shows "mrsequential sortByKey plugin input args =
    Output (concat (map (\<lambda>w. outputLine w (Itoa (int (count_list ws w)))) (sorted_list_of_set (set ws))))"
proof -
  define kvs where "kvs = concat (map (\<lambda>n. wc_Map isLetter n (content n)) (drop 2 args))"
  have kvs: "kvs = map (\<lambda>w. \<lparr>Key = w, Value = ''1''\<rparr>) ws"
    unfolding kvs_def ws_def wc_Map_def Let_def by (simp add: map_concat comp_def)
  have "length (filter (\<lambda>y. Key y = k) (sortByKey kvs)) = count_list ws k" for k
  proof -
    have "length (filter (\<lambda>y. Key y = k) (sortByKey kvs)) = length (filter (\<lambda>y. Key y = k) kvs)"
      using assms(1) [of kvs] by (metis mset_filter size_mset)
    also have "\<dots> = count_list ws k" 
      unfolding kvs by (simp add: filter_map comp_def count_list_eq_length_filter) (rule arg_cong [OF filter_cong], auto)
    finally show ?thesis .
  qed
  moreover have "Key ` set kvs = set ws" by (simp add: kvs image_image)
  ultimately show ?thesis
    using mrsequential_groups [where sortByKey = sortByKey and input = input and content = content and plugin = plugin and args = args, OF assms(1-5)] by (simp add: kvs_def [symmetric] wc_Reduce_def len_def)
qed

definition asciiLetter :: "nat \<Rightarrow> bool" where
  "asciiLetter r = (within 65 90 r \<or> within 97 122 r)"

theorem wc_counts_witness:
  "mrsequential (sort_key Key) [''wc.so'' \<mapsto> [''Map'' \<mapsto> MapFun (wc_Map asciiLetter), ''Reduce'' \<mapsto> ReduceFun wc_Reduce]]
     [''x'' \<mapsto> Some ''to be, to'', ''y'' \<mapsto> Some ''be2be''] [''mrsequential'', ''wc.so'', ''x'', ''y'']
   = Output (''be 3'' @ newline @ ''to 2'' @ newline)"
proof -
  define content where "content = (\<lambda>n. if n = ''x'' then ''to be, to'' else ''be2be'')"
  have words: "FieldsFunc ''to be, to'' (\<lambda>r. \<not> asciiLetter r) = [''to'', ''be'', ''to'']"
    "FieldsFunc ''be2be'' (\<lambda>r. \<not> asciiLetter r) = [''be'', ''be'']" by code_simp+
  have sorted: "sorted_list_of_set {''to'', ''be''} = [''be'', ''to'']" by code_simp
  have "Itoa 2 = ''2''" "Itoa 3 = ''3''" by code_simp+
  then show ?thesis
    using wc_counts [of "sort_key Key" "[''wc.so'' \<mapsto> [''Map'' \<mapsto> MapFun (wc_Map asciiLetter), ''Reduce'' \<mapsto> ReduceFun wc_Reduce]]"
        "[''mrsequential'', ''wc.so'', ''x'', ''y'']" asciiLetter "[''x'' \<mapsto> Some ''to be, to'', ''y'' \<mapsto> Some ''be2be'']" content]
    by (simp add: content_def words sorted outputLine_def insert_commute) fastforce
qed

end
