(* ===== verification/ServiceHarness.thy ===== *)
theory ServiceHarness
  imports RaftHarness
begin

text \<open>
  The harness that the tests of the services use (\<open>kvraft/config.go\<close> and \<open>shardctrler/config.go\<close>): it
  starts and shuts down the servers of a service, connects them to one another in whole or in
  two partitions, and makes clerks with end points of their own.

  The two files are copies of one another up to the type of the servers, so the operations are
  defined for any type \<open>'sv\<close> of servers: \<open>rfOf\<close> is the Raft peer of a server, \<open>mk\<close> starts one on its
  storage. Random numbers and names are arguments: \<open>name j\<close> is the \<open>j\<close>-th result of \<open>randstring\<close>,
  \<open>rnd i\<close> the result of \<open>rand.Intn(i + 1)\<close>. A clerk is known to the harness by its address, its end
  points by their names. As in the harness of Raft, the storage of a running server is that of
  its peer, and a nil slice of names is empty.
\<close>

section \<open>State\<close>

record ('c, 'sv, 'st) service_config =
  vNet :: "(netName, 'st) Network"
  vN :: int
  vServers :: "'sv option list"
  vSaved :: "'c Persister option list"
  vEndnames :: "string list list"
  vClerks :: "nat \<rightharpoonup> string list"
  vNextClientId :: int

section \<open>Shuffling\<close>

text \<open>\<open>random_handles\<close>: the slice is copied, then every element changes places with one before it, or itself.\<close>

definition swapAt :: "int \<Rightarrow> int \<Rightarrow> 'a list \<Rightarrow> 'a list res" where
  "swapAt i j sa =
    rbind (go_nth sa j) (\<lambda>y. rbind (go_nth sa i) (\<lambda>x.
    rbind (go_upd sa i y) (\<lambda>sa1. go_upd sa1 j x)))"

definition random_handles :: "(int \<Rightarrow> int) \<Rightarrow> 'a list \<Rightarrow> 'a list res" where
  "random_handles rnd kvh = for_each (indices 0 (len kvh)) (\<lambda>i sa. swapAt i (rnd i) sa) kvh"

section \<open>Connecting servers\<close>

definition switchEnd :: "int \<Rightarrow> int \<Rightarrow> bool \<Rightarrow> ('c, 'sv, 'st, 'm) service_config_scheme \<Rightarrow> ('c, 'sv, 'st, 'm) service_config_scheme res" where
  "switchEnd i j b cfg =
    rbind (go_nth (vEndnames cfg) i) (\<lambda>es.
    rbind (go_nth es j) (\<lambda>endname.
    Inr (cfg\<lparr>vNet := Enable (vNet cfg) (EndName endname) b\<rparr>)))"

definition connectUnlocked :: "int \<Rightarrow> int list \<Rightarrow> ('c, 'sv, 'st, 'm) service_config_scheme \<Rightarrow> ('c, 'sv, 'st, 'm) service_config_scheme res" where
  "connectUnlocked i to cfg =
    rbind (for_each (indices 0 (len to)) (\<lambda>j s. rbind (go_nth to j) (\<lambda>t. switchEnd i t True s)) cfg)
      (for_each (indices 0 (len to)) (\<lambda>j s. rbind (go_nth to j) (\<lambda>t. switchEnd t i True s)))"

text \<open>The guard of the second loop looks at the names of server \<open>j\<close>, not of server \<open>from[j]\<close>.\<close>

definition disconnectUnlocked :: "int \<Rightarrow> int list \<Rightarrow> ('c, 'sv, 'st, 'm) service_config_scheme \<Rightarrow> ('c, 'sv, 'st, 'm) service_config_scheme res" where
  "disconnectUnlocked i from cfg =
    rbind (for_each (indices 0 (len from))
        (\<lambda>j s. rbind (go_nth (vEndnames s) i) (\<lambda>es.
           if es \<noteq> [] then rbind (go_nth from j) (\<lambda>t. switchEnd i t False s) else Inr s)) cfg)
      (for_each (indices 0 (len from))
        (\<lambda>j s. rbind (go_nth (vEndnames s) j) (\<lambda>es.
           if es \<noteq> [] then rbind (go_nth from j) (\<lambda>t. switchEnd t i False s) else Inr s)))"

definition All :: "('c, 'sv, 'st, 'm) service_config_scheme \<Rightarrow> int list" where
  "All cfg = indices 0 (vN cfg)"

definition ConnectAll :: "('c, 'sv, 'st, 'm) service_config_scheme \<Rightarrow> ('c, 'sv, 'st, 'm) service_config_scheme res" where
  "ConnectAll cfg = for_each (indices 0 (vN cfg)) (\<lambda>i s. connectUnlocked i (All s) s) cfg"

definition partition_servers :: "int list \<Rightarrow> int list \<Rightarrow> ('c, 'sv, 'st, 'm) service_config_scheme \<Rightarrow> ('c, 'sv, 'st, 'm) service_config_scheme res" where
  "partition_servers p1 p2 cfg =
    rbind (for_each (indices 0 (len p1))
        (\<lambda>i s. rbind (go_nth p1 i) (\<lambda>a. rbind (disconnectUnlocked a p2 s) (connectUnlocked a p1))) cfg)
      (for_each (indices 0 (len p2))
        (\<lambda>i s. rbind (go_nth p2 i) (\<lambda>a. rbind (disconnectUnlocked a p1 s) (connectUnlocked a p2))))"

section \<open>Clerks\<close>

definition clerkNames :: "nat \<Rightarrow> ('c, 'sv, 'st, 'm) service_config_scheme \<Rightarrow> string list" where
  "clerkNames ck cfg = (case vClerks cfg ck of None \<Rightarrow> [] | Some endnames \<Rightarrow> endnames)"

definition switchClient :: "nat \<Rightarrow> int list \<Rightarrow> bool \<Rightarrow> ('c, 'sv, 'st, 'm) service_config_scheme \<Rightarrow> ('c, 'sv, 'st, 'm) service_config_scheme res" where
  "switchClient ck to b cfg =
    (let endnames = clerkNames ck cfg in
     for_each (indices 0 (len to))
       (\<lambda>j s. rbind (go_nth to j) (\<lambda>t. rbind (go_nth endnames t) (\<lambda>e. Inr (s\<lparr>vNet := Enable (vNet s) (EndName e) b\<rparr>)))) cfg)"

definition ConnectClientUnlocked :: "nat \<Rightarrow> int list \<Rightarrow> ('c, 'sv, 'st, 'm) service_config_scheme \<Rightarrow> ('c, 'sv, 'st, 'm) service_config_scheme res" where
  "ConnectClientUnlocked ck to cfg = switchClient ck to True cfg"

definition DisconnectClientUnlocked :: "nat \<Rightarrow> int list \<Rightarrow> ('c, 'sv, 'st, 'm) service_config_scheme \<Rightarrow> ('c, 'sv, 'st, 'm) service_config_scheme res" where
  "DisconnectClientUnlocked ck from cfg = switchClient ck from False cfg"

text \<open>The loop that makes a set of end points, one to each server.\<close>

definition makeNamedEnds :: "(int \<Rightarrow> string) \<Rightarrow> ('c, 'sv, 'st, 'm) service_config_scheme \<Rightarrow> ('c, 'sv, 'st, 'm) service_config_scheme res" where
  "makeNamedEnds name cfg =
    for_each (indices 0 (vN cfg))
      (\<lambda>j s. rbind (MakeEnd (vNet s) (EndName (name j))) (\<lambda>rn. Inr (s\<lparr>vNet := Connect rn (EndName (name j)) (ServerName j)\<rparr>))) cfg"

text \<open>\<open>makeClient\<close>; the result has the end points in the order in which the clerk gets them.\<close>

definition makeClient :: "nat \<Rightarrow> (int \<Rightarrow> string) \<Rightarrow> (int \<Rightarrow> int) \<Rightarrow> int list \<Rightarrow> ('c, 'sv, 'st, 'm) service_config_scheme \<Rightarrow>
    (('c, 'sv, 'st, 'm) service_config_scheme \<times> string list) res" where
  "makeClient ck name rnd to cfg =
    rbind (makeNamedEnds name cfg) (\<lambda>cfg1.
    let endnames = map name (indices 0 (vN cfg)) in
    rbind (random_handles rnd endnames) (\<lambda>handles.
    let cfg2 = cfg1\<lparr>vClerks := (vClerks cfg1)(ck \<mapsto> endnames), vNextClientId := vNextClientId cfg1 + 1\<rparr> in
    rbind (ConnectClientUnlocked ck to cfg2) (\<lambda>cfg3. Inr (cfg3, handles))))"

text \<open>
  \<open>deleteClient\<close> also removes files with the names of the end points, which do not exist. The end
  points stay as they are.
\<close>

definition deleteClient :: "nat \<Rightarrow> ('c, 'sv, 'st, 'm) service_config_scheme \<Rightarrow> ('c, 'sv, 'st, 'm) service_config_scheme" where
  "deleteClient ck cfg = cfg\<lparr>vClerks := (vClerks cfg)(ck := None)\<rparr>"

section \<open>Starting and stopping servers\<close>

definition currentSaved :: "('sv \<Rightarrow> 'c Raft) \<Rightarrow> int \<Rightarrow> ('c, 'sv, 'st, 'm) service_config_scheme \<Rightarrow> 'c Persister option res" where
  "currentSaved rfOf i cfg =
    rbind (go_nth (vSaved cfg) i) (\<lambda>sv. rbind (go_nth (vServers cfg) i) (\<lambda>kv.
    Inr (case kv of Some s \<Rightarrow> Some (persister (rfOf s)) | None \<Rightarrow> sv)))"

text \<open>The server is killed and forgotten; its end points are disabled and its name is gone.\<close>

definition ShutdownServer :: "('sv \<Rightarrow> 'c Raft) \<Rightarrow> int \<Rightarrow> ('c, 'sv, 'st, 'm) service_config_scheme \<Rightarrow> ('c, 'sv, 'st, 'm) service_config_scheme res" where
  "ShutdownServer rfOf i cfg =
    rbind (disconnectUnlocked i (All cfg) cfg) (\<lambda>cfg1.
    let cfg2 = cfg1\<lparr>vNet := DeleteServer (vNet cfg1) (ServerName i)\<rparr> in
    rbind (currentSaved rfOf i cfg2) (\<lambda>sv.
    rbind (go_upd (vSaved cfg2) i (map_option Copy sv)) (\<lambda>ss.
    rbind (go_upd (vServers cfg2) i None) (\<lambda>vs.
    Inr (cfg2\<lparr>vSaved := ss, vServers := vs\<rparr>)))))"

text \<open>\<open>svc\<close> and \<open>rfsvc\<close> are the services that \<open>MakeService\<close> makes of the server and of its peer.\<close>

definition StartServer :: "('sv \<Rightarrow> 'c Raft) \<Rightarrow> (int \<Rightarrow> 'c Persister \<Rightarrow> 'sv option) \<Rightarrow> ('sv \<Rightarrow> 'st service) \<Rightarrow> ('c Raft \<Rightarrow> 'st service) \<Rightarrow>
    (int \<Rightarrow> string) \<Rightarrow> int \<Rightarrow> ('c, 'sv, 'st, 'm) service_config_scheme \<Rightarrow> ('c, 'sv, 'st, 'm) service_config_scheme option res" where
  "StartServer rfOf mk svc rfsvc name i cfg =
    rbind (go_upd (vEndnames cfg) i (map name (indices 0 (vN cfg)))) (\<lambda>ens.
    rbind (makeNamedEnds name (cfg\<lparr>vEndnames := ens\<rparr>)) (\<lambda>cfg1.
    rbind (currentSaved rfOf i cfg1) (\<lambda>sv.
    let ps = (case sv of Some p \<Rightarrow> Copy p | None \<Rightarrow> MakePersister) in
    rbind (go_upd (vSaved cfg1) i (Some ps)) (\<lambda>ss.
    case mk i ps of
      None \<Rightarrow> Inr None
    | Some kv \<Rightarrow>
        rbind (go_upd (vServers cfg1) i (Some kv)) (\<lambda>vs.
        let srv = AddService (AddService MakeServer (svc kv)) (rfsvc (rfOf kv));
            net = vNet cfg1;
            net1 = net\<lparr>store := store net @ [srv]\<rparr> in
        Inr (Some (cfg1\<lparr>vSaved := ss, vServers := vs, vNet := AddServer net1 (ServerName i) (length (store net))\<rparr>)))))))"

section \<open>The leader and its partition\<close>

text \<open>\<open>isLeader i\<close> asks server \<open>i\<close>; the first leader is returned, or \<open>(false, 0)\<close>.\<close>

fun leaderLoop :: "(int \<Rightarrow> bool res) \<Rightarrow> int list \<Rightarrow> (bool \<times> int) res" where
  "leaderLoop isLeader [] = Inr (False, 0)"
| "leaderLoop isLeader (i # is) = rbind (isLeader i) (\<lambda>b. if b then Inr (True, i) else leaderLoop isLeader is)"

text \<open>The body of \<open>make_partition\<close>, for the second result \<open>l\<close> of \<open>Leader\<close>.\<close>

definition partitionStep :: "int \<Rightarrow> int \<Rightarrow> int list \<times> int list \<times> int \<Rightarrow> (int list \<times> int list \<times> int) res" where
  "partitionStep l i s = (case s of (p1, p2, j) \<Rightarrow>
    if i \<noteq> l then
      if j < len p1 then rbind (go_upd p1 j i) (\<lambda>p1'. Inr (p1', p2, j + 1))
      else rbind (go_upd p2 (j - len p1) i) (\<lambda>p2'. Inr (p1, p2', j + 1))
    else Inr s)"

definition make_partition :: "int \<Rightarrow> int \<Rightarrow> (int list \<times> int list) res" where
  "make_partition n l =
    rbind (for_each (indices 0 n) (partitionStep l) (replicate (nat (n div 2 + 1)) 0, replicate (nat (n div 2)) 0, 0)) (\<lambda>(p1, p2, j).
    rbind (go_upd p2 (len p2 - 1) l) (\<lambda>p2'. Inr (p1, p2')))"

section \<open>The whole configuration\<close>

definition emptyService :: "int \<Rightarrow> ('c, 'sv, 'st) service_config" where
  "emptyService n = \<lparr>vNet = MakeNetwork, vN = n, vServers = replicate (nat n) None, vSaved = replicate (nat n) None,
     vEndnames = replicate (nat n) [], vClerks = Map.empty, vNextClientId = n + 1000\<rparr>"

text \<open>Start all servers, connect them, and make the network as reliable as is wanted; \<open>start i\<close> starts server \<open>i\<close>.\<close>

definition startAll :: "(int \<Rightarrow> ('c, 'sv, 'st, 'm) service_config_scheme \<Rightarrow> ('c, 'sv, 'st, 'm) service_config_scheme option res) \<Rightarrow> bool \<Rightarrow>
    ('c, 'sv, 'st, 'm) service_config_scheme \<Rightarrow> ('c, 'sv, 'st, 'm) service_config_scheme option res" where
  "startAll start unreliable cfg =
    rbind (for_each (indices 0 (vN cfg)) (\<lambda>i s. case s of None \<Rightarrow> Inr None | Some c \<Rightarrow> start i c) (Some cfg)) (\<lambda>s.
    case s of None \<Rightarrow> Inr None | Some c \<Rightarrow>
    rbind (ConnectAll c) (\<lambda>c'. Inr (Some (c'\<lparr>vNet := Reliable (vNet c') (\<not> unreliable)\<rparr>))))"

definition killAll :: "('sv \<Rightarrow> 'sv) \<Rightarrow> ('c, 'sv, 'st, 'm) service_config_scheme \<Rightarrow> ('c, 'sv, 'st, 'm) service_config_scheme" where
  "killAll kill cfg = cfg\<lparr>vServers := map (map_option kill) (vServers cfg)\<rparr>"

definition serviceCleanup :: "('sv \<Rightarrow> 'sv) \<Rightarrow> bool \<Rightarrow> int \<Rightarrow> ('c, 'sv, 'st, 'm) service_config_scheme \<Rightarrow> ('c, 'sv, 'st, 'm) service_config_scheme res" where
  "serviceCleanup kill failed seconds cfg =
    (let cfg1 = killAll kill cfg in
     rbind (Cleanup (vNet cfg1)) (\<lambda>rn.
     rbind (checkTimeout failed seconds) (\<lambda>u. Inr (cfg1\<lparr>vNet := rn\<rparr>))))"

text \<open>The largest size of what is saved; \<open>sizeOf\<close> measures one storage.\<close>

definition maxSaved :: "('sv \<Rightarrow> 'c Raft) \<Rightarrow> ('c Persister \<Rightarrow> int) \<Rightarrow> ('c, 'sv, 'st, 'm) service_config_scheme \<Rightarrow> int res" where
  "maxSaved rfOf sizeOf cfg =
    for_each (indices 0 (vN cfg))
      (\<lambda>i size. rbind (currentSaved rfOf i cfg) (\<lambda>sv. case sv of
         None \<Rightarrow> Inl NilDereference
       | Some ps \<Rightarrow> Inr (if sizeOf ps > size then sizeOf ps else size))) 0"

end
