(* ===== verification/KvHarness.thy ===== *)
theory KvHarness
  imports ServiceHarness KvClerk
begin

text \<open>
  The harness of the key/value tests (\<open>kvraft/config.go\<close>): the shared harness with key/value servers,
  the size at which they are to compact their logs, and the statistics of a test.
\<close>

record 'st kv_config = "(KvOp, KVServer, 'st) service_config" +
  kMaxraftstate :: int
  kRpcs0 :: int
  kOps :: "32 word"

definition kv_checkTimeout :: "bool \<Rightarrow> int \<Rightarrow> unit res" where
  "kv_checkTimeout failed seconds = checkTimeout failed seconds"

definition kv_cleanup :: "bool \<Rightarrow> int \<Rightarrow> 'st kv_config \<Rightarrow> 'st kv_config res" where
  "kv_cleanup failed seconds cfg = serviceCleanup KVServer_Kill failed seconds cfg"

definition kv_LogSize :: "(KvOp gob list \<Rightarrow> int) \<Rightarrow> 'st kv_config \<Rightarrow> int res" where
  "kv_LogSize bytesOf cfg = maxSaved kvRf (\<lambda>ps. bytesOf (raftstate ps)) cfg"

definition kv_SnapshotSize :: "'st kv_config \<Rightarrow> int res" where
  "kv_SnapshotSize cfg = maxSaved kvRf (\<lambda>ps. len (ReadSnapshot ps)) cfg"

definition kv_connect :: "int \<Rightarrow> int list \<Rightarrow> 'st kv_config \<Rightarrow> 'st kv_config res" where
  "kv_connect i to cfg = connectUnlocked i to cfg"

definition kv_disconnect :: "int \<Rightarrow> int list \<Rightarrow> 'st kv_config \<Rightarrow> 'st kv_config res" where
  "kv_disconnect i from cfg = disconnectUnlocked i from cfg"

text \<open>\<open>nrand\<close> is the number the clerk draws for its identity.\<close>

definition kv_makeClient :: "nat \<Rightarrow> (int \<Rightarrow> string) \<Rightarrow> (int \<Rightarrow> int) \<Rightarrow> int \<Rightarrow> int list \<Rightarrow> 'st kv_config \<Rightarrow> ('st kv_config \<times> string list \<times> Clerk) res" where
  "kv_makeClient ck name rnd nrand to cfg =
    rbind (makeClient ck name rnd to cfg) (\<lambda>(cfg', handles). Inr (cfg', handles, MakeClerk (len handles) nrand))"

definition kv_ConnectClient :: "nat \<Rightarrow> int list \<Rightarrow> 'st kv_config \<Rightarrow> 'st kv_config res" where
  "kv_ConnectClient ck to cfg = ConnectClientUnlocked ck to cfg"

definition kv_DisconnectClient :: "nat \<Rightarrow> int list \<Rightarrow> 'st kv_config \<Rightarrow> 'st kv_config res" where
  "kv_DisconnectClient ck from cfg = DisconnectClientUnlocked ck from cfg"

definition kv_ShutdownServer :: "int \<Rightarrow> 'st kv_config \<Rightarrow> 'st kv_config res" where
  "kv_ShutdownServer i cfg = ShutdownServer kvRf i cfg"

definition kv_StartServer :: "(KVServer \<Rightarrow> 'st service) \<Rightarrow> (KvOp Raft \<Rightarrow> 'st service) \<Rightarrow> int \<Rightarrow> int \<Rightarrow> (int \<Rightarrow> string) \<Rightarrow> int \<Rightarrow>
    'st kv_config \<Rightarrow> 'st kv_config option res" where
  "kv_StartServer kvsvc rfsvc now rnd name i cfg =
    StartServer kvRf (\<lambda>i ps. StartKVServer (vN cfg) i ps (kMaxraftstate cfg) now rnd) kvsvc rfsvc name i cfg"

text \<open>A server that was shut down is a nil pointer: asking it ends the test.\<close>

definition kv_Leader :: "'st kv_config \<Rightarrow> (bool \<times> int) res" where
  "kv_Leader cfg =
    leaderLoop (\<lambda>i. rbind (go_nth (vServers cfg) i) (\<lambda>kv. case kv of
      None \<Rightarrow> Inl NilDereference
    | Some s \<Rightarrow> Inr (snd (GetState (kvRf s))))) (indices 0 (vN cfg))"

definition kv_make_partition :: "'st kv_config \<Rightarrow> (int list \<times> int list) res" where
  "kv_make_partition cfg = rbind (kv_Leader cfg) (\<lambda>(ok, l). make_partition (vN cfg) l)"

text \<open>\<open>names i\<close> are the random names for server \<open>i\<close>.\<close>

definition kv_make_config :: "(KVServer \<Rightarrow> 'st service) \<Rightarrow> (KvOp Raft \<Rightarrow> 'st service) \<Rightarrow> int \<Rightarrow> int \<Rightarrow> (int \<Rightarrow> int \<Rightarrow> string) \<Rightarrow>
    int \<Rightarrow> bool \<Rightarrow> int \<Rightarrow> 'st kv_config option res" where
  "kv_make_config kvsvc rfsvc now rnd names n unreliable maxraft =
    startAll (\<lambda>i. kv_StartServer kvsvc rfsvc now rnd (names i) i) unreliable
      (service_config.extend (emptyService n) \<lparr>kMaxraftstate = maxraft, kRpcs0 = 0, kOps = 0\<rparr>)"

definition kv_rpcTotal :: "'st kv_config \<Rightarrow> int" where
  "kv_rpcTotal cfg = GetTotalCount (vNet cfg)"

definition kv_begin :: "'st kv_config \<Rightarrow> 'st kv_config" where
  "kv_begin cfg = cfg\<lparr>kRpcs0 := kv_rpcTotal cfg, kOps := 0\<rparr>"

definition kv_op :: "'st kv_config \<Rightarrow> 'st kv_config" where
  "kv_op cfg = cfg\<lparr>kOps := kOps cfg + 1\<rparr>"

text \<open>The numbers that \<open>end\<close> prints besides the time: peers, calls, operations of clerks.\<close>

definition kv_end :: "bool \<Rightarrow> int \<Rightarrow> 'st kv_config \<Rightarrow> (int \<times> int \<times> int) option res" where
  "kv_end failed seconds cfg =
    rbind (kv_checkTimeout failed seconds) (\<lambda>u.
    Inr (if failed = False then Some (vN cfg, kv_rpcTotal cfg - kRpcs0 cfg, sint (kOps cfg)) else None))"

end
