(* ===== verification/CtrlHarness.thy ===== *)
theory CtrlHarness
  imports ServiceHarness ShardClerk
begin

text \<open>
  The harness of the tests of the shard controller (\<open>shardctrler/config.go\<close>): the shared harness with
  controllers as servers. Asking for the leader skips the servers that were shut down.
\<close>

type_synonym 'st ctrl_config = "(unit, ShardCtrler, 'st) service_config"

definition ctrl_random_handles :: "(int \<Rightarrow> int) \<Rightarrow> string list \<Rightarrow> string list res" where
  "ctrl_random_handles rnd kvh = random_handles rnd kvh"

definition ctrl_checkTimeout :: "bool \<Rightarrow> int \<Rightarrow> unit res" where
  "ctrl_checkTimeout failed seconds = checkTimeout failed seconds"

definition ctrl_cleanup :: "bool \<Rightarrow> int \<Rightarrow> 'st ctrl_config \<Rightarrow> 'st ctrl_config res" where
  "ctrl_cleanup failed seconds cfg = serviceCleanup ShardCtrler_Kill failed seconds cfg"

definition ctrl_LogSize :: "(unit gob list \<Rightarrow> int) \<Rightarrow> 'st ctrl_config \<Rightarrow> int res" where
  "ctrl_LogSize bytesOf cfg = maxSaved scRf (\<lambda>ps. bytesOf (raftstate ps)) cfg"

definition ctrl_connect :: "int \<Rightarrow> int list \<Rightarrow> 'st ctrl_config \<Rightarrow> 'st ctrl_config res" where
  "ctrl_connect i to cfg = connectUnlocked i to cfg"

definition ctrl_disconnect :: "int \<Rightarrow> int list \<Rightarrow> 'st ctrl_config \<Rightarrow> 'st ctrl_config res" where
  "ctrl_disconnect i from cfg = disconnectUnlocked i from cfg"

definition ctrl_ConnectAll :: "'st ctrl_config \<Rightarrow> 'st ctrl_config res" where
  "ctrl_ConnectAll cfg = ConnectAll cfg"

definition ctrl_partition :: "int list \<Rightarrow> int list \<Rightarrow> 'st ctrl_config \<Rightarrow> 'st ctrl_config res" where
  "ctrl_partition p1 p2 cfg = partition_servers p1 p2 cfg"

text \<open>\<open>shardctrler.MakeClerk\<close> keeps the end points it is given.\<close>

definition ctrl_makeClient :: "nat \<Rightarrow> (int \<Rightarrow> string) \<Rightarrow> (int \<Rightarrow> int) \<Rightarrow> int list \<Rightarrow> 'st ctrl_config \<Rightarrow> ('st ctrl_config \<times> string list) res" where
  "ctrl_makeClient ck name rnd to cfg = makeClient ck name rnd to cfg"

definition ctrl_deleteClient :: "nat \<Rightarrow> 'st ctrl_config \<Rightarrow> 'st ctrl_config" where
  "ctrl_deleteClient ck cfg = deleteClient ck cfg"

definition ctrl_ConnectClient :: "nat \<Rightarrow> int list \<Rightarrow> 'st ctrl_config \<Rightarrow> 'st ctrl_config res" where
  "ctrl_ConnectClient ck to cfg = ConnectClientUnlocked ck to cfg"

definition ctrl_DisconnectClient :: "nat \<Rightarrow> int list \<Rightarrow> 'st ctrl_config \<Rightarrow> 'st ctrl_config res" where
  "ctrl_DisconnectClient ck from cfg = DisconnectClientUnlocked ck from cfg"

definition ctrl_ShutdownServer :: "int \<Rightarrow> 'st ctrl_config \<Rightarrow> 'st ctrl_config res" where
  "ctrl_ShutdownServer i cfg = ShutdownServer scRf i cfg"

definition ctrl_StartServer :: "(ShardCtrler \<Rightarrow> 'st service) \<Rightarrow> (unit Raft \<Rightarrow> 'st service) \<Rightarrow> int \<Rightarrow> int \<Rightarrow> (int \<Rightarrow> string) \<Rightarrow> int \<Rightarrow>
    'st ctrl_config \<Rightarrow> 'st ctrl_config option res" where
  "ctrl_StartServer scsvc rfsvc now rnd name i cfg =
    StartServer scRf (\<lambda>i ps. ShardCtrler_StartServer (vN cfg) i ps now rnd) scsvc rfsvc name i cfg"

definition ctrl_Leader :: "'st ctrl_config \<Rightarrow> (bool \<times> int) res" where
  "ctrl_Leader cfg =
    leaderLoop (\<lambda>i. rbind (go_nth (vServers cfg) i) (\<lambda>sc. case sc of
      None \<Rightarrow> Inr False
    | Some s \<Rightarrow> Inr (snd (GetState (scRf s))))) (indices 0 (vN cfg))"

definition ctrl_make_partition :: "'st ctrl_config \<Rightarrow> (int list \<times> int list) res" where
  "ctrl_make_partition cfg = rbind (ctrl_Leader cfg) (\<lambda>(ok, l). make_partition (vN cfg) l)"

definition ctrl_make_config :: "(ShardCtrler \<Rightarrow> 'st service) \<Rightarrow> (unit Raft \<Rightarrow> 'st service) \<Rightarrow> int \<Rightarrow> int \<Rightarrow> (int \<Rightarrow> int \<Rightarrow> string) \<Rightarrow>
    int \<Rightarrow> bool \<Rightarrow> 'st ctrl_config option res" where
  "ctrl_make_config scsvc rfsvc now rnd names n unreliable =
    startAll (\<lambda>i. ctrl_StartServer scsvc rfsvc now rnd (names i) i) unreliable (emptyService n)"

end
