(* ===== verification/ServiceHarnessNet.thy ===== *)
theory ServiceHarnessNet
  imports KvHarness CtrlHarness RaftHarnessNet
begin

text \<open>
  Facts about the harness of the services: the shuffle of the end points gives all permutations, the
  shape of the two sides that \<open>make_partition\<close> computes, and the invariant that every end point of a
  server or clerk leads to the server it was made for. The locale \<open>service_harness\<close> carries the
  invariant over all operations of a test; it is interpreted on the harness of the key/value
  servers and on that of the controllers.
\<close>

section \<open>Shuffling\<close>

text \<open>The random numbers that \<open>rand.Intn\<close> can give.\<close>

definition in_range :: "(int \<Rightarrow> int) \<Rightarrow> bool" where
  "in_range rnd \<longleftrightarrow> (\<forall>i \<ge> 0. 0 \<le> rnd i \<and> rnd i \<le> i)"

lemma swapAt_Inr:
  "swapAt i j sa = Inr sa' \<longleftrightarrow> 0 \<le> i \<and> i < len sa \<and> 0 \<le> j \<and> j < len sa \<and> sa' = sa[nat i := sa ! nat j, nat j := sa ! nat i]"
  by (auto simp: swapAt_def go_nth_def go_upd_def len_def rbind_eq_Inr)

lemma swaps_append:
  "for_each is (\<lambda>i sa. swapAt i (rnd i) sa) as = Inr bs \<Longrightarrow>
    for_each is (\<lambda>i sa. swapAt i (rnd i) sa) (as @ cs) = Inr (bs @ cs) \<and> mset bs = mset as"
proof (induction "is" arbitrary: as)
  case (Cons i "is")
  then obtain as' where as': "swapAt i (rnd i) as = Inr as'" "for_each is (\<lambda>i sa. swapAt i (rnd i) sa) as' = Inr bs"
    by (auto elim: rbind_ok_cases)
  from as'(1) have ij: "0 \<le> i" "nat i < length as" "0 \<le> rnd i" "nat (rnd i) < length as"
    and eq: "as' = as[nat i := as ! nat (rnd i), nat (rnd i) := as ! nat i]" by (auto simp: swapAt_Inr len_def)
  have "mset as' = mset as" unfolding eq using ij by (simp add: mset_swap)
  moreover have "swapAt i (rnd i) (as @ cs) = Inr (as' @ cs)"
    using ij unfolding swapAt_Inr eq by (auto simp: len_def nth_append list_update_append)
  ultimately show ?case using Cons.IH [OF as'(2)] by simp
qed simp

text \<open>The element after the others changes places with one of them.\<close>

lemma random_handles_snoc:
  assumes r: "in_range rnd" and z: "random_handles rnd xs = Inr zs"
  shows "random_handles rnd (xs @ [x]) =
    Inr ((zs @ [x])[length xs := (zs @ [x]) ! nat (rnd (len xs)), nat (rnd (len xs)) := x])"
proof -
  have l: "length zs = length xs" using swaps_append [OF z [unfolded random_handles_def]] by (metis size_mset)
  have "random_handles rnd (xs @ [x]) = swapAt (len xs) (rnd (len xs)) (zs @ [x])"
    using swaps_append [OF z [unfolded random_handles_def], of "[x]"]
    unfolding random_handles_def indices_snoc by (simp add: for_each_snoc)
  moreover have "0 \<le> rnd (len xs)" "rnd (len xs) \<le> len xs" using r by (simp_all add: in_range_def len_def)
  then have "swapAt (len xs) (rnd (len xs)) (zs @ [x]) =
      Inr ((zs @ [x])[length xs := (zs @ [x]) ! nat (rnd (len xs)), nat (rnd (len xs)) := x])"
    unfolding swapAt_Inr using l nth_append_length [of zs x "[]"] by (simp add: len_def)
  ultimately show ?thesis by simp
qed

lemma random_handles_mset:
  assumes "in_range rnd"
  shows "\<exists>zs. random_handles rnd xs = Inr zs \<and> mset zs = mset xs"
proof -
  have "\<exists>zs. random_handles rnd xs = Inr zs"
  proof (induction xs rule: rev_induct)
    case (snoc x xs)
    then obtain zs where "random_handles rnd xs = Inr zs" ..
    from random_handles_snoc [OF assms this] show ?case by blast
  qed (simp add: random_handles_def len_def)
  then show ?thesis using swaps_append unfolding random_handles_def by blast
qed

lemma random_handles_cong:
  "(\<And>i. 0 \<le> i \<Longrightarrow> i < len xs \<Longrightarrow> rnd i = rnd' i) \<Longrightarrow> random_handles rnd xs = random_handles rnd' xs"
  unfolding random_handles_def by (intro for_each_cong) auto

lemma random_handles_all:
  "mset ys = mset xs \<Longrightarrow> \<exists>rnd. in_range rnd \<and> random_handles rnd xs = Inr ys"
proof (induction xs arbitrary: ys rule: rev_induct)
  case Nil
  then show ?case by (intro exI [of _ "\<lambda>i. 0"]) (simp add: random_handles_def len_def in_range_def)
next
  case (snoc x xs)
  let ?n = "length xs"
  have "x \<in> set ys" using snoc.prems by (metis in_set_conv_decomp set_mset_mset)
  then obtain j where j: "j < length ys" "ys ! j = x" by (auto simp: in_set_conv_nth)
  have len: "length ys = Suc ?n" using snoc.prems by (metis length_append_singleton size_mset)
  let ?zs = "take ?n (ys[j := ys ! ?n])"
  have zs: "(?zs @ [x])[?n := (?zs @ [x]) ! j, j := x] = ys"
    using len j by (intro nth_equalityI) (auto simp: nth_list_update nth_append less_Suc_eq)
  have "mset (?zs @ [x]) = mset ys"
  proof -
    have "(?zs @ [x]) ! ?n = x" "j < length (?zs @ [x])" "?n < length (?zs @ [x])" using len j by (simp_all add: nth_append)
    then show ?thesis using mset_swap [of j "?zs @ [x]" ?n] unfolding zs by (simp only: zs)
  qed
  then have "mset ?zs = mset xs" using snoc.prems by simp
  then obtain rnd where rnd: "in_range rnd" "random_handles rnd xs = Inr ?zs" using snoc.IH by blast
  let ?r = "rnd(len xs := int j)"
  have "in_range ?r" using rnd(1) j(1) len by (auto simp: in_range_def len_def)
  moreover have "random_handles ?r xs = Inr ?zs" using rnd(2) random_handles_cong [of xs ?r rnd] by simp
  ultimately have "random_handles ?r (xs @ [x]) = Inr ys" using random_handles_snoc [of ?r xs ?zs x] zs by simp
  with \<open>in_range ?r\<close> show ?case by blast
qed

section \<open>The minority of the leader\<close>

text \<open>Both slices together are filled from the left with the servers other than \<open>l\<close>.\<close>

lemma partitionStep_other:
  assumes "i \<noteq> l" "j < length p1 + length p2"
  shows "\<exists>q1 q2. partitionStep l i (p1, p2, int j) = Inr (q1, q2, int (Suc j)) \<and> length q1 = length p1 \<and> length q2 = length p2 \<and>
    q1 @ q2 = (p1 @ p2)[j := i]"
proof (cases "j < length p1")
  case True
  then show ?thesis using assms(1) by (auto simp: partitionStep_def go_upd_def len_def list_update_append)
next
  case False
  then have "nat (int j - int (length p1)) = j - length p1" "j - length p1 < length p2" using assms(2) by linarith+
  with False show ?thesis using assms(1) by (auto simp: partitionStep_def go_upd_def len_def list_update_append)
qed

lemma partition_loop:
  "length done + length (filter (\<lambda>i. i \<noteq> l) is) \<le> length p1 + length p2 \<Longrightarrow> p1 @ p2 = done @ rest \<Longrightarrow>
    \<exists>q1 q2 j. for_each is (partitionStep l) (p1, p2, int (length done)) = Inr (q1, q2, j) \<and> length q1 = length p1 \<and> length q2 = length p2 \<and>
      q1 @ q2 = done @ filter (\<lambda>i. i \<noteq> l) is @ drop (length (filter (\<lambda>i. i \<noteq> l) is)) rest"
proof (induction "is" arbitrary: p1 p2 "done" rest)
  case (Cons i "is")
  show ?case
  proof (cases "i = l")
    case True
    then show ?thesis using Cons by (auto simp: partitionStep_def)
  next
    case False
    let ?d = "done @ [i]"
    have lt: "length done < length p1 + length p2" using Cons.prems(1) False by simp
    obtain q1 q2 where q: "partitionStep l i (p1, p2, int (length done)) = Inr (q1, q2, int (Suc (length done)))"
      "length q1 = length p1" "length q2 = length p2" "q1 @ q2 = (p1 @ p2)[length done := i]"
      using partitionStep_other [OF False lt] by blast
    have "rest \<noteq> []" using lt Cons.prems(2) by (metis append_Nil2 length_append nat_less_le)
    then have "q1 @ q2 = ?d @ tl rest" unfolding q(4) Cons.prems(2) by (cases rest) (simp_all add: list_update_append)
    from Cons.IH [OF _ this] Cons.prems(1) q False show ?thesis by (simp add: drop_Suc)
  qed
qed simp

lemma make_partition_shape:
  assumes n: "2 \<le> n" and l: "0 \<le> l" "l < n"
  shows "\<exists>p1 p2. make_partition n l = Inr (p1, p2) \<and> len p1 = n div 2 + 1 \<and> len p2 = n div 2 \<and>
    p1 @ p2 = filter (\<lambda>i. i \<noteq> l) (indices 0 n) @ (if even n then [0] else []) @ [l]"
proof -
  let ?os = "filter (\<lambda>i. i \<noteq> l) (indices 0 n)"
  let ?z1 = "replicate (nat (n div 2 + 1)) (0 :: int)" and ?z2 = "replicate (nat (n div 2)) (0 :: int)"
  have "length ?os = length (indices 0 n) - 1"
  proof -
    have "distinct (indices 0 n)" by (simp add: indices_def distinct_map inj_on_def)
    then have "length ?os = card ({0..<n} - {l})" using distinct_card [of ?os] by (simp add: set_diff_eq)
    then show ?thesis using l by simp
  qed
  then have os: "int (length ?os) = n - 1" using n by simp
  have z: "?z1 @ ?z2 = replicate (nat (n div 2 + 1) + nat (n div 2)) 0" by (simp add: replicate_add)
  have "length ?os \<le> length ?z1 + length ?z2" using os n by simp
  with partition_loop [of "[]" l "indices 0 n" ?z1 ?z2 "?z1 @ ?z2"] obtain q1 q2 j where
    q: "for_each (indices 0 n) (partitionStep l) (?z1, ?z2, 0) = Inr (q1, q2, j)" "length q1 = nat (n div 2 + 1)" "length q2 = nat (n div 2)"
    "q1 @ q2 = ?os @ drop (length ?os) (?z1 @ ?z2)" by auto
  have "q2 \<noteq> []" using q(3) n by auto
  then obtain r2 y where r2: "q2 = r2 @ [y]" by (metis append_butlast_last_id)
  have "make_partition n l = Inr (q1, r2 @ [l])"
    using q(1) unfolding make_partition_def by (simp add: r2 go_upd_def len_def)
  moreover have "drop (length ?os) (?z1 @ ?z2) = (if even n then [0] else []) @ [0]"
  proof -
    have "nat (n div 2 + 1) + nat (n div 2) - length ?os = (if even n then 2 else 1)" using os n by (auto elim!: evenE oddE)
    then show ?thesis unfolding z drop_replicate by (auto simp: numeral_2_eq_2)
  qed
  then have "q1 @ r2 @ [y] = (?os @ (if even n then [0] else [])) @ [0]" using q(4) r2 by simp
  then have "q1 @ r2 = ?os @ (if even n then [0] else [])" by (metis append_assoc butlast_snoc)
  ultimately show ?thesis using q(2,3) r2 n by (intro exI [of _ q1] exI [of _ "r2 @ [l]"]) (simp add: len_def)
qed

text \<open>For an odd number of servers the two slices are a partition, with the leader on the smaller side.\<close>

lemma make_partition_odd:
  assumes "3 \<le> n" "odd n" "0 \<le> l" "l < n"
  shows "\<exists>p1 p2. make_partition n l = Inr (p1, p2) \<and> set p1 \<inter> set p2 = {} \<and> set p1 \<union> set p2 = {0..<n} \<and> distinct (p1 @ p2) \<and>
    l \<in> set p2 \<and> 2 * len p2 < n"
proof -
  obtain p1 p2 where p: "make_partition n l = Inr (p1, p2)" "len p2 = n div 2" "len p1 = n div 2 + 1"
    "p1 @ p2 = filter (\<lambda>i. i \<noteq> l) (indices 0 n) @ [l]" using make_partition_shape [of n l] assms by auto
  have "distinct (indices 0 n)" by (simp add: indices_def distinct_map inj_on_def)
  then have d: "distinct (p1 @ p2)" unfolding p(4) by simp
  have s: "set p1 \<union> set p2 = {0..<n}"
  proof -
    have "set p1 \<union> set p2 = {i \<in> {0..<n}. i \<noteq> l} \<union> {l}" using arg_cong [OF p(4), of set] unfolding set_append set_filter set_indices by simp
    also have "\<dots> = {0..<n}" using assms(3,4) by auto
    finally show ?thesis .
  qed
  have "p2 \<noteq> []" using p(2) assms(1) by (auto simp: len_def)
  then have "last p2 = l" using arg_cong [OF p(4), of last] by simp
  then have "l \<in> set p2" using \<open>p2 \<noteq> []\<close> last_in_set by blast
  moreover have "2 * len p2 < n" using p(2) assms(2) by presburger
  moreover have "set p1 \<inter> set p2 = {}" using d by simp
  ultimately show ?thesis using p(1) d s by blast
qed

section \<open>End points and where they lead\<close>

text \<open>A loop that makes end points, on the network alone.\<close>

lemma makeConnect_loop:
  assumes "for_each js (\<lambda>j rn. rbind (MakeEnd rn (nm j)) (\<lambda>rn. Inr (Connect rn (nm j) (tgt j)))) net = Inr net'"
  shows "(\<forall>j \<in> set js. \<not> ends net (nm j) \<and> ends net' (nm j) \<and> connectedTo net' (nm j) = Some (tgt j)) \<and>
    (\<forall>i \<in> set js. \<forall>j \<in> set js. nm i = nm j \<longrightarrow> i = j) \<and>
    (\<forall>x. ends net x \<longrightarrow> ends net' x \<and> connectedTo net' x = connectedTo net x) \<and> servers net' = servers net"
  using assms
proof (induction js arbitrary: net)
  case (Cons j js)
  let ?f = "\<lambda>j rn. rbind (MakeEnd rn (nm j)) (\<lambda>rn. Inr (Connect rn (nm j) (tgt j)))"
  from Cons.prems obtain net1 where n1: "?f j net = Inr net1" "for_each js ?f net1 = Inr net'" by (auto elim: rbind_ok_cases)
  have one: "\<not> ends net (nm j)" "ends net1 = (ends net)(nm j := True)" "servers net1 = servers net"
    "connectedTo net1 x = (if x = nm j then Some (tgt j) else connectedTo net x)" for x
    using n1(1) by (auto simp: MakeEnd_def Connect_def connectedTo_def rbind_eq_Inr split: if_splits)
  note ih = Cons.IH [OF n1(2)]
  have new: "nm k \<noteq> nm j \<and> \<not> ends net (nm k)" if "k \<in> set js" for k
  proof -
    have "\<not> ends net1 (nm k)" using ih that by blast
    then show ?thesis unfolding one(2) by (auto split: if_splits)
  qed
  have "ends net' (nm j) \<and> connectedTo net' (nm j) = Some (tgt j)" using ih one(2,4) by auto
  moreover have "ends net' x \<and> connectedTo net' x = connectedTo net x" if "ends net x" for x
    using ih one that by (metis fun_upd_other)
  moreover have "\<forall>i \<in> set js. \<forall>k \<in> set js. nm i = nm k \<longrightarrow> i = k" using ih by blast
  ultimately show ?case using ih new one(1,3) by (auto dest: new)
qed simp

lemma makeNamedEnds_net:
  assumes "makeNamedEnds name cfg = Inr cfg'"
  shows "\<exists>net'. cfg' = cfg\<lparr>vNet := net'\<rparr> \<and>
    for_each (indices 0 (vN cfg)) (\<lambda>j rn. rbind (MakeEnd rn (EndName (name j))) (\<lambda>rn. Inr (Connect rn (EndName (name j)) (ServerName j)))) (vNet cfg) = Inr net'"
proof -
  have "for_each js (\<lambda>j s. rbind (MakeEnd (vNet s) (EndName (name j))) (\<lambda>rn. Inr (s\<lparr>vNet := Connect rn (EndName (name j)) (ServerName j)\<rparr>))) cfg = Inr cfg' \<Longrightarrow>
      \<exists>net'. cfg' = cfg\<lparr>vNet := net'\<rparr> \<and>
      for_each js (\<lambda>j rn. rbind (MakeEnd rn (EndName (name j))) (\<lambda>rn. Inr (Connect rn (EndName (name j)) (ServerName j)))) (vNet cfg) = Inr net'" for js
  proof (induction js arbitrary: cfg)
    case Nil
    then show ?case by (intro exI [of _ "vNet cfg"]) simp
  next
    case (Cons j js)
    then obtain rn where rn: "MakeEnd (vNet cfg) (EndName (name j)) = Inr rn" by (auto simp: rbind_eq_Inr)
    with Cons.IH [of "cfg\<lparr>vNet := Connect rn (EndName (name j)) (ServerName j)\<rparr>"] Cons.prems show ?case by auto
  qed
  from this [OF assms [unfolded makeNamedEnds_def]] show ?thesis .
qed

text \<open>\<open>e\<close> is the name of the present end point from server \<open>i\<close> to server \<open>j\<close>, or from a clerk.\<close>

definition vlink :: "('c, 'sv, 'st, 'm) service_config_scheme \<Rightarrow> int \<Rightarrow> int \<Rightarrow> string \<Rightarrow> bool" where
  "vlink cfg i j e \<longleftrightarrow> (\<exists>es. go_nth (vEndnames cfg) i = Inr es \<and> go_nth es j = Inr e)"

definition clink :: "('c, 'sv, 'st, 'm) service_config_scheme \<Rightarrow> nat \<Rightarrow> int \<Rightarrow> string \<Rightarrow> bool" where
  "clink cfg ck j e \<longleftrightarrow> (\<exists>es. vClerks cfg ck = Some es \<and> go_nth es j = Inr e)"

definition leadsTo :: "('c, 'sv, 'st, 'm) service_config_scheme \<Rightarrow> string \<Rightarrow> int \<Rightarrow> bool" where
  "leadsTo cfg e j \<longleftrightarrow> ends (vNet cfg) (EndName e) \<and> connectedTo (vNet cfg) (EndName e) = Some (ServerName j)"

definition svc_inv :: "('c, 'sv, 'st, 'm) service_config_scheme \<Rightarrow> bool" where
  "svc_inv cfg \<longleftrightarrow> length (vEndnames cfg) = nat (vN cfg) \<and>
    (\<forall>es \<in> set (vEndnames cfg). es = [] \<or> length es = nat (vN cfg)) \<and>
    (\<forall>i j i' j' e. vlink cfg i j e \<longrightarrow> vlink cfg i' j' e \<longrightarrow> i = i' \<and> j = j') \<and>
    (\<forall>i j e. vlink cfg i j e \<longrightarrow> leadsTo cfg e j) \<and>
    (\<forall>ck j e. clink cfg ck j e \<longrightarrow> leadsTo cfg e j \<and> (\<forall>k l. \<not> vlink cfg k l e))"

definition sameWires :: "('c, 'sv, 'st, 'm) service_config_scheme \<Rightarrow> ('c, 'sv, 'st, 'm) service_config_scheme \<Rightarrow> bool" where
  "sameWires cfg cfg' \<longleftrightarrow> vN cfg' = vN cfg \<and> vEndnames cfg' = vEndnames cfg \<and> vClerks cfg' = vClerks cfg \<and>
    ends (vNet cfg') = ends (vNet cfg) \<and> connections (vNet cfg') = connections (vNet cfg)"

lemma svc_inv_cong:
  assumes "svc_inv cfg" "sameWires cfg cfg'"
  shows "svc_inv cfg'"
proof -
  have eqs: "vlink cfg' = vlink cfg" "clink cfg' = clink cfg" "leadsTo cfg' = leadsTo cfg" "vN cfg' = vN cfg" "vEndnames cfg' = vEndnames cfg"
    using assms(2) by (simp_all add: sameWires_def vlink_def clink_def leadsTo_def connectedTo_def fun_eq_iff)
  show ?thesis using assms(1) unfolding svc_inv_def eqs .
qed

lemma sameWires_refl [simp]: "sameWires cfg cfg"
  by (simp add: sameWires_def)

lemma sameWires_trans: "sameWires a b \<Longrightarrow> sameWires b c \<Longrightarrow> sameWires a c"
  by (simp add: sameWires_def)

text \<open>Switching end points on and off leaves the wires as they are.\<close>

definition onlyNet :: "('c, 'sv, 'st, 'm) service_config_scheme \<Rightarrow> ('c, 'sv, 'st, 'm) service_config_scheme \<Rightarrow> bool" where
  "onlyNet cfg cfg' \<longleftrightarrow> (\<exists>net. cfg' = cfg\<lparr>vNet := net\<rparr> \<and> ends net = ends (vNet cfg) \<and> connections net = connections (vNet cfg) \<and>
    servers net = servers (vNet cfg))"

lemma onlyNet_refl [simp]: "onlyNet cfg cfg"
  unfolding onlyNet_def by (intro exI [of _ "vNet cfg"]) simp

lemma onlyNet_trans: "onlyNet a b \<Longrightarrow> onlyNet b c \<Longrightarrow> onlyNet a c"
  by (auto simp: onlyNet_def)

lemma onlyNet_wires: "onlyNet a b \<Longrightarrow> sameWires a b"
  by (auto simp: onlyNet_def sameWires_def)

lemma onlyNet_Enable: "onlyNet cfg (cfg\<lparr>vNet := Enable (vNet cfg) e b\<rparr>)"
  unfolding onlyNet_def by (intro exI [of _ "Enable (vNet cfg) e b"]) (simp add: Enable_def)

lemma post_for_each_only:
  assumes "\<And>i s. post (onlyNet s) (f i s)"
  shows "post (onlyNet cfg) (for_each is f cfg)"
  unfolding post_def
proof (intro allI impI)
  fix cfg' assume "for_each is f cfg = Inr cfg'"
  then show "onlyNet cfg cfg'"
    by (rule for_each_inv) (auto intro: onlyNet_trans postD [OF _ assms])
qed

lemma post_rbind_only: "post (onlyNet cfg) m \<Longrightarrow> (\<And>s. post (onlyNet s) (f s)) \<Longrightarrow> post (onlyNet cfg) (rbind m f)"
  by (auto simp: post_def rbind_eq_Inr intro: onlyNet_trans)

lemma only_switchEnd: "post (onlyNet cfg) (switchEnd i j b cfg)"
  unfolding switchEnd_def by (intro post_rbind post_Inr onlyNet_Enable)

lemma only_connectUnlocked: "post (onlyNet cfg) (connectUnlocked i to cfg)"
  unfolding connectUnlocked_def
  by (intro post_rbind_only post_for_each_only post_rbind only_switchEnd)

lemma only_disconnectUnlocked: "post (onlyNet cfg) (disconnectUnlocked i from cfg)"
  unfolding disconnectUnlocked_def
  by (intro post_rbind_only post_for_each_only post_rbind post_if post_Inr only_switchEnd onlyNet_refl)

lemma only_ConnectAll: "post (onlyNet cfg) (ConnectAll cfg)"
  unfolding ConnectAll_def by (intro post_for_each_only only_connectUnlocked)

lemma only_partition_servers: "post (onlyNet cfg) (partition_servers p1 p2 cfg)"
  unfolding partition_servers_def
  by (intro post_rbind_only [where f = "for_each _ _"] post_for_each_only post_rbind [where m = "go_nth _ _"])
    (intro post_rbind_only only_disconnectUnlocked only_connectUnlocked)+

lemma only_switchClient: "post (onlyNet cfg) (switchClient ck to b cfg)"
  unfolding switchClient_def Let_def by (intro post_for_each_only post_rbind post_Inr onlyNet_Enable)

lemmas only_rules = only_connectUnlocked only_disconnectUnlocked only_ConnectAll only_partition_servers only_switchClient

lemma wires_ShutdownServer: "post (sameWires cfg) (ShutdownServer rfOf i cfg)"
  unfolding ShutdownServer_def Let_def
  by (intro post_rbind_result [OF only_disconnectUnlocked] post_rbind post_Inr) (auto simp: onlyNet_def sameWires_def DeleteServer_def)

section \<open>Every operation keeps the wires right\<close>

lemma svc_invD:
  assumes "svc_inv cfg"
  shows "length (vEndnames cfg) = nat (vN cfg)" "es \<in> set (vEndnames cfg) \<Longrightarrow> es = [] \<or> length es = nat (vN cfg)"
    and "vlink cfg i j e \<Longrightarrow> vlink cfg i' j' e \<Longrightarrow> i = i' \<and> j = j'"
    and "vlink cfg i j e \<Longrightarrow> leadsTo cfg e j" "clink cfg ck j e \<Longrightarrow> leadsTo cfg e j" "clink cfg ck j e \<Longrightarrow> \<not> vlink cfg i' j' e"
  using assms unfolding svc_inv_def by blast+

text \<open>What a new set of end points does, for a server and for a clerk.\<close>

lemma makeNamedEnds_new:
  assumes "makeNamedEnds name cfg = Inr cfg'"
  shows "\<exists>net'. cfg' = cfg\<lparr>vNet := net'\<rparr>"
    and "0 \<le> j \<Longrightarrow> j < vN cfg \<Longrightarrow> leadsTo cfg' (name j) j \<and> \<not> ends (vNet cfg) (EndName (name j))"
    and "0 \<le> j \<Longrightarrow> j < vN cfg \<Longrightarrow> 0 \<le> k \<Longrightarrow> k < vN cfg \<Longrightarrow> name j = name k \<Longrightarrow> j = k"
    and "leadsTo cfg e l \<Longrightarrow> leadsTo cfg' e l" "servers (vNet cfg') = servers (vNet cfg)"
proof -
  from makeNamedEnds_net [OF assms] obtain net' where n: "cfg' = cfg\<lparr>vNet := net'\<rparr>"
    "for_each (indices 0 (vN cfg)) (\<lambda>j rn. rbind (MakeEnd rn (EndName (name j))) (\<lambda>rn. Inr (Connect rn (EndName (name j)) (ServerName j)))) (vNet cfg) = Inr net'"
    by blast
  note loop = makeConnect_loop [OF n(2)]
  have v: "vNet cfg' = net'" by (simp add: n(1))
  show "\<exists>net'. cfg' = cfg\<lparr>vNet := net'\<rparr>" using n(1) by blast
  show "0 \<le> j \<Longrightarrow> j < vN cfg \<Longrightarrow> leadsTo cfg' (name j) j \<and> \<not> ends (vNet cfg) (EndName (name j))"
    using loop unfolding leadsTo_def v set_indices by auto
  show "0 \<le> j \<Longrightarrow> j < vN cfg \<Longrightarrow> 0 \<le> k \<Longrightarrow> k < vN cfg \<Longrightarrow> name j = name k \<Longrightarrow> j = k"
    using loop unfolding set_indices by auto
  show "leadsTo cfg e l \<Longrightarrow> leadsTo cfg' e l" using loop unfolding leadsTo_def v by auto
  show "servers (vNet cfg') = servers (vNet cfg)" using loop v by simp
qed

lemma go_nth_map_indices: "go_nth (map name (indices 0 n)) j = Inr e \<longleftrightarrow> 0 \<le> j \<and> j < n \<and> e = name j"
  by (auto simp: go_nth_def indices_def)

lemma svc_inv_newRow:
  assumes inv: "svc_inv cfg" and i: "go_upd (vEndnames cfg) i (map name (indices 0 (vN cfg))) = Inr ens"
    and m: "makeNamedEnds name (cfg\<lparr>vEndnames := ens\<rparr>) = Inr cfg'"
  shows "svc_inv cfg'"
proof -
  have in_i: "0 \<le> i" "nat i < length (vEndnames cfg)" and ens: "ens = (vEndnames cfg)[nat i := map name (indices 0 (vN cfg))]"
    using go_upd_Inr [OF i] by auto
  note new = makeNamedEnds_new [OF m, simplified]
  obtain net' where c': "cfg' = cfg\<lparr>vEndnames := ens, vNet := net'\<rparr>" using new(1) by auto
  have fields: "vN cfg' = vN cfg" "vEndnames cfg' = ens" "clink cfg' = clink cfg" by (simp_all add: c' clink_def fun_eq_iff)
  have row: "go_nth ens k = (if k = i then Inr (map name (indices 0 (vN cfg))) else go_nth (vEndnames cfg) k)" for k
    using in_i by (auto simp: go_nth_def ens)
  have own: "vlink cfg' i j e \<longleftrightarrow> 0 \<le> j \<and> j < vN cfg \<and> e = name j" for j e
    by (auto simp: vlink_def fields(2) row go_nth_map_indices)
  have other: "vlink cfg' k j e \<longleftrightarrow> vlink cfg k j e" if "k \<noteq> i" for k j e using that by (simp add: vlink_def fields(2) row)
  have kept: "leadsTo cfg' e j" if "leadsTo cfg e j" for e j using new(4) that by (simp add: leadsTo_def)
  have fresh: "leadsTo cfg' e j \<and> \<not> ends (vNet cfg) (EndName e)" if "vlink cfg' i j e" for j e using new(2) that own by auto
  have old: "ends (vNet cfg) (EndName e)" if "vlink cfg k l e \<or> clink cfg ck l e" for k l e ck
    using that svc_invD(4,5) [OF inv] by (auto simp: leadsTo_def)
  show ?thesis unfolding svc_inv_def fields
  proof (intro conjI allI ballI impI)
    show "length ens = nat (vN cfg)" using svc_invD(1) [OF inv] by (simp add: ens)
    show "es = [] \<or> length es = nat (vN cfg)" if "es \<in> set ens" for es
    proof -
      have "es = map name (indices 0 (vN cfg)) \<or> es \<in> set (vEndnames cfg)"
        using that set_update_subset_insert [of "vEndnames cfg" "nat i" "map name (indices 0 (vN cfg))"] unfolding ens by blast
      then show ?thesis using svc_invD(2) [OF inv, of es] by auto
    qed
    show "leadsTo cfg' e j" if "vlink cfg' k j e" for k j e using that fresh other kept svc_invD(4) [OF inv] by metis
    show "leadsTo cfg' e j" if "clink cfg ck j e" for ck j e using that kept svc_invD(5) [OF inv] by blast
    show "\<not> vlink cfg' k l e" if "clink cfg ck j e" for ck j e k l using that fresh old other svc_invD(6) [OF inv] by metis
    fix k j k' j' e assume l: "vlink cfg' k j e" "vlink cfg' k' j' e"
    have "k = i \<longleftrightarrow> k' = i" using l fresh old other by metis
    then show "k = k'" "j = j'" using l new(3) own other svc_invD(3) [OF inv] by metis+
  qed
qed

lemma StartServer_parts:
  assumes "StartServer rfOf mk svc rfsvc name i cfg = Inr (Some cfg')"
  obtains ens cfg1 where "go_upd (vEndnames cfg) i (map name (indices 0 (vN cfg))) = Inr ens"
    "makeNamedEnds name (cfg\<lparr>vEndnames := ens\<rparr>) = Inr cfg1" "sameWires cfg1 cfg'"
  using assms unfolding StartServer_def
  by (auto simp: rbind_eq_Inr Let_def sameWires_def AddServer_def split: option.splits)

lemma svc_inv_StartServer: "svc_inv cfg \<Longrightarrow> StartServer rfOf mk svc rfsvc name i cfg = Inr (Some cfg') \<Longrightarrow> svc_inv cfg'"
  by (erule StartServer_parts) (blast intro: svc_inv_newRow svc_inv_cong)

lemma svc_inv_makeClient:
  assumes inv: "svc_inv cfg" and m: "makeClient ck name rnd to cfg = Inr (cfg', handles)"
  shows "svc_inv cfg'"
proof -
  let ?es = "map name (indices 0 (vN cfg))"
  from m obtain cfg1 where c1: "makeNamedEnds name cfg = Inr cfg1"
    "switchClient ck to True (cfg1\<lparr>vClerks := (vClerks cfg1)(ck \<mapsto> ?es), vNextClientId := vNextClientId cfg1 + 1\<rparr>) = Inr cfg'"
    by (auto simp: makeClient_def rbind_eq_Inr Let_def ConnectClientUnlocked_def)
  let ?c2 = "cfg1\<lparr>vClerks := (vClerks cfg1)(ck \<mapsto> ?es), vNextClientId := vNextClientId cfg1 + 1\<rparr>"
  note new = makeNamedEnds_new [OF c1(1)]
  have same: "vN ?c2 = vN cfg" "vEndnames ?c2 = vEndnames cfg" "vlink ?c2 = vlink cfg" "leadsTo ?c2 = leadsTo cfg1"
    using new(1) by (auto simp: vlink_def leadsTo_def fun_eq_iff)
  have cl: "clink ?c2 c j e \<longleftrightarrow> (if c = ck then 0 \<le> j \<and> j < vN cfg \<and> e = name j else clink cfg c j e)" for c j e
    using new(1) by (auto simp: clink_def go_nth_map_indices)
  have "svc_inv ?c2" unfolding svc_inv_def same
  proof (intro conjI allI ballI impI)
    show "length (vEndnames cfg) = nat (vN cfg)" by (rule svc_invD(1) [OF inv])
    show "es = [] \<or> length es = nat (vN cfg)" if "es \<in> set (vEndnames cfg)" for es by (rule svc_invD(2) [OF inv that])
    show "i = i'" "j = j'" if "vlink cfg i j e" "vlink cfg i' j' e" for i i' j j' e using svc_invD(3) [OF inv that] by blast+
    show "leadsTo cfg1 e j" if "vlink cfg i j e" for i j e using new(4) svc_invD(4) [OF inv that] by blast
    show "leadsTo cfg1 e j" if "clink ?c2 c j e" for c j e using that cl new(2,4) svc_invD(5) [OF inv] by metis
    show "\<not> vlink cfg k l e" if "clink ?c2 c j e" for c j e k l
      using that cl new(2) svc_invD(4,6) [OF inv] unfolding leadsTo_def by metis
  qed
  then show ?thesis using svc_inv_cong onlyNet_wires postD [OF c1(2) only_switchClient] by blast
qed

section \<open>Runs of a harness\<close>

text \<open>
  The operations of a test. \<open>SServe\<close> is what the servers do by themselves: they change, the harness
  does not.
\<close>

datatype 'sv svcOp =
    SConnect int "int list"
  | SDisconnect int "int list"
  | SConnectAll
  | SPartition "int list" "int list"
  | SMakeClient nat "int \<Rightarrow> string" "int \<Rightarrow> int" "int list"
  | SDeleteClient nat
  | SConnectClient nat "int list"
  | SDisconnectClient nat "int list"
  | SShutdown int
  | SStart int int "int \<Rightarrow> string" int
  | SReliable bool
  | SServe "'sv option list"

fun svcExec :: "('sv \<Rightarrow> 'c Raft) \<Rightarrow>
    (int \<Rightarrow> int \<Rightarrow> (int \<Rightarrow> string) \<Rightarrow> int \<Rightarrow> ('c, 'sv, 'st, 'm) service_config_scheme \<Rightarrow> ('c, 'sv, 'st, 'm) service_config_scheme option res) \<Rightarrow>
    'sv svcOp \<Rightarrow> ('c, 'sv, 'st, 'm) service_config_scheme \<Rightarrow> ('c, 'sv, 'st, 'm) service_config_scheme option res" where
  "svcExec rfOf start (SConnect i to) cfg = rbind (connectUnlocked i to cfg) (\<lambda>c. Inr (Some c))"
| "svcExec rfOf start (SDisconnect i from) cfg = rbind (disconnectUnlocked i from cfg) (\<lambda>c. Inr (Some c))"
| "svcExec rfOf start SConnectAll cfg = rbind (ConnectAll cfg) (\<lambda>c. Inr (Some c))"
| "svcExec rfOf start (SPartition p1 p2) cfg = rbind (partition_servers p1 p2 cfg) (\<lambda>c. Inr (Some c))"
| "svcExec rfOf start (SMakeClient ck name rnd to) cfg = rbind (makeClient ck name rnd to cfg) (\<lambda>(c, handles). Inr (Some c))"
| "svcExec rfOf start (SDeleteClient ck) cfg = Inr (Some (deleteClient ck cfg))"
| "svcExec rfOf start (SConnectClient ck to) cfg = rbind (ConnectClientUnlocked ck to cfg) (\<lambda>c. Inr (Some c))"
| "svcExec rfOf start (SDisconnectClient ck from) cfg = rbind (DisconnectClientUnlocked ck from cfg) (\<lambda>c. Inr (Some c))"
| "svcExec rfOf start (SShutdown i) cfg = rbind (ShutdownServer rfOf i cfg) (\<lambda>c. Inr (Some c))"
| "svcExec rfOf start (SStart now rnd name i) cfg = start now rnd name i cfg"
| "svcExec rfOf start (SReliable b) cfg = Inr (Some (cfg\<lparr>vNet := Reliable (vNet cfg) b\<rparr>))"
| "svcExec rfOf start (SServe vs) cfg = Inr (Some (cfg\<lparr>vServers := vs\<rparr>))"

fun svcRun :: "('sv \<Rightarrow> 'c Raft) \<Rightarrow>
    (int \<Rightarrow> int \<Rightarrow> (int \<Rightarrow> string) \<Rightarrow> int \<Rightarrow> ('c, 'sv, 'st, 'm) service_config_scheme \<Rightarrow> ('c, 'sv, 'st, 'm) service_config_scheme option res) \<Rightarrow>
    'sv svcOp list \<Rightarrow> ('c, 'sv, 'st, 'm) service_config_scheme \<Rightarrow> ('c, 'sv, 'st, 'm) service_config_scheme option res" where
  "svcRun rfOf start [] cfg = Inr (Some cfg)"
| "svcRun rfOf start (op # ops) cfg =
    rbind (svcExec rfOf start op cfg) (\<lambda>r. case r of None \<Rightarrow> Inr None | Some cfg' \<Rightarrow> svcRun rfOf start ops cfg')"

definition svc_init :: "('c, 'sv, 'st, 'm) service_config_scheme \<Rightarrow> bool" where
  "svc_init cfg \<longleftrightarrow> vEndnames cfg = replicate (nat (vN cfg)) [] \<and> vNet cfg = MakeNetwork \<and> vClerks cfg = Map.empty"

lemma svc_inv_init: "svc_init cfg \<Longrightarrow> svc_inv cfg"
  by (auto simp: svc_init_def svc_inv_def vlink_def clink_def go_nth_def split: if_splits)

lemma svc_inv_delete: "svc_inv cfg \<Longrightarrow> svc_inv (deleteClient ck cfg)"
  unfolding svc_inv_def deleteClient_def by (auto simp: vlink_def clink_def leadsTo_def split: if_splits)

text \<open>
  What a service has to provide for its harness: its servers are started by \<open>StartServer\<close>. Then all
  runs keep the invariant.
\<close>

locale service_harness =
  fixes rfOf :: "'sv \<Rightarrow> 'c Raft"
    and start :: "int \<Rightarrow> int \<Rightarrow> (int \<Rightarrow> string) \<Rightarrow> int \<Rightarrow> ('c, 'sv, 'st, 'm) service_config_scheme \<Rightarrow> ('c, 'sv, 'st, 'm) service_config_scheme option res"
  assumes start_is: "\<exists>mk svc rfsvc. start now rnd name i cfg = StartServer rfOf mk svc rfsvc name i cfg"
begin

lemma svc_inv_exec:
  assumes "svc_inv cfg" "svcExec rfOf start op cfg = Inr (Some cfg')"
  shows "svc_inv cfg'"
proof (cases op)
  case (SMakeClient ck name rnd to)
  then show ?thesis using assms by (auto simp: rbind_eq_Inr intro: svc_inv_makeClient)
next
  case (SStart now rnd name i)
  then show ?thesis using assms start_is svc_inv_StartServer by (metis svcExec.simps(10))
next
  case (SReliable b)
  then show ?thesis using assms by (auto simp: sameWires_def Reliable_def elim!: svc_inv_cong)
next
  case (SServe vs)
  then show ?thesis using assms by (auto simp: sameWires_def elim!: svc_inv_cong)
next
  case (SDeleteClient ck)
  then show ?thesis using assms svc_inv_delete by auto
qed (use assms in \<open>auto simp: rbind_eq_Inr ConnectClientUnlocked_def DisconnectClientUnlocked_def
    intro: svc_inv_cong onlyNet_wires postD [OF _ only_connectUnlocked] postD [OF _ only_disconnectUnlocked] postD [OF _ only_ConnectAll]
      postD [OF _ only_partition_servers] postD [OF _ only_switchClient] postD [OF _ wires_ShutdownServer]\<close>)

end

sublocale service_harness \<subseteq> runs: transition_system svc_init "\<lambda>cfg cfg'. \<exists>op. svcExec rfOf start op cfg = Inr (Some cfg')" svc_inv
  by unfold_locales (auto intro: svc_inv_init svc_inv_exec)

context service_harness
begin

lemma run_reach:
  "svcRun rfOf start ops cfg = Inr (Some cfg') \<Longrightarrow> reach svc_init (\<lambda>cfg cfg'. \<exists>op. svcExec rfOf start op cfg = Inr (Some cfg')) cfg \<Longrightarrow>
    reach svc_init (\<lambda>cfg cfg'. \<exists>op. svcExec rfOf start op cfg = Inr (Some cfg')) cfg'"
proof (induction ops arbitrary: cfg)
  case (Cons op ops)
  then obtain c where "svcExec rfOf start op cfg = Inr (Some c)" "svcRun rfOf start ops c = Inr (Some cfg')"
    by (auto simp: rbind_eq_Inr split: option.splits)
  with Cons show ?case by (blast intro: reach_step)
qed simp

lemma run_inv: "svc_init cfg \<Longrightarrow> svcRun rfOf start ops cfg = Inr (Some cfg') \<Longrightarrow> svc_inv cfg'"
  by (blast intro: runs.inv_reach run_reach reach_init)

end

interpretation kvh: service_harness kvRf "kv_StartServer kvsvc rfsvc" for kvsvc rfsvc
  by unfold_locales (auto simp: kv_StartServer_def)

interpretation ctrlh: service_harness scRf "ctrl_StartServer scsvc rfsvc" for scsvc rfsvc
  by unfold_locales (auto simp: ctrl_StartServer_def)

end
