(* ===== verification/ServicePartition.thy ===== *)
theory ServicePartition
  imports ServiceHarnessNet
begin

text \<open>
  What \<open>partition\<close> does to the network, exactly: which end points are enabled and which are not. The
  property puts it together with \<open>make_config\<close>, \<open>Leader\<close> and \<open>make_partition\<close>.
\<close>

section \<open>What a partition does\<close>

text \<open>In \<open>net'\<close> the end points in \<open>E\<close> are enabled, of the others those in \<open>D\<close> disabled.\<close>

definition rewired :: "(netName, 'st) Network \<Rightarrow> (netName, 'st) Network \<Rightarrow> string set \<Rightarrow> string set \<Rightarrow> bool" where
  "rewired net net' D E \<longleftrightarrow> (\<forall>e. isEnabled net' (EndName e) \<longleftrightarrow> e \<in> E \<or> e \<notin> D \<and> isEnabled net (EndName e))"

lemma rewired_refl: "rewired net net {} {}"
  by (simp add: rewired_def)

lemma rewired_trans: "rewired net net1 D1 E1 \<Longrightarrow> rewired net1 net2 D2 E2 \<Longrightarrow> D2 \<inter> E1 = {} \<Longrightarrow> rewired net net2 (D1 \<union> D2) (E1 \<union> E2)"
  unfolding rewired_def by blast

definition namesBetween :: "('c, 'sv, 'st, 'm) service_config_scheme \<Rightarrow> int set \<Rightarrow> int set \<Rightarrow> string set" where
  "namesBetween cfg A B = {e. \<exists>a \<in> A. \<exists>b \<in> B. vlink cfg a b e \<or> vlink cfg b a e}"

definition allStarted :: "('c, 'sv, 'st, 'm) service_config_scheme \<Rightarrow> bool" where
  "allStarted cfg \<longleftrightarrow> svc_inv cfg \<and> [] \<notin> set (vEndnames cfg)"

lemma same_names [simp]: "vlink (cfg\<lparr>vNet := net\<rparr>) = vlink cfg" "namesBetween (cfg\<lparr>vNet := net\<rparr>) A B = namesBetween cfg A B"
  by (simp_all add: vlink_def namesBetween_def fun_eq_iff)

definition square :: "('c, 'sv, 'st, 'm) service_config_scheme \<Rightarrow> bool" where
  "square cfg \<longleftrightarrow> length (vEndnames cfg) = nat (vN cfg) \<and> (\<forall>es \<in> set (vEndnames cfg). length es = nat (vN cfg))"

lemma square_net [simp]: "square (cfg\<lparr>vNet := net\<rparr>) = square cfg"
  by (simp add: square_def)

lemma allStarted_square: "allStarted cfg \<Longrightarrow> square cfg"
  unfolding allStarted_def svc_inv_def square_def by metis

lemma square_go_nth:
  assumes "square cfg" "0 \<le> i" "i < vN cfg" "0 \<le> j" "j < vN cfg"
  shows "\<exists>es e. go_nth (vEndnames cfg) i = Inr es \<and> es \<noteq> [] \<and> go_nth es j = Inr e \<and> vlink cfg i j e"
proof -
  have i: "nat i < length (vEndnames cfg)" using assms by (simp add: square_def)
  then have "length (vEndnames cfg ! nat i) = nat (vN cfg)" using assms(1) by (simp add: square_def)
  then show ?thesis using i assms by (fastforce simp: vlink_def go_nth_def)
qed

lemma vlink_range:
  assumes "square cfg" "vlink cfg i j e"
  shows "i \<in> {0..<vN cfg} \<and> j \<in> {0..<vN cfg}"
proof -
  from assms(2) obtain es where es: "go_nth (vEndnames cfg) i = Inr es" "go_nth es j = Inr e" by (auto simp: vlink_def)
  then have "es \<in> set (vEndnames cfg)" using go_nth_Inr [OF es(1)] by (simp add: nat_less_iff)
  then have "length es = nat (vN cfg)" using assms(1) by (simp add: square_def)
  then show ?thesis using go_nth_Inr [OF es(1)] go_nth_Inr [OF es(2)] assms(1) by (auto simp: square_def split: if_splits)
qed

lemma switch_loop:
  assumes "square cfg" "\<forall>t \<in> set ts. 0 \<le> a t \<and> a t < vN cfg \<and> 0 \<le> b t \<and> b t < vN cfg"
  defines "S \<equiv> {e. \<exists>t \<in> set ts. vlink cfg (a t) (b t) e}"
  shows "\<exists>net. for_each ts (\<lambda>t. switchEnd (a t) (b t) v) cfg = Inr (cfg\<lparr>vNet := net\<rparr>) \<and>
    rewired (vNet cfg) net (if v then {} else S) (if v then S else {})"
  using assms(1,2) unfolding S_def
proof (induction ts arbitrary: cfg)
  case Nil
  then show ?case by (intro exI [of _ "vNet cfg"]) (simp add: rewired_refl)
next
  case (Cons t ts)
  then obtain es e where e: "go_nth (vEndnames cfg) (a t) = Inr es" "go_nth es (b t) = Inr e" using square_go_nth [of cfg "a t" "b t"] by auto
  let ?c1 = "cfg\<lparr>vNet := Enable (vNet cfg) (EndName e) v\<rparr>"
  have one: "switchEnd (a t) (b t) v cfg = Inr ?c1" using e by (simp add: switchEnd_def)
  have l: "vlink cfg (a t) (b t) x \<longleftrightarrow> x = e" for x using e by (auto simp: vlink_def)
  have "square ?c1" "\<forall>t \<in> set ts. 0 \<le> a t \<and> a t < vN ?c1 \<and> 0 \<le> b t \<and> b t < vN ?c1" using Cons.prems by simp_all
  from Cons.IH [OF this, unfolded same_names] obtain net where net: "for_each ts (\<lambda>t. switchEnd (a t) (b t) v) ?c1 = Inr (cfg\<lparr>vNet := net\<rparr>)"
    "rewired (vNet ?c1) net (if v then {} else {e. \<exists>t \<in> set ts. vlink cfg (a t) (b t) e}) (if v then {e. \<exists>t \<in> set ts. vlink cfg (a t) (b t) e} else {})"
    by auto
  have "rewired (vNet cfg) net (if v then {} else {e. \<exists>t \<in> set (t # ts). vlink cfg (a t) (b t) e}) (if v then {e. \<exists>t \<in> set (t # ts). vlink cfg (a t) (b t) e} else {})"
    using net(2) l unfolding rewired_def by auto
  with net(1) one show ?case by (intro exI [of _ net]) simp
qed

text \<open>Servers \<open>i\<close> and those listed.\<close>

definition valid_servers :: "('c, 'sv, 'st, 'm) service_config_scheme \<Rightarrow> int list \<Rightarrow> bool" where
  "valid_servers cfg xs \<longleftrightarrow> set xs \<subseteq> {0..<vN cfg} \<and> distinct xs"

lemma valid_servers_net [simp]: "valid_servers (cfg\<lparr>vNet := net\<rparr>) xs = valid_servers cfg xs"
  by (simp add: valid_servers_def)

lemma valid_servers_len: "valid_servers cfg xs \<Longrightarrow> length xs \<le> nat (vN cfg)"
  using card_mono [of "{0..<vN cfg}" "set xs"] by (auto simp: valid_servers_def distinct_card)

lemma both_loops:
  assumes sq: "square cfg" and i: "0 \<le> i" "i < vN cfg" and xs: "valid_servers cfg xs"
  shows "\<exists>net. rbind (for_each xs (\<lambda>t. switchEnd i t v) cfg) (for_each xs (\<lambda>t. switchEnd t i v)) = Inr (cfg\<lparr>vNet := net\<rparr>) \<and>
    rewired (vNet cfg) net (if v then {} else namesBetween cfg {i} (set xs)) (if v then namesBetween cfg {i} (set xs) else {})"
proof -
  have r: "\<forall>t \<in> set xs. 0 \<le> t \<and> t < vN cfg" using xs by (auto simp: valid_servers_def)
  obtain net1 where n1: "for_each xs (\<lambda>t. switchEnd i t v) cfg = Inr (cfg\<lparr>vNet := net1\<rparr>)"
    "rewired (vNet cfg) net1 (if v then {} else {e. \<exists>t \<in> set xs. vlink cfg i t e}) (if v then {e. \<exists>t \<in> set xs. vlink cfg i t e} else {})"
    using switch_loop [of cfg xs "\<lambda>t. i" "\<lambda>t. t" v] sq i r by auto
  obtain net2 where n2: "for_each xs (\<lambda>t. switchEnd t i v) (cfg\<lparr>vNet := net1\<rparr>) = Inr (cfg\<lparr>vNet := net2\<rparr>)"
    "rewired net1 net2 (if v then {} else {e. \<exists>t \<in> set xs. vlink cfg t i e}) (if v then {e. \<exists>t \<in> set xs. vlink cfg t i e} else {})"
    using switch_loop [of "cfg\<lparr>vNet := net1\<rparr>" xs "\<lambda>t. t" "\<lambda>t. i" v, unfolded same_names] sq i r by auto
  have "rewired (vNet cfg) net2 (if v then {} else namesBetween cfg {i} (set xs)) (if v then namesBetween cfg {i} (set xs) else {})"
    using n1(2) n2(2) unfolding rewired_def namesBetween_def by (cases v) auto
  with n1(1) n2(1) show ?thesis by (intro exI [of _ net2]) simp
qed

lemma connectUnlocked_rewires:
  assumes "square cfg" "0 \<le> i" "i < vN cfg" "valid_servers cfg to"
  shows "\<exists>net. connectUnlocked i to cfg = Inr (cfg\<lparr>vNet := net\<rparr>) \<and> rewired (vNet cfg) net {} (namesBetween cfg {i} (set to))"
  using both_loops [OF assms, of True] unfolding connectUnlocked_def for_each_indices_nth by simp

lemma disconnectUnlocked_rewires:
  assumes sq: "square cfg" and i: "0 \<le> i" "i < vN cfg" and fr: "valid_servers cfg from"
  shows "\<exists>net. disconnectUnlocked i from cfg = Inr (cfg\<lparr>vNet := net\<rparr>) \<and> rewired (vNet cfg) net (namesBetween cfg {i} (set from)) {}"
proof -
  have rows: "\<exists>es. go_nth (vEndnames cfg) k = Inr es \<and> es \<noteq> []" if "0 \<le> k" "k < vN cfg" for k
    using square_go_nth [OF sq that that] by blast
  have guarded: "for_each js (\<lambda>j s. rbind (go_nth (vEndnames s) (g j)) (\<lambda>es. if es \<noteq> [] then rbind (go_nth from j) (\<lambda>t. f t s) else Inr s)) s =
      for_each js (\<lambda>j s. rbind (go_nth from j) (\<lambda>t. f t s)) s"
    if "\<forall>j \<in> set js. 0 \<le> g j \<and> g j < vN cfg" "vEndnames s = vEndnames cfg" "\<forall>t s s'. f t s = Inr s' \<longrightarrow> vEndnames s' = vEndnames s"
    for js g f and s :: "('a, 'b, 'c, 'd) service_config_scheme"
    using that
  proof (induction js arbitrary: s)
    case (Cons j js)
    obtain es where "go_nth (vEndnames s) (g j) = Inr es" "es \<noteq> []" using rows [of "g j"] Cons.prems by auto
    moreover have "vEndnames s1 = vEndnames cfg" if "rbind (go_nth from j) (\<lambda>t. f t s) = Inr s1" for s1
      using that Cons.prems by (auto simp: rbind_eq_Inr)
    ultimately show ?case using Cons by (auto simp: rbind_def split: sum.splits)
  qed simp
  have small: "\<forall>j \<in> set (indices 0 (len from)). 0 \<le> j \<and> j < vN cfg" using valid_servers_len [OF fr] by (auto simp: len_def)
  have inside: "\<forall>t \<in> set from. 0 \<le> t \<and> t < vN cfg" using fr by (auto simp: valid_servers_def)
  have keeps: "\<forall>t s s'. switchEnd (a t) (b t) False s = Inr s' \<longrightarrow> vEndnames s' = vEndnames s" for a b
    by (auto simp: switchEnd_def rbind_eq_Inr)
  have "disconnectUnlocked i from cfg = rbind (for_each from (\<lambda>t. switchEnd i t False) cfg) (for_each from (\<lambda>t. switchEnd t i False))"
  proof -
    have 1: "for_each (indices 0 (len from)) (\<lambda>j s. rbind (go_nth (vEndnames s) i) (\<lambda>es. if es \<noteq> [] then rbind (go_nth from j) (\<lambda>t. switchEnd i t False s) else Inr s)) cfg
        = for_each from (\<lambda>t. switchEnd i t False) cfg"
      using guarded [of "indices 0 (len from)" "\<lambda>j. i" cfg "\<lambda>t. switchEnd i t False"] i keeps [of "\<lambda>t. i" "\<lambda>t. t"] by (simp add: for_each_indices_nth)
    have 2: "for_each (indices 0 (len from)) (\<lambda>j s. rbind (go_nth (vEndnames s) j) (\<lambda>es. if es \<noteq> [] then rbind (go_nth from j) (\<lambda>t. switchEnd t i False s) else Inr s)) s
        = for_each from (\<lambda>t. switchEnd t i False) s" if "vEndnames s = vEndnames cfg" for s :: "('a, 'b, 'c, 'd) service_config_scheme"
      using guarded [of "indices 0 (len from)" "\<lambda>j. j" s "\<lambda>t. switchEnd t i False"] small that keeps [of "\<lambda>t. t" "\<lambda>t. i"] by (simp add: for_each_indices_nth)
    obtain net where "for_each from (\<lambda>t. switchEnd i t False) cfg = Inr (cfg\<lparr>vNet := net\<rparr>)"
      using switch_loop [of cfg "from" "\<lambda>t. i" "\<lambda>t. t" False] sq i inside by auto
    then show ?thesis unfolding disconnectUnlocked_def 1 using 2 [of "cfg\<lparr>vNet := net\<rparr>"] by simp
  qed
  then show ?thesis using both_loops [OF sq i fr, of False] by simp
qed

text \<open>One side of a partition: cut off from the other, connected among themselves.\<close>

lemma names_apart:
  assumes "svc_inv cfg" "A \<inter> B = {}" "A' \<subseteq> A" "C \<subseteq> A"
  shows "namesBetween cfg A' B \<inter> namesBetween cfg C A = {}"
  using svc_invD(3) [OF assms(1)] assms(2-4) unfolding namesBetween_def by blast

lemma side_loop:
  assumes inv: "svc_inv cfg" and sq: "square cfg" and p: "valid_servers cfg p" "valid_servers cfg q" "set p \<inter> set q = {}" and ps: "set ps \<subseteq> set p"
  shows "\<exists>net. for_each ps (\<lambda>a s. rbind (disconnectUnlocked a q s) (connectUnlocked a p)) cfg = Inr (cfg\<lparr>vNet := net\<rparr>) \<and>
    rewired (vNet cfg) net (namesBetween cfg (set ps) (set q)) (namesBetween cfg (set ps) (set p))"
proof -
  have one: "\<exists>net'. rbind (disconnectUnlocked a q (cfg\<lparr>vNet := net\<rparr>)) (connectUnlocked a p) = Inr (cfg\<lparr>vNet := net'\<rparr>) \<and>
      rewired net net' (namesBetween cfg {a} (set q)) (namesBetween cfg {a} (set p))" if "a \<in> set p" for a net
  proof -
    have a: "0 \<le> a" "a < vN cfg" using that p(1) by (auto simp: valid_servers_def)
    obtain net1 where n1: "disconnectUnlocked a q (cfg\<lparr>vNet := net\<rparr>) = Inr (cfg\<lparr>vNet := net1\<rparr>)"
      "rewired net net1 (namesBetween cfg {a} (set q)) {}"
      using disconnectUnlocked_rewires [of "cfg\<lparr>vNet := net\<rparr>" a q] sq a p(2) by auto
    obtain net2 where n2: "connectUnlocked a p (cfg\<lparr>vNet := net1\<rparr>) = Inr (cfg\<lparr>vNet := net2\<rparr>)"
      "rewired net1 net2 {} (namesBetween cfg {a} (set p))"
      using connectUnlocked_rewires [of "cfg\<lparr>vNet := net1\<rparr>" a p] sq a p(1) by auto
    show ?thesis using n1(1) n2(1) rewired_trans [OF n1(2) n2(2)] by auto
  qed
  have "\<exists>net'. for_each ps (\<lambda>a s. rbind (disconnectUnlocked a q s) (connectUnlocked a p)) (cfg\<lparr>vNet := net\<rparr>) = Inr (cfg\<lparr>vNet := net'\<rparr>) \<and>
      rewired net net' (namesBetween cfg (set ps) (set q)) (namesBetween cfg (set ps) (set p))" for net
    using ps
  proof (induction ps arbitrary: net)
    case Nil
    then show ?case by (intro exI [of _ net]) (simp add: rewired_refl namesBetween_def)
  next
    case (Cons a ps)
    obtain net1 where n1: "rbind (disconnectUnlocked a q (cfg\<lparr>vNet := net\<rparr>)) (connectUnlocked a p) = Inr (cfg\<lparr>vNet := net1\<rparr>)"
      "rewired net net1 (namesBetween cfg {a} (set q)) (namesBetween cfg {a} (set p))" using one [of a net] Cons.prems by auto
    obtain net2 where n2: "for_each ps (\<lambda>a s. rbind (disconnectUnlocked a q s) (connectUnlocked a p)) (cfg\<lparr>vNet := net1\<rparr>) = Inr (cfg\<lparr>vNet := net2\<rparr>)"
      "rewired net1 net2 (namesBetween cfg (set ps) (set q)) (namesBetween cfg (set ps) (set p))" using Cons by auto
    have "namesBetween cfg (set ps) (set q) \<inter> namesBetween cfg {a} (set p) = {}"
      using names_apart [OF inv p(3)] Cons.prems by auto
    note both = rewired_trans [OF n1(2) n2(2) this]
    have "namesBetween cfg {a} X \<union> namesBetween cfg (set ps) X = namesBetween cfg (set (a # ps)) X" for X
      by (auto simp: namesBetween_def)
    with both n1(1) n2(1) show ?case by (intro exI [of _ net2]) simp
  qed
  from this [of "vNet cfg"] show ?thesis by simp
qed

lemma partition_rewires:
  assumes inv: "svc_inv cfg" and sq: "square cfg" and p: "valid_servers cfg p1" "valid_servers cfg p2" "set p1 \<inter> set p2 = {}"
  shows "\<exists>net. partition_servers p1 p2 cfg = Inr (cfg\<lparr>vNet := net\<rparr>) \<and>
    rewired (vNet cfg) net (namesBetween cfg (set p1) (set p2)) (namesBetween cfg (set p1) (set p1) \<union> namesBetween cfg (set p2) (set p2))"
proof -
  obtain net1 where n1: "for_each p1 (\<lambda>a s. rbind (disconnectUnlocked a p2 s) (connectUnlocked a p1)) cfg = Inr (cfg\<lparr>vNet := net1\<rparr>)"
    "rewired (vNet cfg) net1 (namesBetween cfg (set p1) (set p2)) (namesBetween cfg (set p1) (set p1))"
    using side_loop [OF inv sq p] by auto
  have inv1: "svc_inv (cfg\<lparr>vNet := net1\<rparr>)"
  proof -
    have "post (onlyNet cfg) (for_each p1 (\<lambda>a s. rbind (disconnectUnlocked a p2 s) (connectUnlocked a p1)) cfg)"
      by (intro post_for_each_only post_rbind_only only_rules)
    from svc_inv_cong [OF inv onlyNet_wires [OF postD [OF n1(1) this]]] show ?thesis .
  qed
  obtain net2 where n2: "for_each p2 (\<lambda>a s. rbind (disconnectUnlocked a p1 s) (connectUnlocked a p2)) (cfg\<lparr>vNet := net1\<rparr>) = Inr (cfg\<lparr>vNet := net2\<rparr>)"
    "rewired net1 net2 (namesBetween cfg (set p2) (set p1)) (namesBetween cfg (set p2) (set p2))"
    using side_loop [OF inv1, of p2 p1] sq p by auto
  have sym: "namesBetween cfg (set p2) (set p1) = namesBetween cfg (set p1) (set p2)" by (auto simp: namesBetween_def)
  have "namesBetween cfg (set p2) (set p1) \<inter> namesBetween cfg (set p1) (set p1) = {}"
    using names_apart [OF inv p(3)] sym by auto
  from rewired_trans [OF n1(2) n2(2) this] show ?thesis
    unfolding partition_servers_def for_each_indices_nth using n1(1) n2(1) sym by (intro exI [of _ net2]) simp
qed

lemma leaderLoop_found: "leaderLoop f is = Inr (True, l) \<Longrightarrow> l \<in> set is \<and> f l = Inr True"
  by (induction "is") (auto simp: rbind_eq_Inr split: if_splits)

section \<open>Calls to a server that was shut down\<close>

lemma Call_no_server:
  assumes "connectedTo rn e = Some n" "serverAt rn n = None"
  shows "\<exists>rn'. Call rn e meth args d ws st = Inr (Some (rn', None, st))"
proof -
  have "connectedTo (acceptReq rn req) e = Some n" "serverAt (acceptReq rn req) n = None" for req
    using assms by (simp_all add: connectedTo_def serverAt_def acceptReq_def)
  then show ?thesis by (simp add: Call_def processReq_def readEndnameInfo_def failedReply_def Let_def)
qed

lemma ShutdownServer_result:
  assumes "ShutdownServer rfOf i cfg = Inr cfg'" "go_nth (vServers cfg) i = Inr (Some kv)"
  shows "serverAt (vNet cfg') (ServerName i) = None" "go_nth (vServers cfg') i = Inr None"
    "go_nth (vSaved cfg') i = Inr (Some (Copy (persister (rfOf kv))))"
proof -
  from assms(1) obtain cfg1 sv where c1: "disconnectUnlocked i (All cfg) cfg = Inr cfg1"
    "currentSaved rfOf i (cfg1\<lparr>vNet := DeleteServer (vNet cfg1) (ServerName i)\<rparr>) = Inr sv"
    "0 \<le> i" "i < len (vSaved cfg1)" "i < len (vServers cfg1)"
    "cfg' = cfg1\<lparr>vNet := DeleteServer (vNet cfg1) (ServerName i), vSaved := (vSaved cfg1)[nat i := map_option Copy sv], vServers := (vServers cfg1)[nat i := None]\<rparr>"
    by (auto simp: ShutdownServer_def Let_def rbind_eq_Inr len_def dest!: go_upd_Inr)
  have "vServers cfg1 = vServers cfg" using postD [OF c1(1) only_disconnectUnlocked] by (auto simp: onlyNet_def)
  then have sv: "sv = Some (persister (rfOf kv))" using c1(2) assms(2) by (auto simp: currentSaved_def rbind_eq_Inr)
  show "serverAt (vNet cfg') (ServerName i) = None" by (simp add: c1(6) serverAt_def DeleteServer_def)
  show "go_nth (vServers cfg') i = Inr None" using c1(3,5) by (simp add: c1(6) go_nth_def len_def)
  show "go_nth (vSaved cfg') i = Inr (Some (Copy (persister (rfOf kv))))" using c1(3,4) sv by (simp add: c1(6) go_nth_def len_def)
qed

section \<open>Configurations with all servers started\<close>

text \<open>Every operation keeps the number of servers, and a server that was started once keeps having end points.\<close>

definition sameSize :: "('c, 'sv, 'st, 'm) service_config_scheme \<Rightarrow> ('c, 'sv, 'st, 'm) service_config_scheme \<Rightarrow> bool" where
  "sameSize cfg cfg' \<longleftrightarrow> vN cfg' = vN cfg \<and> length (vEndnames cfg') = length (vEndnames cfg) \<and>
    (\<forall>k < length (vEndnames cfg). vEndnames cfg ! k \<noteq> [] \<longrightarrow> vEndnames cfg' ! k \<noteq> [])"

lemma sameSize_trans: "sameSize a b \<Longrightarrow> sameSize b c \<Longrightarrow> sameSize a c"
  by (auto simp: sameSize_def)

lemma sameSize_upd [simp]: "sameSize cfg (cfg\<lparr>vNet := net\<rparr>)" "sameSize cfg (cfg\<lparr>vServers := vs\<rparr>)" "sameSize cfg (cfg\<lparr>vClerks := cl\<rparr>)"
  by (simp_all add: sameSize_def)

lemma sameWires_size: "sameWires a b \<Longrightarrow> sameSize a b"
  by (simp add: sameWires_def sameSize_def)

lemma StartServer_size:
  assumes "svc_inv cfg" "StartServer rfOf mk svc rfsvc name i cfg = Inr (Some cfg')"
  shows "sameSize cfg cfg'" "0 \<le> i" "nat i < length (vEndnames cfg)" "vEndnames cfg' ! nat i \<noteq> []"
proof -
  from assms(2) obtain ens cfg1 where s: "go_upd (vEndnames cfg) i (map name (indices 0 (vN cfg))) = Inr ens"
    "makeNamedEnds name (cfg\<lparr>vEndnames := ens\<rparr>) = Inr cfg1" "sameWires cfg1 cfg'" by (rule StartServer_parts)
  have i: "0 \<le> i" "nat i < length (vEndnames cfg)" and ens: "ens = (vEndnames cfg)[nat i := map name (indices 0 (vN cfg))]"
    using go_upd_Inr [OF s(1)] by auto
  have c': "vN cfg' = vN cfg" "vEndnames cfg' = ens" using makeNamedEnds_new(1) [OF s(2)] s(3) by (auto simp: sameWires_def)
  have "indices 0 (vN cfg) \<noteq> []" using i svc_invD(1) [OF assms(1)] by (simp add: indices_def)
  then show "sameSize cfg cfg'" "vEndnames cfg' ! nat i \<noteq> []" unfolding sameSize_def c' ens using i by (auto simp: nth_list_update)
  show "0 \<le> i" "nat i < length (vEndnames cfg)" by (rule i)+
qed

lemma allStarted_size: "allStarted cfg \<Longrightarrow> svc_inv cfg' \<Longrightarrow> sameSize cfg cfg' \<Longrightarrow> allStarted cfg'"
  unfolding allStarted_def sameSize_def in_set_conv_nth by metis

lemma makeClient_size: "makeClient ck name rnd to cfg = Inr (cfg', handles) \<Longrightarrow> sameSize cfg cfg'"
proof -
  assume "makeClient ck name rnd to cfg = Inr (cfg', handles)"
  then obtain cfg1 cl where c1: "makeNamedEnds name cfg = Inr cfg1"
    "switchClient ck to True (cfg1\<lparr>vClerks := cl, vNextClientId := vNextClientId cfg1 + 1\<rparr>) = Inr cfg'"
    by (auto simp: makeClient_def rbind_eq_Inr Let_def ConnectClientUnlocked_def)
  show ?thesis using makeNamedEnds_new(1) [OF c1(1)] postD [OF c1(2) only_switchClient] by (auto simp: onlyNet_def sameSize_def)
qed

context service_harness
begin

lemma size_start: "svc_inv cfg \<Longrightarrow> start now rnd name i cfg = Inr (Some cfg') \<Longrightarrow>
    sameSize cfg cfg' \<and> svc_inv cfg' \<and> 0 \<le> i \<and> nat i < length (vEndnames cfg) \<and> vEndnames cfg' ! nat i \<noteq> []"
  using start_is [of now rnd name i cfg] StartServer_size svc_inv_StartServer by metis

lemma size_exec: "svc_inv cfg \<Longrightarrow> svcExec rfOf start op cfg = Inr (Some cfg') \<Longrightarrow> sameSize cfg cfg'"
proof (cases op)
  case (SStart now rnd name i)
  then show "svc_inv cfg \<Longrightarrow> svcExec rfOf start op cfg = Inr (Some cfg') \<Longrightarrow> sameSize cfg cfg'"
    using size_start by simp
qed (auto simp: rbind_eq_Inr ConnectClientUnlocked_def DisconnectClientUnlocked_def deleteClient_def
    intro: makeClient_size sameWires_size onlyNet_wires postD [OF _ only_connectUnlocked] postD [OF _ only_disconnectUnlocked]
      postD [OF _ only_ConnectAll] postD [OF _ only_partition_servers] postD [OF _ only_switchClient] postD [OF _ wires_ShutdownServer])

lemma allStarted_run: "allStarted cfg \<Longrightarrow> svcRun rfOf start ops cfg = Inr (Some cfg') \<Longrightarrow> allStarted cfg' \<and> vN cfg' = vN cfg"
proof (induction ops arbitrary: cfg)
  case (Cons op ops)
  then obtain c where c: "svcExec rfOf start op cfg = Inr (Some c)" "svcRun rfOf start ops c = Inr (Some cfg')"
    by (auto simp: rbind_eq_Inr split: option.splits)
  have inv: "svc_inv cfg" using Cons.prems(1) by (simp add: allStarted_def)
  note size = size_exec [OF inv c(1)]
  show ?case using Cons.IH [OF allStarted_size [OF Cons.prems(1) svc_inv_exec [OF inv c(1)] size] c(2)] size by (simp add: sameSize_def)
qed simp

lemma start_loop:
  assumes init: "svc_init cfg"
  shows "for_each (indices 0 (int k)) (\<lambda>i s. case s of None \<Rightarrow> Inr None | Some c \<Rightarrow> start now rnd (names i) i c) (Some cfg) = Inr (Some cfg') \<Longrightarrow>
    svc_inv cfg' \<and> sameSize cfg cfg' \<and> (\<forall>i < k. vEndnames cfg' ! i \<noteq> [])"
proof (induction k arbitrary: cfg')
  case 0
  then show ?case using svc_inv_init [OF init] by (simp add: sameSize_def)
next
  case (Suc k)
  have "indices 0 (int (Suc k)) = indices 0 (int k) @ [int k]" by (simp add: indices_def del: of_nat_Suc)
  with Suc.prems obtain c where c: "start now rnd (names (int k)) (int k) c = Inr (Some cfg')"
    "for_each (indices 0 (int k)) (\<lambda>i s. case s of None \<Rightarrow> Inr None | Some c \<Rightarrow> start now rnd (names i) i c) (Some cfg) = Inr (Some c)"
    by (auto simp: for_each_snoc rbind_eq_Inr split: option.splits)
  note ih = Suc.IH [OF c(2)]
  note now = size_start [OF conjunct1 [OF ih] c(1)]
  have "vEndnames cfg' ! i \<noteq> []" if "i < Suc k" for i
  proof (cases "i = k")
    case False
    then have "i < k" using that by simp
    moreover from this have "i < length (vEndnames c)" using now by simp
    ultimately show ?thesis using ih now by (simp add: sameSize_def)
  qed (use now in simp)
  then show ?case using ih now sameSize_trans by blast
qed

lemma startAll_started:
  assumes init: "svc_init cfg" and s: "startAll (\<lambda>i. start now rnd (names i) i) unreliable cfg = Inr (Some cfg')"
  shows "allStarted cfg'" "vN cfg' = vN cfg"
proof -
  from s obtain c c1 where c: "for_each (indices 0 (vN cfg)) (\<lambda>i s. case s of None \<Rightarrow> Inr None | Some c \<Rightarrow> start now rnd (names i) i c) (Some cfg) = Inr (Some c)"
    "ConnectAll c = Inr c1" "cfg' = c1\<lparr>vNet := Reliable (vNet c1) (\<not> unreliable)\<rparr>"
    by (auto simp: startAll_def rbind_eq_Inr split: option.splits)
  have "indices 0 (vN cfg) = indices 0 (int (nat (vN cfg)))" by (simp add: indices_def)
  note l = start_loop [OF init, of "nat (vN cfg)", OF c(1) [unfolded this]]
  have "length (vEndnames c) = nat (vN cfg)" using l svc_invD(1) [of c] by (simp add: sameSize_def)
  then have "allStarted c" using l by (auto simp: allStarted_def in_set_conv_nth)
  moreover have w: "sameWires c cfg'" using onlyNet_wires [OF postD [OF c(2) only_ConnectAll]] by (simp add: c(3) sameWires_def Reliable_def)
  ultimately show "allStarted cfg'" using allStarted_size [OF _ svc_inv_cong sameWires_size] by (auto simp: allStarted_def)
  show "vN cfg' = vN cfg" using l w by (simp add: sameSize_def sameWires_def)
qed

end

section \<open>The leader in a minority\<close>

lemma minority:
  assumes st: "allStarted cfg" and n: "odd (vN cfg)" "3 \<le> vN cfg" and l: "0 \<le> l" "l < vN cfg"
  shows "\<exists>p1 p2 cfg'. make_partition (vN cfg) l = Inr (p1, p2) \<and> partition_servers p1 p2 cfg = Inr cfg' \<and>
    set p1 \<inter> set p2 = {} \<and> set p1 \<union> set p2 = {0..<vN cfg} \<and> l \<in> set p2 \<and> 2 * len p2 < vN cfg \<and>
    (\<forall>i j e. vlink cfg' i j e \<longrightarrow> (isEnabled (vNet cfg') (EndName e) \<longleftrightarrow> (i \<in> set p1 \<longleftrightarrow> j \<in> set p1)))"
proof -
  obtain p1 p2 where p: "make_partition (vN cfg) l = Inr (p1, p2)" "set p1 \<inter> set p2 = {}" "set p1 \<union> set p2 = {0..<vN cfg}" "distinct (p1 @ p2)"
    "l \<in> set p2" "2 * len p2 < vN cfg" using make_partition_odd [OF n(2,1) l] by blast
  have inv: "svc_inv cfg" using st by (simp add: allStarted_def)
  have "valid_servers cfg p1" "valid_servers cfg p2" using p(3,4) by (auto simp: valid_servers_def)
  from partition_rewires [OF inv allStarted_square [OF st] this p(2)] obtain net where net: "partition_servers p1 p2 cfg = Inr (cfg\<lparr>vNet := net\<rparr>)"
    "rewired (vNet cfg) net (namesBetween cfg (set p1) (set p2)) (namesBetween cfg (set p1) (set p1) \<union> namesBetween cfg (set p2) (set p2))" by blast
  have "isEnabled net (EndName e) \<longleftrightarrow> (i \<in> set p1 \<longleftrightarrow> j \<in> set p1)" if "vlink cfg i j e" for i j e
  proof -
    have "i \<in> {0..<vN cfg}" "j \<in> {0..<vN cfg}"
      using vlink_range [OF allStarted_square [OF st] that] by blast+
    then have ij: "i \<in> set p1 \<or> i \<in> set p2" "j \<in> set p1 \<or> j \<in> set p2" using p(3) by blast+
    have here: "e \<in> namesBetween cfg A B \<longleftrightarrow> i \<in> A \<and> j \<in> B \<or> j \<in> A \<and> i \<in> B" for A B
      using that svc_invD(3) [OF inv that] unfolding namesBetween_def by blast
    have other: "i \<in> set p2 \<longleftrightarrow> i \<notin> set p1" "j \<in> set p2 \<longleftrightarrow> j \<notin> set p1" using ij p(2) by blast+
    have "isEnabled net (EndName e) \<longleftrightarrow> e \<in> namesBetween cfg (set p1) (set p1) \<or> e \<in> namesBetween cfg (set p2) (set p2) \<or>
        e \<notin> namesBetween cfg (set p1) (set p2) \<and> isEnabled (vNet cfg) (EndName e)"
      using net(2) unfolding rewired_def by blast
    then show ?thesis unfolding here other by blast
  qed
  then show ?thesis using net(1) p by (intro exI [of _ p1] exI [of _ p2] exI [of _ "cfg\<lparr>vNet := net\<rparr>"]) simp
qed

lemma kv_make_config_started:
  assumes "kv_make_config kvsvc rfsvc now rnd names n unreliable maxraft = Inr (Some cfg)"
  shows "allStarted cfg" "vN cfg = n"
proof -
  let ?c = "service_config.extend (emptyService n) \<lparr>kMaxraftstate = maxraft, kRpcs0 = 0, kOps = 0\<rparr>"
  have "svc_init ?c" and n: "vN ?c = n" by (simp_all add: svc_init_def emptyService_def service_config.extend_def)
  from kvh.startAll_started [OF this(1) assms [unfolded kv_make_config_def], unfolded n] show "allStarted cfg" "vN cfg = n" .
qed

text \<open>
  C15: putting the leader into a minority. In a key/value test with an odd number of servers, after
  any operations of the test, \<open>make_partition\<close> splits the servers into two sides with the leader on the
  smaller one, and \<open>partition\<close> connects exactly the servers of the same side: a call from one side to the
  other fails without reaching a handler.
\<close>

theorem kv_minority_partition:
  assumes "kv_make_config kvsvc rfsvc now rnd names n unreliable maxraft = Inr (Some cfg0)"
    and "svcRun kvRf (kv_StartServer kvsvc rfsvc) ops cfg0 = Inr (Some cfg)"
    and "odd n" "3 \<le> n" "kv_Leader cfg = Inr (True, l)"
  shows "\<exists>p1 p2 cfg'. kv_make_partition cfg = Inr (p1, p2) \<and> partition_servers p1 p2 cfg = Inr cfg' \<and>
    set p1 \<inter> set p2 = {} \<and> set p1 \<union> set p2 = {0..<n} \<and> l \<in> set p2 \<and> 2 * len p2 < n \<and>
    (\<forall>i j e. vlink cfg' i j e \<longrightarrow> (isEnabled (vNet cfg') (EndName e) \<longleftrightarrow> (i \<in> set p1 \<longleftrightarrow> j \<in> set p1))) \<and>
    (\<forall>i j e meth args d ws st. vlink cfg' i j e \<and> (i \<in> set p1) \<noteq> (j \<in> set p1) \<longrightarrow>
      (\<exists>rn. Call (vNet cfg') (EndName e) meth args d ws st = Inr (Some (rn, None, st))))"
proof -
  have s: "allStarted cfg" "vN cfg = n" using kvh.allStarted_run [OF kv_make_config_started(1) [OF assms(1)] assms(2)] kv_make_config_started(2) [OF assms(1)] by auto
  have "0 \<le> l" "l < n" using leaderLoop_found [OF assms(5) [unfolded kv_Leader_def]] s(2) by auto
  with minority [OF s(1)] assms(3,4) s(2) obtain p1 p2 cfg' where p: "make_partition n l = Inr (p1, p2)" "partition_servers p1 p2 cfg = Inr cfg'"
    "set p1 \<inter> set p2 = {}" "set p1 \<union> set p2 = {0..<n}" "l \<in> set p2" "2 * len p2 < n"
    "\<forall>i j e. vlink cfg' i j e \<longrightarrow> (isEnabled (vNet cfg') (EndName e) \<longleftrightarrow> (i \<in> set p1 \<longleftrightarrow> j \<in> set p1))" by metis
  have "kv_make_partition cfg = Inr (p1, p2)" using p(1) assms(5) s(2) by (simp add: kv_make_partition_def)
  moreover have "\<exists>rn. Call (vNet cfg') (EndName e) meth args d ws st = Inr (Some (rn, None, st))"
    if "vlink cfg' i j e" "(i \<in> set p1) \<noteq> (j \<in> set p1)" for i j e meth args d ws st
    using Call_disabled p(7) that by metis
  ultimately show ?thesis using p(2-7) by blast
qed

text \<open>Three servers, of which the one in the middle leads.\<close>

definition sampleServer :: "int \<Rightarrow> int \<Rightarrow> KVServer" where
  "sampleServer i r = \<lparr>kvMe = i, kvRf = (newRaft 3 i MakePersister 0 0)\<lparr>role := r\<rparr>, kvDead = 0, maxraftstate = -1, replayedIndex = 0,
     seqMap = Map.empty, kvPersist = Map.empty, lastIncludeIndex = 0\<rparr>"

definition sampleConfig :: "unit kv_config option res" where
  "sampleConfig = kv_make_config (\<lambda>kv. MakeService ''KVServer'' []) (\<lambda>rf. MakeService ''Raft'' []) 0 0 (\<lambda>i j. Itoa i @ ''-'' @ Itoa j) 3 False (-1)"

definition sampleOps :: "KVServer svcOp list" where
  "sampleOps = [SServe [Some (sampleServer 0 0), Some (sampleServer 1 2), Some (sampleServer 2 0)]]"

theorem kv_minority_partition_witness:
  "\<exists>cfg cfg'. rbind sampleConfig (\<lambda>c. svcRun kvRf (kv_StartServer (\<lambda>kv. MakeService ''KVServer'' []) (\<lambda>rf. MakeService ''Raft'' [])) sampleOps (the c)) = Inr (Some cfg) \<and>
    partition_servers [0, 2] [1] cfg = Inr cfg' \<and> \<not> isEnabled (vNet cfg') (EndName ''1-0'') \<and> isEnabled (vNet cfg') (EndName ''0-2'')"
proof -
  let ?start = "kv_StartServer (\<lambda>kv. MakeService ''KVServer'' [] :: unit service) (\<lambda>rf. MakeService ''Raft'' [])"
  have "case sampleConfig of Inl e \<Rightarrow> False | Inr None \<Rightarrow> False | Inr (Some c0) \<Rightarrow> (case svcRun kvRf ?start sampleOps c0 of
      Inl e \<Rightarrow> False | Inr None \<Rightarrow> False | Inr (Some c) \<Rightarrow> kv_Leader c = Inr (True, 1) \<and> kv_make_partition c = Inr ([0, 2], [1]) \<and>
        vEndnames c = map (\<lambda>i. map (\<lambda>j. Itoa i @ ''-'' @ Itoa j) [0, 1, 2]) [0, 1, 2])"
    by code_simp
  then obtain c0 c where c: "sampleConfig = Inr (Some c0)" "svcRun kvRf ?start sampleOps c0 = Inr (Some c)" "kv_Leader c = Inr (True, 1)"
    "kv_make_partition c = Inr ([0, 2], [1])" "vEndnames c = map (\<lambda>i. map (\<lambda>j. Itoa i @ ''-'' @ Itoa j) [0, 1, 2]) [0, 1, 2]"
    unfolding case_done by blast
  from kv_minority_partition [OF c(1) [unfolded sampleConfig_def] c(2) _ _ c(3)] c(4) obtain c' where c': "partition_servers [0, 2] [1] c = Inr c'"
    "\<forall>i j e. vlink c' i j e \<longrightarrow> (isEnabled (vNet c') (EndName e) \<longleftrightarrow> (i \<in> {0, 2} \<longleftrightarrow> j \<in> {0, 2}))" by auto
  have "vEndnames c' = vEndnames c" using postD [OF c'(1) only_partition_servers] by (auto simp: onlyNet_def)
  moreover have "Itoa 0 = ''0''" "Itoa 1 = ''1''" "Itoa 2 = ''2''" by code_simp+
  ultimately have "vlink c' 1 0 ''1-0''" "vlink c' 0 2 ''0-2''" using c(5) by (simp_all add: vlink_def go_nth_def)
  then have "\<not> isEnabled (vNet c') (EndName ''1-0'')" "isEnabled (vNet c') (EndName ''0-2'')" using c'(2) by fastforce+
  moreover have "rbind sampleConfig (\<lambda>c. svcRun kvRf ?start sampleOps (the c)) = Inr (Some c)" unfolding c(1) rbind_Inr option.sel by (rule c(2))
  ultimately show ?thesis using c'(1) by blast
qed

end
