(* ===== verification/ServiceHarnessProperties.thy ===== *)
theory ServiceHarnessProperties
  imports ServicePartition
begin

text \<open>
  Properties of the harness of the services: clerks get their end points in any order, a server that
  is shut down and started again has what it had stored, and two weaknesses of the harness.
\<close>

section \<open>The order of the end points\<close>

text \<open>
  \<open>random_handles\<close> shuffles. Whatever numbers \<open>rand.Intn\<close> gives within its range, the result is a
  permutation of the end points, and every permutation is the result for some numbers.
\<close>

theorem random_handles_permutes:
  "(in_range rnd \<longrightarrow> (\<exists>zs. random_handles rnd xs = Inr zs \<and> mset zs = mset xs)) \<and>
   ((\<exists>rnd. in_range rnd \<and> random_handles rnd xs = Inr ys) \<longleftrightarrow> mset ys = mset xs)"
proof (intro conjI impI iffI)
  show "in_range rnd \<Longrightarrow> \<exists>zs. random_handles rnd xs = Inr zs \<and> mset zs = mset xs" by (rule random_handles_mset)
  show "mset ys = mset xs \<Longrightarrow> \<exists>rnd. in_range rnd \<and> random_handles rnd xs = Inr ys" by (rule random_handles_all)
  assume "\<exists>rnd. in_range rnd \<and> random_handles rnd xs = Inr ys"
  then obtain rnd' where "in_range rnd'" "random_handles rnd' xs = Inr ys" by blast
  with random_handles_mset [of rnd' xs] show "mset ys = mset xs" by auto
qed

theorem random_handles_permutes_witness:
  "in_range (\<lambda>i. 0) \<and> (\<exists>zs. random_handles (\<lambda>i. 0) [''a'', ''b'', ''c''] = Inr zs \<and> mset zs = {#''a'', ''b'', ''c''#}) \<and>
   random_handles (\<lambda>i. 0) [''a'', ''b'', ''c''] = Inr [''c'', ''a'', ''b'']"
proof -
  have "in_range (\<lambda>i. 0)" by (simp add: in_range_def)
  moreover have "random_handles (\<lambda>i. 0) [''a'', ''b'', ''c''] = Inr [''c'', ''a'', ''b'']" by code_simp
  ultimately show ?thesis using random_handles_permutes [of "\<lambda>i. 0" "[''a'', ''b'', ''c'']"] by simp
qed

section \<open>Shutting down and starting again\<close>

lemma Copy_id: "Copy p = p"
  by (simp add: Copy_def)

lemma StartServer_result:
  assumes s: "StartServer rfOf mk svc rfsvc name i cfg = Inr r"
    and c: "go_nth (vServers cfg) i = Inr None" "go_nth (vSaved cfg) i = Inr (Some p)" "mk i (Copy p) = Some kv"
  shows "\<exists>cfg'. r = Some cfg' \<and> go_nth (vServers cfg') i = Inr (Some kv) \<and> serverAt (vNet cfg') (ServerName i) \<noteq> None"
proof -
  from s obtain ens cfg1 where e: "go_upd (vEndnames cfg) i (map name (indices 0 (vN cfg))) = Inr ens"
    and c1: "makeNamedEnds name (cfg\<lparr>vEndnames := ens\<rparr>) = Inr cfg1" by (auto simp: StartServer_def rbind_eq_Inr)
  have same: "vServers cfg1 = vServers cfg" "vSaved cfg1 = vSaved cfg" using makeNamedEnds_new(1) [OF c1] by auto
  have cur: "currentSaved rfOf i cfg1 = Inr (Some p)" using c same by (simp add: currentSaved_def)
  have i: "0 \<le> i" "i < int (length (vServers cfg))" "i < int (length (vSaved cfg))"
    using go_nth_Inr [OF c(1)] go_nth_Inr [OF c(2)] by auto
  then have "go_upd (vServers cfg) i x = Inr ((vServers cfg)[nat i := x])" "go_upd (vSaved cfg) i y = Inr ((vSaved cfg)[nat i := y])" for x y
    by (simp_all add: go_upd_def)
  with s c(3) i show ?thesis unfolding StartServer_def e rbind_Inr c1 cur Let_def same
    by (auto simp: go_nth_def AddServer_def serverAt_def)
qed

text \<open>
  C24: a server comes back with what it had stored. After \<open>ShutdownServer\<close> no call to the server gets
  through, from other servers or from clerks, until it is started again; \<open>StartServer\<close> then gives a
  follower with the term, the vote, the log and the snapshot that the old server had persisted.
\<close>

theorem kv_restart:
  assumes "go_nth (vServers cfg) i = Inr (Some kv)" "persisted (kvRf kv)" "log_ok (kvRf kv)"
    and "kv_ShutdownServer i cfg = Inr cfg1" "kv_StartServer kvsvc rfsvc now rnd name i cfg1 = Inr r"
  shows "(\<forall>e meth args d ws st. connectedTo (vNet cfg1) e = Some (ServerName i) \<longrightarrow>
      (\<exists>rn. Call (vNet cfg1) e meth args d ws st = Inr (Some (rn, None, st)))) \<and>
    (\<exists>cfg2 kv'. r = Some cfg2 \<and> go_nth (vServers cfg2) i = Inr (Some kv') \<and> serverAt (vNet cfg2) (ServerName i) \<noteq> None \<and>
      currentTerm (kvRf kv') = currentTerm (kvRf kv) \<and> votedFor (kvRf kv') = votedFor (kvRf kv) \<and> log (kvRf kv') = log (kvRf kv) \<and>
      snapshotIndex (kvRf kv') = snapshotIndex (kvRf kv) \<and> snapshotTerm (kvRf kv') = snapshotTerm (kvRf kv) \<and>
      snapshot (kvRf kv') = snapshot (kvRf kv) \<and> role (kvRf kv') = 0)"
proof -
  note down = ShutdownServer_result [OF assms(4) [unfolded kv_ShutdownServer_def] assms(1)]
  obtain rf where rf: "Make (vN cfg1) i (persister (kvRf kv)) now rnd = Some rf" "currentTerm rf = currentTerm (kvRf kv)" "votedFor rf = votedFor (kvRf kv)"
    "log rf = log (kvRf kv)" "snapshotIndex rf = snapshotIndex (kvRf kv)" "snapshotTerm rf = snapshotTerm (kvRf kv)" "snapshot rf = snapshot (kvRf kv)" "role rf = 0"
    using Make_persisted [OF assms(2,3)] by blast
  obtain kv' where kv': "StartKVServer (vN cfg1) i (Copy (Copy (persister (kvRf kv)))) (kMaxraftstate cfg1) now rnd = Some kv'" "kvRf kv' = rf"
    using rf(1) by (simp add: StartKVServer_def Copy_id)
  from StartServer_result [OF assms(5) [unfolded kv_StartServer_def] down(2,3) kv'(1)] rf kv'(2)
  have "\<exists>cfg2. r = Some cfg2 \<and> go_nth (vServers cfg2) i = Inr (Some kv') \<and> serverAt (vNet cfg2) (ServerName i) \<noteq> None" by blast
  then show ?thesis using Call_no_server [OF _ down(1)] rf kv'(2) by blast
qed

text \<open>A server in term 5 that has voted for server 2 and has one entry.\<close>

definition votedServer :: KVServer where
  "votedServer = (sampleServer 1 0)\<lparr>kvRf := persist ((newRaft 3 1 MakePersister 0 0)\<lparr>currentTerm := 5, votedFor := 2,
     log := [\<lparr>Term = 4, Index = 0, Command = \<lparr>opSeqId = 1, opKey = ''k'', opValue = ''v'', opClient = 7, opIndex = 0, opType = ''Put''\<rparr>\<rparr>]\<rparr>)\<rparr>"

definition votedConfig :: "unit kv_config option res" where
  "votedConfig = rbind sampleConfig (\<lambda>c. Inr (map_option (\<lambda>c. c\<lparr>vServers := [Some (sampleServer 0 0), Some votedServer, None]\<rparr>) c))"

theorem kv_restart_witness:
  "\<exists>cfg cfg1 cfg2 kv'. votedConfig = Inr (Some cfg) \<and> kv_ShutdownServer 1 cfg = Inr cfg1 \<and>
    kv_StartServer (\<lambda>kv. MakeService ''KVServer'' []) (\<lambda>rf. MakeService ''Raft'' []) 9 0 (\<lambda>j. ''again'' @ Itoa j) 1 cfg1 = Inr (Some cfg2) \<and>
    go_nth (vServers cfg2) 1 = Inr (Some kv') \<and> currentTerm (kvRf kv') = 5 \<and> votedFor (kvRf kv') = 2 \<and> length (log (kvRf kv')) = 1"
proof -
  let ?start = "kv_StartServer (\<lambda>kv. MakeService ''KVServer'' [] :: unit service) (\<lambda>rf. MakeService ''Raft'' []) 9 0 (\<lambda>j. ''again'' @ Itoa j) 1"
  have "case votedConfig of Inl e \<Rightarrow> False | Inr None \<Rightarrow> False | Inr (Some c) \<Rightarrow> (case kv_ShutdownServer 1 c of Inl e \<Rightarrow> False | Inr c1 \<Rightarrow>
      (case ?start c1 of Inl e \<Rightarrow> False | Inr r \<Rightarrow> True))"
    by code_simp
  then obtain c c1 r where c: "votedConfig = Inr (Some c)" "kv_ShutdownServer 1 c = Inr c1" "?start c1 = Inr r"
    unfolding case_done unfolding case_ok by blast
  have p: "persisted (kvRf votedServer)" by (simp add: votedServer_def)
  have kv: "log_ok (kvRf votedServer)" "currentTerm (kvRf votedServer) = 5" "votedFor (kvRf votedServer) = 2"
    "length (log (kvRf votedServer)) = 1" by (simp_all add: votedServer_def log_ok_def persist_def Save_def newRaft_def)
  have "vServers c = [Some (sampleServer 0 0), Some votedServer, None]" using c(1) by (auto simp: votedConfig_def rbind_eq_Inr)
  then have "go_nth (vServers c) 1 = Inr (Some votedServer)" by (simp add: go_nth_def)
  from kv_restart [OF this p kv(1) c(2,3)] kv(2-4) c show ?thesis by fastforce
qed

section \<open>Weaknesses\<close>

text \<open>
  With an even number of servers the slices of \<open>make_partition\<close> have one place too many, which keeps
  the number 0: server 0 ends up on both sides, or twice on one.
\<close>

theorem make_partition_even:
  assumes "2 \<le> n" "even n" "0 < l" "l < n"
  shows "\<exists>p1 p2. make_partition n l = Inr (p1, p2) \<and> \<not> distinct (p1 @ p2)"
proof -
  obtain p1 p2 where p: "make_partition n l = Inr (p1, p2)" "p1 @ p2 = filter (\<lambda>i. i \<noteq> l) (indices 0 n) @ [0] @ [l]"
    using make_partition_shape [of n l] assms by auto
  have "0 \<in> set (filter (\<lambda>i. i \<noteq> l) (indices 0 n))" using assms by simp
  then have "\<not> distinct (p1 @ p2)" unfolding p(2) by auto
  with p(1) show ?thesis by blast
qed

text \<open>
  \<open>disconnect\<close> looks at the wrong server before it reads a list of names: with server 1 not started, cutting
  the connection of server 0 to it ends the test, although the check is there to prevent this.
\<close>

theorem disconnect_wrong_guard:
  assumes "vEndnames cfg = [es, []]" "length es = 2"
  shows "disconnectUnlocked 0 [1] cfg = Inl IndexOutOfRange"
proof -
  have "es \<noteq> []" using assms(2) by auto
  then show ?thesis using assms by (simp add: disconnectUnlocked_def len_def indices_def go_nth_def switchEnd_def)
qed

end
