(* ===== verification/ShardHarness.thy ===== *)
theory ShardHarness
  imports ServiceHarness ShardClerk
begin

text \<open>
  The harness of the tests of the sharded store (\<open>shardkv/config.go\<close>): three controllers and three
  groups of servers on one network, with the calls that tell the controller which groups exist.

  End points and servers both have strings as names, in maps of their own. \<open>randstring\<close> gives the names
  that the operations get as arguments: \<open>name j\<close> for the end points to the servers of a group, \<open>mname j\<close>
  for those to the controllers. As in the other harnesses the storage of a running server is that
  of its peer. The constructors of the servers get the function that makes further end points; its
  body is \<open>makeEndTo\<close>, and \<open>endOf\<close> are the names it draws.
\<close>

section \<open>State\<close>

record group =
  ggid :: int
  gservers :: "string ShardKV option list"
  gsaved :: "unit Persister option list"
  gendnames :: "string list list"
  gmendnames :: "string list list"

text \<open>The clerk \<open>mck\<close> of the controller is the list of its end points.\<close>

record 'st shard_config =
  xNet :: "(string, 'st) Network"
  xNctrlers :: int
  xCtrlers :: "ShardCtrler option list"
  xMck :: "string list"
  xNgroups :: int
  xN :: int
  xGroups :: "group option list"
  xClerks :: "nat \<rightharpoonup> string list"
  xNextClientId :: int
  xMaxraftstate :: int

definition groupAt :: "int \<Rightarrow> 'st shard_config \<Rightarrow> group res" where
  "groupAt gi cfg = rbind (go_nth (xGroups cfg) gi) (\<lambda>g. case g of None \<Rightarrow> Inl NilDereference | Some gg \<Rightarrow> Inr gg)"

definition setGroup :: "int \<Rightarrow> group \<Rightarrow> 'st shard_config \<Rightarrow> 'st shard_config res" where
  "setGroup gi gg cfg = rbind (go_upd (xGroups cfg) gi (Some gg)) (\<lambda>gs. Inr (cfg\<lparr>xGroups := gs\<rparr>))"

section \<open>Names and end points\<close>

definition ctrlername :: "int \<Rightarrow> string" where
  "ctrlername i = ''ctrler'' @ Itoa i"

definition servername :: "int \<Rightarrow> int \<Rightarrow> string" where
  "servername gid i = ''server-'' @ Itoa gid @ ''-'' @ Itoa i"

text \<open>Make an end point, connect it to a server, and enable it.\<close>

definition makeEndTo :: "string \<Rightarrow> string \<Rightarrow> (string, 'st) Network \<Rightarrow> (string, 'st) Network res" where
  "makeEndTo name server rn = rbind (MakeEnd rn name) (\<lambda>rn1. Inr (Enable (Connect rn1 name server) name True))"

text \<open>The loop over the controllers.\<close>

definition ctrlerEnds :: "(int \<Rightarrow> string) \<Rightarrow> 'st shard_config \<Rightarrow> 'st shard_config res" where
  "ctrlerEnds name cfg =
    rbind (for_each (indices 0 (xNctrlers cfg)) (\<lambda>j rn. makeEndTo (name j) (ctrlername j) rn) (xNet cfg)) (\<lambda>rn. Inr (cfg\<lparr>xNet := rn\<rparr>))"

section \<open>Clerks\<close>

text \<open>\<open>endnames\<close> has one place for each server of a group, but is filled for each controller.\<close>

definition shard_makeClient :: "nat \<Rightarrow> (int \<Rightarrow> string) \<Rightarrow> 'st shard_config \<Rightarrow> ('st shard_config \<times> string list) res" where
  "shard_makeClient ck name cfg =
    rbind (for_each (indices 0 (xNctrlers cfg))
      (\<lambda>j (endnames, rn). rbind (go_upd endnames j (name j)) (\<lambda>es. rbind (makeEndTo (name j) (ctrlername j) rn) (\<lambda>rn1. Inr (es, rn1))))
      (replicate (nat (xN cfg)) [], xNet cfg)) (\<lambda>(endnames, rn).
    Inr (cfg\<lparr>xNet := rn, xClerks := (xClerks cfg)(ck \<mapsto> endnames), xNextClientId := xNextClientId cfg + 1\<rparr>,
         map name (indices 0 (xNctrlers cfg))))"

definition shard_deleteClient :: "nat \<Rightarrow> 'st shard_config \<Rightarrow> 'st shard_config" where
  "shard_deleteClient ck cfg = cfg\<lparr>xClerks := (xClerks cfg)(ck := None)\<rparr>"

definition shardclerk :: "(int \<Rightarrow> string) \<Rightarrow> 'st shard_config \<Rightarrow> ('st shard_config \<times> string list) res" where
  "shardclerk name cfg = rbind (ctrlerEnds name cfg) (\<lambda>cfg1. Inr (cfg1, map name (indices 0 (xNctrlers cfg))))"

section \<open>Servers\<close>

definition groupSaved :: "int \<Rightarrow> group \<Rightarrow> unit Persister option res" where
  "groupSaved i gg =
    rbind (go_nth (gsaved gg) i) (\<lambda>sv. rbind (go_nth (gservers gg) i) (\<lambda>kv.
    Inr (case kv of Some s \<Rightarrow> Some (persister (skRf s)) | None \<Rightarrow> sv)))"

definition shard_ShutdownServer :: "int \<Rightarrow> int \<Rightarrow> 'st shard_config \<Rightarrow> 'st shard_config res" where
  "shard_ShutdownServer gi i cfg =
    rbind (groupAt gi cfg) (\<lambda>gg.
    rbind (for_each (indices 0 (len (gservers gg)))
      (\<lambda>j rn. rbind (go_nth (gendnames gg) i) (\<lambda>es. rbind (go_nth es j) (\<lambda>name. Inr (Enable rn name False)))) (xNet cfg)) (\<lambda>rn1.
    rbind (go_nth (gmendnames gg) i) (\<lambda>ms.
    rbind (for_each (indices 0 (len ms)) (\<lambda>j rn. rbind (go_nth ms j) (\<lambda>name. Inr (Enable rn name False))) rn1) (\<lambda>rn2.
    rbind (groupSaved i gg) (\<lambda>sv.
    rbind (go_upd (gsaved gg) i (map_option Copy sv)) (\<lambda>ss.
    rbind (go_upd (gservers gg) i None) (\<lambda>vs.
    setGroup gi (gg\<lparr>gsaved := ss, gservers := vs\<rparr>)
      (cfg\<lparr>xNet := DeleteServer rn2 (servername (ggid gg) i)\<rparr>))))))))"

definition ShutdownGroup :: "int \<Rightarrow> 'st shard_config \<Rightarrow> 'st shard_config res" where
  "ShutdownGroup gi cfg = for_each (indices 0 (xN cfg)) (\<lambda>i s. shard_ShutdownServer gi i s) cfg"

text \<open>The end points of a new server, to its group and to the controllers.\<close>

definition serverEnds :: "(int \<Rightarrow> string) \<Rightarrow> (int \<Rightarrow> string) \<Rightarrow> int \<Rightarrow> group \<Rightarrow> 'st shard_config \<Rightarrow> (group \<times> (string, 'st) Network) res" where
  "serverEnds name mname i gg cfg =
    rbind (go_upd (gendnames gg) i (map name (indices 0 (xN cfg)))) (\<lambda>ens.
    rbind (for_each (indices 0 (xN cfg)) (\<lambda>j rn. makeEndTo (name j) (servername (ggid gg) j) rn) (xNet cfg)) (\<lambda>rn1.
    rbind (go_upd (gmendnames gg) i (map mname (indices 0 (xNctrlers cfg)))) (\<lambda>mens.
    rbind (for_each (indices 0 (xNctrlers cfg)) (\<lambda>j rn. makeEndTo (mname j) (ctrlername j) rn) rn1) (\<lambda>rn2.
    Inr (gg\<lparr>gendnames := ens, gmendnames := mens\<rparr>, rn2)))))"

text \<open>The storage of the new server, the server itself, and its services on the network.\<close>

definition launchServer :: "(string ShardKV \<Rightarrow> 'st service) \<Rightarrow> (unit Raft \<Rightarrow> 'st service) \<Rightarrow> int \<Rightarrow> int \<Rightarrow> (string \<Rightarrow> string) \<Rightarrow>
    string list \<Rightarrow> int \<Rightarrow> int \<Rightarrow> group \<Rightarrow> (string, 'st) Network \<Rightarrow> 'st shard_config \<Rightarrow> 'st shard_config option res" where
  "launchServer kvsvc rfsvc now rnd endOf mends gi i gg rn cfg =
    rbind (groupSaved i gg) (\<lambda>sv.
    let ps = (case sv of Some p \<Rightarrow> Copy p | None \<Rightarrow> MakePersister) in
    rbind (go_upd (gsaved gg) i (Some ps)) (\<lambda>ss.
    case ShardKV_StartServer (xN cfg) i ps (xMaxraftstate cfg) (ggid gg) mends endOf now rnd of
      None \<Rightarrow> Inr None
    | Some kv \<Rightarrow>
        rbind (go_upd (gservers gg) i (Some kv)) (\<lambda>vs.
        let srv = AddService (AddService MakeServer (kvsvc kv)) (rfsvc (skRf kv));
            rn1 = rn\<lparr>store := store rn @ [srv]\<rparr> in
        rbind (setGroup gi (gg\<lparr>gsaved := ss, gservers := vs\<rparr>)
          (cfg\<lparr>xNet := AddServer rn1 (servername (ggid gg) i) (length (store rn))\<rparr>)) (\<lambda>c. Inr (Some c)))))"

definition shard_StartServer :: "(string ShardKV \<Rightarrow> 'st service) \<Rightarrow> (unit Raft \<Rightarrow> 'st service) \<Rightarrow> int \<Rightarrow> int \<Rightarrow> (string \<Rightarrow> string) \<Rightarrow>
    (int \<Rightarrow> string) \<Rightarrow> (int \<Rightarrow> string) \<Rightarrow> int \<Rightarrow> int \<Rightarrow> 'st shard_config \<Rightarrow> 'st shard_config option res" where
  "shard_StartServer kvsvc rfsvc now rnd endOf name mname gi i cfg =
    rbind (groupAt gi cfg) (\<lambda>gg.
    rbind (serverEnds name mname i gg cfg) (\<lambda>(gg1, rn).
    launchServer kvsvc rfsvc now rnd endOf (map mname (indices 0 (xNctrlers cfg))) gi i gg1 rn cfg))"

text \<open>A loop of operations of which each may never return.\<close>

definition for_done :: "'i list \<Rightarrow> ('i \<Rightarrow> 's \<Rightarrow> 's option res) \<Rightarrow> 's \<Rightarrow> 's option res" where
  "for_done is f s = for_each is (\<lambda>i r. case r of None \<Rightarrow> Inr None | Some t \<Rightarrow> f i t) (Some s)"

definition StartGroup :: "(string ShardKV \<Rightarrow> 'st service) \<Rightarrow> (unit Raft \<Rightarrow> 'st service) \<Rightarrow> int \<Rightarrow> int \<Rightarrow> (string \<Rightarrow> string) \<Rightarrow>
    (int \<Rightarrow> int \<Rightarrow> string) \<Rightarrow> (int \<Rightarrow> int \<Rightarrow> string) \<Rightarrow> int \<Rightarrow> 'st shard_config \<Rightarrow> 'st shard_config option res" where
  "StartGroup kvsvc rfsvc now rnd endOf name mname gi cfg =
    for_done (indices 0 (xN cfg)) (\<lambda>i. shard_StartServer kvsvc rfsvc now rnd endOf (name i) (mname i) gi i) cfg"

definition StartCtrlerserver :: "(ShardCtrler \<Rightarrow> 'st service) \<Rightarrow> (unit Raft \<Rightarrow> 'st service) \<Rightarrow> int \<Rightarrow> int \<Rightarrow> (int \<Rightarrow> string) \<Rightarrow> int \<Rightarrow>
    'st shard_config \<Rightarrow> 'st shard_config option res" where
  "StartCtrlerserver scsvc rfsvc now rnd name i cfg =
    rbind (ctrlerEnds name cfg) (\<lambda>cfg1.
    case ShardCtrler_StartServer (xNctrlers cfg) i MakePersister now rnd of
      None \<Rightarrow> Inr None
    | Some sc \<Rightarrow>
        rbind (go_upd (xCtrlers cfg1) i (Some sc)) (\<lambda>cs.
        let srv = AddService (AddService MakeServer (scsvc sc)) (rfsvc (ShardCtrler_Raft sc));
            rn = xNet cfg1;
            rn1 = rn\<lparr>store := store rn @ [srv]\<rparr> in
        Inr (Some (cfg1\<lparr>xCtrlers := cs, xNet := AddServer rn1 (ctrlername i) (length (store rn))\<rparr>))))"

section \<open>Telling the controller\<close>

definition joinServers :: "int list \<Rightarrow> 'st shard_config \<Rightarrow> (int \<rightharpoonup> string list) res" where
  "joinServers gis cfg =
    for_each gis (\<lambda>g m. rbind (groupAt g cfg) (\<lambda>gg. Inr (m(ggid gg \<mapsto> map (servername (ggid gg)) (indices 0 (xN cfg)))))) Map.empty"

definition joinm :: "(JoinArgs \<Rightarrow> nat \<Rightarrow> string \<Rightarrow> CtrlReply option) \<Rightarrow> nat \<Rightarrow> int list \<Rightarrow> 'st shard_config \<Rightarrow> unit option res" where
  "joinm net fuel gis cfg = rbind (joinServers gis cfg) (\<lambda>m. Inr (Join net fuel (xMck cfg) m))"

definition shard_join :: "(JoinArgs \<Rightarrow> nat \<Rightarrow> string \<Rightarrow> CtrlReply option) \<Rightarrow> nat \<Rightarrow> int \<Rightarrow> 'st shard_config \<Rightarrow> unit option res" where
  "shard_join net fuel gi cfg = joinm net fuel [gi] cfg"

definition leavem :: "(LeaveArgs \<Rightarrow> nat \<Rightarrow> string \<Rightarrow> CtrlReply option) \<Rightarrow> nat \<Rightarrow> int list \<Rightarrow> 'st shard_config \<Rightarrow> unit option res" where
  "leavem net fuel gis cfg =
    rbind (for_each gis (\<lambda>g gids. rbind (groupAt g cfg) (\<lambda>gg. Inr (gids @ [ggid gg]))) []) (\<lambda>gids.
    Inr (Leave net fuel (xMck cfg) gids))"

definition shard_leave :: "(LeaveArgs \<Rightarrow> nat \<Rightarrow> string \<Rightarrow> CtrlReply option) \<Rightarrow> nat \<Rightarrow> int \<Rightarrow> 'st shard_config \<Rightarrow> unit option res" where
  "shard_leave net fuel gi cfg = leavem net fuel [gi] cfg"

section \<open>The whole configuration\<close>

text \<open>The random names of \<open>make_config\<close>: for the controllers, their clerk, and the servers of each group.\<close>

record shardNames =
  nCtrler :: "int \<Rightarrow> int \<Rightarrow> string"
  nMck :: "int \<Rightarrow> string"
  nServer :: "int \<Rightarrow> int \<Rightarrow> int \<Rightarrow> string"
  nMends :: "int \<Rightarrow> int \<Rightarrow> int \<Rightarrow> string"

text \<open>\<open>mendnames\<close> has one place for each controller, but is filled for each server of the group.\<close>

definition newGroup :: "int \<Rightarrow> 'st shard_config \<Rightarrow> group" where
  "newGroup gi cfg = \<lparr>ggid = 100 + gi, gservers = replicate (nat (xN cfg)) None, gsaved = replicate (nat (xN cfg)) None,
     gendnames = replicate (nat (xN cfg)) [], gmendnames = replicate (nat (xNctrlers cfg)) []\<rparr>"

definition makeGroup :: "(string ShardKV \<Rightarrow> 'st service) \<Rightarrow> (unit Raft \<Rightarrow> 'st service) \<Rightarrow> int \<Rightarrow> int \<Rightarrow> (string \<Rightarrow> string) \<Rightarrow> shardNames \<Rightarrow>
    int \<Rightarrow> 'st shard_config \<Rightarrow> 'st shard_config option res" where
  "makeGroup kvsvc rfsvc now rnd endOf ns gi cfg =
    rbind (setGroup gi (newGroup gi cfg) cfg) (\<lambda>cfg1.
    for_done (indices 0 (xN cfg1)) (\<lambda>i. shard_StartServer kvsvc rfsvc now rnd endOf (nServer ns gi i) (nMends ns gi i) gi i) cfg1)"

definition emptyShard :: "int \<Rightarrow> 'st shard_config" where
  "emptyShard maxraft = \<lparr>xNet = MakeNetwork, xNctrlers = 3, xCtrlers = replicate 3 None, xMck = [], xNgroups = 0, xN = 0, xGroups = [],
     xClerks = Map.empty, xNextClientId = 0, xMaxraftstate = maxraft\<rparr>"

text \<open>The controllers and their clerk.\<close>

definition startControllers :: "(ShardCtrler \<Rightarrow> 'st service) \<Rightarrow> (unit Raft \<Rightarrow> 'st service) \<Rightarrow> int \<Rightarrow> int \<Rightarrow> shardNames \<Rightarrow>
    'st shard_config \<Rightarrow> 'st shard_config option res" where
  "startControllers scsvc rfsvc now rnd ns cfg =
    rbind (for_done (indices 0 (xNctrlers cfg)) (\<lambda>i. StartCtrlerserver scsvc rfsvc now rnd (nCtrler ns i) i) cfg) (\<lambda>r.
    case r of None \<Rightarrow> Inr None | Some cfg1 \<Rightarrow>
    rbind (shardclerk (nMck ns) cfg1) (\<lambda>(cfg2, mck). Inr (Some (cfg2\<lparr>xMck := mck\<rparr>))))"

definition shard_make_config :: "(string ShardKV \<Rightarrow> 'st service) \<Rightarrow> (ShardCtrler \<Rightarrow> 'st service) \<Rightarrow> (unit Raft \<Rightarrow> 'st service) \<Rightarrow> int \<Rightarrow> int \<Rightarrow>
    (string \<Rightarrow> string) \<Rightarrow> shardNames \<Rightarrow> int \<Rightarrow> bool \<Rightarrow> int \<Rightarrow> 'st shard_config option res" where
  "shard_make_config kvsvc scsvc rfsvc now rnd endOf ns n unreliable maxraft =
    rbind (startControllers scsvc rfsvc now rnd ns (emptyShard maxraft)) (\<lambda>r.
    case r of None \<Rightarrow> Inr None | Some cfg1 \<Rightarrow>
    let cfg2 = cfg1\<lparr>xNgroups := 3, xGroups := replicate 3 None, xN := n\<rparr> in
    rbind (for_done (indices 0 (xNgroups cfg2)) (makeGroup kvsvc rfsvc now rnd endOf ns) cfg2) (\<lambda>r.
    case r of None \<Rightarrow> Inr None | Some cfg3 \<Rightarrow>
    Inr (Some (cfg3\<lparr>xClerks := Map.empty, xNextClientId := xN cfg3 + 1000, xNet := Reliable (xNet cfg3) (\<not> unreliable)\<rparr>))))"

section \<open>Checks and the end of a test\<close>

text \<open>\<open>bytesOf\<close> is the number of bytes of an encoded state.\<close>

definition checklog1 :: "(unit gob list \<Rightarrow> int) \<Rightarrow> int \<Rightarrow> unit Persister option \<Rightarrow> unit res" where
  "checklog1 bytesOf maxraft sv = (case sv of
     None \<Rightarrow> Inl NilDereference
   | Some ps \<Rightarrow>
       let raft = bytesOf (raftstate ps); snap = len (ReadSnapshot ps) in
       if maxraft \<ge> 0 \<and> raft > 8 * maxraft then Inl (TestFatal ''persister.RaftStateSize() too big'')
       else if maxraft < 0 \<and> snap > 0 then Inl (TestFatal ''maxraftstate is -1, but snapshot is non-empty!'')
       else Inr ())"

definition checklogs :: "(unit gob list \<Rightarrow> int) \<Rightarrow> 'st shard_config \<Rightarrow> unit res" where
  "checklogs bytesOf cfg =
    for_each (indices 0 (xNgroups cfg)) (\<lambda>gi u.
      for_each (indices 0 (xN cfg)) (\<lambda>i u.
        rbind (groupAt gi cfg) (\<lambda>gg. rbind (groupSaved i gg) (checklog1 bytesOf (xMaxraftstate cfg)))) ()) ()"

definition shard_checkTimeout :: "bool \<Rightarrow> int \<Rightarrow> unit res" where
  "shard_checkTimeout failed seconds = checkTimeout failed seconds"

definition shard_cleanup :: "bool \<Rightarrow> int \<Rightarrow> 'st shard_config \<Rightarrow> 'st shard_config res" where
  "shard_cleanup failed seconds cfg =
    rbind (for_each (indices 0 (xNgroups cfg)) ShutdownGroup cfg) (\<lambda>cfg1.
    rbind (for_each (indices 0 (xNctrlers cfg1))
      (\<lambda>i s. rbind (go_nth (xCtrlers s) i) (\<lambda>c. case c of
         None \<Rightarrow> Inl NilDereference
       | Some sc \<Rightarrow> rbind (go_upd (xCtrlers s) i (Some (ShardCtrler_Kill sc))) (\<lambda>cs. Inr (s\<lparr>xCtrlers := cs\<rparr>)))) cfg1) (\<lambda>cfg2.
    rbind (Cleanup (xNet cfg2)) (\<lambda>rn.
    rbind (shard_checkTimeout failed seconds) (\<lambda>u. Inr (cfg2\<lparr>xNet := rn\<rparr>)))))"

end
