(* ===== verification/ShardHarnessProperties.thy ===== *)
theory ShardHarnessProperties
  imports ShardHarness ServiceHarnessProperties
begin

text \<open>
  The harness of the sharded store: \<open>make_config\<close> starts the controllers and all servers of the groups,
  whose names tell groups apart, and it works for groups of three only.
\<close>

section \<open>Networks that grow\<close>

definition netGrows :: "('n, 'st) Network \<Rightarrow> ('n, 'st) Network \<Rightarrow> bool" where
  "netGrows net net' \<longleftrightarrow> (\<forall>s. serverAt net s \<noteq> None \<longrightarrow> serverAt net' s \<noteq> None) \<and>
    (\<forall>x. ends net x \<longrightarrow> ends net' x \<and> connectedTo net' x = connectedTo net x \<and> isEnabled net' x = isEnabled net x)"

lemma netGrows_refl [simp]: "netGrows net net"
  by (simp add: netGrows_def)

lemma netGrows_trans: "netGrows a b \<Longrightarrow> netGrows b c \<Longrightarrow> netGrows a c"
  unfolding netGrows_def by metis

lemma makeEndTo_grows:
  assumes "makeEndTo name s rn = Inr rn'"
  shows "netGrows rn rn'" "ends rn' name" "connectedTo rn' name = Some s" "isEnabled rn' name"
  using assms
  by (auto simp: makeEndTo_def MakeEnd_def Connect_def Enable_def netGrows_def serverAt_def connectedTo_def isEnabled_def split: if_splits)

lemma makeEnds_grow:
  assumes "for_each js (\<lambda>j rn. makeEndTo (name j) (target j) rn) rn = Inr rn'"
  shows "netGrows rn rn' \<and> (\<forall>j \<in> set js. ends rn' (name j) \<and> connectedTo rn' (name j) = Some (target j) \<and> isEnabled rn' (name j))"
  using assms
proof (induction js arbitrary: rn)
  case (Cons j js)
  then obtain rn1 where rn1: "makeEndTo (name j) (target j) rn = Inr rn1" "for_each js (\<lambda>j rn. makeEndTo (name j) (target j) rn) rn1 = Inr rn'"
    by (auto simp: rbind_eq_Inr)
  note one = makeEndTo_grows [OF rn1(1)] and ih = Cons.IH [OF rn1(2)]
  have "ends rn' (name j) \<and> connectedTo rn' (name j) = Some (target j) \<and> isEnabled rn' (name j)"
    using ih one(2-4) unfolding netGrows_def by metis
  then show ?case using ih netGrows_trans [OF one(1)] by auto
qed simp

lemma AddServer_grows:
  "netGrows rn (AddServer (rn\<lparr>store := st\<rparr>) s p)" "serverAt (AddServer (rn\<lparr>store := st\<rparr>) s p) s \<noteq> None"
  by (auto simp: netGrows_def AddServer_def serverAt_def connectedTo_def isEnabled_def)

section \<open>Configurations that grow\<close>

definition grows :: "'st shard_config \<Rightarrow> 'st shard_config \<Rightarrow> bool" where
  "grows c c' \<longleftrightarrow> xN c' = xN c \<and> xNctrlers c' = xNctrlers c \<and> xMck c' = xMck c \<and> length (xGroups c') = length (xGroups c) \<and>
    netGrows (xNet c) (xNet c') \<and>
    (\<forall>g gg. groupAt g c = Inr gg \<longrightarrow> (\<exists>gg'. groupAt g c' = Inr gg' \<and> ggid gg' = ggid gg \<and> length (gmendnames gg') = length (gmendnames gg)))"

lemma grows_refl [simp]: "grows c c"
  by (simp add: grows_def)

lemma grows_trans: "grows a b \<Longrightarrow> grows b c \<Longrightarrow> grows a c"
  unfolding grows_def by (metis netGrows_trans)

lemma growsD: "grows c c' \<Longrightarrow> groupAt g c = Inr gg \<Longrightarrow> groupAt g c' = Inr gg' \<Longrightarrow>
    ggid gg' = ggid gg \<and> length (gmendnames gg') = length (gmendnames gg)"
  unfolding grows_def by fastforce

lemma groupAt_set:
  assumes "setGroup gi gg c = Inr c'"
  shows "groupAt g c' = (if g = gi then Inr gg else groupAt g c)" "length (xGroups c') = length (xGroups c)"
    "xNet c' = xNet c" "xN c' = xN c" "xNctrlers c' = xNctrlers c" "xMck c' = xMck c" "0 \<le> gi" "gi < len (xGroups c)"
proof -
  from assms obtain gs where gs: "go_upd (xGroups c) gi (Some gg) = Inr gs" "c' = c\<lparr>xGroups := gs\<rparr>" by (auto simp: setGroup_def rbind_eq_Inr)
  note u = go_upd_Inr [OF gs(1)]
  show "groupAt g c' = (if g = gi then Inr gg else groupAt g c)" using u gs(2) by (auto simp: groupAt_def go_nth_def)
qed (use assms in \<open>auto simp: setGroup_def rbind_eq_Inr len_def dest!: go_upd_Inr\<close>)

lemma groupAt_net [simp]: "groupAt g (c\<lparr>xNet := net\<rparr>) = groupAt g c"
  by (simp add: groupAt_def)

lemma launchServer_set:
  assumes "launchServer kvsvc rfsvc now rnd endOf mends gi i gg rn c = Inr (Some c')"
  shows "\<exists>ss kv st p. setGroup gi (gg\<lparr>gsaved := ss, gservers := (gservers gg)[nat i := Some kv]\<rparr>)
      (c\<lparr>xNet := AddServer (rn\<lparr>store := st\<rparr>) (servername (ggid gg) i) p\<rparr>) = Inr c' \<and>
      0 \<le> i \<and> i < len (gservers gg) \<and> length ss = length (gsaved gg)"
proof -
  from assms obtain sv where "rbind (go_upd (gsaved gg) i (Some sv)) (\<lambda>ss.
      case ShardKV_StartServer (xN c) i sv (xMaxraftstate c) (ggid gg) mends endOf now rnd of None \<Rightarrow> Inr None
      | Some kv \<Rightarrow> rbind (go_upd (gservers gg) i (Some kv)) (\<lambda>vs. rbind (setGroup gi (gg\<lparr>gsaved := ss, gservers := vs\<rparr>)
          (c\<lparr>xNet := AddServer (rn\<lparr>store := store rn @ [AddService (AddService MakeServer (kvsvc kv)) (rfsvc (skRf kv))]\<rparr>)
             (servername (ggid gg) i) (length (store rn))\<rparr>)) (\<lambda>c. Inr (Some c)))) = Inr (Some c')"
    unfolding launchServer_def Let_def rbind_eq_Inr [of "groupSaved i gg"] by blast
  then show ?thesis by (auto simp: rbind_eq_Inr len_def split: option.splits dest!: go_upd_Inr) (metis length_list_update)
qed

lemma StartServer_grows:
  assumes "shard_StartServer kvsvc rfsvc now rnd endOf name mname gi i c = Inr (Some c')"
  shows "\<exists>gg. groupAt gi c = Inr gg \<and> grows c c' \<and> 0 \<le> i \<and> i < len (gmendnames gg) \<and> serverAt (xNet c') (servername (ggid gg) i) \<noteq> None"
proof -
  from assms obtain gg gg1 rn where s: "groupAt gi c = Inr gg" "serverEnds name mname i gg c = Inr (gg1, rn)"
    "launchServer kvsvc rfsvc now rnd endOf (map mname (indices 0 (xNctrlers c))) gi i gg1 rn c = Inr (Some c')"
    by (auto simp: shard_StartServer_def rbind_eq_Inr)
  from s(2) obtain ens mens rn1 where e: "for_each (indices 0 (xN c)) (\<lambda>j rn. makeEndTo (name j) (servername (ggid gg) j) rn) (xNet c) = Inr rn1"
    "for_each (indices 0 (xNctrlers c)) (\<lambda>j rn. makeEndTo (mname j) (ctrlername j) rn) rn1 = Inr rn"
    "go_upd (gmendnames gg) i (map mname (indices 0 (xNctrlers c))) = Inr mens" "gg1 = gg\<lparr>gendnames := ens, gmendnames := mens\<rparr>"
    by (auto simp: serverEnds_def rbind_eq_Inr)
  from launchServer_set [OF s(3)] obtain ss vs st p where
    l: "setGroup gi (gg1\<lparr>gsaved := ss, gservers := vs\<rparr>) (c\<lparr>xNet := AddServer (rn\<lparr>store := st\<rparr>) (servername (ggid gg) i) p\<rparr>) = Inr c'"
    using e(4) by fastforce
  note u = go_upd_Inr [OF e(3)] and g = groupAt_set [OF l, simplified]
  have "netGrows (xNet c) rn"
    by (rule netGrows_trans [OF conjunct1 [OF makeEnds_grow [OF e(1)]] conjunct1 [OF makeEnds_grow [OF e(2)]]])
  then have n: "netGrows (xNet c) (xNet c')" unfolding g(3) by (rule netGrows_trans) (rule AddServer_grows(1))
  have "grows c c'" unfolding grows_def using n g(1,2,4-6) s(1) e(4) u by simp
  moreover have "serverAt (xNet c') (servername (ggid gg) i) \<noteq> None" unfolding g(3) by (rule AddServer_grows(2))
  ultimately show ?thesis using s(1) u by (auto simp: len_def)
qed

section \<open>The loops of make\_config\<close>

lemma for_done_indices:
  assumes "for_done (indices 0 (int m)) f s = Inr (Some t)" "P 0 s"
    and step: "\<And>k s t. k < m \<Longrightarrow> P k s \<Longrightarrow> f (int k) s = Inr (Some t) \<Longrightarrow> P (Suc k) t"
  shows "P m t"
  using assms
proof (induction m arbitrary: t)
  case 0
  then show ?case by (simp add: for_done_def)
next
  case (Suc m)
  have "indices 0 (int (Suc m)) = indices 0 (int m) @ [int m]" by (simp add: indices_def del: of_nat_Suc)
  with Suc.prems(1) obtain u where "for_done (indices 0 (int m)) f s = Inr (Some u)" "f (int m) u = Inr (Some t)"
    by (auto simp: for_done_def for_each_snoc rbind_eq_Inr split: option.splits)
  with Suc show ?case by simp
qed

lemma indices_nat: "indices 0 n = indices 0 (int (nat n))"
  by (simp add: indices_def)

definition groupReady :: "int \<Rightarrow> int \<Rightarrow> 'st shard_config \<Rightarrow> bool" where
  "groupReady n g c \<longleftrightarrow> (\<exists>gg. groupAt g c = Inr gg \<and> ggid gg = 100 + g) \<and>
    (\<forall>i. 0 \<le> i \<and> i < n \<longrightarrow> serverAt (xNet c) (servername (100 + g) i) \<noteq> None)"

lemma groupReady_grows: "groupReady n g c \<Longrightarrow> grows c c' \<Longrightarrow> groupReady n g c'"
  unfolding groupReady_def grows_def netGrows_def by metis

lemma makeGroup_ready:
  assumes m: "makeGroup kvsvc rfsvc now rnd endOf ns gi c = Inr (Some c')" and three: "xNctrlers c = 3"
  shows "groupReady (xN c) gi c'" "xN c \<le> 3" "groupReady n g c \<Longrightarrow> g \<noteq> gi \<Longrightarrow> groupReady n g c'"
    "xN c' = xN c" "xNctrlers c' = xNctrlers c" "xMck c' = xMck c" "netGrows (xNet c) (xNet c')"
proof -
  let ?start = "\<lambda>i. shard_StartServer kvsvc rfsvc now rnd endOf (nServer ns gi i) (nMends ns gi i) gi i"
  from m obtain c1 where c1: "setGroup gi (newGroup gi c) c = Inr c1" "for_done (indices 0 (xN c1)) ?start c1 = Inr (Some c')"
    by (auto simp: makeGroup_def rbind_eq_Inr)
  note g = groupAt_set [OF c1(1)]
  define P where "P k s \<longleftrightarrow> grows c1 s \<and> (\<forall>i < k. serverAt (xNet s) (servername (100 + gi) (int i)) \<noteq> None \<and> i < 3)" for k s
  have "P (nat (xN c1)) c'"
  proof (rule for_done_indices [OF c1(2) [unfolded indices_nat [of "xN c1"]]])
    show "P 0 c1" by (simp add: P_def)
    fix k s s' assume k: "P k s" "?start (int k) s = Inr (Some s')"
    obtain gg where gg: "groupAt gi s = Inr gg" "grows s s'" "int k < len (gmendnames gg)" "serverAt (xNet s') (servername (ggid gg) (int k)) \<noteq> None"
      using StartServer_grows [OF k(2)] by blast
    have "ggid gg = 100 + gi" "length (gmendnames gg) = 3"
      using growsD [of c1 s gi "newGroup gi c" gg] k(1) g(1) [of gi] gg(1) three by (simp_all add: P_def newGroup_def)
    then have "serverAt (xNet s') (servername (100 + gi) (int i)) \<noteq> None \<and> i < 3" if "i < Suc k" for i
      using that gg(2-4) k(1) by (cases "i = k") (auto simp: P_def len_def grows_def netGrows_def)
    then show "P (Suc k) s'" using k(1) gg(2) grows_trans unfolding P_def by blast
  qed
  then have grow: "grows c1 c'" and live: "serverAt (xNet c') (servername (100 + gi) (int i)) \<noteq> None \<and> i < 3" if "i < nat (xN c)" for i
    using that g(4) by (simp_all add: P_def)
  show "xN c \<le> 3"
  proof (rule ccontr)
    assume "\<not> xN c \<le> 3"
    then have "3 < nat (xN c)" by linarith
    then show False using live [of 3] by simp
  qed
  from \<open>P (nat (xN c1)) c'\<close> have grow: "grows c1 c'" by (simp add: P_def)
  show "groupReady (xN c) gi c'" unfolding groupReady_def
  proof (intro conjI allI impI)
    show "\<exists>gg. groupAt gi c' = Inr gg \<and> ggid gg = 100 + gi" 
    proof -
      have "groupAt gi c1 = Inr (newGroup gi c)" using g(1) by simp
      then have "\<exists>gg. groupAt gi c' = Inr gg \<and> ggid gg = ggid (newGroup gi c)" using grow unfolding grows_def by blast
      then show ?thesis by (simp add: newGroup_def)
    qed
    show "serverAt (xNet c') (servername (100 + gi) i) \<noteq> None" if "0 \<le> i \<and> i < xN c" for i
      using live [of "nat i"] that by simp
  qed
  show "groupReady n g c'" if "groupReady n g c" "g \<noteq> gi"
  proof (rule groupReady_grows [OF _ grow])
    show "groupReady n g c1" using that g(1) [of g] g(3) by (simp add: groupReady_def)
  qed
  show "xN c' = xN c" "xNctrlers c' = xNctrlers c" "xMck c' = xMck c" "netGrows (xNet c) (xNet c')" using grow g(3-6) by (auto simp: grows_def)
qed

lemma StartCtrlerserver_grows:
  assumes "StartCtrlerserver scsvc rfsvc now rnd name i c = Inr (Some c')"
  shows "netGrows (xNet c) (xNet c')" "serverAt (xNet c') (ctrlername i) \<noteq> None" "xNctrlers c' = xNctrlers c"
proof -
  from assms obtain rn st p where s: "for_each (indices 0 (xNctrlers c)) (\<lambda>j rn. makeEndTo (name j) (ctrlername j) rn) (xNet c) = Inr rn"
    "xNet c' = AddServer (rn\<lparr>store := st\<rparr>) (ctrlername i) p" "xNctrlers c' = xNctrlers c"
    by (auto simp: StartCtrlerserver_def ctrlerEnds_def rbind_eq_Inr Let_def split: option.splits)
  show "netGrows (xNet c) (xNet c')" unfolding s(2) by (rule netGrows_trans [OF conjunct1 [OF makeEnds_grow [OF s(1)]] AddServer_grows(1)])
  show "serverAt (xNet c') (ctrlername i) \<noteq> None" unfolding s(2) by (rule AddServer_grows(2))
  show "xNctrlers c' = xNctrlers c" by (rule s(3))
qed

section \<open>Names tell servers apart\<close>

lemma Itoa_no_minus: "0 \<le> n \<Longrightarrow> CHR ''-'' \<notin> set (Itoa n)"
  using digitsOf_digits minus_no_digit by (auto simp: Itoa_def)

lemma servername_inj:
  assumes "0 \<le> gid" "0 \<le> gid'"
  shows "servername gid i = servername gid' i' \<longleftrightarrow> gid = gid' \<and> i = i'"
proof
  assume "servername gid i = servername gid' i'"
  then have eq: "Itoa gid @ CHR ''-'' # Itoa i = Itoa gid' @ CHR ''-'' # Itoa i'" by (simp add: servername_def)
  let ?f = "takeWhile (\<lambda>c. c \<noteq> CHR ''-'')"
  have "?f (Itoa g @ CHR ''-'' # s) = Itoa g" if "0 \<le> g" for g s
    using Itoa_no_minus [OF that] by (subst takeWhile_append2) auto
  then have "Itoa gid = Itoa gid'" using eq assms by metis
  then show "gid = gid' \<and> i = i'" using eq by (simp add: Itoa_inj)
qed simp

section \<open>What make\_config builds\<close>

definition ctrlersReady :: "'st shard_config \<Rightarrow> bool" where
  "ctrlersReady c \<longleftrightarrow> (\<forall>j. 0 \<le> j \<and> j < 3 \<longrightarrow> serverAt (xNet c) (ctrlername j) \<noteq> None \<and>
    (\<exists>e. go_nth (xMck c) j = Inr e \<and> ends (xNet c) e \<and> connectedTo (xNet c) e = Some (ctrlername j) \<and> isEnabled (xNet c) e))"

lemma ctrlersReady_grows: "ctrlersReady c \<Longrightarrow> netGrows (xNet c) (xNet c') \<Longrightarrow> xMck c' = xMck c \<Longrightarrow> ctrlersReady c'"
  unfolding ctrlersReady_def netGrows_def by metis

lemma shardclerk_ready:
  assumes "shardclerk name c = Inr (c', mck)" "xNctrlers c = 3" "\<And>j. 0 \<le> j \<Longrightarrow> j < 3 \<Longrightarrow> serverAt (xNet c) (ctrlername j) \<noteq> None"
  shows "ctrlersReady (c'\<lparr>xMck := mck\<rparr>)" "xNctrlers c' = 3"
proof -
  from assms(1,2) obtain rn where rn: "for_each (indices 0 3) (\<lambda>j rn. makeEndTo (name j) (ctrlername j) rn) (xNet c) = Inr rn"
    "c' = c\<lparr>xNet := rn\<rparr>" "mck = map name (indices 0 3)" by (auto simp: shardclerk_def ctrlerEnds_def rbind_eq_Inr)
  note grow = makeEnds_grow [OF rn(1)]
  have nth: "go_nth mck j = Inr (name j)" if "0 \<le> j" "j < 3" for j using that unfolding rn(3) by (simp add: go_nth_map_indices)
  have "serverAt rn (ctrlername j) \<noteq> None" if "0 \<le> j" "j < 3" for j using assms(3) [OF that] grow by (simp add: netGrows_def)
  then show "ctrlersReady (c'\<lparr>xMck := mck\<rparr>)" unfolding ctrlersReady_def using grow nth rn(2) by simp
  show "xNctrlers c' = 3" using rn(2) assms(2) by simp
qed

lemma emptyShard_ctrlers [simp]: "xNctrlers (emptyShard maxraft) = 3"
  by (simp add: emptyShard_def)

lemma startControllers_ready:
  assumes "startControllers scsvc rfsvc now rnd ns c = Inr (Some c')" "xNctrlers c = 3"
  shows "ctrlersReady c'" "xNctrlers c' = 3"
proof -
  let ?ctrl = "\<lambda>i. StartCtrlerserver scsvc rfsvc now rnd (nCtrler ns i) i"
  from assms obtain c1 c2 mck where c: "for_done (indices 0 3) ?ctrl c = Inr (Some c1)" "shardclerk (nMck ns) c1 = Inr (c2, mck)" "c' = c2\<lparr>xMck := mck\<rparr>"
    by (auto simp: startControllers_def rbind_eq_Inr split: option.splits)
  have three: "indices 0 (3 :: int) = indices 0 (int 3)" by simp
  have 1: "xNctrlers c1 = 3 \<and> (\<forall>j < 3. serverAt (xNet c1) (ctrlername (int j)) \<noteq> None)"
  proof (rule for_done_indices [OF c(1) [unfolded three], where P = "\<lambda>k s. xNctrlers s = 3 \<and> (\<forall>j < k. serverAt (xNet s) (ctrlername (int j)) \<noteq> None)"])
    fix k s s' assume "xNctrlers s = 3 \<and> (\<forall>j < k. serverAt (xNet s) (ctrlername (int j)) \<noteq> None)" "?ctrl (int k) s = Inr (Some s')"
    with StartCtrlerserver_grows [of scsvc rfsvc now rnd "nCtrler ns (int k)" "int k" s s']
    show "xNctrlers s' = 3 \<and> (\<forall>j < Suc k. serverAt (xNet s') (ctrlername (int j)) \<noteq> None)" by (auto simp: less_Suc_eq netGrows_def)
  qed (simp add: assms(2))
  have live: "serverAt (xNet c1) (ctrlername j) \<noteq> None" if "0 \<le> j" "j < 3" for j
    using conjunct2 [OF 1, rule_format, of "nat j"] that by simp
  note clerk = shardclerk_ready [OF c(2) conjunct1 [OF 1] live]
  show "ctrlersReady c'" "xNctrlers c' = 3" using clerk by (simp_all add: c(3))
qed

lemma shard_make_config_ready:
  fixes cfg :: "'a shard_config"
  assumes "shard_make_config kvsvc scsvc rfsvc now rnd endOf ns n unreliable maxraft = Inr (Some cfg)"
  shows "n \<le> 3" "xN cfg = n" "xNctrlers cfg = 3" "ctrlersReady cfg" "0 \<le> g \<Longrightarrow> g < 3 \<Longrightarrow> groupReady n g cfg"
proof -
  let ?group = "makeGroup kvsvc rfsvc now rnd endOf ns"
  from assms obtain c1 c4 where c: "startControllers scsvc rfsvc now rnd ns (emptyShard maxraft) = Inr (Some c1)"
    "for_done (indices 0 3) ?group (c1\<lparr>xNgroups := 3, xGroups := replicate 3 None, xN := n\<rparr>) = Inr (Some c4)"
    "cfg = c4\<lparr>xClerks := Map.empty, xNextClientId := xN c4 + 1000, xNet := Reliable (xNet c4) (\<not> unreliable)\<rparr>"
    unfolding shard_make_config_def Let_def by (auto simp: rbind_eq_Inr split: option.splits)
  have three: "indices 0 (3 :: int) = indices 0 (int 3)" by simp
  note start = startControllers_ready [OF c(1) emptyShard_ctrlers]
  define P where "P k s \<longleftrightarrow> xN s = n \<and> xNctrlers s = 3 \<and> ctrlersReady s \<and> (0 < k \<longrightarrow> n \<le> 3) \<and> (\<forall>g < k. groupReady n (int g) s)" for k and s :: "'a shard_config"
  have "P 3 c4"
  proof (rule for_done_indices [OF c(2) [unfolded three]])
    show "P 0 (c1\<lparr>xNgroups := 3, xGroups := replicate 3 None, xN := n\<rparr>)" using start by (simp add: P_def ctrlersReady_def)
    fix k s s' assume k: "P k s" "?group (int k) s = Inr (Some s')"
    have s: "xNctrlers s = 3" "xN s = n" "ctrlersReady s" "\<And>g. g < k \<Longrightarrow> groupReady n (int g) s" using k(1) by (auto simp: P_def)
    note m = makeGroup_ready [OF k(2) s(1)]
    have "groupReady n (int g) s'" if "g < Suc k" for g using that m(1) m(3) [OF s(4), of g] s(2) by (cases "g = k") auto
    then show "P (Suc k) s'" using m(2,4-7) s(1-3) ctrlersReady_grows by (auto simp: P_def)
  qed
  then have P: "xN c4 = n" "xNctrlers c4 = 3" "ctrlersReady c4" "n \<le> 3" "g < 3 \<Longrightarrow> groupReady n (int g) c4" for g by (auto simp: P_def)
  show "n \<le> 3" "xN cfg = n" "xNctrlers cfg = 3" using P by (simp_all add: c(3))
  show "ctrlersReady cfg" using P(3) by (rule ctrlersReady_grows) (simp_all add: c(3) netGrows_def Reliable_def serverAt_def connectedTo_def isEnabled_def)
  show "groupReady n g cfg" if "0 \<le> g" "g < 3"
    using P(5) [of "nat g"] that by (simp add: groupReady_def c(3) groupAt_def Reliable_def serverAt_def)
qed

section \<open>With names that do not repeat, everything starts\<close>

text \<open>The places in which \<open>make_config\<close> and one call of \<open>makeClient\<close> need a random name.\<close>

datatype slot = SlotC int int | SlotM int | SlotS int int int | SlotE int int int | SlotK int

fun slotName :: "shardNames \<Rightarrow> (int \<Rightarrow> string) \<Rightarrow> slot \<Rightarrow> string" where
  "slotName ns name (SlotC i j) = nCtrler ns i j"
| "slotName ns name (SlotM j) = nMck ns j"
| "slotName ns name (SlotS g i j) = nServer ns g i j"
| "slotName ns name (SlotE g i j) = nMends ns g i j"
| "slotName ns name (SlotK j) = name j"

fun slotIn :: "slot \<Rightarrow> bool" where
  "slotIn (SlotC i j) = (0 \<le> i \<and> i < 3 \<and> 0 \<le> j \<and> j < 3)"
| "slotIn (SlotM j) = (0 \<le> j \<and> j < 3)"
| "slotIn (SlotS g i j) = (0 \<le> g \<and> g < 3 \<and> 0 \<le> i \<and> i < 3 \<and> 0 \<le> j \<and> j < 3)"
| "slotIn (SlotE g i j) = (0 \<le> g \<and> g < 3 \<and> 0 \<le> i \<and> i < 3 \<and> 0 \<le> j \<and> j < 3)"
| "slotIn (SlotK j) = (0 \<le> j \<and> j < 3)"

definition names_differ :: "shardNames \<Rightarrow> (int \<Rightarrow> string) \<Rightarrow> bool" where
  "names_differ ns name \<longleftrightarrow> inj_on (slotName ns name) {s. slotIn s}"

text \<open>Only names of the slots in \<open>S\<close> are in use.\<close>

definition usesOnly :: "shardNames \<Rightarrow> (int \<Rightarrow> string) \<Rightarrow> slot set \<Rightarrow> (string, 'st) Network \<Rightarrow> bool" where
  "usesOnly ns name S rn \<longleftrightarrow> S \<subseteq> {s. slotIn s} \<and> (\<forall>x. ends rn x \<longrightarrow> x \<in> slotName ns name ` S)"

lemma makeEnds_total:
  assumes ok: "names_differ ns name" and "usesOnly ns name S rn" "distinct js" "inj_on sl (set js)" "\<forall>j \<in> set js. slotIn (sl j) \<and> sl j \<notin> S"
  shows "\<exists>rn'. for_each js (\<lambda>j rn. makeEndTo (slotName ns name (sl j)) (target j) rn) rn = Inr rn' \<and> usesOnly ns name (S \<union> sl ` set js) rn'"
  using assms(2-)
proof (induction js arbitrary: rn S)
  case Nil
  then show ?case by simp
next
  case (Cons j js)
  have j: "slotIn (sl j)" "sl j \<notin> S" "S \<subseteq> {s. slotIn s}" using Cons.prems by (auto simp: usesOnly_def)
  have new: "\<not> ends rn (slotName ns name (sl j))"
  proof
    assume "ends rn (slotName ns name (sl j))"
    then obtain s where "s \<in> S" "slotName ns name s = slotName ns name (sl j)" using Cons.prems(1) by (fastforce simp: usesOnly_def)
    then show False using ok j unfolding names_differ_def inj_on_def by blast
  qed
  let ?rn = "Enable (Connect (rn\<lparr>ends := (ends rn)(slotName ns name (sl j) := True), enabled := (enabled rn)(slotName ns name (sl j) \<mapsto> False),
      connections := (connections rn)(slotName ns name (sl j) \<mapsto> None)\<rparr>) (slotName ns name (sl j)) (target j)) (slotName ns name (sl j)) True"
  have one: "makeEndTo (slotName ns name (sl j)) (target j) rn = Inr ?rn" using new by (simp add: makeEndTo_def MakeEnd_def)
  have "usesOnly ns name (insert (sl j) S) ?rn" using Cons.prems(1) j(1) by (auto simp: usesOnly_def Enable_def Connect_def)
  moreover have "distinct js" "inj_on sl (set js)" "\<forall>k \<in> set js. slotIn (sl k) \<and> sl k \<notin> insert (sl j) S"
    using Cons.prems(2-4) by (auto simp: inj_on_def)
  ultimately obtain rn' where "for_each js (\<lambda>j rn. makeEndTo (slotName ns name (sl j)) (target j) rn) ?rn = Inr rn'"
    "usesOnly ns name (insert (sl j) S \<union> sl ` set js) rn'" using Cons.IH by blast
  then show ?case using one by (intro exI [of _ rn']) simp
qed

lemma distinct_indices [simp]: "distinct (indices 0 n)"
  by (simp add: indices_def distinct_map inj_on_def)

lemma for_done_total:
  assumes "P 0 s" and step: "\<And>k s. k < m \<Longrightarrow> P k s \<Longrightarrow> \<exists>t. f (int k) s = Inr (Some t) \<and> P (Suc k) t"
  shows "\<exists>t. for_done (indices 0 (int m)) f s = Inr (Some t) \<and> P m t"
  using step
proof (induction m)
  case 0
  then show ?case using assms(1) by (simp add: for_done_def)
next
  case (Suc m)
  have "indices 0 (int (Suc m)) = indices 0 (int m) @ [int m]" by (simp add: indices_def del: of_nat_Suc)
  moreover obtain t where "for_done (indices 0 (int m)) f s = Inr (Some t)" "P m t" using Suc by auto
  moreover obtain u where "f (int m) t = Inr (Some u)" "P (Suc m) u" using Suc.prems [of m t] calculation(3) by auto
  ultimately show ?case by (auto simp: for_done_def for_each_snoc)
qed

lemma usesOnly_AddServer: "usesOnly ns name S rn \<Longrightarrow> usesOnly ns name S (AddServer (rn\<lparr>store := st\<rparr>) s p)"
  by (simp add: usesOnly_def AddServer_def)

text \<open>The controllers.\<close>

definition ctrlSlots :: "nat \<Rightarrow> slot set" where
  "ctrlSlots k = {SlotC i j |i j. 0 \<le> i \<and> i < int k \<and> 0 \<le> j \<and> j < 3}"

lemma StartCtrlerserver_total:
  assumes ok: "names_differ ns name" and c: "xNctrlers c = 3" "length (xCtrlers c) = 3" "usesOnly ns name (ctrlSlots k) (xNet c)" and k: "k < 3"
  shows "\<exists>c'. StartCtrlerserver scsvc rfsvc now rnd (nCtrler ns (int k)) (int k) c = Inr (Some c') \<and>
    xNctrlers c' = 3 \<and> length (xCtrlers c') = 3 \<and> usesOnly ns name (ctrlSlots (Suc k)) (xNet c')"
proof -
  have "\<exists>rn. for_each (indices 0 3) (\<lambda>j rn. makeEndTo (slotName ns name (SlotC (int k) j)) (ctrlername j) rn) (xNet c) = Inr rn \<and>
      usesOnly ns name (ctrlSlots k \<union> SlotC (int k) ` set (indices 0 3)) rn"
    by (rule makeEnds_total [OF ok c(3)]) (use k in \<open>auto simp: ctrlSlots_def inj_on_def\<close>)
  moreover have "ctrlSlots k \<union> SlotC (int k) ` set (indices 0 3) = ctrlSlots (Suc k)" by (auto simp: ctrlSlots_def)
  ultimately obtain rn where rn: "for_each (indices 0 3) (\<lambda>j rn. makeEndTo (nCtrler ns (int k) j) (ctrlername j) rn) (xNet c) = Inr rn"
    "usesOnly ns name (ctrlSlots (Suc k)) rn" by auto
  have "\<exists>sc. ShardCtrler_StartServer 3 (int k) MakePersister now rnd = Some sc" by (simp add: ShardCtrler_StartServer_def Make_fresh)
  then show ?thesis using rn k c(1,2) usesOnly_AddServer [OF rn(2)]
    by (auto simp: StartCtrlerserver_def ctrlerEnds_def Let_def go_upd_def)
qed

definition clerkSlots :: "slot set" where
  "clerkSlots = ctrlSlots 3 \<union> {SlotM j |j. 0 \<le> j \<and> j < 3}"

lemma startControllers_total:
  assumes ok: "names_differ ns name"
  shows "\<exists>c. startControllers scsvc rfsvc now rnd ns (emptyShard maxraft) = Inr (Some c) \<and> xNctrlers c = 3 \<and> usesOnly ns name clerkSlots (xNet c)"
proof -
  let ?P = "\<lambda>k s. xNctrlers s = 3 \<and> length (xCtrlers s) = 3 \<and> usesOnly ns name (ctrlSlots k) (xNet s)"
  have "?P 0 (emptyShard maxraft)" by (auto simp: emptyShard_def usesOnly_def ctrlSlots_def MakeNetwork_def)
  then have "\<exists>t. for_done (indices 0 (int 3)) (\<lambda>i. StartCtrlerserver scsvc rfsvc now rnd (nCtrler ns i) i) (emptyShard maxraft) = Inr (Some t) \<and> ?P 3 t"
    by (rule for_done_total) (use StartCtrlerserver_total [OF ok] in blast)
  then obtain c1 where c1: "for_done (indices 0 3) (\<lambda>i. StartCtrlerserver scsvc rfsvc now rnd (nCtrler ns i) i) (emptyShard maxraft) = Inr (Some c1)"
    "xNctrlers c1 = 3" "usesOnly ns name (ctrlSlots 3) (xNet c1)" by auto
  have "\<exists>rn. for_each (indices 0 3) (\<lambda>j rn. makeEndTo (slotName ns name (SlotM j)) (ctrlername j) rn) (xNet c1) = Inr rn \<and>
      usesOnly ns name (ctrlSlots 3 \<union> SlotM ` set (indices 0 3)) rn"
    by (rule makeEnds_total [OF ok c1(3)]) (auto simp: ctrlSlots_def inj_on_def)
  moreover have "ctrlSlots 3 \<union> SlotM ` set (indices 0 3) = clerkSlots" by (auto simp: clerkSlots_def)
  ultimately obtain rn where "for_each (indices 0 3) (\<lambda>j rn. makeEndTo (nMck ns j) (ctrlername j) rn) (xNet c1) = Inr rn" "usesOnly ns name clerkSlots rn"
    by auto
  then show ?thesis using c1(1,2) by (auto simp: startControllers_def shardclerk_def ctrlerEnds_def)
qed

text \<open>The groups: names used before group \<open>g\<close>, and by its first \<open>k\<close> servers.\<close>

definition groupSlots :: "int \<Rightarrow> int \<Rightarrow> int \<Rightarrow> slot set" where
  "groupSlots n g k = {SlotS g i j |i j. 0 \<le> i \<and> i < k \<and> 0 \<le> j \<and> j < n} \<union> {SlotE g i j |i j. 0 \<le> i \<and> i < k \<and> 0 \<le> j \<and> j < 3}"

definition earlierSlots :: "int \<Rightarrow> int \<Rightarrow> slot set" where
  "earlierSlots n g = clerkSlots \<union> (\<Union>g' \<in> {0..<g}. groupSlots n g' n)"

definition groupOpen :: "int \<Rightarrow> int \<Rightarrow> nat \<Rightarrow> 'st shard_config \<Rightarrow> bool" where
  "groupOpen n g k c \<longleftrightarrow> xN c = n \<and> xNctrlers c = 3 \<and> length (xGroups c) = 3 \<and> (\<exists>gg. groupAt g c = Inr gg \<and>
    length (gservers gg) = nat n \<and> length (gsaved gg) = nat n \<and> length (gendnames gg) = nat n \<and> length (gmendnames gg) = 3 \<and>
    (\<forall>i. k \<le> i \<and> i < nat n \<longrightarrow> gservers gg ! i = None \<and> gsaved gg ! i = None))"

lemma slots_fresh:
  assumes "0 \<le> g" "g < 3" "n \<le> 3" "0 \<le> k" "k < n" "0 \<le> j"
  shows "j < n \<Longrightarrow> slotIn (SlotS g k j) \<and> SlotS g k j \<notin> earlierSlots n g \<union> groupSlots n g k"
    and "j < 3 \<Longrightarrow> slotIn (SlotE g k j) \<and> SlotE g k j \<notin> earlierSlots n g \<union> groupSlots n g k \<union> SlotS g k ` set (indices 0 n)"
  using assms by (auto simp: earlierSlots_def groupSlots_def clerkSlots_def ctrlSlots_def)

lemma groupSlots_next:
  assumes "0 \<le> k"
  shows "S \<union> groupSlots n g k \<union> SlotS g k ` set (indices 0 n) \<union> SlotE g k ` set (indices 0 3) = S \<union> groupSlots n g (k + 1)"
proof -
  have "groupSlots n g (k + 1) = groupSlots n g k \<union> SlotS g k ` {0..<n} \<union> SlotE g k ` {0..<3}"
    using assms unfolding groupSlots_def by (auto simp: le_less less_Suc_eq image_iff) (force+)?
  then show ?thesis by auto
qed

lemma launchServer_total:
  assumes g: "0 \<le> gi" "gi < int (length (xGroups c))" and i: "i < length (gservers gg)" "i < length (gsaved gg)"
    and none: "gservers gg ! i = None" "gsaved gg ! i = None"
  shows "\<exists>kv ps st. launchServer kvsvc rfsvc now rnd endOf mends gi (int i) gg rn c =
    Inr (Some (c\<lparr>xNet := AddServer (rn\<lparr>store := st\<rparr>) (servername (ggid gg) (int i)) (length (store rn)),
      xGroups := (xGroups c)[nat gi := Some (gg\<lparr>gsaved := (gsaved gg)[i := Some ps], gservers := (gservers gg)[i := Some kv]\<rparr>)]\<rparr>))"
proof -
  obtain kv where kv: "ShardKV_StartServer (xN c) (int i) MakePersister (xMaxraftstate c) (ggid gg) mends endOf now rnd = Some kv"
    by (simp add: ShardKV_StartServer_def Make_fresh)
  show ?thesis using g i none kv by (auto simp: launchServer_def Let_def groupSaved_def go_nth_def go_upd_def setGroup_def)
qed

lemma StartServer_total:
  assumes ok: "names_differ ns name" and g: "0 \<le> g" "g < 3" and n: "n \<le> 3" "int k < n" and o: "groupOpen n g k c"
    and u: "usesOnly ns name (earlierSlots n g \<union> groupSlots n g (int k)) (xNet c)"
  shows "\<exists>c'. shard_StartServer kvsvc rfsvc now rnd endOf (nServer ns g (int k)) (nMends ns g (int k)) g (int k) c = Inr (Some c') \<and>
    groupOpen n g (Suc k) c' \<and> usesOnly ns name (earlierSlots n g \<union> groupSlots n g (int (Suc k))) (xNet c')"
proof -
  let ?E = "earlierSlots n g \<union> groupSlots n g (int k)"
  obtain gg where gg: "groupAt g c = Inr gg" "length (gservers gg) = nat n" "length (gsaved gg) = nat n" "length (gendnames gg) = nat n"
    "length (gmendnames gg) = 3" "\<And>i. k \<le> i \<Longrightarrow> i < nat n \<Longrightarrow> gservers gg ! i = None \<and> gsaved gg ! i = None" and c: "xN c = n" "xNctrlers c = 3" "length (xGroups c) = 3"
    using o unfolding groupOpen_def by blast
  have kn: "k < nat n" "k < 3" using n by auto
  have "\<exists>rn. for_each (indices 0 n) (\<lambda>j rn. makeEndTo (slotName ns name (SlotS g (int k) j)) (servername (ggid gg) j) rn) (xNet c) = Inr rn \<and>
      usesOnly ns name (?E \<union> SlotS g (int k) ` set (indices 0 n)) rn"
    by (rule makeEnds_total [OF ok u]) (use slots_fresh(1) [OF g n(1) _ n(2)] in \<open>auto simp: inj_on_def\<close>)
  then obtain rn1 where rn1: "for_each (indices 0 n) (\<lambda>j rn. makeEndTo (nServer ns g (int k) j) (servername (ggid gg) j) rn) (xNet c) = Inr rn1"
    "usesOnly ns name (?E \<union> SlotS g (int k) ` set (indices 0 n)) rn1" by auto
  have "\<exists>rn. for_each (indices 0 3) (\<lambda>j rn. makeEndTo (slotName ns name (SlotE g (int k) j)) (ctrlername j) rn) rn1 = Inr rn \<and>
      usesOnly ns name (?E \<union> SlotS g (int k) ` set (indices 0 n) \<union> SlotE g (int k) ` set (indices 0 3)) rn"
    by (rule makeEnds_total [OF ok rn1(2)]) (use slots_fresh(2) [OF g n(1) _ n(2)] in \<open>auto simp: inj_on_def\<close>)
  then obtain rn2 where rn2: "for_each (indices 0 3) (\<lambda>j rn. makeEndTo (nMends ns g (int k) j) (ctrlername j) rn) rn1 = Inr rn2"
    "usesOnly ns name (earlierSlots n g \<union> groupSlots n g (int (Suc k))) rn2"
    using groupSlots_next [of "int k" "earlierSlots n g" n g] by (auto simp: add.commute)
  let ?gg = "gg\<lparr>gendnames := (gendnames gg)[k := map (nServer ns g (int k)) (indices 0 n)], gmendnames := (gmendnames gg)[k := map (nMends ns g (int k)) (indices 0 3)]\<rparr>"
  have ends: "serverEnds (nServer ns g (int k)) (nMends ns g (int k)) (int k) gg c = Inr (?gg, rn2)"
    using rn1(1) rn2(1) kn n(2) gg(4,5) c by (simp add: serverEnds_def go_upd_def)
  obtain kv ps st where l: "launchServer kvsvc rfsvc now rnd endOf (map (nMends ns g (int k)) (indices 0 3)) g (int k) ?gg rn2 c =
      Inr (Some (c\<lparr>xNet := AddServer (rn2\<lparr>store := st\<rparr>) (servername (ggid ?gg) (int k)) (length (store rn2)),
        xGroups := (xGroups c)[nat g := Some (?gg\<lparr>gsaved := (gsaved ?gg)[k := Some ps], gservers := (gservers ?gg)[k := Some kv]\<rparr>)]\<rparr>))"
    using launchServer_total [of g c k ?gg kvsvc rfsvc now rnd endOf "map (nMends ns g (int k)) (indices 0 3)" rn2] g c(3) kn gg(2,3,6) by auto
  have s: "shard_StartServer kvsvc rfsvc now rnd endOf (nServer ns g (int k)) (nMends ns g (int k)) g (int k) c =
      Inr (Some (c\<lparr>xNet := AddServer (rn2\<lparr>store := st\<rparr>) (servername (ggid ?gg) (int k)) (length (store rn2)),
        xGroups := (xGroups c)[nat g := Some (?gg\<lparr>gsaved := (gsaved ?gg)[k := Some ps], gservers := (gservers ?gg)[k := Some kv]\<rparr>)]\<rparr>))"
    using gg(1) ends l c(2) by (simp add: shard_StartServer_def)
  have "groupOpen n g (Suc k) (c\<lparr>xNet := net, xGroups := (xGroups c)[nat g := Some (?gg\<lparr>gsaved := (gsaved ?gg)[k := Some ps], gservers := (gservers ?gg)[k := Some kv]\<rparr>)]\<rparr>)" for net
    using gg c g unfolding groupOpen_def by (auto simp: groupAt_def go_nth_def)
  with s show ?thesis using usesOnly_AddServer [OF rn2(2)] by (intro exI [of _ "c\<lparr>xNet := _, xGroups := _\<rparr>"]) auto
qed

lemma makeGroup_total:
  fixes c :: "'a shard_config"
  assumes ok: "names_differ ns name" and g: "0 \<le> g" "g < 3" and n: "0 \<le> n" "n \<le> 3"
    and c: "xN c = n" "xNctrlers c = 3" "length (xGroups c) = 3" "usesOnly ns name (earlierSlots n g) (xNet c)"
  shows "\<exists>c'. makeGroup kvsvc rfsvc now rnd endOf ns g c = Inr (Some c') \<and>
    xN c' = n \<and> xNctrlers c' = 3 \<and> length (xGroups c') = 3 \<and> usesOnly ns name (earlierSlots n (g + 1)) (xNet c')"
proof -
  let ?c1 = "c\<lparr>xGroups := (xGroups c)[nat g := Some (newGroup g c)]\<rparr>"
  have s: "setGroup g (newGroup g c) c = Inr ?c1" using g c(3) by (simp add: setGroup_def go_upd_def)
  let ?P = "\<lambda>k s. groupOpen n g k s \<and> usesOnly ns name (earlierSlots n g \<union> groupSlots n g (int k)) (xNet s)"
  have none: "groupSlots n g 0 = {}" by (auto simp: groupSlots_def)
  have "?P 0 ?c1" using c g by (auto simp: groupOpen_def groupAt_def go_nth_def newGroup_def none)
  then have "\<exists>t. for_done (indices 0 (int (nat n))) (\<lambda>i. shard_StartServer kvsvc rfsvc now rnd endOf (nServer ns g i) (nMends ns g i) g i) ?c1 = Inr (Some t) \<and> ?P (nat n) t"
  proof (rule for_done_total)
    fix k and s :: "'a shard_config" assume k: "k < nat n" "?P k s"
    have "int k < n" using k(1) by linarith
    from StartServer_total [OF ok g n(2) this conjunct1 [OF k(2)] conjunct2 [OF k(2)]]
    show "\<exists>t. shard_StartServer kvsvc rfsvc now rnd endOf (nServer ns g (int k)) (nMends ns g (int k)) g (int k) s = Inr (Some t) \<and> ?P (Suc k) t" .
  qed
  then obtain c' where c': "for_done (indices 0 n) (\<lambda>i. shard_StartServer kvsvc rfsvc now rnd endOf (nServer ns g i) (nMends ns g i) g i) ?c1 = Inr (Some c')"
    "groupOpen n g (nat n) c'" "usesOnly ns name (earlierSlots n g \<union> groupSlots n g n) (xNet c')" using n(1) by auto
  have "earlierSlots n g \<union> groupSlots n g n = earlierSlots n (g + 1)"
  proof -
    have "{0..<g + 1} = insert g {0..<g}" using g(1) by auto
    then show ?thesis by (auto simp: earlierSlots_def)
  qed
  then show ?thesis using c' c(1) s by (auto simp: makeGroup_def groupOpen_def)
qed

lemma shard_make_config_total:
  assumes ok: "names_differ ns name" and n: "0 \<le> n" "n \<le> 3"
  shows "\<exists>cfg. shard_make_config kvsvc scsvc rfsvc now rnd endOf ns n unreliable maxraft = Inr (Some cfg) \<and> usesOnly ns name (earlierSlots n 3) (xNet cfg)"
proof -
  obtain c1 where c1: "startControllers scsvc rfsvc now rnd ns (emptyShard maxraft) = Inr (Some c1)" "xNctrlers c1 = 3" "usesOnly ns name clerkSlots (xNet c1)"
    using startControllers_total [OF ok] by blast
  let ?P = "\<lambda>k s. xN s = n \<and> xNctrlers s = 3 \<and> length (xGroups s) = 3 \<and> usesOnly ns name (earlierSlots n (int k)) (xNet s)"
  let ?c2 = "c1\<lparr>xNgroups := 3, xGroups := replicate 3 None, xN := n\<rparr>"
  have "?P 0 ?c2" using c1(2,3) by (simp add: earlierSlots_def)
  then have "\<exists>t. for_done (indices 0 (int 3)) (makeGroup kvsvc rfsvc now rnd endOf ns) ?c2 = Inr (Some t) \<and> ?P 3 t"
  proof (rule for_done_total)
    fix k and s :: "'a shard_config" assume "k < 3" "?P k s"
    with makeGroup_total [OF ok _ _ n, of "int k" s] show "\<exists>t. makeGroup kvsvc rfsvc now rnd endOf ns (int k) s = Inr (Some t) \<and> ?P (Suc k) t"
      by (simp add: add.commute)
  qed
  then obtain c4 where "for_done (indices 0 3) (makeGroup kvsvc rfsvc now rnd endOf ns) ?c2 = Inr (Some c4)" "usesOnly ns name (earlierSlots n 3) (xNet c4)" by auto
  then show ?thesis using c1(1) by (auto simp: shard_make_config_def Let_def usesOnly_def Reliable_def)
qed

lemma client_loop:
  assumes "for_each js (\<lambda>j rn. makeEndTo (name j) (ctrlername j) rn) rn = Inr rn'" "\<forall>j \<in> set js. 0 \<le> j \<and> j < len es"
  shows "\<exists>es'. for_each js (\<lambda>j (endnames, rn). rbind (go_upd endnames j (name j)) (\<lambda>es. rbind (makeEndTo (name j) (ctrlername j) rn) (\<lambda>rn1. Inr (es, rn1)))) (es, rn) = Inr (es', rn')"
  using assms
proof (induction js arbitrary: es rn)
  case (Cons j js)
  then obtain rn1 where "makeEndTo (name j) (ctrlername j) rn = Inr rn1" "for_each js (\<lambda>j rn. makeEndTo (name j) (ctrlername j) rn) rn1 = Inr rn'"
    by (auto simp: rbind_eq_Inr)
  then show ?case using Cons.IH [of rn1 "es[nat j := name j]"] Cons.prems(2) by (simp add: go_upd_def len_def)
qed simp

section \<open>Properties\<close>

lemma joinServers_map:
  assumes "\<And>g. g \<in> set gis \<Longrightarrow> \<exists>gg. groupAt g c = Inr gg \<and> ggid gg = 100 + g"
  shows "joinServers gis c = Inr (\<lambda>gid. if gid \<in> (\<lambda>g. 100 + g) ` set gis then Some (map (servername gid) (indices 0 (xN c))) else None)"
proof -
  have "for_each gs (\<lambda>g m. rbind (groupAt g c) (\<lambda>gg. Inr (m(ggid gg \<mapsto> map (servername (ggid gg)) (indices 0 (xN c)))))) m =
      Inr (\<lambda>gid. if gid \<in> (\<lambda>g. 100 + g) ` set gs then Some (map (servername gid) (indices 0 (xN c))) else m gid)"
    if "set gs \<subseteq> set gis" for gs m
    using that
  proof (induction gs arbitrary: m)
    case (Cons g gs)
    obtain gg where gg: "groupAt g c = Inr gg" "ggid gg = 100 + g" using assms [of g] Cons.prems by auto
    then show ?case using Cons by (auto simp: fun_eq_iff)
  qed simp
  from this [of gis Map.empty] show ?thesis unfolding joinServers_def by simp
qed

text \<open>
  C25: the harness is made for groups of three. Its list of end points to the controllers has one place for
  each controller but is filled for each server, and the names of a clerk are counted the other way
  round. If no random name repeats, a configuration and a clerk can be made for groups of exactly
  three servers: with more \<open>make_config\<close> fails, with fewer \<open>makeClient\<close> does.
\<close>

theorem shard_harness_three:
  assumes ok: "names_differ ns name" and n: "0 \<le> n"
  shows "(\<exists>cfg r. shard_make_config kvsvc scsvc rfsvc now rnd endOf ns n unreliable maxraft = Inr (Some cfg) \<and> shard_makeClient ck name cfg = Inr r) \<longleftrightarrow> n = 3"
proof
  let ?f = "\<lambda>j (endnames, rn). rbind (go_upd endnames j (name j)) (\<lambda>es. rbind (makeEndTo (name j) (ctrlername j) rn) (\<lambda>rn1. Inr (es, rn1)))"
  have three: "indices 0 (3 :: int) = [0, 1, 2]" by (simp add: indices_def upt_rec)
  show "n = 3" if "\<exists>cfg r. shard_make_config kvsvc scsvc rfsvc now rnd endOf ns n unreliable maxraft = Inr (Some cfg) \<and> shard_makeClient ck name cfg = Inr r"
  proof -
    from that obtain cfg r where c: "shard_make_config kvsvc scsvc rfsvc now rnd endOf ns n unreliable maxraft = Inr (Some cfg)" "shard_makeClient ck name cfg = Inr r" by blast
    note ready = shard_make_config_ready [OF c(1)]
    from c(2) obtain res where loop: "for_each (indices 0 3) ?f (replicate (nat n) [], xNet cfg) = Inr res"
      using ready(2,3) by (auto simp: shard_makeClient_def rbind_eq_Inr)
    then have "2 < n" unfolding three by (auto simp: rbind_eq_Inr dest!: go_upd_Inr split: if_splits)
    then show ?thesis using ready(1) by simp
  qed
  assume "n = 3"
  then obtain cfg where cfg: "shard_make_config kvsvc scsvc rfsvc now rnd endOf ns n unreliable maxraft = Inr (Some cfg)" "usesOnly ns name (earlierSlots n 3) (xNet cfg)"
    using shard_make_config_total [OF ok n, of kvsvc scsvc rfsvc now rnd endOf unreliable maxraft] by auto
  have "\<exists>rn. for_each (indices 0 3) (\<lambda>j rn. makeEndTo (slotName ns name (SlotK j)) (ctrlername j) rn) (xNet cfg) = Inr rn \<and>
      usesOnly ns name (earlierSlots n 3 \<union> SlotK ` set (indices 0 3)) rn"
    by (rule makeEnds_total [OF ok cfg(2)]) (auto simp: inj_on_def earlierSlots_def groupSlots_def clerkSlots_def ctrlSlots_def)
  then obtain rn where "for_each (indices 0 3) (\<lambda>j rn. makeEndTo (name j) (ctrlername j) rn) (xNet cfg) = Inr rn" by auto
  from client_loop [OF this, of "replicate 3 []"] obtain es' where "for_each (indices 0 3) ?f (replicate 3 [], xNet cfg) = Inr (es', rn)"
    by (auto simp: len_def)
  then have "\<exists>r. shard_makeClient ck name cfg = Inr r"
    using shard_make_config_ready(2,3) [OF cfg(1)] \<open>n = 3\<close> by (simp add: shard_makeClient_def)
  with cfg(1) show "\<exists>cfg r. shard_make_config kvsvc scsvc rfsvc now rnd endOf ns n unreliable maxraft = Inr (Some cfg) \<and> shard_makeClient ck name cfg = Inr r" by blast
qed

text \<open>Random names that are all different.\<close>

definition sampleNames :: shardNames where
  "sampleNames = \<lparr>nCtrler = (\<lambda>i j. Itoa (3 * i + j)), nMck = (\<lambda>j. Itoa (9 + j)),
     nServer = (\<lambda>g i j. Itoa (12 + 9 * g + 3 * i + j)), nMends = (\<lambda>g i j. Itoa (39 + 9 * g + 3 * i + j))\<rparr>"

definition sampleClerk :: "int \<Rightarrow> string" where
  "sampleClerk j = Itoa (66 + j)"

lemma trits2: "3 * a + b = 3 * a' + b' \<Longrightarrow> 0 \<le> b \<Longrightarrow> b < 3 \<Longrightarrow> 0 \<le> b' \<Longrightarrow> b' < 3 \<Longrightarrow> a = a' \<and> b = (b' :: int)"
  by presburger

lemma trits3: "9 * a + (3 * b + d) = 9 * a' + (3 * b' + d') \<Longrightarrow> 0 \<le> b \<Longrightarrow> b < 3 \<Longrightarrow> 0 \<le> b' \<Longrightarrow> b' < 3 \<Longrightarrow>
    0 \<le> d \<Longrightarrow> d < 3 \<Longrightarrow> 0 \<le> d' \<Longrightarrow> d' < 3 \<Longrightarrow> a = a' \<and> b = b' \<and> d = (d' :: int)"
  using trits2 [of "3 * a + b" d "3 * a' + b'" d'] trits2 [of a b a' b'] by simp

lemma sampleNames_differ: "names_differ sampleNames sampleClerk"
proof -
  have "s = s'" if "slotIn s" "slotIn s'" "slotName sampleNames sampleClerk s = slotName sampleNames sampleClerk s'" for s s'
    using that by (cases s; cases s') (auto simp: sampleNames_def sampleClerk_def Itoa_inj dest: trits2 trits3)
  then show ?thesis unfolding names_differ_def inj_on_def by simp
qed

theorem shard_harness_three_witness:
  "\<exists>cfg r. shard_make_config (\<lambda>kv. MakeService ''ShardKV'' [] :: unit service) (\<lambda>sc. MakeService ''ShardCtrler'' []) (\<lambda>rf. MakeService ''Raft'' []) 0 0
     (\<lambda>s. s) sampleNames 3 False (-1) = Inr (Some cfg) \<and> shard_makeClient 0 sampleClerk cfg = Inr r"
  using shard_harness_three [OF sampleNames_differ, of 3] by simp

end
