(* ===== verification/ShardHarnessRun.thy ===== *)
theory ShardHarnessRun
  imports ShardHarnessProperties
begin

text \<open>
  Tests of the sharded store as runs: after \<open>make_config\<close> servers and groups are shut down and started
  again, clerks come and go, and clerks and servers make end points of their own. Whatever a test
  does, a name that \<open>joinm\<close> announces belongs to a registered server exactly if the harness has an
  instance of this server, and the controllers can be reached.
\<close>

section \<open>Steps of a test\<close>

text \<open>\<open>op_end\<close> is the function that clerks and servers get for making end points.\<close>

inductive shard_op :: "(string ShardKV \<Rightarrow> 'st service) \<Rightarrow> (unit Raft \<Rightarrow> 'st service) \<Rightarrow> 'st shard_config \<Rightarrow> 'st shard_config \<Rightarrow> bool"
  for kvsvc :: "string ShardKV \<Rightarrow> 'st service" and rfsvc :: "unit Raft \<Rightarrow> 'st service" where
  op_shut: "shard_ShutdownServer gi i c = Inr c' \<Longrightarrow> shard_op kvsvc rfsvc c c'"
| op_shut_group: "ShutdownGroup gi c = Inr c' \<Longrightarrow> shard_op kvsvc rfsvc c c'"
| op_start: "shard_StartServer kvsvc rfsvc now rnd endOf name mname gi i c = Inr (Some c') \<Longrightarrow> shard_op kvsvc rfsvc c c'"
| op_start_group: "StartGroup kvsvc rfsvc now rnd endOf names mnames gi c = Inr (Some c') \<Longrightarrow> shard_op kvsvc rfsvc c c'"
| op_client: "shard_makeClient ck name c = Inr (c', es) \<Longrightarrow> shard_op kvsvc rfsvc c c'"
| op_delete: "shard_op kvsvc rfsvc c (shard_deleteClient ck c)"
| op_end: "makeEndTo name s (xNet c) = Inr rn \<Longrightarrow> shard_op kvsvc rfsvc c (c\<lparr>xNet := rn\<rparr>)"
| op_reliable: "shard_op kvsvc rfsvc c (c\<lparr>xNet := Reliable (xNet c) yes\<rparr>)"

definition shard_made :: "(string ShardKV \<Rightarrow> 'st service) \<Rightarrow> (ShardCtrler \<Rightarrow> 'st service) \<Rightarrow> (unit Raft \<Rightarrow> 'st service) \<Rightarrow> int \<Rightarrow>
    'st shard_config \<Rightarrow> bool" where
  "shard_made kvsvc scsvc rfsvc n cfg =
    (\<exists>now rnd endOf ns unreliable maxraft. shard_make_config kvsvc scsvc rfsvc now rnd endOf ns n unreliable maxraft = Inr (Some cfg))"

text \<open>The harness has an instance of server \<open>i\<close> of group \<open>g\<close>.\<close>

definition isRunning :: "int \<Rightarrow> int \<Rightarrow> 'st shard_config \<Rightarrow> bool" where
  "isRunning g i c = (\<exists>gg kv. groupAt g c = Inr gg \<and> go_nth (gservers gg) i = Inr (Some kv))"

section \<open>Networks with the same servers\<close>

text \<open>The servers are the same, and the end points in \<open>M\<close> lead where they led.\<close>

definition netSame :: "'n set \<Rightarrow> ('n, 'st) Network \<Rightarrow> ('n, 'st) Network \<Rightarrow> bool" where
  "netSame M rn rn' \<longleftrightarrow> (\<forall>s. serverAt rn' s = serverAt rn s) \<and> (\<forall>x. ends rn x \<longrightarrow> ends rn' x) \<and>
    (\<forall>x \<in> M. connectedTo rn' x = connectedTo rn x \<and> isEnabled rn' x = isEnabled rn x)"

lemma netSame_refl [simp]: "netSame M rn rn"
  by (simp add: netSame_def)

lemma netSame_trans: "netSame M a b \<Longrightarrow> netSame M b c \<Longrightarrow> netSame M a c"
  by (simp add: netSame_def)

lemma makeEndTo_same:
  assumes "makeEndTo name s rn = Inr rn'" "\<forall>x \<in> M. ends rn x"
  shows "netSame M rn rn'" "name \<notin> M"
proof -
  have new: "\<not> ends rn name" using assms(1) by (auto simp: makeEndTo_def MakeEnd_def split: if_splits)
  then show "name \<notin> M" using assms(2) by blast
  then show "netSame M rn rn'" using assms(1) new
    by (auto simp: netSame_def makeEndTo_def MakeEnd_def Connect_def Enable_def serverAt_def connectedTo_def isEnabled_def split: if_splits)
qed

lemma makeEnds_same:
  assumes "for_each js (\<lambda>j rn. makeEndTo (name j) (target j) rn) rn = Inr rn'" "\<forall>x \<in> M. ends rn x"
  shows "netSame M rn rn' \<and> (\<forall>j \<in> set js. name j \<notin> M)"
  using assms
proof (induction js arbitrary: rn)
  case (Cons j js)
  then obtain rn1 where rn1: "makeEndTo (name j) (target j) rn = Inr rn1" "for_each js (\<lambda>j rn. makeEndTo (name j) (target j) rn) rn1 = Inr rn'"
    by (auto simp: rbind_eq_Inr)
  note one = makeEndTo_same [OF rn1(1) Cons.prems(2)]
  have "\<forall>x \<in> M. ends rn1 x" using one(1) Cons.prems(2) by (simp add: netSame_def)
  from Cons.IH [OF rn1(2) this] one netSame_trans [OF one(1)] show ?case by simp
qed simp

lemma disable_same:
  assumes "for_each js (\<lambda>j rn. rbind (f j) (\<lambda>name. Inr (Enable rn name False))) rn = Inr rn'" "\<And>j name. f j = Inr name \<Longrightarrow> name \<notin> M"
  shows "netSame M rn rn'"
proof (rule for_each_inv [OF assms(1), where P = "netSame M rn"])
  fix j s t assume s: "netSame M rn s" "rbind (f j) (\<lambda>name. Inr (Enable s name False)) = Inr t"
  then obtain name where "f j = Inr name" "t = Enable s name False" by (auto simp: rbind_eq_Inr)
  with assms(2) have "netSame M s t" by (auto simp: netSame_def Enable_def serverAt_def connectedTo_def isEnabled_def)
  with s(1) show "netSame M rn t" by (rule netSame_trans)
qed simp

section \<open>The invariant\<close>

definition groupFits :: "int \<Rightarrow> string set \<Rightarrow> int \<Rightarrow> group \<Rightarrow> bool" where
  "groupFits n M g gg \<longleftrightarrow> ggid gg = 100 + g \<and> length (gservers gg) = nat n \<and> length (gsaved gg) = nat n \<and>
    length (gendnames gg) = nat n \<and> length (gmendnames gg) = 3 \<and> (\<forall>i < nat n. gservers gg ! i \<noteq> None \<longrightarrow> length (gendnames gg ! i) = nat n) \<and>
    (\<forall>row \<in> set (gendnames gg) \<union> set (gmendnames gg). set row \<inter> M = {})"

definition shard_inv :: "int \<Rightarrow> 'st shard_config \<Rightarrow> bool" where
  "shard_inv n c \<longleftrightarrow> xN c = n \<and> xNctrlers c = 3 \<and> length (xGroups c) = 3 \<and> ctrlersReady c \<and> (\<forall>x \<in> set (xMck c). ends (xNet c) x) \<and>
    (\<forall>g gg. groupAt g c = Inr gg \<longrightarrow> groupFits n (set (xMck c)) g gg) \<and>
    (\<forall>g i. 0 \<le> g \<and> g < 3 \<and> 0 \<le> i \<and> i < n \<longrightarrow> (serverAt (xNet c) (servername (100 + g) i) \<noteq> None \<longleftrightarrow> isRunning g i c))"

lemma shard_invD:
  assumes "shard_inv n c"
  shows "xN c = n" "xNctrlers c = 3" "length (xGroups c) = 3" "ctrlersReady c" "\<forall>x \<in> set (xMck c). ends (xNet c) x"
    "groupAt g c = Inr gg \<Longrightarrow> groupFits n (set (xMck c)) g gg"
    "0 \<le> g \<Longrightarrow> g < 3 \<Longrightarrow> 0 \<le> i \<Longrightarrow> i < n \<Longrightarrow> serverAt (xNet c) (servername (100 + g) i) \<noteq> None \<longleftrightarrow> isRunning g i c"
  using assms unfolding shard_inv_def by blast+

lemma groupAt_range: "groupAt g c = Inr gg \<Longrightarrow> 0 \<le> g \<and> g < len (xGroups c)"
  by (auto simp: groupAt_def rbind_eq_Inr go_nth_def len_def split: if_splits)

lemma servername_ctrlername [simp]: "servername gid i \<noteq> ctrlername j" "ctrlername j \<noteq> servername gid i"
  by (simp_all add: servername_def ctrlername_def)

text \<open>Nothing changes but the network, which keeps its servers.\<close>

lemma shard_inv_net:
  assumes inv: "shard_inv n c" and net: "netSame (set (xMck c)) (xNet c) (xNet c')"
    and c': "xN c' = xN c" "xNctrlers c' = xNctrlers c" "xGroups c' = xGroups c" "xMck c' = xMck c"
  shows "shard_inv n c'"
proof -
  have g: "groupAt g c' = groupAt g c" for g by (simp add: groupAt_def c')
  have "e \<in> set (xMck c)" if "go_nth (xMck c) j = Inr e" for j e using that by (auto simp: go_nth_def split: if_splits)
  then have "ctrlersReady c'"
    using shard_invD(4) [OF inv] net unfolding ctrlersReady_def netSame_def c' by (metis (no_types))
  then show ?thesis using inv net unfolding shard_inv_def c' g isRunning_def netSame_def by auto
qed

text \<open>Server \<open>i\<close> of a group is replaced in the harness and on the network.\<close>

lemma shard_inv_server:
  assumes inv: "shard_inv n c" and gg: "groupAt gi c = Inr gg" and net: "netSame (set (xMck c)) (xNet c) rn"
    and i: "0 \<le> i" "i < len (gservers gg)"
    and gg': "groupFits n (set (xMck c)) gi gg'" "gservers gg' = (gservers gg)[nat i := v]"
    and rn': "\<And>s. serverAt rn' s = (if s = servername (ggid gg) i then w else serverAt rn s)" "w \<noteq> None \<longleftrightarrow> v \<noteq> None"
      "\<And>x. ends rn' x = ends rn x" "\<And>x. connectedTo rn' x = connectedTo rn x" "\<And>x. isEnabled rn' x = isEnabled rn x"
    and c': "setGroup gi gg' (c\<lparr>xNet := rn'\<rparr>) = Inr c'"
  shows "shard_inv n c'"
proof -
  note D = shard_invD [OF inv] and s = groupAt_set [OF c', simplified]
  have f: "groupFits n (set (xMck c)) gi gg" by (rule D(6) [OF gg])
  have gi: "0 \<le> gi" "gi < 3" using groupAt_range [OF gg] D(3) by (simp_all add: len_def)
  have n: "nat n = length (gservers gg)" "ggid gg = 100 + gi" using f by (simp_all add: groupFits_def)
  have fits: "groupFits n (set (xMck c)) g h" if "groupAt g c' = Inr h" for g h
    using that s(1) [of g] D(6) [of g h] gg'(1) by (auto split: if_splits)
  have mck: "e \<in> set (xMck c)" if "go_nth (xMck c) j = Inr e" for j e using that by (auto simp: go_nth_def split: if_splits)
  have "ctrlersReady c'"
    unfolding ctrlersReady_def s(3,6)
  proof (intro allI impI)
    fix j :: int assume j: "0 \<le> j \<and> j < 3"
    then obtain e where e: "serverAt (xNet c) (ctrlername j) \<noteq> None" "go_nth (xMck c) j = Inr e" "ends (xNet c) e"
      "connectedTo (xNet c) e = Some (ctrlername j)" "isEnabled (xNet c) e" using D(4) unfolding ctrlersReady_def by blast
    have "e \<in> set (xMck c)" by (rule mck [OF e(2)])
    with net e have "ends rn e" "connectedTo rn e = Some (ctrlername j)" "isEnabled rn e" "serverAt rn (ctrlername j) \<noteq> None"
      by (auto simp: netSame_def)
    then show "serverAt rn' (ctrlername j) \<noteq> None \<and> (\<exists>e. go_nth (xMck c) j = Inr e \<and> ends rn' e \<and> connectedTo rn' e = Some (ctrlername j) \<and> isEnabled rn' e)"
      using e(2) by (simp add: rn')
  qed
  moreover have "\<forall>x \<in> set (xMck c). ends rn' x" using D(5) net by (simp add: netSame_def rn')
  moreover have "serverAt rn' (servername (100 + g) k) \<noteq> None \<longleftrightarrow> isRunning g k c'" if "0 \<le> g" "g < 3" "0 \<le> k" "k < n" for g k
  proof (cases "g = gi \<and> k = i")
    case True
    have "isRunning gi i c' \<longleftrightarrow> v \<noteq> None" using i s(1) [of gi] gg'(2) by (auto simp: isRunning_def go_nth_def len_def)
    then show ?thesis using True rn'(1,2) n(2) by simp
  next
    case False
    have "servername (100 + g) k \<noteq> servername (ggid gg) i" using False servername_inj [of "100 + g" "100 + gi" k i] that(1) gi(1) n(2) by auto
    then have "serverAt rn' (servername (100 + g) k) \<noteq> None \<longleftrightarrow> isRunning g k c" using D(7) [OF that] net by (simp add: rn'(1) netSame_def)
    moreover have "isRunning g k c' \<longleftrightarrow> isRunning g k c"
    proof (cases "g = gi")
      case True
      then have "nat k \<noteq> nat i" using False that(3) i(1) by auto
      then show ?thesis using True s(1) [of gi] gg gg'(2) by (auto simp: isRunning_def go_nth_def len_def)
    next
      case False
      then show ?thesis using s(1) [of g] by (simp add: isRunning_def)
    qed
    ultimately show ?thesis by simp
  qed
  ultimately show ?thesis using D(1-3) fits s(2-6) unfolding shard_inv_def by simp
qed

section \<open>Every step keeps it\<close>

lemma ShutdownServer_inv:
  assumes inv: "shard_inv n c" and h: "shard_ShutdownServer gi i c = Inr c'"
  shows "shard_inv n c'" "groupAt g c = Inr gg \<Longrightarrow> \<exists>gg'. groupAt g c' = Inr gg'"
proof -
  let ?M = "set (xMck c)"
  from h obtain g0 rn1 ms rn2 sv ss vs where s: "groupAt gi c = Inr g0"
    "for_each (indices 0 (len (gservers g0))) (\<lambda>j rn. rbind (rbind (go_nth (gendnames g0) i) (\<lambda>es. go_nth es j)) (\<lambda>name. Inr (Enable rn name False))) (xNet c) = Inr rn1"
    "go_nth (gmendnames g0) i = Inr ms" "for_each (indices 0 (len ms)) (\<lambda>j rn. rbind (go_nth ms j) (\<lambda>name. Inr (Enable rn name False))) rn1 = Inr rn2"
    "go_upd (gservers g0) i None = Inr vs" "go_upd (gsaved g0) i sv = Inr ss" "setGroup gi (g0\<lparr>gsaved := ss, gservers := vs\<rparr>) (c\<lparr>xNet := DeleteServer rn2 (servername (ggid g0) i)\<rparr>) = Inr c'"
    by (auto simp: shard_ShutdownServer_def rbind_eq_Inr rbind_assoc)
  have f: "groupFits n ?M gi g0" by (rule shard_invD(6) [OF inv s(1)])
  have out: "name \<notin> ?M" if "go_nth rows k = Inr row" "go_nth row j = Inr name" "set rows \<subseteq> set (gendnames g0) \<union> set (gmendnames g0)" for rows row k j name
  proof -
    have "row \<in> set rows" "name \<in> set row" using that(1,2) by (auto simp: go_nth_def split: if_splits)
    then show ?thesis using f that(3) unfolding groupFits_def by blast
  qed
  have "netSame ?M (xNet c) rn1" by (rule disable_same [OF s(2)]) (use out [of "gendnames g0"] in \<open>fastforce simp: rbind_eq_Inr\<close>)
  moreover have "netSame ?M rn1 rn2" by (rule disable_same [OF s(4)]) (use out [OF s(3)] in blast)
  ultimately have net: "netSame ?M (xNet c) rn2" by (rule netSame_trans)
  note u = go_upd_Inr [OF s(5)] go_upd_Inr [OF s(6)]
  have row: "length (gendnames g0 ! k) = nat n" if "k < nat n" "vs ! k \<noteq> None" for k
    using that f u by (cases "k = nat i") (auto simp: groupFits_def)
  have "groupFits n ?M gi (g0\<lparr>gsaved := ss, gservers := vs\<rparr>)" using f u row by (simp add: groupFits_def)
  from shard_inv_server [OF inv s(1) net _ _ this _ _ _ _ _ _ s(7), of i None None] u show "shard_inv n c'"
    by (simp add: len_def DeleteServer_def serverAt_def connectedTo_def isEnabled_def)
  show "\<exists>gg'. groupAt g c' = Inr gg'" if "groupAt g c = Inr gg" using that groupAt_set(1) [OF s(7), of g] by auto
qed

lemma StartServer_inv:
  assumes inv: "shard_inv n c" and h: "shard_StartServer kvsvc rfsvc now rnd endOf name mname gi i c = Inr (Some c')"
  shows "shard_inv n c'" "groupAt g c = Inr gg \<Longrightarrow> \<exists>gg'. groupAt g c' = Inr gg'" "g \<noteq> gi \<Longrightarrow> groupAt g c' = groupAt g c"
proof -
  let ?M = "set (xMck c)"
  from h obtain g0 g1 rn where s: "groupAt gi c = Inr g0" "serverEnds name mname i g0 c = Inr (g1, rn)"
    "launchServer kvsvc rfsvc now rnd endOf (map mname (indices 0 (xNctrlers c))) gi i g1 rn c = Inr (Some c')"
    by (auto simp: shard_StartServer_def rbind_eq_Inr)
  from s(2) obtain ens mens rn1 where e: "go_upd (gendnames g0) i (map name (indices 0 (xN c))) = Inr ens"
    "for_each (indices 0 (xN c)) (\<lambda>j rn. makeEndTo (name j) (servername (ggid g0) j) rn) (xNet c) = Inr rn1"
    "go_upd (gmendnames g0) i (map mname (indices 0 (xNctrlers c))) = Inr mens"
    "for_each (indices 0 (xNctrlers c)) (\<lambda>j rn. makeEndTo (mname j) (ctrlername j) rn) rn1 = Inr rn" "g1 = g0\<lparr>gendnames := ens, gmendnames := mens\<rparr>"
    by (auto simp: serverEnds_def rbind_eq_Inr)
  from launchServer_set [OF s(3)] obtain ss kv st p where l: "setGroup gi (g1\<lparr>gsaved := ss, gservers := (gservers g1)[nat i := Some kv]\<rparr>)
      (c\<lparr>xNet := AddServer (rn\<lparr>store := st\<rparr>) (servername (ggid g0) i) p\<rparr>) = Inr c'" "0 \<le> i" "i < len (gservers g0)" "length ss = length (gsaved g0)"
    using e(5) by auto
  have f: "groupFits n ?M gi g0" by (rule shard_invD(6) [OF inv s(1)])
  note one = makeEnds_same [OF e(2) shard_invD(5) [OF inv]]
  have "\<forall>x \<in> ?M. ends rn1 x" using one shard_invD(5) [OF inv] by (simp add: netSame_def)
  note two = makeEnds_same [OF e(4) this]
  have net: "netSame ?M (xNet c) rn" by (rule netSame_trans [OF conjunct1 [OF one] conjunct1 [OF two]])
  note u = go_upd_Inr [OF e(1)] go_upd_Inr [OF e(3)]
  have rows: "set row \<inter> ?M = {}" if "row \<in> set ens \<union> set mens" for row
  proof -
    have "row \<in> set (gendnames g0) \<union> set (gmendnames g0) \<or> row = map name (indices 0 (xN c)) \<or> row = map mname (indices 0 (xNctrlers c))"
      using that u set_update_subset_insert by fastforce
    then show ?thesis using f one two by (auto simp: groupFits_def)
  qed
  have row: "length (ens ! k) = nat n" if "k < nat n" "(gservers g0)[nat i := Some kv] ! k \<noteq> None" for k
    using that f u shard_invD(1) [OF inv] by (cases "k = nat i") (auto simp: groupFits_def indices_def)
  have "groupFits n ?M gi (g1\<lparr>gsaved := ss, gservers := (gservers g1)[nat i := Some kv]\<rparr>)"
    using f u rows l(4) row unfolding groupFits_def e(5) by simp
  from shard_inv_server [OF inv s(1) net _ _ this _ _ _ _ _ _ l(1), of i "Some kv" "Some p"] l e(5) show "shard_inv n c'"
    by (simp add: AddServer_def serverAt_def connectedTo_def isEnabled_def)
  show "\<exists>gg'. groupAt g c' = Inr gg'" if "groupAt g c = Inr gg" using that groupAt_set(1) [OF l(1), of g] by auto
  show "groupAt g c' = groupAt g c" if "g \<noteq> gi" using that groupAt_set(1) [OF l(1), of g] by simp
qed

lemma for_done_inv:
  assumes "for_done is f s = Inr (Some t)" "P s" "\<And>i s t. P s \<Longrightarrow> f i s = Inr (Some t) \<Longrightarrow> P t"
  shows "P t"
proof -
  have "case Some t of None \<Rightarrow> True | Some u \<Rightarrow> P u"
    by (rule for_each_inv [OF assms(1) [unfolded for_done_def], where P = "\<lambda>r. case r of None \<Rightarrow> True | Some u \<Rightarrow> P u"])
       (use assms(2,3) in \<open>auto split: option.splits\<close>)
  then show ?thesis by simp
qed

lemma makeClient_same:
  assumes "for_each js (\<lambda>j (endnames, rn). rbind (go_upd endnames j (name j)) (\<lambda>es. rbind (makeEndTo (name j) (target j) rn) (\<lambda>rn1. Inr (es, rn1)))) (es, rn) = Inr (es', rn')"
    and "\<forall>x \<in> M. ends rn x"
  shows "netSame M rn rn'"
proof -
  have "netSame M rn (snd (es', rn'))"
  proof (rule for_each_inv [OF assms(1), where P = "\<lambda>r. netSame M rn (snd r)"])
    fix j r t assume r: "netSame M rn (snd r)" "(case r of (endnames, rn) \<Rightarrow>
        rbind (go_upd endnames j (name j)) (\<lambda>es. rbind (makeEndTo (name j) (target j) rn) (\<lambda>rn1. Inr (es, rn1)))) = Inr t"
    then have "makeEndTo (name j) (target j) (snd r) = Inr (snd t)" by (auto simp: rbind_eq_Inr split: prod.splits)
    moreover have "\<forall>x \<in> M. ends (snd r) x" using r(1) assms(2) by (simp add: netSame_def)
    ultimately show "netSame M rn (snd t)" using makeEndTo_same(1) netSame_trans [OF r(1)] by blast
  qed simp
  then show ?thesis by simp
qed

text \<open>All three groups are there.\<close>

definition groupsMade :: "'st shard_config \<Rightarrow> bool" where
  "groupsMade c = (\<forall>g. 0 \<le> g \<and> g < 3 \<longrightarrow> (\<exists>gg. groupAt g c = Inr gg))"

definition test_inv :: "int \<Rightarrow> 'st shard_config \<Rightarrow> bool" where
  "test_inv n c = (shard_inv n c \<and> groupsMade c)"

lemma ShutdownServer_test: "test_inv n c \<Longrightarrow> shard_ShutdownServer gi i c = Inr c' \<Longrightarrow> test_inv n c'"
  using ShutdownServer_inv unfolding test_inv_def groupsMade_def by metis

lemma StartServer_test:
  "test_inv n c \<Longrightarrow> shard_StartServer kvsvc rfsvc now rnd endOf name mname gi i c = Inr (Some c') \<Longrightarrow> test_inv n c'"
  using StartServer_inv unfolding test_inv_def groupsMade_def by metis

lemma test_inv_net:
  assumes "test_inv n c" "netSame (set (xMck c)) (xNet c) (xNet c')"
    and "xN c' = xN c" "xNctrlers c' = xNctrlers c" "xGroups c' = xGroups c" "xMck c' = xMck c"
  shows "test_inv n c'"
  using assms shard_inv_net [of n c c'] by (simp add: test_inv_def groupsMade_def groupAt_def)

lemma test_inv_op:
  assumes inv: "test_inv n c" and op: "shard_op kvsvc rfsvc c c'"
  shows "test_inv n c'"
  using op
proof cases
  case (op_shut gi i)
  with inv show ?thesis by (rule ShutdownServer_test)
next
  case (op_shut_group gi)
  then show ?thesis unfolding ShutdownGroup_def by (rule for_each_inv) (use inv ShutdownServer_test in blast)+
next
  case (op_start now rnd endOf name mname gi i)
  with inv show ?thesis by (rule StartServer_test)
next
  case (op_start_group now rnd endOf names mnames gi)
  then show ?thesis unfolding StartGroup_def by (rule for_done_inv) (use inv StartServer_test in blast)+
next
  case (op_client ck name es)
  have "\<forall>x \<in> set (xMck c). ends (xNet c) x" using inv unfolding test_inv_def by (blast dest: shard_invD(5))
  from op_client makeClient_same [OF _ this] show ?thesis
    by (intro test_inv_net [OF inv]) (auto simp: shard_makeClient_def rbind_eq_Inr)
next
  case (op_delete ck)
  then show ?thesis by (intro test_inv_net [OF inv]) (simp_all add: shard_deleteClient_def)
next
  case (op_end name s rn)
  have "\<forall>x \<in> set (xMck c). ends (xNet c) x" using inv unfolding test_inv_def by (blast dest: shard_invD(5))
  from makeEndTo_same(1) [OF op_end(2) this] op_end(1) show ?thesis by (intro test_inv_net [OF inv]) simp_all
next
  case (op_reliable yes)
  then show ?thesis
    by (intro test_inv_net [OF inv]) (simp_all add: netSame_def Reliable_def serverAt_def connectedTo_def isEnabled_def)
qed

section \<open>What make\_config gives\<close>

lemma makeEnds_servers:
  assumes "for_each js (\<lambda>j rn. makeEndTo (name j) (target j) rn) rn = Inr rn'"
  shows "serverAt rn' s = serverAt rn s"
  using conjunct1 [OF makeEnds_same [OF assms, of "{}"]] by (simp add: netSame_def)

text \<open>Before the groups are made there are controllers only.\<close>

lemma startControllers_only:
  assumes "startControllers scsvc rfsvc now rnd ns (emptyShard maxraft) = Inr (Some c)"
  shows "serverAt (xNet c) (servername gid i) = None" "\<forall>x \<in> set (xMck c). ends (xNet c) x"
proof -
  let ?ctrl = "\<lambda>i. StartCtrlerserver scsvc rfsvc now rnd (nCtrler ns i) i"
  from assms obtain c1 rn where c: "for_done (indices 0 3) ?ctrl (emptyShard maxraft) = Inr (Some c1)"
    "for_each (indices 0 (xNctrlers c1)) (\<lambda>j rn. makeEndTo (nMck ns j) (ctrlername j) rn) (xNet c1) = Inr rn"
    "c = c1\<lparr>xNet := rn, xMck := map (nMck ns) (indices 0 (xNctrlers c1))\<rparr>"
    by (auto simp: startControllers_def shardclerk_def ctrlerEnds_def rbind_eq_Inr split: option.splits)
  have "serverAt (xNet c1) (servername gid i) = None"
  proof (rule for_done_inv [OF c(1), where P = "\<lambda>s. serverAt (xNet s) (servername gid i) = None"])
    fix k s t assume s: "serverAt (xNet s) (servername gid i) = None" "?ctrl k s = Inr (Some t)"
    then obtain rn st p where "for_each (indices 0 (xNctrlers s)) (\<lambda>j rn. makeEndTo (nCtrler ns k j) (ctrlername j) rn) (xNet s) = Inr rn"
      "xNet t = AddServer (rn\<lparr>store := st\<rparr>) (ctrlername k) p"
      by (auto simp: StartCtrlerserver_def ctrlerEnds_def rbind_eq_Inr Let_def split: option.splits)
    then show "serverAt (xNet t) (servername gid i) = None"
      using s(1) makeEnds_servers [of _ "nCtrler ns k" ctrlername "xNet s" rn "servername gid i"] by (simp add: AddServer_def serverAt_def)
  qed (simp add: emptyShard_def MakeNetwork_def serverAt_def)
  then show "serverAt (xNet c) (servername gid i) = None" using makeEnds_servers [OF c(2)] c(3) by simp
  show "\<forall>x \<in> set (xMck c). ends (xNet c) x" using makeEnds_grow [OF c(2)] c(3) by auto
qed

lemma makeGroup_inv:
  assumes inv: "shard_inv n c" and new: "\<And>i. \<not> isRunning gi i c" and h: "makeGroup kvsvc rfsvc now rnd endOf ns gi c = Inr (Some c')"
  shows "shard_inv n c' \<and> (\<forall>g. g \<noteq> gi \<longrightarrow> groupAt g c' = groupAt g c)"
proof -
  let ?start = "\<lambda>i. shard_StartServer kvsvc rfsvc now rnd endOf (nServer ns gi i) (nMends ns gi i) gi i"
  from h obtain c1 where c1: "setGroup gi (newGroup gi c) c = Inr c1" "for_done (indices 0 (xN c1)) ?start c1 = Inr (Some c')"
    by (auto simp: makeGroup_def rbind_eq_Inr)
  note g = groupAt_set [OF c1(1)] and D = shard_invD [OF inv]
  have new1: "\<not> isRunning gi i c1" for i using g(1) [of gi] by (auto simp: isRunning_def newGroup_def go_nth_def split: if_splits)
  have run: "isRunning g i c1 = isRunning g i c" for g i using new new1 g(1) [of g] by (cases "g = gi") (simp_all add: isRunning_def)
  have fits: "groupFits n (set (xMck c)) k gg" if "groupAt k c1 = Inr gg" for k gg
    using that g(1) [of k] D(1,2) D(6) [of k gg] by (auto simp: groupFits_def newGroup_def split: if_splits)
  have "ctrlersReady c1" using D(4) by (rule ctrlersReady_grows) (simp_all add: g)
  then have "shard_inv n c1" using D(1-3,5,7) fits run unfolding shard_inv_def g(2-6) by blast
  then show ?thesis
  proof (rule for_done_inv [OF c1(2), where P = "\<lambda>s. shard_inv n s \<and> (\<forall>g. g \<noteq> gi \<longrightarrow> groupAt g s = groupAt g c)", OF conjI])
    show "\<forall>g. g \<noteq> gi \<longrightarrow> groupAt g c1 = groupAt g c" using g(1) by simp
    show "shard_inv n t \<and> (\<forall>g. g \<noteq> gi \<longrightarrow> groupAt g t = groupAt g c)"
      if "shard_inv n s \<and> (\<forall>g. g \<noteq> gi \<longrightarrow> groupAt g s = groupAt g c)" "?start i s = Inr (Some t)" for i s t
      using StartServer_inv(1,3) [OF conjunct1 [OF that(1)] that(2)] that(1) by simp
  qed
qed

lemma shard_made_inv:
  fixes cfg :: "'a shard_config"
  assumes "shard_made kvsvc scsvc rfsvc n cfg"
  shows "test_inv n cfg"
proof -
  from assms obtain now rnd endOf ns unreliable maxraft
    where m: "shard_make_config kvsvc scsvc rfsvc now rnd endOf ns n unreliable maxraft = Inr (Some cfg)" unfolding shard_made_def by blast
  let ?group = "makeGroup kvsvc rfsvc now rnd endOf ns"
  from m obtain c1 c4 where c: "startControllers scsvc rfsvc now rnd ns (emptyShard maxraft) = Inr (Some c1)"
    "for_done (indices 0 3) ?group (c1\<lparr>xNgroups := 3, xGroups := replicate 3 None, xN := n\<rparr>) = Inr (Some c4)"
    "cfg = c4\<lparr>xClerks := Map.empty, xNextClientId := xN c4 + 1000, xNet := Reliable (xNet c4) (\<not> unreliable)\<rparr>"
    unfolding shard_make_config_def Let_def by (auto simp: rbind_eq_Inr split: option.splits)
  let ?c2 = "c1\<lparr>xNgroups := 3, xGroups := replicate 3 None, xN := n\<rparr>"
  have none: "groupAt g ?c2 \<noteq> Inr gg" for g gg by (auto simp: groupAt_def rbind_eq_Inr go_nth_def split: if_splits)
  note start = startControllers_ready [OF c(1) emptyShard_ctrlers] startControllers_only [OF c(1)]
  have "ctrlersReady ?c2" using start(1) by (simp add: ctrlersReady_def)
  then have two: "shard_inv n ?c2" unfolding shard_inv_def isRunning_def using none start(2-4) by simp
  define P where "P k s \<longleftrightarrow> shard_inv n s \<and> (\<forall>g i. int k \<le> g \<longrightarrow> \<not> isRunning g i s)" for k and s :: "'a shard_config"
  have three: "indices 0 (3 :: int) = indices 0 (int 3)" by simp
  have "P 3 c4"
  proof (rule for_done_indices [OF c(2) [unfolded three]])
    show "P 0 ?c2" using two none by (simp add: P_def isRunning_def)
    fix k s t assume k: "P k s" "?group (int k) s = Inr (Some t)"
    then have t: "shard_inv n t" "\<And>g. g \<noteq> int k \<Longrightarrow> groupAt g t = groupAt g s" using makeGroup_inv [of n s "int k"] by (auto simp: P_def)
    have "\<not> isRunning g i t" if "int (Suc k) \<le> g" for g i
    proof -
      have "int k \<le> g" "groupAt g t = groupAt g s" using that t(2) [of g] by auto
      then show ?thesis using k(1) unfolding P_def isRunning_def by simp
    qed
    with t(1) show "P (Suc k) t" by (simp add: P_def)
  qed
  then have "shard_inv n c4" by (simp add: P_def)
  then have "shard_inv n cfg"
    by (rule shard_inv_net) (simp_all add: c(3) netSame_def Reliable_def serverAt_def connectedTo_def isEnabled_def)
  moreover have "groupsMade cfg" using shard_make_config_ready(5) [OF m] unfolding groupsMade_def groupReady_def by blast
  ultimately show ?thesis by (simp add: test_inv_def)
qed

interpretation shards: transition_system "shard_made kvsvc scsvc rfsvc n" "shard_op kvsvc rfsvc" "test_inv n"
  for kvsvc :: "string ShardKV \<Rightarrow> 'st service" and scsvc :: "ShardCtrler \<Rightarrow> 'st service" and rfsvc :: "unit Raft \<Rightarrow> 'st service" and n
  by unfold_locales (blast intro: shard_made_inv test_inv_op)+

lemma made_running:
  assumes "shard_made kvsvc scsvc rfsvc n c" "0 \<le> g" "g < 3" "0 \<le> i" "i < n"
  shows "isRunning g i c"
proof -
  have "serverAt (xNet c) (servername (100 + g) i) \<noteq> None"
    using assms shard_make_config_ready(5) unfolding shard_made_def groupReady_def by metis
  then show ?thesis using shard_made_inv [OF assms(1)] shard_invD(7) assms(2-5) unfolding test_inv_def by blast
qed

lemma shut_not_running:
  assumes "shard_ShutdownServer g i c = Inr c'"
  shows "\<not> isRunning g i c'"
proof -
  from assms obtain gg ss vs rn where "go_upd (gservers gg) i None = Inr vs" "setGroup g (gg\<lparr>gsaved := ss, gservers := vs\<rparr>) (c\<lparr>xNet := rn\<rparr>) = Inr c'"
    by (auto simp: shard_ShutdownServer_def rbind_eq_Inr)
  then show ?thesis using groupAt_set(1) [of g _ "c\<lparr>xNet := rn\<rparr>" c' g] by (auto simp: isRunning_def go_nth_def dest!: go_upd_Inr split: if_splits)
qed

text \<open>A running server can be shut down.\<close>

lemma shut_total:
  assumes inv: "test_inv n c" and run: "isRunning g i c" and i: "0 \<le> i" "i < 3"
  shows "\<exists>c'. shard_ShutdownServer g i c = Inr c'"
proof -
  from run obtain gg kv where gg: "groupAt g c = Inr gg" "go_nth (gservers gg) i = Inr (Some kv)" unfolding isRunning_def by blast
  have f: "groupFits n (set (xMck c)) g gg" using inv shard_invD(6) gg(1) unfolding test_inv_def by blast
  have k: "nat i < nat n" "gservers gg ! nat i = Some kv" "i < int (nat n)" using gg(2) f by (auto simp: go_nth_def groupFits_def split: if_splits)
  then have row: "length (gendnames gg ! nat i) = nat n" using f by (simp add: groupFits_def)
  have ends: "go_nth (gendnames gg) i = Inr (gendnames gg ! nat i)" "go_nth (gmendnames gg) i = Inr (gmendnames gg ! nat i)"
    "\<exists>sv. groupSaved i gg = Inr sv" "\<exists>ss. go_upd (gsaved gg) i v = Inr ss" "\<exists>vs. go_upd (gservers gg) i None = Inr vs" for v
    using f k i by (auto simp: groupFits_def go_nth_def go_upd_def groupSaved_def)
  have loop: "\<exists>rn'. for_each (indices 0 (int m)) (\<lambda>j rn. rbind (go_nth row j) (\<lambda>name. Inr (Enable rn name False))) rn = Inr rn'"
    if "m \<le> length row" for m row and rn :: "(string, 'a) Network"
    using for_each_ok [of "indices 0 (int m)" "\<lambda>j rn. rbind (go_nth row j) (\<lambda>name. Inr (Enable rn name False))" "\<lambda>j rn. Enable rn (row ! nat j) False" rn] that
    by (auto simp: go_nth_def)
  have set: "\<exists>c'. setGroup g gg' (c\<lparr>xNet := rn\<rparr>) = Inr c'" for gg' rn
    using groupAt_range [OF gg(1)] by (auto simp: setGroup_def go_upd_def len_def)
  obtain rn1 where rn1: "for_each (indices 0 (len (gservers gg))) (\<lambda>j rn. rbind (go_nth (gendnames gg ! nat i) j) (\<lambda>name. Inr (Enable rn name False))) (xNet c) = Inr rn1"
    using loop [of "nat n" "gendnames gg ! nat i" "xNet c"] row f by (auto simp: groupFits_def len_def)
  obtain rn2 where rn2: "for_each (indices 0 (len (gmendnames gg ! nat i))) (\<lambda>j rn. rbind (go_nth (gmendnames gg ! nat i) j) (\<lambda>name. Inr (Enable rn name False))) rn1 = Inr rn2"
    using loop [of "length (gmendnames gg ! nat i)" "gmendnames gg ! nat i" rn1] by (auto simp: len_def)
  obtain sv ss vs where up: "groupSaved i gg = Inr sv" "go_upd (gsaved gg) i (map_option Copy sv) = Inr ss" "go_upd (gservers gg) i None = Inr vs"
    using ends(3-5) by metis
  show ?thesis using set by (simp add: shard_ShutdownServer_def gg(1) ends(1,2) rn1 rn2 up)
qed

section \<open>What the controller is told\<close>

text \<open>
  C16: the controller is told names it can rely on. Take any configuration that a test reaches from
  \<open>make_config\<close> by shutting down and starting servers and groups, making and deleting clerks, making
  end points and changing the reliability of the network. The clerk that \<open>joinm\<close> uses has one enabled
  end point to each of the three controllers, all of which run. For groups that exist it sends a table
  with exactly their group ids; each group comes with the names of its servers, one for each, all
  different from one another and from those of the other groups. Under such a name a server is
  registered exactly if the harness has an instance of it, that is, if it was not shut down after
  its last start; straight after \<open>make_config\<close> this holds for all of them.
\<close>

theorem join_names_running:
  assumes "reach (shard_made kvsvc scsvc rfsvc n) (shard_op kvsvc rfsvc) cfg" "set gis \<subseteq> {0..<3}"
  shows "\<exists>m. (\<forall>net fuel. joinm net fuel gis cfg = Inr (Join net fuel (xMck cfg) m)) \<and> dom m = (\<lambda>g. 100 + g) ` set gis \<and>
    (\<forall>g names. m (100 + g) = Some names \<longrightarrow> length names = nat n \<and> distinct names \<and>
      (\<forall>i < nat n. (serverAt (xNet cfg) (names ! i) \<noteq> None \<longleftrightarrow> isRunning g (int i) cfg) \<and>
         (shard_made kvsvc scsvc rfsvc n cfg \<longrightarrow> isRunning g (int i) cfg))) \<and>
    (\<forall>gid gid' names names'. m gid = Some names \<and> m gid' = Some names' \<and> gid \<noteq> gid' \<longrightarrow> set names \<inter> set names' = {}) \<and>
    (\<forall>j. 0 \<le> j \<and> j < 3 \<longrightarrow> serverAt (xNet cfg) (ctrlername j) \<noteq> None \<and>
      (\<exists>e. go_nth (xMck cfg) j = Inr e \<and> connectedTo (xNet cfg) e = Some (ctrlername j) \<and> isEnabled (xNet cfg) e))"
proof -
  from shards.inv_reach [OF assms(1)] have inv: "shard_inv n cfg" "groupsMade cfg" by (simp_all add: test_inv_def)
  note D = shard_invD [OF inv(1)]
  let ?names = "\<lambda>gid. map (servername gid) (indices 0 n)"
  define m where "m = (\<lambda>gid. if gid \<in> (\<lambda>g. 100 + g) ` set gis then Some (?names gid) else None)"
  have "\<exists>gg. groupAt g cfg = Inr gg \<and> ggid gg = 100 + g" if "g \<in> set gis" for g
  proof -
    have "0 \<le> g" "g < 3" using that assms(2) by auto
    then obtain gg where "groupAt g cfg = Inr gg" using inv(2) unfolding groupsMade_def by blast
    then show ?thesis using D(6) by (auto simp: groupFits_def)
  qed
  from joinServers_map [OF this, of gis, unfolded D(1)] have join: "joinm net fuel gis cfg = Inr (Join net fuel (xMck cfg) m)" for net fuel
    by (simp add: joinm_def m_def)
  have pos: "0 \<le> gid" if "m gid = Some names" for gid names using that assms(2) by (auto simp: m_def split: if_splits)
  have each: "length names = nat n \<and> distinct names \<and> (\<forall>i < nat n. (serverAt (xNet cfg) (names ! i) \<noteq> None \<longleftrightarrow> isRunning g (int i) cfg) \<and>
      (shard_made kvsvc scsvc rfsvc n cfg \<longrightarrow> isRunning g (int i) cfg))" if m: "m (100 + g) = Some names" for g names
  proof -
    from m have g: "0 \<le> g" "g < 3" "names = ?names (100 + g)" using assms(2) by (auto simp: m_def split: if_splits)
    have len: "length names = nat n" by (simp add: g(3) indices_def)
    have "distinct names" using servername_inj [of "100 + g" "100 + g"] g(1) by (simp add: g(3) distinct_map inj_on_def)
    moreover have "names ! i = servername (100 + g) (int i)" if "i < nat n" for i using that by (simp add: g(3) indices_def)
    moreover have "isRunning g (int i) cfg" if "shard_made kvsvc scsvc rfsvc n cfg" "i < nat n" for i
      using made_running [OF that(1) g(1,2)] that(2) by simp
    ultimately show ?thesis using D(7) [OF g(1,2)] len by auto
  qed
  have other: "set names \<inter> set names' = {}" if m: "m gid = Some names" "m gid' = Some names'" "gid \<noteq> gid'" for gid gid' names names'
  proof -
    have "names = ?names gid" "names' = ?names gid'" using m(1,2) by (auto simp: m_def split: if_splits)
    then show ?thesis using servername_inj [OF pos [OF m(1)] pos [OF m(2)]] m(3) by auto
  qed
  have dom: "dom m = (\<lambda>g. 100 + g) ` set gis" by (auto simp: m_def dom_def split: if_splits)
  have ctrl: "serverAt (xNet cfg) (ctrlername j) \<noteq> None \<and>
      (\<exists>e. go_nth (xMck cfg) j = Inr e \<and> connectedTo (xNet cfg) e = Some (ctrlername j) \<and> isEnabled (xNet cfg) e)" if "0 \<le> j" "j < 3" for j
    using D(4) that unfolding ctrlersReady_def by blast
  show ?thesis
  proof (intro exI [of _ m] conjI)
    show "dom m = (\<lambda>g. 100 + g) ` set gis" by (rule dom)
  qed (use join each other ctrl in blast)+
qed

text \<open>A server of group 2 is shut down before the group joins.\<close>

theorem join_names_running_witness:
  "\<exists>c c' m. shard_make_config (\<lambda>kv. MakeService ''ShardKV'' [] :: unit service) (\<lambda>sc. MakeService ''ShardCtrler'' []) (\<lambda>rf. MakeService ''Raft'' []) 0 0
     (\<lambda>s. s) sampleNames 3 False (-1) = Inr (Some c) \<and> shard_ShutdownServer 2 0 c = Inr c' \<and>
   (\<forall>net fuel. joinm net fuel [0, 2] c' = Inr (Join net fuel (xMck c') m)) \<and> dom m = {100, 102} \<and>
   (\<exists>names. m 102 = Some names \<and> serverAt (xNet c') (names ! 0) = None)"
proof -
  let ?kv = "\<lambda>kv. MakeService ''ShardKV'' [] :: unit service" and ?sc = "\<lambda>sc. MakeService ''ShardCtrler'' [] :: unit service"
    and ?rf = "\<lambda>rf. MakeService ''Raft'' [] :: unit service"
  obtain c where c0: "shard_make_config ?kv ?sc ?rf 0 0 (\<lambda>s. s) sampleNames 3 False (-1) = Inr (Some c)"
    using shard_make_config_total [OF sampleNames_differ, of 3 ?kv ?sc ?rf 0 0 "\<lambda>s. s" False "-1"] by auto
  then have made: "shard_made ?kv ?sc ?rf 3 c" unfolding shard_made_def by blast
  obtain c' where c: "shard_ShutdownServer 2 0 c = Inr c'"
    using shut_total [OF shard_made_inv [OF made] made_running [OF made]] by fastforce
  have "reach (shard_made ?kv ?sc ?rf 3) (shard_op ?kv ?rf) c'"
  proof (rule reach_step [OF reach_init])
    show "shard_made ?kv ?sc ?rf 3 c" by (rule made)
    show "shard_op ?kv ?rf c c'" by (rule op_shut [OF c])
  qed
  note told = join_names_running [OF this, of "[0, 2]"]
  obtain m where m: "\<forall>net fuel. joinm net fuel [0, 2] c' = Inr (Join net fuel (xMck c') m)" "dom m = (\<lambda>g. 100 + g) ` set [0, 2]"
    "\<forall>g names. m (100 + g) = Some names \<longrightarrow> length names = nat 3 \<and> distinct names \<and>
      (\<forall>i < nat 3. (serverAt (xNet c') (names ! i) \<noteq> None \<longleftrightarrow> isRunning g (int i) c') \<and> (shard_made ?kv ?sc ?rf 3 c' \<longrightarrow> isRunning g (int i) c'))"
  proof -
    have "set [0, 2] \<subseteq> {0..<3 :: int}" by simp
    from told [OF this] show thesis by (elim exE conjE) (rule that, assumption+)
  qed
  have d: "dom m = {100, 102}" using m(2) by simp
  then have "102 \<in> dom m" by simp
  then obtain names where names: "m 102 = Some names" by blast
  have "serverAt (xNet c') (names ! 0) = None"
    using conjunct2 [OF conjunct2 [OF m(3) [rule_format, of 2 names]], rule_format, of 0] names shut_not_running [OF c] by simp
  with m(1) d names c0 c show ?thesis by blast
qed

end
