(* ===== verification/PorcupinePartials.thy ===== *)
theory PorcupinePartials
  imports PorcupineProperties
begin

text \<open>
  The partial linearizations that the checker reports in verbose mode
  (\<open>porcupine/checker.go\<close>, the slice \<open>longest\<close> and what \<open>checkParallel\<close> makes of it). Whatever
  the search has recorded at the moment it stops, because it found a linearization, because
  there is none, or because the flag told it to stop, is a sequence of operations that the
  model can take one after the other in an order that agrees with real time.
\<close>

section \<open>The invariant\<close>

text \<open>The sequence recorded for an operation contains it and can be extended from the initial state.\<close>

definition reported :: "('s \<Rightarrow> 'v iface \<Rightarrow> 'v iface \<Rightarrow> bool \<times> 's) \<Rightarrow> 's \<Rightarrow> 'v entry list \<Rightarrow> nat \<Rightarrow>
    int list option list \<Rightarrow> bool" where
  "reported step q0 es n lg = (\<forall>i < length lg. \<forall>l. lg ! i = Some l \<longrightarrow>
     (\<exists>p. l = map int p \<and> i \<in> set p \<and> validFrom step es n {} q0 p))"

lemma reported_start: "reported step q0 es n (replicate k None)"
  by (simp add: reported_def)

lemma reported_upd:
  assumes "reported step q0 es n lg" "validFrom step es n {} q0 p" "x \<in> set p" "go_upd lg (int x) (Some (map int p)) = Inr lg'"
  shows "reported step q0 es n lg'"
  using assms by (fastforce simp: reported_def go_upd_def nth_list_update split: if_splits)

lemma updateLongest_reported:
  fixes calls :: "(nat \<times> 's) list"
  assumes r: "reported step q0 es n lg" and v: "validFrom step es n {} q0 p"
    and c: "map (\<lambda>(a, s). nid (h ! a)) calls = map int p" and u: "updateLongest h calls lg = Inr lg'"
  shows "reported step q0 es n lg'"
proof -
  let ?f = "\<lambda>(a, s :: 's) lg. rbind (go_nth lg (nid (h ! a))) (\<lambda>old.
       if (case old of None \<Rightarrow> True | Some l \<Rightarrow> len calls > len l)
       then go_upd lg (nid (h ! a)) (Some (map int p)) else Inr lg)"
  have "for_each calls ?f lg = Inr lg'" using u unfolding updateLongest_def Let_def c .
  then show ?thesis using r
  proof (rule for_each_inv)
    fix cl and s t :: "int list option list"
    assume cl: "cl \<in> set calls" and rs: "reported step q0 es n s" and f: "?f cl s = Inr t"
    have "(\<lambda>(a, s). nid (h ! a)) cl \<in> set (map int p)" unfolding c [symmetric] using cl by auto
    then obtain x where x: "x \<in> set p" "(\<lambda>(a, s). nid (h ! a)) cl = int x" by auto
    then have "t = s \<or> go_upd s (int x) (Some (map int p)) = Inr t"
      using f by (cases cl) (auto simp: rbind_eq_Inr split: if_splits)
    with rs reported_upd [OF rs v x(1)] show "reported step q0 es n t" by blast
  qed
qed

text \<open>A round changes the recorded sequences only when it takes a call back.\<close>

lemma searchStep_longest:
  assumes "searchStep stepR equal cp head s = Inr r"
  shows "case r of Inl lg \<Rightarrow> lg = sLongest s
    | Inr s' \<Rightarrow> sLongest s' = sLongest s \<or> updateLongest (sHeap s) (sCalls s) (sLongest s) = Inr (sLongest s')"
  using assms
  by (auto simp: searchStep_def rbind_eq_Inr Let_def case_prod_unfold split: if_splits)

context search_model
begin

lemma calls_path:
  assumes rc: "run_ok stepR step es n h0" and inv: "ainv step equal q0 es n a" and sim: "simulates step q0 es n h0 s a"
  shows "map (\<lambda>(b, q). nid (sHeap s ! b)) (sCalls s) = map int (aPath a)"
proof -
  have v: "validFrom step es n {} q0 (aPath a)" using inv by (simp add: ainv_def)
  have sub: "set (aPath a) \<subseteq> {..<n}" using validFrom_props [OF v] by blast
  have nid: "nid (sHeap s ! addrOf es callEntry y) = int y" if "y < n" for y
    using heap_at(1) [OF rc inv sim] addrOf_props [OF run_wf [OF rc] that, of callEntry] by (simp add: holds_def)
  have "map (\<lambda>(b, q). nid (sHeap s ! b)) (callsOf step es q0 (aPath a)) = map int (aPath a)"
    using sub nid by (intro nth_equalityI) (auto simp: callsOf_def subset_iff)
  moreover have "sCalls s = callsOf step es q0 (aPath a)" using sim by (simp add: simulates_def Let_def)
  ultimately show ?thesis by simp
qed

lemma searchLoop_reported:
  assumes rc: "run_ok stepR step es n h0" and prems: "ainv step equal q0 es n a" "simulates step q0 es n h0 s a"
    "reported step q0 es n (sLongest s)" "searchLoop stepR equal cp (length es) n kill s = Inr (Some (ok, lg))"
  shows "reported step q0 es n lg"
  using prems
proof (induction kill arbitrary: a s)
  case Nil
  show ?case
  proof (cases "rem es (set (aPath a)) = []")
    case True
    from searchLoop_end [OF rc Nil(1,2) True, of cp "[]"] Nil(1,4)
    show ?thesis by (auto simp: reported_def linearization_def ainv_def)
  next
    case False
    with head_next [OF heap_at(2) [OF rc Nil(1,2)]] Nil(4) show ?thesis by (simp add: searchLoop.simps)
  qed
next
  case (Cons k kill)
  show ?case
  proof (cases "rem es (set (aPath a)) = []")
    case True
    from searchLoop_end [OF rc Cons.prems(1,2) True, of cp "k # kill"] Cons.prems(1,4)
    show ?thesis by (auto simp: reported_def linearization_def ainv_def)
  next
    case ne: False
    with head_next [OF heap_at(2) [OF rc Cons.prems(1,2)]] have nx: "nnext (sHeap s ! length es) \<noteq> None" by simp
    show ?thesis
    proof (cases k)
      case True
      with Cons.prems(3,4) nx show ?thesis by (simp add: searchLoop.simps [of _ _ _ _ _ "_ # _"])
    next
      case k: False
      from searchStep_sim [OF rc Cons.prems(1,2) ne, of cp] show ?thesis
      proof (elim disjE exE conjE)
        fix lg' assume st: "searchStep stepR equal cp (length es) s = Inr (Inl lg')"
        with Cons.prems(3,4) nx k searchStep_longest [OF st] show ?thesis
          by (simp add: searchLoop.simps [of _ _ _ _ _ "_ # _"])
      next
        fix s' a' assume st: "searchStep stepR equal cp (length es) s = Inr (Inr s')" "astep step equal q0 es a = Inr a'"
          "simulates step q0 es n h0 s' a'"
        have v: "validFrom step es n {} q0 (aPath a)" using Cons.prems(1) by (simp add: ainv_def)
        have "reported step q0 es n (sLongest s')"
          using searchStep_longest [OF st(1)] Cons.prems(3)
            updateLongest_reported [OF Cons.prems(3) v calls_path [OF rc Cons.prems(1,2)]] by auto
        moreover have "searchLoop stepR equal cp (length es) n kill s' = Inr (Some (ok, lg))"
          using Cons.prems(4) nx k st(1) by (simp add: searchLoop.simps [of _ _ _ _ _ "_ # _"])
        ultimately show ?thesis
          using Cons.IH [OF astep_inv [OF run_wf [OF rc] Cons.prems(1) ne st(2)] st(3)] by blast
      qed
    qed
  qed
qed

text \<open>Whatever the flag says and whenever it is read.\<close>

lemma checkSingle_reported:
  assumes wf: "wf_history es n" and m: "answers (Step model) step es n" "Equal model = Some equal"
    and c: "checkSingle model es cp kill = Inr (Some (ok, lg))"
  shows "reported step (Init model) es n lg"
proof -
  obtain h0 s where s: "run_ok (Step model) step es n h0" "simulates step (Init model) es n h0 s astart"
    "sLongest s = replicate n None"
    "\<And>cp kill. checkSingle model es cp kill = searchLoop (Step model) equal cp (length es) n kill s"
    by (rule checkSingle_start [OF wf m]) blast
  show ?thesis
  proof (rule searchLoop_reported [OF s(1) ainv_start [OF wf] s(2)])
    show "reported step (Init model) es n (sLongest s)" unfolding s(3) by (rule reported_start)
    show "searchLoop (Step model) equal cp (length es) n kill s = Inr (Some (ok, lg))" using c s(4) by simp
  qed
qed

end

section \<open>All partitions\<close>

lemma longestOf_arrivals:
  assumes "arrivals model hs info kill schedule = Inr as"
  shows "longestOf as i = [] \<or> (\<exists>ok. checkSingle model (hs ! i) info (kill i) = Inr (Some (ok, longestOf as i)))"
proof -
  have "\<forall>a \<in> set as. case a of Result j r l \<Rightarrow> checkSingle model (hs ! j) info (kill j) = Inr (Some (r, l)) | Timeout \<Rightarrow> True"
    by (rule for_each_inv [OF assms [unfolded arrivals_def]])
      (auto simp: rbind_eq_Inr split: option.splits)
  then show ?thesis
    by (auto simp: longestOf_def split: option.splits arrival.splits dest!: find_Some_in)
qed

text \<open>The sequences reported for a partition with \<open>n\<close> operations.\<close>

definition valid_partials :: "('s \<Rightarrow> 'v iface \<Rightarrow> 'v iface \<Rightarrow> bool \<times> 's) \<Rightarrow> 's \<Rightarrow> 'v entry list \<Rightarrow> nat \<Rightarrow> int list set \<Rightarrow> bool" where
  "valid_partials step q0 es n P = (finite P \<and> (\<forall>l \<in> P. \<exists>p. l = map int p \<and> p \<noteq> [] \<and> validFrom step es n {} q0 p))"

lemma partials_mem: "l \<in> partials lg \<longleftrightarrow> (\<exists>i < length lg. lg ! i = Some l)"
  by (auto simp: partials_def map_filter_def in_set_conv_nth image_iff)

lemma reported_partials:
  assumes "reported step q0 es n lg"
  shows "valid_partials step q0 es n (partials lg)"
  unfolding valid_partials_def
proof (intro conjI ballI)
  show "finite (partials lg)" by (simp add: partials_def)
  fix l assume "l \<in> partials lg"
  then obtain i where "i < length lg" "lg ! i = Some l" by (auto simp: partials_mem)
  with assms obtain p where "l = map int p" "i \<in> set p" "validFrom step es n {} q0 p" unfolding reported_def by blast
  then show "\<exists>p. l = map int p \<and> p \<noteq> [] \<and> validFrom step es n {} q0 p" by (intro exI [of _ p]) auto
qed

context search_model
begin

text \<open>What \<open>checkParallel\<close> returns in verbose mode, with or without a timeout.\<close>

lemma checkParallel_partials:
  assumes wf: "\<And>i. i < length hs \<Longrightarrow> wf_history (hs ! i) (ns i) \<and> answers (Step model) step (hs ! i) (ns i)"
    and m: "Equal model = Some equal"
    and c: "checkParallel model hs True kill schedule = Inr (Some (res, info))"
  shows "liHistory info = hs" "length (partialLinearizations info) = length hs"
    "\<And>i. i < length hs \<Longrightarrow> valid_partials step (Init model) (hs ! i) (ns i) (partialLinearizations info ! i)"
proof -
  let ?info = "\<lambda>as. \<lparr>liHistory = hs, partialLinearizations = map (\<lambda>i. partials (longestOf as i)) [0..<length hs]\<rparr>"
  obtain as where as: "arrivals model hs True kill schedule = Inr as" "collect True (length hs) True 0 as \<noteq> None"
    using c by (auto simp: checkParallel_def rbind_eq_Inr split: option.splits)
  then obtain ok timedOut cnt rest where "collect True (length hs) True 0 as = Some (ok, timedOut, cnt, rest)" by auto
  with c as(1) have info: "info = ?info as" by (simp add: checkParallel_def split: if_splits)
  show "liHistory info = hs" "length (partialLinearizations info) = length hs" by (simp_all add: info)
  fix i assume i: "i < length hs"
  have "reported step (Init model) (hs ! i) (ns i) (longestOf as i)"
    using longestOf_arrivals [OF as(1), of i]
  proof (elim disjE exE)
    assume "longestOf as i = []"
    then show ?thesis by (simp add: reported_def)
  next
    fix ok assume "checkSingle model (hs ! i) True (kill i) = Inr (Some (ok, longestOf as i))"
    with checkSingle_reported [OF _ _ m] wf [OF i] show ?thesis by blast
  qed
  from reported_partials [OF this] i show "valid_partials step (Init model) (hs ! i) (ns i) (partialLinearizations info ! i)"
    by (simp add: info)
qed

end

end
