(* ===== verification/PorcupineVisual.thy ===== *)
theory PorcupineVisual
  imports PorcupinePartials
begin

text \<open>
  The data behind the visualization of a check (\<open>porcupine/visualization.go\<close>): for every
  partition the operations with their clients, times and descriptions, the partial
  linearizations with the states they go through, and for every operation the number of a
  longest partial linearization that contains it. The text of the page with its script and the
  encoding as JSON are arguments of the functions that write the file.

  Two things the language leaves open are arguments: \<open>listing i P\<close> is the order in which the
  map with the partial linearizations of partition \<open>i\<close> is traversed, and \<open>fmtValue\<close> and \<open>fmtState\<close>
  are what the verb \<open>%v\<close> prints for the values of a history and for a state.
\<close>

section \<open>The data\<close>

record historyElement =
  heClientId :: int
  heStart :: int
  heEnd :: int
  heDescription :: string

record linearizationStep =
  lsIndex :: int
  lsStateDescription :: string

record partitionVisualizationData =
  pvHistory :: "historyElement list"
  pvPartialLinearizations :: "linearizationStep list list"
  pvLargest :: "int \<rightharpoonup> int"

definition zeroElement :: historyElement where
  "zeroElement = \<lparr>heClientId = 0, heStart = 0, heEnd = 0, heDescription = ''''\<rparr>"

text \<open>The defaults of \<open>model.go\<close>, and a call of the field with the description.\<close>

definition DefaultDescribeOperation :: "('v iface \<Rightarrow> string) \<Rightarrow> 'v iface \<Rightarrow> 'v iface \<Rightarrow> string" where
  "DefaultDescribeOperation fmtValue input out = fmtValue input @ '' -> '' @ fmtValue out"

definition DefaultDescribeState :: "('s \<Rightarrow> string) \<Rightarrow> 's \<Rightarrow> string" where
  "DefaultDescribeState fmtState state = fmtState state"

definition describeOperation :: "('v, 's) Model \<Rightarrow> ('v iface \<Rightarrow> string) \<Rightarrow> 'v iface \<Rightarrow> 'v iface \<Rightarrow> string res" where
  "describeOperation model fmtValue input out =
    (case DescribeOperation model of
       None \<Rightarrow> Inl NilDereference
     | Some DefaultDescribe \<Rightarrow> Inr (DefaultDescribeOperation fmtValue input out)
     | Some (Describe f) \<Rightarrow> f input out)"

definition describeState :: "('v, 's) Model \<Rightarrow> ('s \<Rightarrow> string) \<Rightarrow> 's \<Rightarrow> string res" where
  "describeState model fmtState state =
    (case DescribeState model of
       None \<Rightarrow> Inl NilDereference
     | Some DefaultDescribe \<Rightarrow> Inr (DefaultDescribeState fmtState state)
     | Some (Describe f) \<Rightarrow> Inr (f state))"

section \<open>One partition\<close>

text \<open>Lines 39 to 54. A map that has no value for a key yields nil.\<close>

record 'v described =
  dHistory :: "historyElement list"
  dCall :: "int \<Rightarrow> 'v iface"
  dReturn :: "int \<Rightarrow> 'v iface"

definition describeEntry :: "('v, 's) Model \<Rightarrow> ('v iface \<Rightarrow> string) \<Rightarrow> 'v entry \<Rightarrow> 'v described \<Rightarrow> 'v described res" where
  "describeEntry model fmtValue elem d =
    (let k = int (eid elem) in
     case ekind elem of
       callEntry \<Rightarrow>
         rbind (go_nth (dHistory d) k) (\<lambda>h.
         rbind (go_upd (dHistory d) k (h\<lparr>heClientId := eclient elem, heStart := etime elem\<rparr>)) (\<lambda>hs.
         Inr (d\<lparr>dHistory := hs, dCall := (dCall d)(k := evalue elem)\<rparr>)))
     | returnEntry \<Rightarrow>
         rbind (go_nth (dHistory d) k) (\<lambda>h.
         rbind (describeOperation model fmtValue (dCall d k) (evalue elem)) (\<lambda>desc.
         rbind (go_upd (dHistory d) k (h\<lparr>heEnd := etime elem, heDescription := desc\<rparr>)) (\<lambda>hs.
         Inr (d\<lparr>dHistory := hs, dReturn := (dReturn d)(k := evalue elem)\<rparr>)))))"

definition describeHistory :: "('v, 's) Model \<Rightarrow> ('v iface \<Rightarrow> string) \<Rightarrow> 'v entry list \<Rightarrow> 'v described res" where
  "describeHistory model fmtValue es =
    for_each es (describeEntry model fmtValue)
      \<lparr>dHistory = replicate (length es div 2) zeroElement, dCall = (\<lambda>k. None), dReturn = (\<lambda>k. None)\<rparr>"

text \<open>
  Lines 63 to 80. The state of the inner loop: the steps so far, the state of the model, and
  the two maps; \<open>largestSize\<close> yields zero for a key it does not have.
\<close>

record 's walk =
  wSteps :: "linearizationStep list"
  wState :: 's
  wSize :: "int \<Rightarrow> int"
  wLargest :: "int \<rightharpoonup> int"

definition walkStep :: "('v, 's) Model \<Rightarrow> ('s \<Rightarrow> string) \<Rightarrow> 'v described \<Rightarrow> int \<Rightarrow> int list \<Rightarrow> int \<Rightarrow> 's walk \<Rightarrow> 's walk res" where
  "walkStep model fmtState d i partial histId w =
    rbind (Step model (wState w) (dCall d histId) (dReturn d histId)) (\<lambda>(ok, state).
    if ok \<noteq> True then Inl (GoPanic ''valid partial linearization returned non-ok result from model step'')
    else
      rbind (describeState model fmtState state) (\<lambda>stateDesc.
      let w1 = w\<lparr>wState := state, wSteps := wSteps w @ [\<lparr>lsIndex = histId, lsStateDescription = stateDesc\<rparr>]\<rparr> in
      if wSize w1 histId < len partial
      then Inr (w1\<lparr>wSize := (wSize w1)(histId := len partial), wLargest := (wLargest w1)(histId \<mapsto> i)\<rparr>)
      else Inr w1))"

text \<open>The outer loop: the linearizations so far and the two maps.\<close>

definition walkPartial :: "('v, 's) Model \<Rightarrow> ('s \<Rightarrow> string) \<Rightarrow> 'v described \<Rightarrow> int \<times> int list \<Rightarrow>
    linearizationStep list list \<times> (int \<Rightarrow> int) \<times> (int \<rightharpoonup> int) \<Rightarrow>
    (linearizationStep list list \<times> (int \<Rightarrow> int) \<times> (int \<rightharpoonup> int)) res" where
  "walkPartial model fmtState d = (\<lambda>(i, partial) (lins, size, largest).
    rbind (for_each partial (walkStep model fmtState d i partial)
       \<lparr>wSteps = [], wState = Init model, wSize = size, wLargest = largest\<rparr>) (\<lambda>w.
    Inr (lins @ [wSteps w], wSize w, wLargest w)))"

text \<open>
  \<open>sort.Slice\<close> with the longer ones first. It does not say in which order sequences of the same
  length come; since the order before sorting is arbitrary, a stable sort has all outcomes.
\<close>

definition sortPartials :: "int list list \<Rightarrow> int list list" where
  "sortPartials ps = sort_key (\<lambda>l. - len l) ps"

definition visualizePartition :: "('v, 's) Model \<Rightarrow> ('v iface \<Rightarrow> string) \<Rightarrow> ('s \<Rightarrow> string) \<Rightarrow> 'v entry list \<Rightarrow>
    int list list \<Rightarrow> partitionVisualizationData res" where
  "visualizePartition model fmtValue fmtState es ps =
    rbind (describeHistory model fmtValue es) (\<lambda>d.
    let partials = sortPartials ps in
    rbind (for_each (zip (indices 0 (len partials)) partials) (walkPartial model fmtState d) ([], \<lambda>k. 0, Map.empty))
      (\<lambda>(lins, size, largest).
    Inr \<lparr>pvHistory = dHistory d, pvPartialLinearizations = lins, pvLargest = largest\<rparr>))"

section \<open>All partitions\<close>

definition computeVisualizationData :: "(nat \<Rightarrow> int list set \<Rightarrow> int list list) \<Rightarrow> ('v iface \<Rightarrow> string) \<Rightarrow> ('s \<Rightarrow> string) \<Rightarrow>
    ('v, 's) Model \<Rightarrow> 'v linearizationInfo \<Rightarrow> partitionVisualizationData list res" where
  "computeVisualizationData listing fmtValue fmtState model0 info =
    (let model = fillDefault model0 in
     for_each (indices 0 (len (liHistory info))) (\<lambda>i data.
       rbind (go_nth (liHistory info) i) (\<lambda>es.
       rbind (go_nth (partialLinearizations info) i) (\<lambda>P.
       rbind (visualizePartition model fmtValue fmtState es (listing (nat i) P)) (\<lambda>d.
       Inr (data @ [d]))))) [])"

section \<open>The file\<close>

text \<open>
  Writing the page. \<open>marshal\<close> is \<open>json.Marshal\<close>, \<open>page\<close> puts the data into the constant \<open>html\<close> of the
  source, and \<open>output\<close> is the writer, a function on the state \<open>w\<close> of the file system; errors are
  texts. The result is the error that is returned, if there is one, and the new state.
\<close>

definition Visualize :: "(partitionVisualizationData list \<Rightarrow> string + string) \<Rightarrow> (string \<Rightarrow> string) \<Rightarrow>
    (nat \<Rightarrow> int list set \<Rightarrow> int list list) \<Rightarrow> ('v iface \<Rightarrow> string) \<Rightarrow> ('s \<Rightarrow> string) \<Rightarrow>
    ('v, 's) Model \<Rightarrow> 'v linearizationInfo \<Rightarrow> (string \<Rightarrow> 'w \<Rightarrow> string option \<times> 'w) \<Rightarrow> 'w \<Rightarrow> (string option \<times> 'w) res" where
  "Visualize marshal page listing fmtValue fmtState model info output w =
    rbind (computeVisualizationData listing fmtValue fmtState model info) (\<lambda>data.
    case marshal data of
      Inl err \<Rightarrow> Inr (Some err, w)
    | Inr jsonData \<Rightarrow> Inr (output (page jsonData) w))"

text \<open>\<open>create\<close> opens the file for writing, or fails; \<open>close\<close> runs on every way out; after a
  panic there is no state to speak of.\<close>

definition VisualizePath :: "(partitionVisualizationData list \<Rightarrow> string + string) \<Rightarrow> (string \<Rightarrow> string) \<Rightarrow>
    (nat \<Rightarrow> int list set \<Rightarrow> int list list) \<Rightarrow> ('v iface \<Rightarrow> string) \<Rightarrow> ('s \<Rightarrow> string) \<Rightarrow>
    (string \<Rightarrow> 'w \<Rightarrow> string + 'f \<times> 'w) \<Rightarrow> ('f \<Rightarrow> string \<Rightarrow> 'w \<Rightarrow> string option \<times> 'w) \<Rightarrow> ('f \<Rightarrow> 'w \<Rightarrow> 'w) \<Rightarrow>
    ('v, 's) Model \<Rightarrow> 'v linearizationInfo \<Rightarrow> string \<Rightarrow> 'w \<Rightarrow> (string option \<times> 'w) res" where
  "VisualizePath marshal page listing fmtValue fmtState create write close model info path w =
    (case create path w of
       Inl err \<Rightarrow> Inr (Some err, w)
     | Inr (f, w1) \<Rightarrow> rbind (Visualize marshal page listing fmtValue fmtState model info (write f) w1)
         (\<lambda>(err, w2). Inr (err, close f w2)))"

text \<open>A file that was opened is closed, whatever writing it returned.\<close>

lemma VisualizePath_closes:
  assumes "create path w = Inr (f, w1)"
    and "computeVisualizationData listing fmtValue fmtState model info = Inr data"
  obtains w2 err where "VisualizePath marshal page listing fmtValue fmtState create write close model info path w =
      Inr (err, close f w2)"
    and "(case marshal data of Inl e \<Rightarrow> (Some e, w1) | Inr js \<Rightarrow> write f (page js) w1) = (err, w2)"
proof (cases "marshal data")
  case (Inl e)
  then show thesis using assms that[of "Some e" w1] by (simp add: VisualizePath_def Visualize_def)
next
  case (Inr js)
  obtain err w2 where "write f (page js) w1 = (err, w2)" by (cases "write f (page js) w1")
  then show thesis using assms Inr that[of err w2] by (simp add: VisualizePath_def Visualize_def)
qed

end
