(* ===== verification/PorcupineVisualProperties.thy ===== *)
theory PorcupineVisualProperties
  imports PorcupineVisual
begin

text \<open>
  The visualization shows what was checked: the description of every operation, and partial
  linearizations that are runs of the model. The panic of \<open>computeVisualizationData\<close> is never
  reached on what the checker reports, also when the check was stopped by its timeout.
\<close>

section \<open>Histories\<close>

definition entryFor :: "'v entry list \<Rightarrow> entryKind \<Rightarrow> nat \<Rightarrow> 'v entry option" where
  "entryFor es k x = find (\<lambda>e. ekind e = k \<and> eid e = x) es"

lemma valueOf_entryFor: "valueOf es k x = (case entryFor es k x of None \<Rightarrow> None | Some e \<Rightarrow> evalue e)"
  by (simp add: valueOf_def entryFor_def)

lemma find_snoc: "find P (xs @ [x]) = (case find P xs of Some y \<Rightarrow> Some y | None \<Rightarrow> if P x then Some x else None)"
  by (induction xs) auto

lemma entryFor_snoc:
  "entryFor (es @ [e]) k x = (case entryFor es k x of Some f \<Rightarrow> Some f | None \<Rightarrow> if ekind e = k \<and> eid e = x then Some e else None)"
  by (simp add: entryFor_def find_snoc)

lemma entryFor_append: "entryFor es k x = Some e \<Longrightarrow> entryFor (es @ fs) k x = Some e"
  unfolding entryFor_def by (induction es) (auto split: if_splits)

lemma entryFor_None: "entryFor es k x = None \<longleftrightarrow> (\<forall>e \<in> set es. \<not> (ekind e = k \<and> eid e = x))"
  by (auto simp: entryFor_def find_None_iff)

text \<open>The element of operation \<open>x\<close> when the entries \<open>es\<close> have been read.\<close>

definition shownElement :: "(nat \<Rightarrow> string) \<Rightarrow> 'v entry list \<Rightarrow> nat \<Rightarrow> historyElement" where
  "shownElement desc es x =
    \<lparr>heClientId = (case entryFor es callEntry x of None \<Rightarrow> 0 | Some e \<Rightarrow> eclient e),
     heStart = (case entryFor es callEntry x of None \<Rightarrow> 0 | Some e \<Rightarrow> etime e),
     heEnd = (case entryFor es returnEntry x of None \<Rightarrow> 0 | Some e \<Rightarrow> etime e),
     heDescription = (case entryFor es returnEntry x of None \<Rightarrow> '''' | Some e \<Rightarrow> desc x)\<rparr>"

definition shown :: "(nat \<Rightarrow> string) \<Rightarrow> nat \<Rightarrow> 'v entry list \<Rightarrow> 'v described \<Rightarrow> bool" where
  "shown desc n es d = (dHistory d = map (shownElement desc es) [0..<n] \<and>
     (\<forall>x < n. dCall d (int x) = valueOf es callEntry x \<and> dReturn d (int x) = valueOf es returnEntry x))"

lemma describeEntry_ok:
  assumes new: "entryFor es (ekind e) (eid e) = None" and e: "eid e < n" and s: "shown desc n es d"
    and r: "ekind e = returnEntry \<Longrightarrow>
      describeOperation model fmtValue (valueOf es callEntry (eid e)) (evalue e) = Inr (desc (eid e))"
  shows "\<exists>d'. describeEntry model fmtValue e d = Inr d' \<and> shown desc n (es @ [e]) d'"
  using new e s r
  by (cases "ekind e")
    (auto simp: describeEntry_def Let_def go_nth_def go_upd_def shown_def valueOf_entryFor entryFor_snoc nth_list_update
      shownElement_def intro!: nth_equalityI split: option.splits)

lemma wf_prefix:
  assumes wf: "wf_history es n" and es: "es = pre @ e # rest"
  shows "entryFor pre (ekind e) (eid e) = None" "eid e < n"
    "ekind e = returnEntry \<Longrightarrow> \<exists>c. entryFor pre callEntry (eid e) = Some c"
proof -
  let ?i = "length pre"
  have i: "?i < length es" "es ! ?i = e" by (simp_all add: es)
  show "eid e < n" using wf_ids [OF wf] by (simp add: es)
  show "entryFor pre (ekind e) (eid e) = None"
    using wf_distinct [OF wf] unfolding entryFor_None es by (simp add: image_iff) metis
  show "\<exists>c. entryFor pre callEntry (eid e) = Some c" if ret: "ekind e = returnEntry"
  proof -
    obtain j where j: "j < ?i" "ekind (es ! j) = callEntry" "eid (es ! j) = eid e"
      using wf_call [OF wf i(1)] ret unfolding i(2) by blast
    then have "es ! j \<in> set pre" by (simp add: es nth_append)
    with j(2,3) entryFor_None [of pre callEntry "eid e"] show ?thesis by auto
  qed
qed

lemma describe_prefix:
  assumes wf: "wf_history es n" and es: "es = pre @ rest"
    and desc: "\<And>x. x < n \<Longrightarrow>
      describeOperation model fmtValue (valueOf es callEntry x) (valueOf es returnEntry x) = Inr (desc x)"
    and d0: "shown desc n [] d0"
  shows "\<exists>d. for_each pre (describeEntry model fmtValue) d0 = Inr d \<and> shown desc n pre d"
  using es
proof (induction pre arbitrary: rest rule: rev_induct)
  case Nil
  then show ?case using d0 by simp
next
  case (snoc e pre)
  then have es: "es = pre @ e # rest" by simp
  obtain d where d: "for_each pre (describeEntry model fmtValue) d0 = Inr d" "shown desc n pre d"
    using snoc.IH [OF es] by blast
  note w = wf_prefix [OF wf es]
  have "describeOperation model fmtValue (valueOf pre callEntry (eid e)) (evalue e) = Inr (desc (eid e))"
    if ret: "ekind e = returnEntry"
  proof -
    obtain c where "entryFor pre callEntry (eid e) = Some c" using w(3) [OF ret] by blast
    moreover from this have "entryFor es callEntry (eid e) = Some c" unfolding es by (rule entryFor_append)
    ultimately have "valueOf pre callEntry (eid e) = valueOf es callEntry (eid e)" by (simp add: valueOf_entryFor)
    moreover have "entryFor (pre @ [e]) returnEntry (eid e) = Some e" using w(1) ret by (simp add: entryFor_snoc)
    from entryFor_append [OF this, of rest] have "valueOf es returnEntry (eid e) = evalue e"
      by (simp add: valueOf_entryFor es)
    ultimately show ?thesis using desc [OF w(2)] by simp
  qed
  from describeEntry_ok [OF w(1,2) d(2) this] d(1) show ?case by (auto simp: for_each_append)
qed

lemma describeHistory_ok:
  assumes wf: "wf_history es n"
    and desc: "\<And>x. x < n \<Longrightarrow>
      describeOperation model fmtValue (valueOf es callEntry x) (valueOf es returnEntry x) = Inr (desc x)"
  obtains d where "describeHistory model fmtValue es = Inr d" "shown desc n es d"
proof -
  let ?d0 = "\<lparr>dHistory = replicate (length es div 2) zeroElement, dCall = (\<lambda>k. None), dReturn = (\<lambda>k. None)\<rparr>"
  have "shown desc n [] ?d0" using wf_length [OF wf]
    by (auto simp: shown_def zeroElement_def shownElement_def entryFor_def valueOf_def intro!: nth_equalityI)
  with describe_prefix [OF wf _ desc, of es "[]"] obtain d where
    "for_each es (describeEntry model fmtValue) ?d0 = Inr d" "shown desc n es d" by auto
  then show thesis using that by (simp add: describeHistory_def)
qed

section \<open>Partial linearizations\<close>

text \<open>The states that a sequence of operations goes through.\<close>

fun visited :: "('s \<Rightarrow> nat \<Rightarrow> bool \<times> 's) \<Rightarrow> 's \<Rightarrow> nat list \<Rightarrow> 's list" where
  "visited app q [] = []"
| "visited app q (x # xs) = snd (app q x) # visited app (snd (app q x)) xs"

fun accepted :: "('s \<Rightarrow> nat \<Rightarrow> bool \<times> 's) \<Rightarrow> 's \<Rightarrow> nat list \<Rightarrow> bool" where
  "accepted app q [] = True"
| "accepted app q (x # xs) = (fst (app q x) \<and> accepted app (snd (app q x)) xs)"

definition shownSteps :: "('s \<Rightarrow> string) \<Rightarrow> ('s \<Rightarrow> nat \<Rightarrow> bool \<times> 's) \<Rightarrow> 's \<Rightarrow> nat list \<Rightarrow> linearizationStep list" where
  "shownSteps f app q p = map2 (\<lambda>x s. \<lparr>lsIndex = int x, lsStateDescription = f s\<rparr>) p (visited app q p)"

lemma walk_ok:
  assumes st: "\<And>x q. x \<in> set p \<Longrightarrow> Step model q (dCall d (int x)) (dReturn d (int x)) = Inr (app q x)"
    and ds: "\<And>q. describeState model fmtState q = Inr (f q)" and a: "accepted app (wState w) p"
  shows "\<exists>q. for_each (map int p) (walkStep model fmtState d i partial) w = Inr
    \<lparr>wSteps = wSteps w @ shownSteps f app (wState w) p, wState = q,
     wSize = (\<lambda>k. if k \<in> int ` set p \<and> wSize w k < len partial then len partial else wSize w k),
     wLargest = (\<lambda>k. if k \<in> int ` set p \<and> wSize w k < len partial then Some i else wLargest w k)\<rparr>"
  using st a
proof (induction p arbitrary: w)
  case Nil
  then show ?case by (intro exI [of _ "wState w"]) (simp add: shownSteps_def)
next
  case (Cons x p)
  let ?q = "snd (app (wState w) x)" and ?u = "wSize w (int x) < len partial"
  define w1 where "w1 = \<lparr>wSteps = wSteps w @ [\<lparr>lsIndex = int x, lsStateDescription = f ?q\<rparr>], wState = ?q,
    wSize = (if ?u then (wSize w)(int x := len partial) else wSize w),
    wLargest = (if ?u then (wLargest w)(int x \<mapsto> i) else wLargest w)\<rparr>"
  have "walkStep model fmtState d i partial (int x) w = Inr w1"
    using Cons.prems ds by (simp add: walkStep_def case_prod_unfold Let_def w1_def)
  moreover have "accepted app (wState w1) p" using Cons.prems(2) by (simp add: w1_def)
  then obtain q where "for_each (map int p) (walkStep model fmtState d i partial) w1 = Inr
    \<lparr>wSteps = wSteps w1 @ shownSteps f app (wState w1) p, wState = q,
     wSize = (\<lambda>k. if k \<in> int ` set p \<and> wSize w1 k < len partial then len partial else wSize w1 k),
     wLargest = (\<lambda>k. if k \<in> int ` set p \<and> wSize w1 k < len partial then Some i else wLargest w1 k)\<rparr>"
    using Cons.IH [of w1] Cons.prems(1) by auto
  ultimately show ?case
    by (intro exI [of _ q]) (auto simp: w1_def shownSteps_def fun_eq_iff)
qed

text \<open>The number of the first sequence that contains an operation, and its length.\<close>

definition firstWith :: "int list list \<Rightarrow> int \<Rightarrow> int option" where
  "firstWith ps k = (if \<exists>l \<in> set ps. k \<in> set l then Some (len (takeWhile (\<lambda>l. k \<notin> set l) ps)) else None)"

definition sizeWith :: "int list list \<Rightarrow> int \<Rightarrow> int" where
  "sizeWith ps k = (case find (\<lambda>l. k \<in> set l) ps of None \<Rightarrow> 0 | Some l \<Rightarrow> len l)"

lemma firstWith_snoc:
  "firstWith (ps @ [l]) k = (if \<exists>l \<in> set ps. k \<in> set l then firstWith ps k else if k \<in> set l then Some (len ps) else None)"
  by (auto simp: firstWith_def takeWhile_append takeWhile_eq_all_conv)

lemma sizeWith_snoc:
  "sizeWith (ps @ [l]) k = (if \<exists>l \<in> set ps. k \<in> set l then sizeWith ps k else if k \<in> set l then len l else 0)"
  by (auto simp: sizeWith_def find_snoc find_None_iff split: option.splits dest: find_Some_in)

lemma sizeWith_none: "\<not> (\<exists>l \<in> set ps. k \<in> set l) \<Longrightarrow> sizeWith ps k = 0"
  by (auto simp: sizeWith_def split: option.splits dest: find_Some_in)

lemma sizeWith_ge:
  assumes "\<exists>l \<in> set ps. k \<in> set l" "\<And>l. l \<in> set ps \<Longrightarrow> m \<le> len l"
  shows "m \<le> sizeWith ps k"
proof -
  from assms(1) obtain l where "find (\<lambda>l. k \<in> set l) ps = Some l"
    by (cases "find (\<lambda>l. k \<in> set l) ps") (auto simp: find_None_iff)
  with assms(2) show ?thesis by (auto simp: sizeWith_def dest: find_Some_in)
qed

text \<open>The loop over the sequences, which come in descending length.\<close>

lemma walks_ok:
  assumes st: "\<And>p x q. map int p \<in> set ps \<Longrightarrow> x \<in> set p \<Longrightarrow> Step model q (dCall d (int x)) (dReturn d (int x)) = Inr (app q x)"
    and ds: "\<And>q. describeState model fmtState q = Inr (f q)"
    and ps: "\<And>l. l \<in> set ps \<Longrightarrow> \<exists>p. l = map int p \<and> p \<noteq> [] \<and> accepted app (Init model) p"
    and so: "sorted_wrt (\<lambda>l l'. len l' \<le> len l) ps"
  shows "for_each (zip (indices 0 (len ps)) ps) (walkPartial model fmtState d) ([], \<lambda>k. 0, Map.empty) =
    Inr (map (\<lambda>l. shownSteps f app (Init model) (map nat l)) ps, sizeWith ps, firstWith ps)"
  using st ps so
proof (induction ps rule: rev_induct)
  case Nil
  then show ?case by (simp add: indices_def len_def sizeWith_def [abs_def] firstWith_def [abs_def])
next
  case (snoc l ps)
  obtain p where p: "l = map int p" "p \<noteq> []" "accepted app (Init model) p" using snoc.prems(2) [of l] by auto
  have ih: "for_each (zip (indices 0 (len ps)) ps) (walkPartial model fmtState d) ([], \<lambda>k. 0, Map.empty) =
    Inr (map (\<lambda>l. shownSteps f app (Init model) (map nat l)) ps, sizeWith ps, firstWith ps)"
    using snoc.prems by (intro snoc.IH) (auto simp: sorted_wrt_append)
  let ?w = "\<lparr>wSteps = [], wState = Init model, wSize = sizeWith ps, wLargest = firstWith ps\<rparr>"
  have "Step model q (dCall d (int x)) (dReturn d (int x)) = Inr (app q x)" if "x \<in> set p" for x q
    using snoc.prems(1) [OF _ that] p(1) by simp
  from walk_ok [where p = p and d = d and f = f and w = ?w and i = "len ps" and partial = l, OF this ds, simplified walk.select_convs, OF _ p(3)] obtain q where
    q: "for_each l (walkStep model fmtState d (len ps) l) ?w = Inr
    \<lparr>wSteps = shownSteps f app (Init model) p, wState = q,
     wSize = (\<lambda>k. if k \<in> set l \<and> sizeWith ps k < len l then len l else sizeWith ps k),
     wLargest = (\<lambda>k. if k \<in> set l \<and> sizeWith ps k < len l then Some (len ps) else firstWith ps k)\<rparr>"
    unfolding walk.select_convs append_Nil set_map [symmetric] p(1) by blast
  have ge: "\<exists>l \<in> set ps. k \<in> set l \<Longrightarrow> \<not> sizeWith ps k < len l" for k
    using sizeWith_ge [of ps k "len l"] snoc.prems(3) by (auto simp: sorted_wrt_append)
  have pos: "0 < len l" using p by (simp add: len_def)
  have upd: "(\<lambda>k. if k \<in> set l \<and> sizeWith ps k < len l then len l else sizeWith ps k) = sizeWith (ps @ [l])"
    "(\<lambda>k. if k \<in> set l \<and> sizeWith ps k < len l then Some (len ps) else firstWith ps k) = firstWith (ps @ [l])"
    using ge pos sizeWith_none [of ps]
    by (auto simp: fun_eq_iff sizeWith_snoc firstWith_snoc) (auto simp: firstWith_def)
  have "length (indices 0 (len ps)) = length ps" by (simp add: indices_def len_def)
  then have z: "zip (indices 0 (len (ps @ [l]))) (ps @ [l]) = zip (indices 0 (len ps)) ps @ [(len ps, l)]"
    unfolding indices_snoc by simp
  have "map nat l = p" by (simp add: p(1) map_idI)
  with ih q show ?case unfolding z by (simp add: for_each_append walkPartial_def upd)
qed

lemma firstWith_longest:
  assumes so: "sorted_wrt (\<lambda>l l'. len l' \<le> len l) ps" and i: "firstWith ps k = Some i"
  shows "0 \<le> i \<and> i < len ps \<and> k \<in> set (ps ! nat i) \<and> (\<forall>l \<in> set ps. k \<in> set l \<longrightarrow> len l \<le> len (ps ! nat i))"
proof -
  let ?m = "length (takeWhile (\<lambda>l. k \<notin> set l) ps)"
  have im: "i = int ?m" and ex: "\<exists>l \<in> set ps. k \<in> set l" using i by (auto simp: firstWith_def len_def split: if_splits)
  have m: "?m < length ps"
  proof (rule ccontr)
    assume "\<not> ?m < length ps"
    then have "takeWhile (\<lambda>l. k \<notin> set l) ps = ps"
      by (metis length_takeWhile_le linorder_not_less order_antisym takeWhile_eq_take take_all)
    with ex show False by (auto simp: takeWhile_eq_all_conv)
  qed
  have "len l \<le> len (ps ! ?m)" if l: "l \<in> set ps" "k \<in> set l" for l
  proof -
    obtain j where j: "j < length ps" "ps ! j = l" using l(1) by (auto simp: in_set_conv_nth)
    have "\<not> j < ?m"
    proof
      assume "j < ?m"
      then have "takeWhile (\<lambda>l. k \<notin> set l) ps ! j = l" by (simp add: takeWhile_nth j(2))
      with \<open>j < ?m\<close> l(2) show False by (metis nth_mem set_takeWhileD)
    qed
    then show ?thesis using so j by (cases "j = ?m") (auto simp: sorted_wrt_iff_nth_less)
  qed
  then show ?thesis using m nth_length_takeWhile [OF m] by (auto simp: im len_def)
qed

section \<open>A partition\<close>

lemma accepted_legal: "accepted (stepOp step es) q p = legal step es q p"
  by (induction p arbitrary: q) auto

lemma validFrom_in_order: "validFrom step es n S q xs \<Longrightarrow> sorted_wrt (\<lambda>x y. \<not> precedes es y x) xs"
proof (induction xs arbitrary: S q)
  case (Cons x xs)
  then have v: "validFrom step es n (insert x S) (snd (stepOp step es q x)) xs" and al: "allowed es n S x" by auto
  from validFrom_props [OF v] al Cons.IH [OF v] show ?case by (auto simp: allowed_def)
qed simp

lemma sortPartials_props:
  "set (sortPartials ps) = set ps" "sorted_wrt (\<lambda>l l'. len l' \<le> len l) (sortPartials ps)"
proof -
  have "sorted (map (\<lambda>l. - len l) (sortPartials ps))" by (simp add: sortPartials_def)
  then show "sorted_wrt (\<lambda>l l'. len l' \<le> len l) (sortPartials ps)" by (simp add: sorted_map)
qed (simp add: sortPartials_def)

lemma visualizePartition_ok:
  assumes wf: "wf_history es n" and an: "answers (Step model) step es n"
    and desc: "\<And>x. x < n \<Longrightarrow>
      describeOperation model fmtValue (valueOf es callEntry x) (valueOf es returnEntry x) = Inr (desc x)"
    and ds: "\<And>q. describeState model fmtState q = Inr (f q)"
    and P: "valid_partials step (Init model) es n (set ps)"
  shows "visualizePartition model fmtValue fmtState es ps = Inr
    \<lparr>pvHistory = map (shownElement desc es) [0..<n],
     pvPartialLinearizations = map (\<lambda>l. shownSteps f (stepOp step es) (Init model) (map nat l)) (sortPartials ps),
     pvLargest = firstWith (sortPartials ps)\<rparr>"
proof -
  obtain d where d: "describeHistory model fmtValue es = Inr d" "shown desc n es d"
    by (rule describeHistory_ok [OF wf desc])
  have pv: "\<exists>p. l = map int p \<and> p \<noteq> [] \<and> validFrom step es n {} (Init model) p" if "l \<in> set (sortPartials ps)" for l
    using P that by (simp add: valid_partials_def sortPartials_props(1))
  have "for_each (zip (indices 0 (len (sortPartials ps))) (sortPartials ps)) (walkPartial model fmtState d) ([], \<lambda>k. 0, Map.empty) =
    Inr (map (\<lambda>l. shownSteps f (stepOp step es) (Init model) (map nat l)) (sortPartials ps),
      sizeWith (sortPartials ps), firstWith (sortPartials ps))"
  proof (rule walks_ok [OF _ ds _ sortPartials_props(2)])
    fix p x q assume "map int p \<in> set (sortPartials ps)" and x: "x \<in> set p"
    from pv [OF this(1)] obtain p' where "map int p = map int p'" "validFrom step es n {} (Init model) p'" by blast
    then have "validFrom step es n {} (Init model) p" by (simp add: inj_map_eq_map)
    with validFrom_props [OF this] x have "x < n" by blast
    with an d(2) show "Step model q (dCall d (int x)) (dReturn d (int x)) = Inr (stepOp step es q x)"
      by (simp add: answers_def shown_def)
  next
    fix l assume "l \<in> set (sortPartials ps)"
    from pv [OF this] obtain p where p: "l = map int p" "p \<noteq> []" "validFrom step es n {} (Init model) p" by blast
    with validFrom_props [OF p(3)] show "\<exists>p. l = map int p \<and> p \<noteq> [] \<and> accepted (stepOp step es) (Init model) p"
      by (intro exI [of _ p]) (simp add: accepted_legal)
  qed
  with d show ?thesis by (simp add: visualizePartition_def shown_def Let_def)
qed

section \<open>Key/value histories\<close>

text \<open>A sequence of operations of \<open>ops\<close> that the model of one key accepts, in an order that agrees with real time.\<close>

definition partialRun :: "kvIface Operation list \<Rightarrow> nat list \<Rightarrow> bool" where
  "partialRun ops p = (p \<noteq> [] \<and> distinct p \<and> set p \<subseteq> {..<length ops} \<and> runs kvApply ops '''' p \<and> sorted_wrt (inTime ops) p)"

definition kvOpStep :: "kvIface Operation list \<Rightarrow> string \<Rightarrow> nat \<Rightarrow> bool \<times> string" where
  "kvOpStep ops q x = kvApply q (opInput (ops ! x)) (opOutput (ops ! x))"

text \<open>What is shown for the operations \<open>ops\<close> of one key with the reported sequences \<open>P\<close>.\<close>

definition historyShown :: "kvIface Operation list \<Rightarrow> historyElement list \<Rightarrow> bool" where
  "historyShown ops = list_all2 (\<lambda>v e. heClientId e = opClientId v \<and> heStart e = opCall v \<and> heEnd e = opReturn v \<and>
     kvDescribeOperation (opInput v) (opOutput v) = Inr (heDescription e)) ops"

definition partialsShown :: "(string \<Rightarrow> string) \<Rightarrow> kvIface Operation list \<Rightarrow> int list list \<Rightarrow> linearizationStep list list \<Rightarrow> bool" where
  "partialsShown fmtState ops = list_all2 (\<lambda>l s. \<exists>p. l = map int p \<and> partialRun ops p \<and>
     map lsIndex s = l \<and> map lsStateDescription s = map fmtState (visited (kvOpStep ops) '''' p))"

definition largestShown :: "int list list \<Rightarrow> (int \<rightharpoonup> int) \<Rightarrow> bool" where
  "largestShown ps largest = (\<forall>k. case largest k of
     None \<Rightarrow> (\<forall>l \<in> set ps. k \<notin> set l)
   | Some i \<Rightarrow> 0 \<le> i \<and> i < len ps \<and> k \<in> set (ps ! nat i) \<and> (\<forall>l \<in> set ps. k \<in> set l \<longrightarrow> len l \<le> len (ps ! nat i)))"

lemma length_visited [simp]: "length (visited app q p) = length p"
  by (induction p arbitrary: q) auto

lemma shownSteps_sel:
  "map lsIndex (shownSteps f app q p) = map int p" "map lsStateDescription (shownSteps f app q p) = map f (visited app q p)"
  by (induction p arbitrary: q) (auto simp: shownSteps_def)

lemma visited_cong: "(\<And>x q. x \<in> set p \<Longrightarrow> app q x = app' q x) \<Longrightarrow> visited app q p = visited app' q p"
  by (induction p arbitrary: q) auto

lemma entryFor_makeEntries:
  assumes "x < length ops"
  shows "entryFor (makeEntries ops) k x = Some (opEntry k ops x)"
proof -
  have mem: "opEntry k ops x \<in> set (makeEntries ops)" using assms by (auto simp: set_makeEntries)
  then have "entryFor (makeEntries ops) k x \<noteq> None" unfolding entryFor_None by (metis opEntry_sel(1,2))
  then obtain e where e: "entryFor (makeEntries ops) k x = Some e" by auto
  from find_Some_in [OF e [unfolded entryFor_def]] have "e = opEntry k ops x" by (auto simp: set_makeEntries)
  with e show ?thesis by simp
qed

lemma kv_describe: "typed v \<Longrightarrow> \<exists>s. kvDescribeOperation (opInput v) (opOutput v) = Inr s"
  using typedD [of v] by (auto simp: kvDescribeOperation_def)

lemma kv_partial_shown:
  assumes t: "timely ops" and v: "validFrom kvApply (makeEntries ops) (length ops) {} '''' p" "p \<noteq> []"
  shows "partialRun ops p" "shownSteps f (stepOp kvApply (makeEntries ops)) '''' p = shownSteps f (kvOpStep ops) '''' p"
proof -
  note vp = validFrom_props [OF v(1)]
  then have lt: "\<And>x. x \<in> set p \<Longrightarrow> x < length ops" by auto
  have "runs kvApply ops '''' p" using legal_runs [OF t, of p kvApply "''''"] vp by simp
  moreover have "sorted_wrt (inTime ops) p \<longleftrightarrow> sorted_wrt (\<lambda>x y. \<not> precedes (makeEntries ops) y x) p"
    using lt by (intro sorted_wrt_cong_set) (simp add: inTime_def makeEntries_precedes)
  ultimately show "partialRun ops p" using vp v(2) validFrom_in_order [OF v(1)] by (simp add: partialRun_def)
  have "visited (stepOp kvApply (makeEntries ops)) '''' p = visited (kvOpStep ops) '''' p"
    using lt by (intro visited_cong) (simp add: stepOp_def kvOpStep_def makeEntries_value [OF t])
  then show "shownSteps f (stepOp kvApply (makeEntries ops)) '''' p = shownSteps f (kvOpStep ops) '''' p"
    by (simp add: shownSteps_def)
qed

lemma largest_shown:
  assumes "sorted_wrt (\<lambda>l l'. len l' \<le> len l) ps"
  shows "largestShown ps (firstWith ps)"
  unfolding largestShown_def
proof
  fix k
  show "case firstWith ps k of
     None \<Rightarrow> (\<forall>l \<in> set ps. k \<notin> set l)
   | Some i \<Rightarrow> 0 \<le> i \<and> i < len ps \<and> k \<in> set (ps ! nat i) \<and> (\<forall>l \<in> set ps. k \<in> set l \<longrightarrow> len l \<le> len (ps ! nat i))"
  proof (cases "firstWith ps k")
    case None
    then show ?thesis by (auto simp: firstWith_def split: if_splits)
  next
    case (Some i)
    from firstWith_longest [OF assms Some] Some show ?thesis by simp
  qed
qed

lemma kv_describes:
  "describeOperation (fillDefault KvModel) fmtValue input out = kvDescribeOperation input out"
  "describeState (fillDefault KvModel) fmtState q = Inr (fmtState q)"
  by (simp_all add: describeOperation_def describeState_def fillDefault_def KvModel_def DefaultDescribeState_def Let_def)

lemma kv_partition_shown:
  assumes ty: "list_all typed ops" and t: "timely ops" and P: "valid_partials kvApply '''' (makeEntries ops) (length ops) (set ps)"
  shows "\<exists>d. visualizePartition (fillDefault KvModel) fmtValue fmtState (makeEntries ops) ps = Inr d \<and>
    historyShown ops (pvHistory d) \<and> partialsShown fmtState ops (sortPartials ps) (pvPartialLinearizations d) \<and>
    largestShown (sortPartials ps) (pvLargest d)"
proof -
  let ?es = "makeEntries ops" and ?n = "length ops"
  define desc where "desc = (\<lambda>x. case kvDescribeOperation (opInput (ops ! x)) (opOutput (ops ! x)) of Inr s \<Rightarrow> s | Inl e \<Rightarrow> [])"
  have desc: "kvDescribeOperation (opInput (ops ! x)) (opOutput (ops ! x)) = Inr (desc x)" if "x < ?n" for x
    using kv_describe [of "ops ! x"] ty that by (auto simp: desc_def list_all_length)
  have vis: "visualizePartition (fillDefault KvModel) fmtValue fmtState ?es ps = Inr
    \<lparr>pvHistory = map (shownElement desc ?es) [0..<?n],
     pvPartialLinearizations = map (\<lambda>l. shownSteps fmtState (stepOp kvApply ?es) (Init (fillDefault KvModel)) (map nat l)) (sortPartials ps),
     pvLargest = firstWith (sortPartials ps)\<rparr>"
  proof (rule visualizePartition_ok [OF makeEntries_wf [OF t]])
    show "answers (Step (fillDefault KvModel)) kvApply ?es ?n" using kv_answers [OF ty t] by (simp add: kv_fill)
    show "describeOperation (fillDefault KvModel) fmtValue (valueOf ?es callEntry x) (valueOf ?es returnEntry x) = Inr (desc x)"
      if "x < ?n" for x using desc [OF that] makeEntries_value [OF t that] by (simp add: kv_describes)
    show "describeState (fillDefault KvModel) fmtState q = Inr (fmtState q)" for q by (rule kv_describes)
    show "valid_partials kvApply (Init (fillDefault KvModel)) ?es ?n (set ps)" using P by (simp add: kv_fill)
  qed
  have "historyShown ops (map (shownElement desc ?es) [0..<?n])"
    using desc by (simp add: historyShown_def list_all2_conv_all_nth shownElement_def entryFor_makeEntries opEntry_def entryOf_def)
  moreover have "partialsShown fmtState ops (sortPartials ps)
     (map (\<lambda>l. shownSteps fmtState (stepOp kvApply ?es) '''' (map nat l)) (sortPartials ps))"
    unfolding partialsShown_def list_all2_conv_all_nth
  proof (intro conjI allI impI)
    fix i assume i: "i < length (sortPartials ps)"
    then have "sortPartials ps ! i \<in> set ps" using sortPartials_props(1) nth_mem by blast
    with P obtain p where p: "sortPartials ps ! i = map int p" "p \<noteq> []" "validFrom kvApply ?es ?n {} '''' p"
      unfolding valid_partials_def by blast
    then have "map (\<lambda>l. shownSteps fmtState (stepOp kvApply ?es) '''' (map nat l)) (sortPartials ps) ! i =
        shownSteps fmtState (kvOpStep ops) '''' p"
      using i kv_partial_shown(2) [OF t p(3,2)] by (simp add: map_idI)
    with p(1) kv_partial_shown(1) [OF t p(3,2)] shownSteps_sel
    show "\<exists>p. sortPartials ps ! i = map int p \<and> partialRun ops p \<and>
        map lsIndex (map (\<lambda>l. shownSteps fmtState (stepOp kvApply ?es) '''' (map nat l)) (sortPartials ps) ! i) = sortPartials ps ! i \<and>
        map lsStateDescription (map (\<lambda>l. shownSteps fmtState (stepOp kvApply ?es) '''' (map nat l)) (sortPartials ps) ! i) =
          map fmtState (visited (kvOpStep ops) '''' p)"
      by metis
  qed simp
  ultimately show ?thesis using vis largest_shown [OF sortPartials_props(2)] by (simp add: kv_fill)
qed

text \<open>The verbose check of a history ends.\<close>

lemma kv_verbose_ends:
  assumes "list_all typed history" "timely history" "history \<noteq> []"
    and "mset is = mset [0..<length (keysOf history)]"
  shows "\<exists>kill result info. CheckOperationsVerbose KvModel history kill (map Some is) = Inr (Some (result, info))"
proof -
  let ?es = "map makeEntries (map (\<lambda>k. filter (\<lambda>v. keyOf v = k) history) (keysOf history))" and ?m = "fillDefault KvModel"
  have "set (keysOf history) \<noteq> {}" using assms(3) by (simp add: keysOf_def)
  then have ne: "?es \<noteq> []" by simp
  have wf: "wf_history (?es ! i) (length (filter (\<lambda>v. keyOf v = keysOf history ! i) history)) \<and>
      answers (Step ?m) kvApply (?es ! i) (length (filter (\<lambda>v. keyOf v = keysOf history ! i) history))" if "i < length ?es" for i
    using kv_partitions_answer [OF assms(1,2), of i] that by (simp add: kv_fill)
  have "mset is = mset [0..<length ?es]" using assms(4) by simp
  from shallow.check_partitions [OF wf ne this kv_fill(4), of True] obtain k r where
    "checkParallel ?m ?es True (\<lambda>i. replicate k False) (map Some is) = Inr (Some r)" by blast
  then show ?thesis using kvPartition_ok [OF assms(1)]
    by (intro exI [of _ "\<lambda>i. replicate k False"] exI [of _ "fst r"] exI [of _ "snd r"])
      (simp add: CheckOperationsVerbose_def checkOperations_def kv_fill Let_def)
qed

lemma for_each_snocs:
  "(\<And>i acc. i \<in> set is \<Longrightarrow> f i acc = Inr (acc @ [g i])) \<Longrightarrow> for_each is f acc = Inr (acc @ map g is)"
  by (induction "is" arbitrary: acc) simp_all

lemma computeVisualizationData_ok:
  assumes "\<And>i. i < length (liHistory info) \<Longrightarrow>
      visualizePartition (fillDefault model) fmtValue fmtState (liHistory info ! i) (listing i (partialLinearizations info ! i)) = Inr (d i)"
    and "length (partialLinearizations info) = length (liHistory info)"
  shows "computeVisualizationData listing fmtValue fmtState model info = Inr (map d [0..<length (liHistory info)])"
proof -
  have "computeVisualizationData listing fmtValue fmtState model info = Inr ([] @ map (\<lambda>i. d (nat i)) (indices 0 (len (liHistory info))))"
    unfolding computeVisualizationData_def Let_def
    by (rule for_each_snocs) (use assms in \<open>auto simp: indices_def len_def go_nth_def\<close>)
  then show ?thesis by (simp add: indices_def len_def comp_def)
qed

text \<open>
  C10: on whatever the verbose check of a key/value history reports, also when the check was
  stopped before its end, the data of the visualization can be computed: no index is out of
  range, and the model accepts every reported partial linearization, so the panic is not
  reached. The data have one part for each key. It shows every operation of the key with its
  client, its times and its description, every reported sequence as a run of the model that agrees
  with real time with the states it goes through, the longer ones first, and names for every
  operation a longest reported sequence that contains it.
\<close>

theorem kv_visualization_faithful:
  assumes "list_all typed history" "timely history"
    and "CheckOperationsVerbose KvModel history kill schedule = Inr (Some (result, info))"
    and listing: "\<forall>i P. finite P \<longrightarrow> set (listing i P) = P"
  shows "\<exists>data. computeVisualizationData listing fmtValue fmtState KvModel info = Inr data \<and>
    length data = length (keysOf history) \<and>
    (\<forall>i < length (keysOf history).
      let ops = filter (\<lambda>v. keyOf v = keysOf history ! i) history; ps = sortPartials (listing i (partialLinearizations info ! i)) in
      set ps = partialLinearizations info ! i \<and> historyShown ops (pvHistory (data ! i)) \<and>
      partialsShown fmtState ops ps (pvPartialLinearizations (data ! i)) \<and> largestShown ps (pvLargest (data ! i)))"
proof -
  let ?hs = "map (\<lambda>k. filter (\<lambda>v. keyOf v = k) history) (keysOf history)" and ?m = "fillDefault KvModel"
  let ?es = "map makeEntries ?hs" and ?ns = "\<lambda>i. length (?hs ! i)"
  have par: "checkParallel ?m ?es True kill schedule = Inr (Some (result, info))"
    using assms(3) kvPartition_ok [OF assms(1)]
    by (simp add: CheckOperationsVerbose_def checkOperations_def kv_fill Let_def)
  have wf: "wf_history (?es ! i) (?ns i) \<and> answers (Step ?m) kvApply (?es ! i) (?ns i)" if "i < length ?es" for i
    using kv_partitions_answer [OF assms(1,2), of i] that by (simp add: kv_fill)
  note info = shallow.checkParallel_partials [OF wf kv_fill(4) par]
  let ?ps = "\<lambda>i. listing i (partialLinearizations info ! i)"
  have valid: "valid_partials kvApply '''' (makeEntries (?hs ! i)) (?ns i) (partialLinearizations info ! i)"
    if "i < length ?hs" for i using info(3) [of i] that by (simp add: kv_fill)
  then have st: "set (?ps i) = partialLinearizations info ! i" if "i < length ?hs" for i
    using listing that by (simp add: valid_partials_def)
  have "\<forall>i. \<exists>d. i < length ?hs \<longrightarrow> visualizePartition ?m fmtValue fmtState (makeEntries (?hs ! i)) (?ps i) = Inr d \<and>
    historyShown (?hs ! i) (pvHistory d) \<and> partialsShown fmtState (?hs ! i) (sortPartials (?ps i)) (pvPartialLinearizations d) \<and>
    largestShown (sortPartials (?ps i)) (pvLargest d)"
  proof (intro allI)
    fix i
    have "list_all typed (?hs ! i)" "timely (?hs ! i)" if "i < length ?hs"
      using that assms(1) kv_partitions_answer(1) [OF assms(1,2), of i] by (auto simp: list_all_iff)
    with kv_partition_shown [of "?hs ! i" "?ps i" fmtValue fmtState] valid [of i] st [of i]
    show "\<exists>d. i < length ?hs \<longrightarrow> visualizePartition ?m fmtValue fmtState (makeEntries (?hs ! i)) (?ps i) = Inr d \<and>
    historyShown (?hs ! i) (pvHistory d) \<and> partialsShown fmtState (?hs ! i) (sortPartials (?ps i)) (pvPartialLinearizations d) \<and>
    largestShown (sortPartials (?ps i)) (pvLargest d)" by metis
  qed
  then obtain d where d: "\<And>i. i < length ?hs \<Longrightarrow> visualizePartition ?m fmtValue fmtState (makeEntries (?hs ! i)) (?ps i) = Inr (d i) \<and>
    historyShown (?hs ! i) (pvHistory (d i)) \<and> partialsShown fmtState (?hs ! i) (sortPartials (?ps i)) (pvPartialLinearizations (d i)) \<and>
    largestShown (sortPartials (?ps i)) (pvLargest (d i))" by metis
  have "computeVisualizationData listing fmtValue fmtState KvModel info = Inr (map d [0..<length (liHistory info)])"
    using d info(1,2) by (intro computeVisualizationData_ok) auto
  then show ?thesis using d st info(1)
    by (intro exI [of _ "map d [0..<length (liHistory info)]"]) (simp add: Let_def sortPartials_props(1))
qed

theorem kv_visualization_faithful_witness:
  "list_all typed sampleHistory \<and> timely sampleHistory \<and>
   (\<exists>kill result info data. CheckOperationsVerbose KvModel sampleHistory kill (map Some [1, 0]) = Inr (Some (result, info)) \<and>
    computeVisualizationData (\<lambda>i. sorted_list_of_set) (\<lambda>v. ''?'') id KvModel info = Inr data \<and> length data = 2 \<and>
    historyShown (filter (\<lambda>v. keyOf v = keysOf sampleHistory ! 0) sampleHistory) (pvHistory (data ! 0)))"
proof -
  have "mset [1, 0] = mset [0..<length (keysOf sampleHistory)]" by (simp add: sample_keys numeral_2_eq_2)
  from kv_verbose_ends [OF sample_typed this] obtain kill result info where
    c: "CheckOperationsVerbose KvModel sampleHistory kill (map Some [1, 0]) = Inr (Some (result, info))" by blast
  have "\<forall>(i :: nat) P. finite P \<longrightarrow> set (sorted_list_of_set P) = (P :: int list set)" by simp
  from kv_visualization_faithful [OF sample_typed(1,2) c this, of "\<lambda>v. ''?''" id] obtain data where
    d: "computeVisualizationData (\<lambda>i. sorted_list_of_set) (\<lambda>v. ''?'') id KvModel info = Inr data" "length data = 2"
    "\<forall>i < 2. let ops = filter (\<lambda>v. keyOf v = keysOf sampleHistory ! i) sampleHistory;
        ps = sortPartials (sorted_list_of_set (partialLinearizations info ! i)) in
      set ps = partialLinearizations info ! i \<and> historyShown ops (pvHistory (data ! i)) \<and>
      partialsShown id ops ps (pvPartialLinearizations (data ! i)) \<and> largestShown ps (pvLargest (data ! i))"
    unfolding sample_keys by blast
  from d(3) [rule_format, of 0] have "historyShown (filter (\<lambda>v. keyOf v = keysOf sampleHistory ! 0) sampleHistory) (pvHistory (data ! 0))"
    by (simp add: Let_def)
  with c d(1,2) sample_typed(1,2) show ?thesis by blast
qed

end
