(* ===== verification/RaftTools.thy ===== *)
theory RaftTools
  imports RaftLog
begin

text \<open>
  The lines that the peers print (\<open>raft/tools.go\<close>, \<open>raft/util.go\<close>) and those of the key/value
  service (\<open>kvraft/utils.go\<close>): logs, requests and replies, and the whole
  state of a server. A printed line is a string without the date and time that the logger puts
  before it and without its end of line; what is printed is the list of the lines.

  The lines are made for reading traces, so they should tell states apart: the line of a
  leader determines its number, term, commit index, snapshot, what it knows of its followers,
  and the terms and indices of its log.
\<close>

section \<open>Strings\<close>

definition escape :: "string \<Rightarrow> string" where
  "escape s = CHR 0x1B # s"

definition selectColor :: "string \<Rightarrow> string" where
  "selectColor inputColor =
    (if inputColor = ''red'' then escape ''[31m''
     else if inputColor = ''green'' then escape ''[32m''
     else if inputColor = ''yellow'' then escape ''[33m''
     else if inputColor = ''blue'' then escape ''[34m''
     else if inputColor = ''purple'' then escape ''[35m''
     else if inputColor = ''skyblue'' then escape ''[36m''
     else if inputColor = ''default'' then escape ''[0m''
     else escape ''[0m'')"

definition getRoleStr :: "int \<Rightarrow> string" where
  "getRoleStr r = (if r = 0 then ''Follower'' else if r = 1 then ''Candidate'' else if r = 2 then ''Leader'' else ''Unknown'')"

text \<open>The loops that print the elements of a slice with a blank after all but the last.\<close>

definition spaced :: "('a \<Rightarrow> string) \<Rightarrow> 'a list \<Rightarrow> string \<Rightarrow> string res" where
  "spaced f xs str =
    for_each (indices 0 (len xs)) (\<lambda>i s.
      rbind (go_nth xs i) (\<lambda>x. Inr (s @ f x @ (if i \<noteq> len xs - 1 then '' '' else '''')))) str"

definition entryStr :: "'c LogEntry \<Rightarrow> string" where
  "entryStr e = Itoa (Term e) @ ''['' @ Itoa (Index e) @ '']''"

definition getLogStr :: "'c LogEntry list \<Rightarrow> string res" where
  "getLogStr entries = rbind (spaced entryStr entries ''{'') (\<lambda>logStr. Inr (logStr @ ''}''))"

text \<open>The verbs \<open>%d\<close> and \<open>%t\<close>.\<close>

definition boolStr :: "bool \<Rightarrow> string" where
  "boolStr b = (if b then ''true'' else ''false'')"

definition getAppendEntriesRPCStr :: "'c AppendEntriesArgs \<Rightarrow> AppendEntriesReply \<Rightarrow> string res" where
  "getAppendEntriesRPCStr args reply =
    rbind (getLogStr (Entries args)) (\<lambda>entries.
    let str1 = ''[Leader term '' @ Itoa (aeTerm args) @ ''], [Leader Id '' @ Itoa (LeaderId args) @
          ''], [prevLogIndex '' @ Itoa (PrevLogIndex args) @ ''], [prevLogTerm '' @ Itoa (PrevLogTerm args) @
          ''], [LeaderCommit '' @ Itoa (LeaderCommit args) @ ''], [Entries '' @ entries @ '']'';
        str2 = ''[Follower term '' @ Itoa (aerTerm reply) @ ''], [Follower Id '' @ Itoa (ServerId reply) @
          ''], [Success '' @ boolStr (Success reply) @ ''], [XTerm '' @ Itoa (XTerm reply) @
          ''], [XIndex '' @ Itoa (XIndex reply) @ ''], [XLen '' @ Itoa (XLen reply) @ '']'' in
    Inr (str1 @ '' || '' @ str2))"

section \<open>Printing\<close>

definition printSplit :: "string \<Rightarrow> string list \<Rightarrow> string list" where
  "printSplit content out = out @ ['''', ''-------------------'' @ content @ ''-------------------'', '''']"

definition PrintLog :: "'c Raft \<Rightarrow> string \<Rightarrow> string \<Rightarrow> string list \<Rightarrow> string list" where
  "PrintLog rf content color out =
    out @ [selectColor color @ ''[Server '' @ Itoa (me rf) @ '']'' @ content @ escape ''[0m'']"

definition PrintRfLog :: "'c Raft \<Rightarrow> string list \<Rightarrow> string list res" where
  "PrintRfLog rf out = rbind (getLogStr (log rf)) (\<lambda>s. Inr (PrintLog rf (''[LOG]'' @ s) ''red'' out))"

definition stateStr :: "'c Raft \<Rightarrow> string res" where
  "stateStr rf =
    rbind (spaced Itoa (nextIndex rf) ''[nextIndex ['') (\<lambda>nextIndexStr.
    rbind (spaced Itoa (matchIndex rf) ''[matchIndex ['') (\<lambda>matchIndexStr.
    rbind (getLogStr (log rf)) (\<lambda>entries.
    let nextIndexStr = nextIndexStr @ '']]'';
        matchIndexStr = matchIndexStr @ '']]'';
        logStr = ''[log ['' @ entries @ '']]'';
        snapshotStatusStr = '' [SnapshotIndex '' @ Itoa (snapshotIndex rf) @ ''] [SnapshotTerm '' @ Itoa (snapshotTerm rf) @ '']'';
        rest = '' [Term '' @ Itoa (currentTerm rf) @ '']'' @ '' [CommitIndex '' @ Itoa (commitIndex rf) @ '']'' @ snapshotStatusStr;
        str = ''            [STATE]'' in
    Inr (if role rf = 0 then str @ ''[Follower '' @ Itoa (me rf) @ '']'' @ rest @ logStr
         else if role rf = 1 then str @ ''[Candidate '' @ Itoa (me rf) @ '']'' @ rest @ logStr
         else if role rf = 2 then str @ ''[Leader '' @ Itoa (me rf) @ '']'' @ rest @ nextIndexStr @ matchIndexStr @ logStr
         else str))))"

definition PrintServerState :: "'c Raft \<Rightarrow> string \<Rightarrow> string list \<Rightarrow> string list res" where
  "PrintServerState rf color out = rbind (stateStr rf) (\<lambda>s. Inr (PrintLog rf s color out))"

text \<open>\<open>raft/util.go\<close>: \<open>Debug\<close> is off, so nothing is printed; the two results keep their zero values.\<close>

definition Debug :: bool where
  "Debug = False"

definition DPrintf :: "string \<Rightarrow> string list \<Rightarrow> (int \<times> string option) \<times> string list" where
  "DPrintf line out = ((0, None), if Debug then out @ [line] else out)"

text \<open>\<open>kvraft/utils.go\<close>; its \<open>selectColor\<close> is a copy of the one of \<open>raft/tools.go\<close>.\<close>

definition kv_selectColor :: "string \<Rightarrow> string" where
  "kv_selectColor inputColor =
    (if inputColor = ''red'' then escape ''[31m''
     else if inputColor = ''green'' then escape ''[32m''
     else if inputColor = ''yellow'' then escape ''[33m''
     else if inputColor = ''blue'' then escape ''[34m''
     else if inputColor = ''purple'' then escape ''[35m''
     else if inputColor = ''skyblue'' then escape ''[36m''
     else if inputColor = ''default'' then escape ''[0m''
     else escape ''[0m'')"

definition kv_PrintLog :: "string \<Rightarrow> string \<Rightarrow> int \<Rightarrow> bool \<Rightarrow> string list \<Rightarrow> string list" where
  "kv_PrintLog content color n isServer out =
    (let prefix = (if isServer then ''[lab3][Server '' @ Itoa n @ '']'' else ''[lab3][Client '' @ Itoa n @ '']'') in
     out @ [kv_selectColor color @ prefix @ Itoa n @ '']'' @ content @ escape ''[0m''])"

section \<open>What a line tells\<close>

text \<open>The loop with blanks, written as a recursion.\<close>

fun joined :: "('a \<Rightarrow> string) \<Rightarrow> 'a list \<Rightarrow> string" where
  "joined f [] = []"
| "joined f (x # xs) = f x @ (if xs = [] then [] else CHR '' '' # joined f xs)"

lemma joined_snoc: "joined f (xs @ [x]) = (if xs = [] then f x else joined f xs @ CHR '' '' # f x)"
  by (induction xs) auto

lemma spaced_joined: "spaced f xs str = Inr (str @ joined f xs)"
proof -
  have *: "for_each (indices 0 (len ys)) (\<lambda>i s. rbind (go_nth xs i) (\<lambda>x. Inr (s @ f x @ (if i \<noteq> len xs - 1 then '' '' else '''')))) str =
      Inr (str @ joined f ys @ (if ys \<noteq> [] \<and> zs \<noteq> [] then '' '' else ''''))" if "xs = ys @ zs" for ys zs
    using that
  proof (induction ys arbitrary: zs rule: rev_induct)
    case Nil
    then show ?case by (simp add: indices_def len_def)
  next
    case (snoc y ys)
    then have ih: "for_each (indices 0 (len ys)) (\<lambda>i s. rbind (go_nth xs i) (\<lambda>x. Inr (s @ f x @ (if i \<noteq> len xs - 1 then '' '' else '''')))) str =
      Inr (str @ joined f ys @ (if ys \<noteq> [] \<and> y # zs \<noteq> [] then '' '' else ''''))" by (intro snoc.IH) simp
    have "go_nth xs (len ys) = Inr y" using snoc.prems by (simp add: go_nth_def len_def nth_append)
    moreover have "len ys \<noteq> len xs - 1 \<longleftrightarrow> zs \<noteq> []" using snoc.prems by (auto simp: len_def)
    ultimately show ?case unfolding indices_snoc by (simp add: for_each_snoc ih joined_snoc)
  qed
  from * [of xs "[]"] show ?thesis by (simp add: spaced_def)
qed

text \<open>A number ends where a character comes that does not occur in numbers.\<close>

definition isNum :: "char \<Rightarrow> bool" where
  "isNum c = (isDigit c \<or> c = CHR ''-'')"

lemma Itoa_num: "c \<in> set (Itoa n) \<Longrightarrow> isNum c"
  by (auto simp: Itoa_def isNum_def dest: digitsOf_digits split: if_splits)

lemma Itoa_nonempty [simp]: "Itoa n \<noteq> []"
  by (simp add: Itoa_def)

lemma delimiters [simp]: "\<not> isNum (CHR ''['')" "\<not> isNum (CHR '']'')" "\<not> isNum (CHR '' '')" "\<not> isNum (CHR ''}'')"
  by (simp_all add: isNum_def isDigit_def)

lemma Itoa_delim:
  assumes "\<not> isNum c" "\<not> isNum d"
  shows "Itoa a @ c # s = Itoa b @ d # t \<longleftrightarrow> a = b \<and> c = d \<and> s = t"
proof
  assume eq: "Itoa a @ c # s = Itoa b @ d # t"
  have tw: "takeWhile isNum (Itoa n @ x # u) = Itoa n" if "\<not> isNum x" for n x u
    using that Itoa_num by (auto simp: takeWhile_append2)
  from arg_cong [OF eq, of "takeWhile isNum"] have "Itoa a = Itoa b" by (simp add: tw assms)
  with eq show "a = b \<and> c = d \<and> s = t" by (simp add: Itoa_inj)
qed simp

lemma Itoa_Cons: "\<not> isNum c \<Longrightarrow> Itoa n @ s \<noteq> c # t"
  by (metis Itoa_nonempty Itoa_num append_eq_Cons_conv list.set_intros(1))

text \<open>Two slices print alike only when their elements do.\<close>

lemma joined_inj:
  assumes el: "\<And>x y s t c d. c \<in> {CHR '' '', e} \<Longrightarrow> d \<in> {CHR '' '', e} \<Longrightarrow> f x @ c # s = f y @ d # t \<Longrightarrow> g x = g y \<and> c = d \<and> s = t"
    and ne: "\<And>x s t. f x @ s \<noteq> e # t" and e: "e \<noteq> CHR '' ''"
  shows "joined f xs @ e # s = joined f ys @ e # t \<Longrightarrow> map g xs = map g ys \<and> s = t"
proof (induction xs arbitrary: ys)
  case Nil
  then show ?case using ne by (cases ys) (auto dest: sym)
next
  case (Cons x xs)
  show ?case
  proof (cases ys)
    case Nil
    with Cons.prems ne show ?thesis by simp
  next
    case (Cons y zs)
    let ?c = "\<lambda>us. if us = [] then e else CHR '' ''" and ?r = "\<lambda>us v. if us = [] then v else joined f us @ e # v"
    have "f x @ ?c xs # ?r xs s = f y @ ?c zs # ?r zs t" using Cons.prems Cons by auto
    from el [OF _ _ this] have h: "g x = g y" "?c xs = ?c zs" "?r xs s = ?r zs t" by auto
    show ?thesis
    proof (cases "xs = []")
      case False
      with h(2) e have "zs \<noteq> []" by auto
      with False h(3) Cons.IH [of zs] have "map g xs = map g zs \<and> s = t" by simp
      with h(1) Cons show ?thesis by simp
    qed (use h e Cons in \<open>auto split: if_splits\<close>)
  qed
qed

lemma joined_Itoa: "joined Itoa xs @ CHR '']'' # s = joined Itoa ys @ CHR '']'' # t \<longleftrightarrow> xs = ys \<and> s = t"
proof
  assume "joined Itoa xs @ CHR '']'' # s = joined Itoa ys @ CHR '']'' # t"
  then have "map id xs = map id ys \<and> s = t"
    by (rule joined_inj [rotated 3]) (auto simp: Itoa_delim Itoa_Cons)
  then show "xs = ys \<and> s = t" by simp
qed simp

definition termIndex :: "'c LogEntry \<Rightarrow> int \<times> int" where
  "termIndex e = (Term e, Index e)"

lemma joined_entries:
  fixes xs ys :: "'c LogEntry list"
  shows
  "joined entryStr xs @ CHR ''}'' # s = joined entryStr ys @ CHR ''}'' # t \<longleftrightarrow> map termIndex xs = map termIndex ys \<and> s = t"
proof
  show "joined entryStr xs @ CHR ''}'' # s = joined entryStr ys @ CHR ''}'' # t \<Longrightarrow> map termIndex xs = map termIndex ys \<and> s = t"
    by (rule joined_inj [rotated 3]) (auto simp: entryStr_def termIndex_def Itoa_delim Itoa_Cons)
  have "joined entryStr us = joined (\<lambda>(a, b). Itoa a @ ''['' @ Itoa b @ '']'') (map termIndex us)" for us :: "'c LogEntry list"
    by (induction us) (auto simp: entryStr_def termIndex_def)
  then show "map termIndex xs = map termIndex ys \<and> s = t \<Longrightarrow> joined entryStr xs @ CHR ''}'' # s = joined entryStr ys @ CHR ''}'' # t"
    by metis
qed

lemma getLogStr_eq: "getLogStr es = Inr (CHR ''{'' # joined entryStr es @ ''}'')"
  by (simp add: getLogStr_def spaced_joined)

text \<open>The line in one piece, and when two lines are the same.\<close>

definition leaderPart :: "'c Raft \<Rightarrow> string" where
  "leaderPart rf = ''[nextIndex ['' @ joined Itoa (nextIndex rf) @ '']][matchIndex ['' @ joined Itoa (matchIndex rf) @ '']]''"

definition commonPart :: "'c Raft \<Rightarrow> string \<Rightarrow> string" where
  "commonPart rf s = Itoa (me rf) @ ''] [Term '' @ Itoa (currentTerm rf) @ ''] [CommitIndex '' @ Itoa (commitIndex rf) @
     ''] [SnapshotIndex '' @ Itoa (snapshotIndex rf) @ ''] [SnapshotTerm '' @ Itoa (snapshotTerm rf) @ '']'' @ s"

definition logPart :: "'c Raft \<Rightarrow> string" where
  "logPart rf = ''[log [{'' @ joined entryStr (log rf) @ ''}]]''"

lemma stateStr_parts:
  assumes "role rf \<in> {0, 1, 2}"
  shows "stateStr rf = Inr (''            [STATE]['' @ getRoleStr (role rf) @ '' '' @
     commonPart rf ((if role rf = 2 then leaderPart rf else []) @ logPart rf))"
  using assms
  by (auto simp: stateStr_def spaced_joined getLogStr_eq getRoleStr_def commonPart_def leaderPart_def logPart_def Let_def)

lemma commonPart_inj:
  "commonPart rf s = commonPart rf' t \<longleftrightarrow> me rf = me rf' \<and> currentTerm rf = currentTerm rf' \<and> commitIndex rf = commitIndex rf' \<and>
     snapshotIndex rf = snapshotIndex rf' \<and> snapshotTerm rf = snapshotTerm rf' \<and> s = t"
  by (simp add: commonPart_def Itoa_delim)

lemma leaderPart_inj:
  "leaderPart rf @ s = leaderPart rf' @ t \<longleftrightarrow> nextIndex rf = nextIndex rf' \<and> matchIndex rf = matchIndex rf' \<and> s = t"
  by (simp add: leaderPart_def joined_Itoa)

lemma entries_inj:
  fixes es fs :: "'c LogEntry list"
  shows "joined entryStr es = joined entryStr fs \<longleftrightarrow> map termIndex es = map termIndex fs"
  using joined_entries [of es "[]" fs "[]"] by simp

lemma logPart_inj:
  fixes rf rf' :: "'c Raft"
  shows "logPart rf = logPart rf' \<longleftrightarrow> map termIndex (log rf) = map termIndex (log rf')"
  by (simp add: logPart_def entries_inj)

text \<open>
  Printing a peer in one of the three roles never panics, and two peers are printed alike
  exactly when role, number, term, commit index, snapshot, the terms and indices of the log and, for
  leaders, what is known of the followers agree.
\<close>

theorem state_line_faithful:
  fixes rf rf' :: "'c Raft"
  assumes "role rf \<in> {0, 1, 2}" "role rf' \<in> {0, 1, 2}"
  shows "(\<exists>line. PrintServerState rf color out = Inr (out @ [line])) \<and>
    (stateStr rf = stateStr rf' \<longleftrightarrow>
       role rf = role rf' \<and> me rf = me rf' \<and> currentTerm rf = currentTerm rf' \<and> commitIndex rf = commitIndex rf' \<and>
       snapshotIndex rf = snapshotIndex rf' \<and> snapshotTerm rf = snapshotTerm rf' \<and>
       map termIndex (log rf) = map termIndex (log rf') \<and>
       (role rf = 2 \<longrightarrow> nextIndex rf = nextIndex rf' \<and> matchIndex rf = matchIndex rf'))"
proof -
  have "getRoleStr (role rf) @ '' '' @ s = getRoleStr (role rf') @ '' '' @ t \<longleftrightarrow> role rf = role rf' \<and> s = t" for s t
    using assms by (auto simp: getRoleStr_def)
  then show ?thesis using assms
    by (auto simp: PrintServerState_def PrintLog_def stateStr_parts commonPart_inj leaderPart_inj logPart_inj)
qed

text \<open>Two logs are printed alike exactly when they have the same terms and indices.\<close>

theorem log_line_faithful:
  fixes es fs :: "'c LogEntry list"
  shows "getLogStr es = getLogStr fs \<longleftrightarrow> map termIndex es = map termIndex fs"
  by (simp add: getLogStr_eq entries_inj)

text \<open>
  The lines of the key/value service name a server or client twice: the prefix already has the
  number and its closing bracket, and both are printed once more.
\<close>

theorem kv_line_names_twice:
  "\<exists>who. kv_PrintLog content color n isServer out =
     out @ [kv_selectColor color @ who @ Itoa n @ '']'' @ Itoa n @ '']'' @ content @ escape ''[0m'']"
  by (intro exI [of _ "if isServer then ''[lab3][Server '' else ''[lab3][Client ''"]) (simp add: kv_PrintLog_def)

end
