(* ===== verification/RaftProtocol.thy ===== *)
theory RaftProtocol
  imports RaftState
begin

text \<open>
  Raft without messages: what peers do to their terms, votes and logs, and why they agree. A
  state of the protocol has the stable term and log of every peer and, as history, the votes
  given, the terms led, the log of every candidate when it stood, the log of the leader of every
  term, and how much of that log each peer has acknowledged.

  A position of a log that was written in the term of its leader is committed when a majority
  holds it. The invariant has the form known from Paxos: for every such position, either the
  leaders of all later terms have it, or a majority has moved on to a later term without holding
  it, so that it will never be committed.
\<close>

section \<open>The protocol\<close>

record 'c proto =
  pN :: nat
  pTerm :: "nat \<Rightarrow> int"
  pLog :: "nat \<Rightarrow> 'c LogEntry list"
  pVotes :: "(int \<times> nat \<times> nat) set"
  pLed :: "(int \<times> nat) set"
  pCand :: "int \<times> nat \<rightharpoonup> 'c LogEntry list"
  pLead :: "int \<rightharpoonup> 'c LogEntry list"
  pAck :: "(int \<times> nat \<times> nat) set"

definition lastTermOf :: "'c LogEntry list \<Rightarrow> int" where
  "lastTermOf l = (if l = [] then 0 else Term (last l))"

text \<open>The log \<open>c\<close> is at least as up to date as \<open>l\<close>.\<close>

definition newer :: "'c LogEntry list \<Rightarrow> 'c LogEntry list \<Rightarrow> bool" where
  "newer c l = (lastTermOf l < lastTermOf c \<or> lastTermOf l = lastTermOf c \<and> length l \<le> length c)"

text \<open>
  A peer takes over the first \<open>m\<close> entries of the leader's log \<open>l\<close>: it keeps a log that has them, or
  takes exactly them, and loses nothing in which it agreed with the leader.
\<close>

definition takesOver :: "'c LogEntry list \<Rightarrow> 'c LogEntry list \<Rightarrow> nat \<Rightarrow> 'c LogEntry list \<Rightarrow> bool" where
  "takesOver old l m new = (m \<le> length l \<and> take m new = take m l \<and>
     (new = old \<or> new = take m l \<and> (\<forall>k \<le> length l. take k old = take k l \<longrightarrow> k \<le> m)))"

inductive pstep :: "'c proto \<Rightarrow> 'c proto \<Rightarrow> bool" where
  raise: "j < pN p \<Longrightarrow> pTerm p j \<le> t \<Longrightarrow> pstep p (p\<lparr>pTerm := (pTerm p)(j := t)\<rparr>)"
| stand: "i < pN p \<Longrightarrow> pTerm p i < u \<Longrightarrow>
    pstep p (p\<lparr>pTerm := (pTerm p)(i := u), pVotes := insert (u, i, i) (pVotes p), pCand := (pCand p)((u, i) \<mapsto> pLog p i)\<rparr>)"
| vote: "j < pN p \<Longrightarrow> pTerm p j \<le> u \<Longrightarrow> pCand p (u, i) = Some c \<Longrightarrow> newer c (pLog p j) \<Longrightarrow>
    \<forall>i'. (u, j, i') \<in> pVotes p \<longrightarrow> i' = i \<Longrightarrow>
    pstep p (p\<lparr>pTerm := (pTerm p)(j := u), pVotes := insert (u, j, i) (pVotes p)\<rparr>)"
| lead: "i < pN p \<Longrightarrow> pTerm p i = u \<Longrightarrow> pCand p (u, i) = Some (pLog p i) \<Longrightarrow> pLead p u = None \<Longrightarrow>
    pN p < 2 * card {j. (u, j, i) \<in> pVotes p} \<Longrightarrow>
    pstep p (p\<lparr>pLed := insert (u, i) (pLed p), pLead := (pLead p)(u \<mapsto> pLog p i)\<rparr>)"
| start: "(pTerm p i, i) \<in> pLed p \<Longrightarrow> pLead p (pTerm p i) = Some (pLog p i) \<Longrightarrow> Term e = pTerm p i \<Longrightarrow>
    pstep p (p\<lparr>pLog := (pLog p)(i := pLog p i @ [e]), pLead := (pLead p)(pTerm p i \<mapsto> pLog p i @ [e])\<rparr>)"
| accept: "j < pN p \<Longrightarrow> pTerm p j \<le> t \<Longrightarrow> pLead p t = Some l \<Longrightarrow> takesOver (pLog p j) l m new \<Longrightarrow>
    pstep p (p\<lparr>pTerm := (pTerm p)(j := t), pLog := (pLog p)(j := new), pAck := insert (t, j, m) (pAck p)\<rparr>)"
| cut: "j < pN p \<Longrightarrow> pTerm p j \<le> t \<Longrightarrow> pLead p t = Some l \<Longrightarrow> k < length (pLog p j) \<Longrightarrow> k < length l \<Longrightarrow>
    Term (pLog p j ! k) \<noteq> Term (l ! k) \<Longrightarrow>
    pstep p (p\<lparr>pTerm := (pTerm p)(j := t), pLog := (pLog p)(j := take k (pLog p j))\<rparr>)"

definition pinit :: "nat \<Rightarrow> 'c proto \<Rightarrow> bool" where
  "pinit n p = (p = \<lparr>pN = n, pTerm = (\<lambda>j. 0), pLog = (\<lambda>j. []), pVotes = {}, pLed = {}, pCand = Map.empty,
     pLead = Map.empty, pAck = {}\<rparr>)"

section \<open>What is committed\<close>

definition majority :: "'c proto \<Rightarrow> nat set \<Rightarrow> bool" where
  "majority p Q = (Q \<subseteq> {..<pN p} \<and> pN p < 2 * card Q)"

text \<open>Position \<open>m\<close> (counted from one) of the leader's log of term \<open>t\<close> was written in term \<open>t\<close>.\<close>

definition own :: "'c proto \<Rightarrow> int \<Rightarrow> nat \<Rightarrow> bool" where
  "own p t m = (case pLead p t of None \<Rightarrow> False | Some l \<Rightarrow> 0 < m \<and> m \<le> length l \<and> Term (l ! (m - 1)) = t)"

definition holdsUpTo :: "'c proto \<Rightarrow> int \<Rightarrow> nat \<Rightarrow> nat \<Rightarrow> bool" where
  "holdsUpTo p t j m = ((t, j) \<in> pLed p \<or> (\<exists>m' \<ge> m. (t, j, m') \<in> pAck p))"

definition committed :: "'c proto \<Rightarrow> int \<Rightarrow> nat \<Rightarrow> bool" where
  "committed p t m = (own p t m \<and> (\<exists>Q. majority p Q \<and> (\<forall>j \<in> Q. holdsUpTo p t j m)))"

text \<open>A majority has left the term without holding the position.\<close>

definition lost :: "'c proto \<Rightarrow> int \<Rightarrow> nat \<Rightarrow> bool" where
  "lost p t m = (\<exists>Q. majority p Q \<and> (\<forall>j \<in> Q. t < pTerm p j \<and> \<not> holdsUpTo p t j m))"

text \<open>The log \<open>x\<close> starts with the first \<open>m\<close> entries of the leader's log of term \<open>t\<close>.\<close>

definition has :: "'c proto \<Rightarrow> int \<Rightarrow> nat \<Rightarrow> 'c LogEntry list \<Rightarrow> bool" where
  "has p t m x = (\<exists>l. pLead p t = Some l \<and> m \<le> length l \<and> take m x = take m l)"

lemma committed_not_lost: "committed p t m \<Longrightarrow> \<not> lost p t m"
proof
  assume "committed p t m" "lost p t m"
  then obtain Q R where Q: "majority p Q" "\<forall>j \<in> Q. holdsUpTo p t j m" and R: "majority p R" "\<forall>j \<in> R. \<not> holdsUpTo p t j m"
    by (auto simp: committed_def lost_def)
  with majorities_meet [of "{..<pN p}" Q R] show False by (auto simp: majority_def)
qed

section \<open>The invariant\<close>

text \<open>Every entry stands where the leader of its term has it, and behind the same entries.\<close>

definition chained :: "'c proto \<Rightarrow> 'c LogEntry list \<Rightarrow> bool" where
  "chained p x = (\<forall>k < length x. has p (Term (x ! k)) (Suc k) x)"

definition wfLog :: "'c proto \<Rightarrow> int \<Rightarrow> 'c LogEntry list \<Rightarrow> bool" where
  "wfLog p b x = (chained p x \<and> sorted (map Term x) \<and> (\<forall>e \<in> set x. 0 < Term e \<and> Term e \<le> b))"

definition logs_ok :: "'c proto \<Rightarrow> bool" where
  "logs_ok p = ((\<forall>j < pN p. wfLog p (pTerm p j) (pLog p j)) \<and> (\<forall>t l. pLead p t = Some l \<longrightarrow> 0 < t \<and> wfLog p t l) \<and>
     (\<forall>u i c. pCand p (u, i) = Some c \<longrightarrow> 0 < u \<and> wfLog p (u - 1) c))"

definition history_ok :: "'c proto \<Rightarrow> bool" where
  "history_ok p =
    ((\<forall>j. 0 \<le> pTerm p j) \<and>
     (\<forall>t i. (t, i) \<in> pLed p \<longrightarrow> i < pN p \<and> t \<le> pTerm p i \<and> pLead p t \<noteq> None) \<and>
     (\<forall>t i i'. (t, i) \<in> pLed p \<longrightarrow> (t, i') \<in> pLed p \<longrightarrow> i = i') \<and>
     (\<forall>t. pLead p t \<noteq> None \<longrightarrow> (\<exists>i. (t, i) \<in> pLed p \<and> pN p < 2 * card {j. (t, j, i) \<in> pVotes p})) \<and>
     (\<forall>u j i. (u, j, i) \<in> pVotes p \<longrightarrow> j < pN p \<and> u \<le> pTerm p j \<and> pCand p (u, i) \<noteq> None) \<and>
     (\<forall>u i. pCand p (u, i) \<noteq> None \<longrightarrow> u \<le> pTerm p i) \<and>
     (\<forall>t j m. (t, j, m) \<in> pAck p \<longrightarrow> j < pN p \<and> t \<le> pTerm p j \<and> (\<exists>l. pLead p t = Some l \<and> m \<le> length l)))"

text \<open>Who holds a position has it in the log, voted only for candidates that have it, and later leaders have it.\<close>

definition keeps_ok :: "'c proto \<Rightarrow> bool" where
  "keeps_ok p =
    (\<forall>t m. own p t m \<longrightarrow> \<not> lost p t m \<longrightarrow>
       (\<forall>j. holdsUpTo p t j m \<longrightarrow> has p t m (pLog p j)) \<and>
       (\<forall>u j i c. (u, j, i) \<in> pVotes p \<longrightarrow> t < u \<longrightarrow> holdsUpTo p t j m \<longrightarrow> pCand p (u, i) = Some c \<longrightarrow> has p t m c) \<and>
       (\<forall>u l. pLead p u = Some l \<longrightarrow> t < u \<longrightarrow> has p t m l))"

definition pinv :: "'c proto \<Rightarrow> bool" where
  "pinv p = (logs_ok p \<and> history_ok p \<and> keeps_ok p)"

lemma pinvD:
  assumes "pinv p"
  shows inv_log: "\<And>j. j < pN p \<Longrightarrow> wfLog p (pTerm p j) (pLog p j)"
    and inv_leadlog: "\<And>t l. pLead p t = Some l \<Longrightarrow> 0 < t \<and> wfLog p t l"
    and inv_candlog: "\<And>u i c. pCand p (u, i) = Some c \<Longrightarrow> 0 < u \<and> wfLog p (u - 1) c"
    and inv_term: "\<And>j. 0 \<le> pTerm p j"
    and inv_ledby: "\<And>t i. (t, i) \<in> pLed p \<Longrightarrow> i < pN p \<and> t \<le> pTerm p i \<and> pLead p t \<noteq> None"
    and inv_ledone: "\<And>t i i'. (t, i) \<in> pLed p \<Longrightarrow> (t, i') \<in> pLed p \<Longrightarrow> i = i'"
    and inv_quorum: "\<And>t l. pLead p t = Some l \<Longrightarrow> \<exists>i. (t, i) \<in> pLed p \<and> pN p < 2 * card {j. (t, j, i) \<in> pVotes p}"
    and inv_votes: "\<And>u j i. (u, j, i) \<in> pVotes p \<Longrightarrow> j < pN p \<and> u \<le> pTerm p j \<and> pCand p (u, i) \<noteq> None"
    and inv_cand: "\<And>u i c. pCand p (u, i) = Some c \<Longrightarrow> u \<le> pTerm p i"
    and inv_ack: "\<And>t j m. (t, j, m) \<in> pAck p \<Longrightarrow> j < pN p \<and> t \<le> pTerm p j \<and> (\<exists>l. pLead p t = Some l \<and> m \<le> length l)"
    and keep_log: "\<And>t m j. own p t m \<Longrightarrow> \<not> lost p t m \<Longrightarrow> holdsUpTo p t j m \<Longrightarrow> has p t m (pLog p j)"
    and keep_vote: "\<And>t m u j i c. own p t m \<Longrightarrow> \<not> lost p t m \<Longrightarrow> (u, j, i) \<in> pVotes p \<Longrightarrow> t < u \<Longrightarrow>
        holdsUpTo p t j m \<Longrightarrow> pCand p (u, i) = Some c \<Longrightarrow> has p t m c"
    and keep_lead: "\<And>t m u l. own p t m \<Longrightarrow> \<not> lost p t m \<Longrightarrow> pLead p u = Some l \<Longrightarrow> t < u \<Longrightarrow> has p t m l"
  using assms by (auto simp: pinv_def logs_ok_def history_ok_def keeps_ok_def)

lemma holds_term: "pinv p \<Longrightarrow> holdsUpTo p t j m \<Longrightarrow> j < pN p \<and> t \<le> pTerm p j"
  unfolding holdsUpTo_def using inv_ledby inv_ack by blast

section \<open>Agreement\<close>

text \<open>Two committed positions belong to the same sequence of entries.\<close>

lemma committed_agree:
  assumes inv: "pinv p" and c: "committed p t m" "committed p t' m'" and le: "t \<le> t'"
    and l: "pLead p t = Some l" "pLead p t' = Some l'"
  shows "take m l' = take m l"
proof (cases "t = t'")
  case False
  with keep_lead [OF inv _ committed_not_lost [OF c(1)] l(2)] le c(1) l(1) show ?thesis
    by (auto simp: committed_def has_def)
qed (use l in simp)

section \<open>What steps keep\<close>

text \<open>
  Histories grow, terms do not fall, and a peer that has left a term does not come to hold more of
  the log of its leader.
\<close>

definition evolves :: "'c proto \<Rightarrow> 'c proto \<Rightarrow> bool" where
  "evolves p p' = (pN p' = pN p \<and> (\<forall>j. pTerm p j \<le> pTerm p' j) \<and> pVotes p \<subseteq> pVotes p' \<and> pLed p \<subseteq> pLed p' \<and> pAck p \<subseteq> pAck p' \<and>
     (\<forall>t l. pLead p t = Some l \<longrightarrow> (\<exists>x. pLead p' t = Some (l @ x))) \<and>
     (\<forall>t j m. holdsUpTo p' t j m \<longrightarrow> holdsUpTo p t j m \<or> pTerm p j \<le> t))"

lemma evolvesD:
  assumes "evolves p p'"
  shows evolves_N: "pN p' = pN p" and evolves_term: "pTerm p j \<le> pTerm p' j"
    and evolves_votes: "v \<in> pVotes p \<Longrightarrow> v \<in> pVotes p'" and evolves_led: "d \<in> pLed p \<Longrightarrow> d \<in> pLed p'"
    and evolves_ack: "a \<in> pAck p \<Longrightarrow> a \<in> pAck p'"
    and evolves_lead: "pLead p t = Some l \<Longrightarrow> \<exists>x. pLead p' t = Some (l @ x)"
    and evolves_holds: "holdsUpTo p' t j m \<Longrightarrow> holdsUpTo p t j m \<or> pTerm p j \<le> t"
  using assms by (auto simp: evolves_def)

lemma holds_mono: "evolves p p' \<Longrightarrow> holdsUpTo p t j m \<Longrightarrow> holdsUpTo p' t j m"
  by (auto simp: holdsUpTo_def dest: evolves_led evolves_ack)

lemma has_mono: "evolves p p' \<Longrightarrow> has p t m x \<Longrightarrow> has p' t m x"
  by (auto simp: has_def dest!: evolves_lead)

lemma own_mono: "evolves p p' \<Longrightarrow> own p t m \<Longrightarrow> own p' t m"
  by (auto simp: own_def nth_append dest!: evolves_lead split: option.splits)

lemma majority_mono: "evolves p p' \<Longrightarrow> majority p' Q = majority p Q"
  by (simp add: majority_def evolves_N)

lemma lost_mono: "evolves p p' \<Longrightarrow> lost p t m \<Longrightarrow> lost p' t m"
  unfolding lost_def by (metis evolves_holds evolves_term leD less_le_trans majority_mono)

lemma committed_mono: "evolves p p' \<Longrightarrow> committed p t m \<Longrightarrow> committed p' t m"
  unfolding committed_def by (metis holds_mono majority_mono own_mono)

lemma wfLog_mono: "evolves p p' \<Longrightarrow> wfLog p b x \<Longrightarrow> b \<le> b' \<Longrightarrow> wfLog p' b' x"
  by (fastforce simp: wfLog_def chained_def intro: has_mono)

lemma has_take: "has p t m x \<Longrightarrow> m \<le> k \<Longrightarrow> has p t m (take k x)"
  by (auto simp: has_def min_absorb1)

lemma has_length: "has p t m x \<Longrightarrow> m \<le> length x"
  by (auto simp: has_def dest: arg_cong [of _ _ length])

lemma wfLog_take: "wfLog p b x \<Longrightarrow> wfLog p b (take k x)"
  by (auto simp: wfLog_def chained_def sorted_wrt_take simp flip: take_map intro!: has_take dest: in_set_takeD)

lemma pstep_evolves: "pstep p p' \<Longrightarrow> evolves p p'"
  by (induction rule: pstep.induct) (auto simp: evolves_def holdsUpTo_def)

end
