(* ===== verification/RaftProtocolInv.thy ===== *)
theory RaftProtocolInv
  imports RaftProtocol
begin

text \<open>
  Every step of the protocol keeps the invariant. The heart is the vote: a voter that holds a
  position only votes for candidates whose last entry is at least as new, and the leader of the
  term of that last entry has the position.
\<close>

section \<open>Logs\<close>

lemma wfLog_snoc:
  assumes g: "evolves p p'" and w: "wfLog p t x" and l: "pLead p' t = Some (x @ [e])" and e: "Term e = t" "0 < t"
  shows "wfLog p' t (x @ [e])"
proof -
  have "has p' (Term ((x @ [e]) ! k)) (Suc k) (x @ [e])" if "k < length (x @ [e])" for k
  proof (cases "k < length x")
    case True
    with w g have "has p' (Term (x ! k)) (Suc k) x" by (auto simp: wfLog_def chained_def intro: has_mono)
    with True show ?thesis by (simp add: has_def nth_append)
  next
    case False
    with that have "k = length x" by simp
    with l e show ?thesis by (simp add: has_def)
  qed
  with w e show ?thesis by (auto simp: wfLog_def chained_def sorted_append)
qed

lemma logs_ok_mono:
  assumes g: "evolves p p'" and inv: "pinv p"
    and new: "\<And>j. j < pN p \<Longrightarrow> pLog p' j = pLog p j \<or> wfLog p' (pTerm p' j) (pLog p' j)"
      "\<And>t l. pLead p' t = Some l \<Longrightarrow> pLead p t = Some l \<or> 0 < t \<and> wfLog p' t l"
      "\<And>u i c. pCand p' (u, i) = Some c \<Longrightarrow> pCand p (u, i) = Some c \<or> 0 < u \<and> wfLog p' (u - 1) c"
  shows "logs_ok p'"
  unfolding logs_ok_def
proof (intro conjI allI impI)
  fix j assume "j < pN p'"
  then have "j < pN p" by (simp add: evolves_N [OF g])
  from new(1) [OF this] wfLog_mono [OF g inv_log [OF inv this] evolves_term [OF g]]
  show "wfLog p' (pTerm p' j) (pLog p' j)" by auto
next
  fix t l assume "pLead p' t = Some l"
  with new(2) [OF this] inv_leadlog [OF inv, of t l] wfLog_mono [OF g, of t l t] show "0 < t" "wfLog p' t l" by auto
next
  fix u i c assume "pCand p' (u, i) = Some c"
  with new(3) [OF this] inv_candlog [OF inv, of u i c] wfLog_mono [OF g, of "u - 1" c "u - 1"] show "0 < u" "wfLog p' (u - 1) c" by auto
qed

lemma logs_ok_step:
  assumes st: "pstep p p'" and inv: "pinv p"
  shows "logs_ok p'"
proof -
  note g = pstep_evolves [OF st] and D = inv_log [OF inv] inv_leadlog [OF inv] inv_candlog [OF inv]
  from st show "logs_ok p'"
  proof cases
    case (stand i u)
    have "0 < u" "wfLog p' (u - 1) (pLog p i)"
      using inv_term [OF inv, of i] stand wfLog_mono [OF g D(1) [OF stand(2)], of "u - 1"] by auto
    then show ?thesis using stand(1) by (intro logs_ok_mono [OF g inv]) (auto split: if_splits)
  next
    case (start i e)
    have w: "wfLog p (pTerm p i) (pLog p i)" "0 < pTerm p i" using D(2) [OF start(3)] by auto
    have "wfLog p' (pTerm p i) (pLog p i @ [e])" using wfLog_snoc [OF g w(1) _ start(4) w(2)] start(1) by simp
    with w(2) show ?thesis using start(1) by (intro logs_ok_mono [OF g inv]) (auto split: if_splits)
  next
    case (lead i u)
    have "0 < u" "wfLog p' u (pLog p i)"
      using D(3) [OF lead(4)] wfLog_mono [OF g, of "u - 1" "pLog p i" u] by auto
    then show ?thesis using lead(1) by (intro logs_ok_mono [OF g inv]) (auto split: if_splits)
  next
    case (accept j t l m new)
    have "new = pLog p j \<or> new = take m l" using accept(5) by (auto simp: takesOver_def)
    moreover have "wfLog p' t (take m l)" using wfLog_mono [OF g wfLog_take, of t l t m] D(2) [OF accept(4)] by simp
    ultimately show ?thesis using accept(1) by (intro logs_ok_mono [OF g inv]) auto
  next
    case (cut j t l k)
    have "wfLog p' t (take k (pLog p j))" using wfLog_mono [OF g wfLog_take [OF D(1) [OF cut(2)]] cut(3)] .
    then show ?thesis using cut(1) by (intro logs_ok_mono [OF g inv]) auto
  qed (intro logs_ok_mono [OF g inv]; auto)+
qed

section \<open>History\<close>

lemma card_voters_mono:
  assumes "evolves p p'" "\<And>u j i. (u, j, i) \<in> pVotes p' \<Longrightarrow> j < pN p'"
  shows "card {j. (t, j, i) \<in> pVotes p} \<le> card {j. (t, j, i) \<in> pVotes p'}"
proof (rule card_mono)
  have "{j. (t, j, i) \<in> pVotes p'} \<subseteq> {..<pN p'}" using assms(2) by auto
  then show "finite {j. (t, j, i) \<in> pVotes p'}" by (rule finite_subset) simp
qed (use evolves_votes [OF assms(1)] in auto)

lemma history_ok_mono:
  assumes g: "evolves p p'" and inv: "pinv p"
    and led: "\<And>t i. (t, i) \<in> pLed p' \<Longrightarrow> (t, i) \<in> pLed p \<or> i < pN p \<and> t \<le> pTerm p' i \<and> pLead p' t \<noteq> None \<and> pLead p t = None \<and>
        pN p < 2 * card {j. (t, j, i) \<in> pVotes p'} \<and> (\<forall>i'. (t, i') \<in> pLed p' \<longrightarrow> i' = i)"
    and lead: "\<And>t l. pLead p' t = Some l \<Longrightarrow> pLead p t \<noteq> None \<or> (\<exists>i. (t, i) \<in> pLed p' \<and> (t, i) \<notin> pLed p)"
    and votes: "\<And>u j i. (u, j, i) \<in> pVotes p' \<Longrightarrow> (u, j, i) \<in> pVotes p \<or> j < pN p \<and> u \<le> pTerm p' j \<and> pCand p' (u, i) \<noteq> None"
    and cand: "\<And>u i c. pCand p (u, i) = Some c \<Longrightarrow> pCand p' (u, i) \<noteq> None"
      "\<And>u i c. pCand p' (u, i) = Some c \<Longrightarrow> pCand p (u, i) \<noteq> None \<or> u \<le> pTerm p' i"
    and ack: "\<And>t j m. (t, j, m) \<in> pAck p' \<Longrightarrow> (t, j, m) \<in> pAck p \<or> j < pN p \<and> t \<le> pTerm p' j \<and> (\<exists>l. pLead p' t = Some l \<and> m \<le> length l)"
  shows "history_ok p'"
proof -
  have tm: "x \<le> pTerm p j \<Longrightarrow> x \<le> pTerm p' j" for x j using evolves_term [OF g, of j] by linarith
  have vt: "j < pN p' \<and> u \<le> pTerm p' j \<and> pCand p' (u, i) \<noteq> None" if "(u, j, i) \<in> pVotes p'" for u j i
    using votes [OF that] inv_votes [OF inv, of u j i] cand(1) tm evolves_N [OF g] by auto
  note cv = card_voters_mono [OF g, of t i for t i]
  show ?thesis unfolding history_ok_def
  proof (intro conjI allI impI)
    show "0 \<le> pTerm p' j" for j using tm [OF inv_term [OF inv]] .
    show "i < pN p'" "t \<le> pTerm p' i" "pLead p' t \<noteq> None" if "(t, i) \<in> pLed p'" for t i
      using led [OF that] inv_ledby [OF inv, of t i] tm evolves_N [OF g] evolves_lead [OF g, of t] by auto
    show "i = i'" if "(t, i) \<in> pLed p'" "(t, i') \<in> pLed p'" for t i i'
      using led [OF that(1)] led [OF that(2)] that inv_ledone [OF inv, of t i i'] by blast
    show "\<exists>i. (t, i) \<in> pLed p' \<and> pN p' < 2 * card {j. (t, j, i) \<in> pVotes p'}" if "pLead p' t \<noteq> None" for t
    proof -
      from that obtain l where l: "pLead p' t = Some l" by auto
      from lead [OF this] show ?thesis
      proof
        assume "pLead p t \<noteq> None"
        then obtain i where "(t, i) \<in> pLed p" "pN p < 2 * card {j. (t, j, i) \<in> pVotes p}" using inv_quorum [OF inv] by blast
        moreover have "card {j. (t, j, i) \<in> pVotes p} \<le> card {j. (t, j, i) \<in> pVotes p'}" by (rule cv) (use vt in blast)
        ultimately show ?thesis using evolves_led [OF g] evolves_N [OF g] by (intro exI [of _ i]) auto
      next
        assume "\<exists>i. (t, i) \<in> pLed p' \<and> (t, i) \<notin> pLed p"
        then show ?thesis using led evolves_N [OF g] by metis
      qed
    qed
    show "j < pN p'" "u \<le> pTerm p' j" "pCand p' (u, i) \<noteq> None" if "(u, j, i) \<in> pVotes p'" for u j i
      using vt [OF that] by auto
    show "u \<le> pTerm p' i" if "pCand p' (u, i) \<noteq> None" for u i
      using that cand(2) [of u i] inv_cand [OF inv, of u i] tm by auto
    show "j < pN p'" "t \<le> pTerm p' j" "\<exists>l. pLead p' t = Some l \<and> m \<le> length l" if "(t, j, m) \<in> pAck p'" for t j m
      using ack [OF that] inv_ack [OF inv, of t j m] tm evolves_N [OF g] evolves_lead [OF g, of t] by fastforce+
  qed
qed

lemma history_ok_step:
  assumes st: "pstep p p'" and inv: "pinv p"
  shows "history_ok p'"
proof -
  note g = pstep_evolves [OF st]
  from st show ?thesis
  proof cases
    case (lead i u)
    have "(u, i') \<notin> pLed p" for i' using inv_ledby [OF inv, of u i'] lead(5) by auto
    then show ?thesis using lead by (intro history_ok_mono [OF g inv]) (auto split: if_splits)
  next
    case (start i e)
    then show ?thesis by (intro history_ok_mono [OF g inv]) (auto split: if_splits)
  next
    case (accept j t l m new)
    then show ?thesis by (intro history_ok_mono [OF g inv]) (auto simp: takesOver_def split: if_splits)
  qed (intro history_ok_mono [OF g inv]; auto split: if_splits)+
qed

section \<open>Why a newer log has what is held\<close>

lemma last_entry:
  assumes "wfLog p b x" "x \<noteq> []"
  obtains l where "pLead p (lastTermOf x) = Some l" "length x \<le> length l" "x = take (length x) l" "0 < lastTermOf x"
proof -
  let ?k = "length x - 1"
  have k: "?k < length x" "Suc ?k = length x" using assms(2) by (simp_all add: Suc_leI)
  then have "has p (Term (x ! ?k)) (length x) x" using assms(1) by (metis wfLog_def chained_def)
  then have "has p (lastTermOf x) (length x) x" using assms(2) by (simp add: lastTermOf_def last_conv_nth)
  moreover have "0 < lastTermOf x" using assms by (simp add: wfLog_def lastTermOf_def)
  ultimately show thesis using that by (auto simp: has_def)
qed

lemma has_term:
  assumes "own p t m" "has p t m x"
  shows "m - 1 < length x" "Term (x ! (m - 1)) = t" "0 < m"
proof -
  obtain l where l: "pLead p t = Some l" "m \<le> length l" "take m x = take m l" using assms(2) by (auto simp: has_def)
  with assms(1) show m: "0 < m" by (simp add: own_def)
  with has_length [OF assms(2)] show x: "m - 1 < length x" by simp
  have "x ! (m - 1) = l ! (m - 1)" using arg_cong [OF l(3), of "\<lambda>y. y ! (m - 1)"] m by simp
  with assms(1) l(1) show "Term (x ! (m - 1)) = t" by (simp add: own_def)
qed

lemma sorted_terms: "wfLog p b x \<Longrightarrow> i \<le> j \<Longrightarrow> j < length x \<Longrightarrow> Term (x ! i) \<le> Term (x ! j)"
  by (auto simp: wfLog_def sorted_iff_nth_mono)

lemma newer_has:
  assumes inv: "pinv p" and o: "own p t m" "\<not> lost p t m" "has p t m x"
    and w: "wfLog p b x" "wfLog p b' c" and n: "newer c x"
  shows "has p t m c"
proof -
  note hx = has_term [OF o(1,3)]
  have xne: "x \<noteq> []" using hx(1) by auto
  obtain l where l: "pLead p (lastTermOf x) = Some l" "length x \<le> length l" "x = take (length x) l" "0 < lastTermOf x"
    by (rule last_entry [OF w(1) xne])
  have le: "t \<le> lastTermOf x" using sorted_terms [OF w(1), of "m - 1" "length x - 1"] hx xne
    by (auto simp: lastTermOf_def last_conv_nth)
  have cne: "c \<noteq> []" using n l(4) by (auto simp: newer_def lastTermOf_def)
  obtain k where k: "pLead p (lastTermOf c) = Some k" "length c \<le> length k" "c = take (length c) k"
    by (rule last_entry [OF w(2) cne])
  have mx: "m \<le> length x" using has_length [OF o(3)] .
  have tk: "m \<le> length y \<Longrightarrow> y = take (length y) z \<Longrightarrow> take m y = take m z" for y z :: "'a LogEntry list"
    by (metis min.absorb1 take_take)
  show ?thesis
  proof (cases "lastTermOf x = lastTermOf c")
    case True
    with n have "length x \<le> length c" by (auto simp: newer_def)
    with k l mx True have "take m c = take m x" using tk [of c k] tk [of x k] by simp
    with o(3) show ?thesis by (auto simp: has_def)
  next
    case False
    with n have lt: "t < lastTermOf c" using le by (auto simp: newer_def)
    have hk: "has p t m k" by (rule keep_lead [OF inv o(1,2) k(1) lt])
    note kt = has_term [OF o(1) hk]
    have wk: "wfLog p (lastTermOf c) k" using inv_leadlog [OF inv k(1)] by blast
    have lc: "Term (k ! (length c - 1)) = lastTermOf c"
      using k(3) cne by (metis diff_less lastTermOf_def last_conv_nth length_greater_0_conv nth_take zero_less_one)
    have "m \<le> length c"
    proof (rule ccontr)
      assume "\<not> m \<le> length c"
      then have "length c - 1 \<le> m - 1" by simp
      from sorted_terms [OF wk this kt(1)] lc kt(2) lt show False by simp
    qed
    with tk [of c k] k(3) have "take m c = take m k" by blast
    with hk show ?thesis by (auto simp: has_def)
  qed
qed

section \<open>What is held is kept\<close>

lemma voter_holds:
  "evolves p p' \<Longrightarrow> pinv p \<Longrightarrow> (u, j, i) \<in> pVotes p \<Longrightarrow> t < u \<Longrightarrow> holdsUpTo p' t j m \<Longrightarrow> holdsUpTo p t j m"
  using evolves_holds inv_votes by fastforce

text \<open>The steps after which no position is new.\<close>

lemma keeps_ok_mono:
  assumes g: "evolves p p'" and inv: "pinv p"
    and own: "\<And>t m. own p' t m \<Longrightarrow> own p t m"
    and log: "\<And>t m j. own p t m \<Longrightarrow> \<not> lost p t m \<Longrightarrow> holdsUpTo p' t j m \<Longrightarrow> has p t m (pLog p' j)"
    and vote: "\<And>u j i c. (u, j, i) \<in> pVotes p' \<Longrightarrow> pCand p' (u, i) = Some c \<Longrightarrow>
       (u, j, i) \<in> pVotes p \<and> pCand p (u, i) = Some c \<or>
       (\<forall>t m. own p t m \<longrightarrow> \<not> lost p t m \<longrightarrow> t < u \<longrightarrow> holdsUpTo p' t j m \<longrightarrow> has p t m c)"
    and lead: "\<And>u l. pLead p' u = Some l \<Longrightarrow> pLead p u = Some l \<or>
       (\<forall>t m. own p t m \<longrightarrow> \<not> lost p' t m \<longrightarrow> t < u \<longrightarrow> has p t m l)"
  shows "keeps_ok p'"
  unfolding keeps_ok_def
proof (intro allI impI conjI)
  fix t m assume "own p' t m" and lp: "\<not> lost p' t m"
  from own [OF this(1)] have o: "own p t m" .
  have l: "\<not> lost p t m" using lp lost_mono [OF g] by blast
  show "has p' t m (pLog p' j)" if "holdsUpTo p' t j m" for j using has_mono [OF g log [OF o l that]] .
  show "has p' t m c" if "(u, j, i) \<in> pVotes p'" "t < u" "holdsUpTo p' t j m" "pCand p' (u, i) = Some c" for u j i c
    using vote [OF that(1,4)] that(2,3) o l keep_vote [OF inv o l] voter_holds [OF g inv] has_mono [OF g] by blast
  show "has p' t m x" if "pLead p' u = Some x" "t < u" for u x
    using lead [OF that(1)] that(2) o lp keep_lead [OF inv o l] has_mono [OF g] by blast
qed

lemma own_cong: "pLead p' = pLead p \<Longrightarrow> own p' = own p"
  by (intro ext) (simp add: own_def)

lemma keeps_raise_stand_vote:
  assumes st: "pstep p p'" and inv: "pinv p" and same: "pLead p' = pLead p" "pLog p' = pLog p" "pLed p' = pLed p" "pAck p' = pAck p"
    and vote: "\<And>u j i c. (u, j, i) \<in> pVotes p' \<Longrightarrow> pCand p' (u, i) = Some c \<Longrightarrow>
       (u, j, i) \<in> pVotes p \<and> pCand p (u, i) = Some c \<or> wfLog p (u - 1) c \<and> newer c (pLog p j) \<and> j < pN p"
  shows "keeps_ok p'"
proof (rule keeps_ok_mono [OF pstep_evolves [OF st] inv])
  have h: "holdsUpTo p' t j m = holdsUpTo p t j m" for t j m by (simp add: holdsUpTo_def same)
  show "own p' t m \<Longrightarrow> own p t m" for t m by (simp add: own_cong [OF same(1)])
  show kl: "has p t m (pLog p' j)" if "own p t m" "\<not> lost p t m" "holdsUpTo p' t j m" for t m j
    using keep_log [OF inv] that by (simp add: h same)
  show "(u, j, i) \<in> pVotes p \<and> pCand p (u, i) = Some c \<or>
       (\<forall>t m. own p t m \<longrightarrow> \<not> lost p t m \<longrightarrow> t < u \<longrightarrow> holdsUpTo p' t j m \<longrightarrow> has p t m c)"
    if "(u, j, i) \<in> pVotes p'" "pCand p' (u, i) = Some c" for u j i c
    using vote [OF that] newer_has [OF inv] kl inv_log [OF inv, of j] same(2) by metis
qed (simp add: same)

lemma newer_refl: "newer x x"
  by (simp add: newer_def)

lemma voters_lost:
  assumes inv: "pinv p" and q: "pN p < 2 * card {j. (u, j, i) \<in> pVotes p}" and g: "evolves p p'" and t: "t < u"
    and h: "\<And>j. (u, j, i) \<in> pVotes p \<Longrightarrow> \<not> holdsUpTo p' t j m"
  shows "lost p' t m"
  unfolding lost_def
proof (intro exI conjI ballI)
  show "majority p' {j. (u, j, i) \<in> pVotes p}" using q inv_votes [OF inv] evolves_N [OF g] by (auto simp: majority_def)
  fix j assume "j \<in> {j. (u, j, i) \<in> pVotes p}"
  then have j: "(u, j, i) \<in> pVotes p" by simp
  with inv_votes [OF inv j] t evolves_term [OF g, of j] show "t < pTerm p' j" by linarith
  show "\<not> holdsUpTo p' t j m" by (rule h [OF j])
qed

lemma keeps_lead:
  assumes st: "pstep p p'" and inv: "pinv p"
    and p': "p' = p\<lparr>pLed := insert (u, i) (pLed p), pLead := (pLead p)(u \<mapsto> pLog p i)\<rparr>"
    and c: "pCand p (u, i) = Some (pLog p i)" "pLead p u = None" and q: "pN p < 2 * card {j. (u, j, i) \<in> pVotes p}"
  shows "keeps_ok p'"
proof (rule keeps_ok_mono [OF pstep_evolves [OF st] inv])
  note g = pstep_evolves [OF st]
  have w: "e \<in> set (pLog p i) \<Longrightarrow> Term e < u" for e using inv_candlog [OF inv c(1)] by (auto simp: wfLog_def)
  show "own p t m" if "own p' t m" for t m
  proof (cases "t = u")
    case True
    with that p' have "0 < m" "m \<le> length (pLog p i)" "Term (pLog p i ! (m - 1)) = u" by (auto simp: own_def)
    with w [of "pLog p i ! (m - 1)"] show ?thesis by simp
  qed (use that p' in \<open>simp add: own_def\<close>)
  fix t m j assume o: "own p t m" "\<not> lost p t m" and h: "holdsUpTo p' t j m"
  have "t \<noteq> u" using o c(2) by (auto simp: own_def)
  with h p' have "holdsUpTo p t j m" by (auto simp: holdsUpTo_def)
  from keep_log [OF inv o this] p' show "has p t m (pLog p' j)" by simp
next
  fix v l assume v: "pLead p' v = Some l"
  show "pLead p v = Some l \<or> (\<forall>t m. own p t m \<longrightarrow> \<not> lost p' t m \<longrightarrow> t < v \<longrightarrow> has p t m l)"
  proof (cases "v = u")
    case True
    have "has p t m (pLog p i)" if o: "own p t m" "\<not> lost p' t m" "t < u" for t m
    proof -
      have "\<not> lost p t m" using o(2) lost_mono [OF pstep_evolves [OF st]] by blast
      moreover obtain j where j: "(u, j, i) \<in> pVotes p" "holdsUpTo p' t j m"
        using voters_lost [OF inv q pstep_evolves [OF st] o(3)] o(2) by blast
      ultimately show ?thesis
        using keep_vote [OF inv o(1) _ j(1) o(3) voter_holds [OF pstep_evolves [OF st] inv j(1) o(3) j(2)] c(1)] by blast
    qed
    with True v p' show ?thesis by simp
  qed (use v p' in simp)
qed (use p' in simp)

lemma keeps_start:
  assumes st: "pstep p p'" and inv: "pinv p"
    and p': "p' = p\<lparr>pLog := (pLog p)(i := pLog p i @ [e]), pLead := (pLead p)(pTerm p i \<mapsto> pLog p i @ [e])\<rparr>"
    and i: "(pTerm p i, i) \<in> pLed p" and l: "pLead p (pTerm p i) = Some (pLog p i)"
  shows "keeps_ok p'"
  unfolding keeps_ok_def
proof (intro allI impI)
  note g = pstep_evolves [OF st]
  let ?l = "pLog p i" and ?T = "pTerm p i"
  have sel: "pLog p' = (pLog p)(i := ?l @ [e])" "pLead p' = (pLead p)(?T \<mapsto> ?l @ [e])" "pVotes p' = pVotes p" "pCand p' = pCand p"
    "pLed p' = pLed p" "pAck p' = pAck p" by (simp_all add: p')
  have h: "holdsUpTo p' t j m = holdsUpTo p t j m" for t j m by (simp add: holdsUpTo_def sel)
  have app: "has p t m x \<Longrightarrow> has p' t m (x @ [e])" for t m x using has_mono [OF g, of t m x] has_length [of p t m x] by (auto simp: has_def)
  fix t m assume o': "own p' t m" and lp: "\<not> lost p' t m"
  show "(\<forall>j. holdsUpTo p' t j m \<longrightarrow> has p' t m (pLog p' j)) \<and>
       (\<forall>u j k c. (u, j, k) \<in> pVotes p' \<longrightarrow> t < u \<longrightarrow> holdsUpTo p' t j m \<longrightarrow> pCand p' (u, k) = Some c \<longrightarrow> has p' t m c) \<and>
       (\<forall>u l. pLead p' u = Some l \<longrightarrow> t < u \<longrightarrow> has p' t m l)"
  proof (cases "own p t m")
    case True
    have nl: "\<not> lost p t m" using lp lost_mono [OF g] by blast
    have "has p' t m (pLog p' j)" if "holdsUpTo p' t j m" for j
      using keep_log [OF inv True nl, of j] that app has_mono [OF g] by (cases "j = i") (auto simp: h sel)
    moreover have "has p' t m c" if "(u, j, k) \<in> pVotes p'" "t < u" "holdsUpTo p' t j m" "pCand p' (u, k) = Some c" for u j k c
      using keep_vote [OF inv True nl, of u j k c] that has_mono [OF g] by (simp add: h sel)
    moreover have "has p' t m x" if "pLead p' u = Some x" "t < u" for u x
      using keep_lead [OF inv True nl, of u] that app has_mono [OF g] l by (cases "u = ?T") (auto simp: sel)
    ultimately show ?thesis by blast
  next
    case False
    with o' l have t: "t = ?T" and m: "m = Suc (length ?l)"
      by (auto simp: own_def sel nth_append split: if_splits option.splits)
    have only: "j = i" if "holdsUpTo p t j m" for j
      using that inv_ack [OF inv] inv_ledone [OF inv i, of j] l by (fastforce simp: holdsUpTo_def t m)
    have gone: "\<not> holdsUpTo p t j m" if "(u, j, k) \<in> pVotes p" "t < u" for u j k
      using only [of j] inv_votes [OF inv that(1)] that(2) t by auto
    have "has p' t m (pLog p' j)" if "holdsUpTo p' t j m" for j
      using only [of j] that by (simp add: h) (simp add: has_def sel t m)
    moreover have False if u: "pLead p' u = Some x" "t < u" for u x
    proof -
      from u have "pLead p u = Some x" by (auto simp: sel t)
      then obtain k where "pN p < 2 * card {j. (u, j, k) \<in> pVotes p}" using inv_quorum [OF inv] by blast
      from voters_lost [OF inv this g u(2)] gone u(2) lp show False by (auto simp: h)
    qed
    moreover have "\<not> holdsUpTo p' t j m" if "(u, j, k) \<in> pVotes p'" "t < u" for u j k
      using gone [of u j k] that by (simp add: h) (simp add: sel)
    ultimately show ?thesis by blast
  qed
qed

text \<open>A follower of the leader of term \<open>t\<close> keeps what it held: the leader has it, too.\<close>

lemma leader_has:
  assumes inv: "pinv p" and o: "own p t' m" "\<not> lost p t' m" and h: "holdsUpTo p t' j m"
    and t: "pTerm p j \<le> t" and l: "pLead p t = Some l"
  shows "take m (pLog p j) = take m l" "m \<le> length l"
proof -
  have "has p t' m l"
  proof (cases "t' = t")
    case True
    with o(1) l show ?thesis by (simp add: own_def has_def)
  next
    case False
    with holds_term [OF inv h] t have "t' < t" by linarith
    from keep_lead [OF inv o l this] show ?thesis .
  qed
  with keep_log [OF inv o h] show "take m (pLog p j) = take m l" "m \<le> length l"
    using has_length by (fastforce simp: has_def)+
qed

lemma keeps_follow:
  assumes st: "pstep p p'" and inv: "pinv p" and t: "pTerm p j \<le> t" and l: "pLead p t = Some l"
    and sel: "pLog p' = (pLog p)(j := new)" "pLead p' = pLead p" "pVotes p' = pVotes p" "pCand p' = pCand p" "pLed p' = pLed p"
    and ack: "\<And>a. a \<in> pAck p' \<Longrightarrow> a \<in> pAck p \<or> (\<exists>m. a = (t, j, m) \<and> m \<le> length l \<and> take m new = take m l)"
    and keep: "\<And>m. m \<le> length l \<Longrightarrow> take m (pLog p j) = take m l \<Longrightarrow> take m new = take m l"
  shows "keeps_ok p'"
proof (rule keeps_ok_mono [OF pstep_evolves [OF st] inv])
  show "own p' t m \<Longrightarrow> own p t m" for t m by (simp add: own_cong [OF sel(2)])
  fix t' m i assume o: "own p t' m" "\<not> lost p t' m" and h: "holdsUpTo p' t' i m"
  show "has p t' m (pLog p' i)"
  proof (cases "holdsUpTo p t' i m")
    case True
    show ?thesis
    proof (cases "i = j")
      case True
      with \<open>holdsUpTo p t' i m\<close> have hj: "holdsUpTo p t' j m" by simp
      note lh = leader_has [OF inv o hj t l]
      from keep_log [OF inv o hj] keep [OF lh(2,1)] lh(1) sel(1) True show ?thesis by (simp add: has_def)
    qed (use keep_log [OF inv o True] sel(1) in simp)
  next
    case False
    with h sel(5) obtain m' where m': "m \<le> m'" "(t', i, m') \<in> pAck p'" "(t', i, m') \<notin> pAck p"
      by (auto simp: holdsUpTo_def)
    with ack [OF m'(2)] have a: "t' = t" "i = j" "m' \<le> length l" "take m' new = take m' l" by auto
    from arg_cong [OF a(4), of "take m"] m'(1) have "take m new = take m l" by (simp add: min_absorb1)
    with a m'(1) l sel(1) show ?thesis by (simp add: has_def)
  qed
qed (use sel in auto)

lemma takesOver_keep: "takesOver old l m new \<Longrightarrow> k \<le> length l \<Longrightarrow> take k old = take k l \<Longrightarrow> take k new = take k l"
  by (auto simp: takesOver_def min_absorb1)

lemma cut_keep:
  assumes "k < length old" "k < length l" "Term (old ! k) \<noteq> Term (l ! k)" "m \<le> length l" "take m old = take m l"
  shows "take m (take k old) = take m l"
proof -
  have "\<not> k < m" using assms(3,5) by (metis nth_take)
  with assms(5) show ?thesis by (simp add: min_absorb1)
qed

lemma keeps_ok_step:
  assumes st: "pstep p p'" and inv: "pinv p"
  shows "keeps_ok p'"
  using st
proof cases
  case (raise j t)
  then show ?thesis by (intro keeps_raise_stand_vote [OF st inv]) auto
next
  case (stand i u)
  have no: "pCand p (u, i) = None" using inv_cand [OF inv, of u i] stand(3) by (cases "pCand p (u, i)") auto
  have "wfLog p (u - 1) (pLog p i)" using inv_log [OF inv stand(2)] stand(3) by (auto simp: wfLog_def)
  moreover have "(u, j, i) \<notin> pVotes p" for j using inv_votes [OF inv, of u j i] no by auto
  ultimately show ?thesis using stand(1,2) newer_refl
    by (intro keeps_raise_stand_vote [OF st inv]) (auto split: if_splits)
next
  case (vote j u i c)
  then show ?thesis using inv_candlog [OF inv vote(4)] by (intro keeps_raise_stand_vote [OF st inv]) auto
next
  case (lead i u)
  then show ?thesis by (intro keeps_lead [OF st inv]) auto
next
  case (start i e)
  then show ?thesis by (intro keeps_start [OF st inv]) auto
next
  case (accept j t l m new)
  then show ?thesis using takesOver_keep [OF accept(5)]
    by (intro keeps_follow [OF st inv accept(3,4), where new = new]) (auto simp: takesOver_def)
next
  case (cut j t l k)
  then show ?thesis using cut_keep [OF cut(5,6,7)]
    by (intro keeps_follow [OF st inv cut(3,4), where new = "take k (pLog p j)"]) auto
qed

lemma pinv_step: "pstep p p' \<Longrightarrow> pinv p \<Longrightarrow> pinv p'"
  unfolding pinv_def using logs_ok_step history_ok_step keeps_ok_step by (metis pinv_def)

lemma pinv_init: "pinit n p \<Longrightarrow> pinv p"
  by (auto simp: pinit_def pinv_def logs_ok_def history_ok_def keeps_ok_def wfLog_def chained_def own_def)

interpretation protocol: transition_system "pinit n" pstep pinv for n
  by unfold_locales (blast intro: pinv_init pinv_step)+

end
