(* ===== verification/RaftRefine.thy ===== *)
theory RaftRefine
  imports RaftProtocolInv RaftElectionSafety
begin

text \<open>
  How the states of a cluster and of the protocol correspond. The log of the protocol is the log
  of the peer together with the entries its snapshot stands for; the term of the protocol is the
  stored one. A leader's match indices are acknowledgements, commit indices are committed
  prefixes, and every message in flight quotes the log of the leader of its term.
\<close>

section \<open>Committed prefixes\<close>

lemma take_agree: "take n x = take n y \<Longrightarrow> m \<le> n \<Longrightarrow> take m x = take m y"
  by (metis min.absorb1 take_take)

text \<open>The first \<open>k\<close> entries of \<open>x\<close> are committed, by a leader of a term up to \<open>b\<close>.\<close>

definition cprefix :: "'c proto \<Rightarrow> int \<Rightarrow> nat \<Rightarrow> 'c LogEntry list \<Rightarrow> bool" where
  "cprefix p b k x = (k = 0 \<or> (\<exists>t m. committed p t m \<and> t \<le> b \<and> k \<le> m \<and> has p t k x))"

text \<open>The command committed at a position.\<close>

definition chosen :: "'c proto \<Rightarrow> nat \<Rightarrow> 'c \<Rightarrow> bool" where
  "chosen p k c = (\<exists>t m l. committed p t m \<and> pLead p t = Some l \<and> k < m \<and> Command (l ! k) = c)"

lemma cprefix_0 [simp]: "cprefix p b 0 x"
  by (simp add: cprefix_def)

lemma cprefix_length: "cprefix p b k x \<Longrightarrow> k \<le> length x"
  by (auto simp: cprefix_def dest: has_length)

lemma cprefix_mono: "cprefix p b k x \<Longrightarrow> evolves p p' \<Longrightarrow> b \<le> b' \<Longrightarrow> cprefix p' b' k x"
  unfolding cprefix_def using committed_mono has_mono order_trans by blast

lemma cprefix_cong: "cprefix p b k x \<Longrightarrow> take k y = take k x \<Longrightarrow> cprefix p b k y"
  by (auto simp: cprefix_def has_def)

lemma has_le: "has p t k x \<Longrightarrow> j \<le> k \<Longrightarrow> has p t j x"
  unfolding has_def by (metis min.absorb1 order_trans take_take)

lemma cprefix_le: "cprefix p b k x \<Longrightarrow> j \<le> k \<Longrightarrow> cprefix p b j x"
  unfolding cprefix_def using has_le order_trans by blast

lemma cprefix_append: "cprefix p b k x \<Longrightarrow> cprefix p b k (x @ y)"
  by (rule cprefix_cong [of p b k x]) (auto dest: cprefix_length)

lemma committed_lead: "committed p t m \<Longrightarrow> \<exists>l. pLead p t = Some l \<and> m \<le> length l"
  by (auto simp: committed_def own_def split: option.splits)

lemma committed_cprefix: "committed p t m \<Longrightarrow> pLead p t = Some l \<Longrightarrow> k \<le> m \<Longrightarrow> cprefix p t k l"
  using committed_lead [of p t m] unfolding cprefix_def has_def by fastforce

text \<open>Later leaders have every committed prefix, and committed prefixes agree.\<close>

lemma cprefix_lead:
  assumes inv: "pinv p" and c: "cprefix p b k x" and l: "pLead p t = Some l" and le: "b \<le> t"
  shows "k \<le> length l" "take k x = take k l"
proof -
  have "k \<le> length l \<and> take k x = take k l"
  proof (cases "k = 0")
    case False
    with c obtain t0 m where m: "committed p t0 m" "t0 \<le> b" "k \<le> m" "has p t0 k x"
      by (auto simp: cprefix_def)
    have "has p t0 m l"
    proof (cases "t0 = t")
      case True
      with m(1) l show ?thesis by (auto simp: has_def committed_def own_def)
    next
      case False
      with m le keep_lead [OF inv _ committed_not_lost [OF m(1)] l] show ?thesis
        by (auto simp: committed_def)
    qed
    then have "has p t0 k l" "k \<le> length l"
      using m(3) has_length [of p t0 m l] unfolding has_def by (metis min.absorb1 order_trans take_take)+
    with m(4) show ?thesis by (auto simp: has_def)
  qed simp
  then show "k \<le> length l" "take k x = take k l" by auto
qed

lemma cprefix_agree:
  assumes inv: "pinv p" and c: "cprefix p b k x" "cprefix p b' k' y" and n: "n \<le> k" "n \<le> k'"
  shows "take n x = take n y"
proof (cases "n = 0")
  case False
  from cprefix_le [OF c(1) n(1)] cprefix_le [OF c(2) n(2)] False obtain t m t' m'
    where m: "committed p t m" "n \<le> m" "has p t n x" "committed p t' m'" "n \<le> m'" "has p t' n y"
    by (auto simp: cprefix_def)
  then obtain l l' where l: "pLead p t = Some l" "take n x = take n l" "pLead p t' = Some l'" "take n y = take n l'"
    by (auto simp: has_def)
  have "take n l' = take n l"
  proof (cases "t \<le> t'")
    case True
    from committed_agree [OF inv m(1,4) this l(1,3)] m(2) show ?thesis by (rule take_agree)
  next
    case False
    then have "t' \<le> t" by simp
    from committed_agree [OF inv m(4,1) this l(3,1)] m(5) take_agree show ?thesis by metis
  qed
  with l show ?thesis by simp
qed simp

lemma cprefix_chosen:
  assumes "cprefix p b n x" "k < n"
  shows "chosen p k (Command (x ! k))"
proof -
  from assms obtain t m l where "committed p t m" "n \<le> m" "pLead p t = Some l" "take n x = take n l"
    by (auto simp: cprefix_def has_def)
  with assms(2) show ?thesis unfolding chosen_def by (metis less_le_trans nth_take)
qed

lemma chosen_mono:
  assumes g: "evolves p p'" and c: "chosen p k v"
  shows "chosen p' k v"
proof -
  from c obtain t m l where l: "committed p t m" "pLead p t = Some l" "k < m" "Command (l ! k) = v"
    by (auto simp: chosen_def)
  obtain x where x: "pLead p' t = Some (l @ x)" using evolves_lead [OF g l(2)] by blast
  have "k < length l" using l(1-3) by (auto simp: committed_def own_def)
  with l x committed_mono [OF g l(1)] show ?thesis unfolding chosen_def by (metis nth_append)
qed

lemma chosen_unique:
  assumes inv: "pinv p" and c: "chosen p k v" "chosen p k v'"
  shows "v = v'"
proof -
  from c obtain t m l t' m' l' where l: "committed p t m" "pLead p t = Some l" "k < m" "Command (l ! k) = v"
    "committed p t' m'" "pLead p t' = Some l'" "k < m'" "Command (l' ! k) = v'"
    by (auto simp: chosen_def)
  have "cprefix p t m l" "cprefix p t' m' l'" using l by (auto intro: committed_cprefix)
  from cprefix_agree [OF inv this, of "Suc k"] l have "take (Suc k) l = take (Suc k) l'" by simp
  then have "l ! k = l' ! k" by (metis lessI nth_take)
  with l show ?thesis by simp
qed

section \<open>Merging logs\<close>

text \<open>Log matching: entries of the same term at the same position stand behind the same entries.\<close>

lemma match_prefix:
  assumes "wfLog p b x" "wfLog p b' y" "k < length x" "k < length y" "Term (x ! k) = Term (y ! k)"
  shows "take (Suc k) x = take (Suc k) y"
proof -
  have "has p (Term (x ! k)) (Suc k) x" "has p (Term (y ! k)) (Suc k) y"
    using assms by (auto simp: wfLog_def chained_def)
  with assms(5) show ?thesis by (auto simp: has_def)
qed

lemma match_entry:
  assumes "wfLog p b x" "wfLog p b' y" "k < length x" "k < length y" "Term (x ! k) = Term (y ! k)" "j \<le> k"
  shows "x ! j = y ! j"
  using match_prefix [OF assms(1-5)] assms(6) by (metis le_imp_less_Suc nth_take)

lemma mergeResult_cases:
  assumes m: "mergeResult old new y" and st: "same_term_same_entry old new"
  shows "y = old \<and> length new \<le> length old \<and> (\<forall>k < length new. Term (old ! k) = Term (new ! k)) \<or>
    y = new \<and> (length old \<le> length new \<or> (\<exists>k < length new. k < length old \<and> Term (old ! k) \<noteq> Term (new ! k)))"
  using m unfolding mergeResult_def merge_log_replace [OF st] by (auto split: if_splits)

lemma takesOver_merge:
  assumes wf: "wfLog p b' x" "wfLog p t l" and b: "b \<le> length x" "b \<le> length l" "take b x = take b l" "m \<le> length l"
    and y: "mergeResult (drop b x) (drop b (take m l)) y"
  shows "takesOver x l m (take b x @ y)"
proof -
  let ?old = "drop b x" and ?new = "drop b (take m l)"
  have "same_term_same_entry ?old ?new"
    unfolding same_term_same_entry_def
  proof (intro allI impI)
    fix k assume k: "k < min (length ?old) (length ?new)" "Term (?old ! k) = Term (?new ! k)"
    then have "x ! (b + k) = l ! (b + k)" using b by (intro match_entry [OF wf, of "b + k"]) auto
    with k b show "?old ! k = ?new ! k" by auto
  qed
  from mergeResult_cases [OF y this] show ?thesis
  proof
    assume o: "y = ?old \<and> length ?new \<le> length ?old \<and> (\<forall>k < length ?new. Term (?old ! k) = Term (?new ! k))"
    have "take m x = take m l"
    proof (cases "m \<le> b")
      case True
      with b(3) show ?thesis by (rule take_agree)
    next
      case False
      then have k: "m - Suc b < length ?new" "m - 1 < length x" using o b by auto
      from k(1) o have "Term (?old ! (m - Suc b)) = Term (?new ! (m - Suc b))" by blast
      then have "Term (x ! (m - 1)) = Term (l ! (m - 1))" using False b by simp
      from match_prefix [OF wf k(2) _ this] False b show ?thesis by simp
    qed
    moreover have "take b x @ y = x" using o by simp
    ultimately show ?thesis using b by (simp add: takesOver_def)
  next
    assume n: "y = ?new \<and> (length ?old \<le> length ?new \<or> (\<exists>k < length ?new. k < length ?old \<and> Term (?old ! k) \<noteq> Term (?new ! k)))"
    show ?thesis
    proof (cases "m \<le> b")
      case True
      with n b have "take b x @ y = x" by auto
      moreover have "take m x = take m l" using b(3) True by (rule take_agree)
      ultimately show ?thesis using b by (simp add: takesOver_def)
    next
      case False
      have "take b l @ drop b (take m l) = take m l"
        using False by (metis append_take_drop_id min.absorb1 nat_le_linear take_take)
      with n b have eq: "take b x @ y = take m l" by simp
      have "k \<le> m" if k: "k \<le> length l" "take k x = take k l" for k
      proof (rule ccontr)
        assume mk: "\<not> k \<le> m"
        have "k \<le> length x" using k by (metis length_take min.absorb2 min.bounded_iff nat_le_linear)
        with mk False n b obtain q where q: "q < length ?new" "q < length ?old" "Term (?old ! q) \<noteq> Term (?new ! q)"
          by auto
        then have "x ! (b + q) \<noteq> l ! (b + q)" "b + q < k" using mk b by auto
        with k(2) show False by (metis nth_take)
      qed
      with eq b show ?thesis by (auto simp: takesOver_def)
    qed
  qed
qed

section \<open>Peers\<close>

text \<open>\<open>x\<close> is the log of the peer with the entries its snapshot stands for in front.\<close>

definition whole :: "'c Raft \<Rightarrow> 'c LogEntry list \<Rightarrow> bool" where
  "whole rf x = (-1 \<le> snapshotIndex rf \<and> nat (snapshotIndex rf + 1) \<le> length x \<and>
     log rf = drop (nat (snapshotIndex rf + 1)) x \<and>
     snapshotTerm rf = lastTermOf (take (nat (snapshotIndex rf + 1)) x) \<and> contiguous (-1) x)"

text \<open>Log, snapshot index and snapshot term that a restart reads back.\<close>

definition storedLog :: "'c Raft \<Rightarrow> 'c LogEntry list \<times> int \<times> int" where
  "storedLog rf = (case decodeState (ReadRaftState (persister rf)) of
     None \<Rightarrow> ([], -1, 0) | Some (ct, vf, lg, si, st) \<Rightarrow> (lg, si, st))"

definition commits :: "'c proto \<Rightarrow> nat \<Rightarrow> 'c Raft \<Rightarrow> bool" where
  "commits p j rf = (snapshotIndex rf \<le> commitIndex rf \<and> commitIndex rf < int (length (pLog p j)) \<and>
     cprefix p (pTerm p j) (nat (commitIndex rf + 1)) (pLog p j))"

text \<open>Every command handed to the service is the one committed at its index.\<close>

definition delivered :: "'c proto \<Rightarrow> 'c ApplyMsg \<Rightarrow> bool" where
  "delivered p m = (CommandValid m \<longrightarrow>
     (\<exists>k c. CommandIndex m = int k + 1 \<and> aCommand m = Some c \<and> chosen p k c))"

definition delivers :: "'c proto \<Rightarrow> 'c Raft \<Rightarrow> bool" where
  "delivers p rf = (\<forall>ms \<in> set (applyGo rf). \<forall>m \<in> set ms. delivered p m)"

text \<open>The match index of a peer is what the peer has acknowledged.\<close>

definition matches :: "'c proto \<Rightarrow> nat \<Rightarrow> 'c Raft \<Rightarrow> bool" where
  "matches p j rf = (length (matchIndex rf) = pN p \<and>
     (\<forall>i < pN p. -1 \<le> matchIndex rf ! i \<and> matchIndex rf ! i < int (length (pLog p j)) \<and>
        (0 \<le> matchIndex rf ! i \<longrightarrow> holdsUpTo p (currentTerm rf) i (nat (matchIndex rf ! i + 1)))))"

definition in_office :: "'c proto \<Rightarrow> nat \<Rightarrow> 'c Raft \<Rightarrow> bool" where
  "in_office p j rf = (role rf = 2 \<longrightarrow> (currentTerm rf, j) \<in> pLed p \<and> pTerm p j = currentTerm rf \<and>
     pLead p (currentTerm rf) = Some (pLog p j) \<and> matches p j rf)"

definition standing :: "'c proto \<Rightarrow> nat \<Rightarrow> 'c Raft \<Rightarrow> bool" where
  "standing p j rf = (role rf = 1 \<longrightarrow> (currentTerm rf, j) \<notin> pLed p \<and> pTerm p j = currentTerm rf \<and>
     (pCand p (currentTerm rf, j) = Some (pLog p j) \<or> pLead p (currentTerm rf) \<noteq> None))"

definition node_ref :: "'c proto \<Rightarrow> nat \<Rightarrow> 'c Raft \<Rightarrow> bool" where
  "node_ref p j rf = (pTerm p j = fst (storedVote rf) \<and> whole rf (pLog p j) \<and>
     storedLog rf = (log rf, snapshotIndex rf, snapshotTerm rf) \<and> commits p j rf \<and> delivers p rf \<and>
     in_office p j rf \<and> standing p j rf)"

section \<open>Messages\<close>

text \<open>How far a request reaches into the leader's log.\<close>

definition lastSent :: "'c AppendEntriesArgs \<Rightarrow> nat" where
  "lastSent a = nat (PrevLogIndex a + 1) + length (Entries a)"

definition ae_ref :: "'c proto \<Rightarrow> 'c AppendEntriesArgs \<Rightarrow> bool" where
  "ae_ref p a = (\<exists>l. pLead p (aeTerm a) = Some l \<and> -1 \<le> PrevLogIndex a \<and> lastSent a \<le> length l \<and>
     Entries a = drop (nat (PrevLogIndex a + 1)) (take (lastSent a) l) \<and>
     PrevLogTerm a = lastTermOf (take (nat (PrevLogIndex a + 1)) l) \<and>
     LeaderCommit a < int (lastSent a) \<and> cprefix p (aeTerm a) (nat (LeaderCommit a + 1)) l)"

definition is_ref :: "'c proto \<Rightarrow> InstallSnapshotArgs \<Rightarrow> bool" where
  "is_ref p a = (\<exists>l. pLead p (isTerm a) = Some l \<and> -1 \<le> LastIncludedIndex a \<and>
     LastIncludedTerm a = lastTermOf (take (nat (LastIncludedIndex a + 1)) l) \<and>
     cprefix p (isTerm a) (nat (LastIncludedIndex a + 1)) l)"

text \<open>A request of a leader; a successful reply of the same term acknowledges what was sent.\<close>

definition msg_ref :: "'c proto \<Rightarrow> 'c aecall \<Rightarrow> bool" where
  "msg_ref p c = (aeDst c < pN p \<and> aeDst c \<noteq> aeSrc c \<and>
    (case aeMsg c of
       SendAppendEntries a \<Rightarrow> (aeTerm a, aeSrc c) \<in> pLed p \<and> ae_ref p a \<and>
         (\<forall>r. aeReply c = Some (Inl r) \<longrightarrow> Success r \<longrightarrow> aerTerm r = aeTerm a \<longrightarrow>
            ServerId r = int (aeDst c) \<and> (aeTerm a, aeDst c, lastSent a) \<in> pAck p)
     | SendInstallSnapshot a \<Rightarrow> (isTerm a, aeSrc c) \<in> pLed p \<and> is_ref p a \<and>
         (\<forall>r. aeReply c = Some (Inr r) \<longrightarrow> isrTerm r = isTerm a \<longrightarrow>
            isrServerId r = int (aeDst c) \<and> (isTerm a, aeDst c, nat (LastIncludedIndex a + 1)) \<in> pAck p)))"

definition rv_ref :: "'c proto \<Rightarrow> rvcall \<Rightarrow> bool" where
  "rv_ref p c = (\<exists>x. pCand p (rvTerm (rvArgs c), rvSrc c) = Some x \<and>
     LastLogIndex (rvArgs c) = int (length x) - 1 \<and> LastLogTerm (rvArgs c) = lastTermOf x)"

section \<open>Clusters\<close>

definition voteSet :: "'c proto \<Rightarrow> (int \<times> nat \<times> int) set" where
  "voteSet p = {(t, v, int c) | t v c. (t, v, c) \<in> pVotes p}"

definition cref :: "'c proto \<Rightarrow> 'c cluster \<Rightarrow> bool" where
  "cref p s = (pN p = length (nodes s) \<and> led s = pLed p \<and> votes s = voteSet p \<and>
     (\<forall>t l. pLead p t = Some l \<longrightarrow> contiguous (-1) l) \<and>
     (\<forall>j < length (nodes s). node_ref p j (nodes s ! j)) \<and>
     (\<forall>c \<in> set (aenet s). msg_ref p c) \<and> (\<forall>c \<in> set (rvnet s). rv_ref p c))"

lemma crefD:
  assumes "cref p s"
  shows ref_N: "pN p = length (nodes s)" and ref_led: "led s = pLed p"
    and ref_votes: "votes s = voteSet p"
    and ref_lead: "\<And>t l. pLead p t = Some l \<Longrightarrow> contiguous (-1) l"
    and ref_node: "\<And>j. j < length (nodes s) \<Longrightarrow> node_ref p j (nodes s ! j)"
    and ref_msg: "\<And>c. c \<in> set (aenet s) \<Longrightarrow> msg_ref p c" and ref_rv: "\<And>c. c \<in> set (rvnet s) \<Longrightarrow> rv_ref p c"
  using assms by (auto simp: cref_def)

section \<open>The whole log\<close>

lemma wholeD:
  assumes "whole rf x"
  shows whole_log_ok: "log_ok rf" and whole_last: "lastIndex rf = int (length x) - 1"
    and whole_contiguous: "contiguous (-1) x" and whole_low: "-1 \<le> snapshotIndex rf"
    and whole_snap: "snapshotIndex rf < int (length x)"
    and whole_log: "log rf = drop (nat (snapshotIndex rf + 1)) x"
    and whole_snapTerm: "snapshotTerm rf = lastTermOf (take (nat (snapshotIndex rf + 1)) x)"
  using assms contiguous_drop [of "-1" x "nat (snapshotIndex rf + 1)"]
  by (auto simp: whole_def log_ok_def lastIndex_def)

lemma whole_entry:
  assumes "whole rf x"
  shows "entry_at rf k = (if snapshotIndex rf < k \<and> k < int (length x) then Some (x ! nat k) else None)"
proof -
  have "log rf ! nat (k - snapshotIndex rf - 1) = x ! nat k" if "snapshotIndex rf < k" "k < int (length x)"
  proof -
    have "nat (snapshotIndex rf + 1) + nat (k - snapshotIndex rf - 1) = nat k"
      using that whole_low [OF assms] by simp
    with that assms show ?thesis by (auto simp: whole_def)
  qed
  then show ?thesis by (auto simp: entry_at_def whole_last [OF assms])
qed

lemma whole_getLast:
  assumes "whole rf x"
  shows "getLastLogIndexAndTerm rf = (int (length x) - 1, lastTermOf x)"
proof -
  have "snd (getLastLogIndexAndTerm rf) = lastTermOf x"
    using assms by (auto simp: getLast_snd whole_def lastTermOf_def)
  moreover have "fst (getLastLogIndexAndTerm rf) = int (length x) - 1"
    using assms by (simp add: getLast_fst whole_log_ok whole_last)
  ultimately show ?thesis by (metis prod.collapse)
qed

lemma whole_cong:
  "whole rf x \<Longrightarrow> log rf' = log rf \<Longrightarrow> snapshotIndex rf' = snapshotIndex rf \<Longrightarrow> snapshotTerm rf' = snapshotTerm rf \<Longrightarrow> whole rf' x"
  by (simp add: whole_def)

lemma storedLog_persist [simp]: "storedLog (persist rf) = (log rf, snapshotIndex rf, snapshotTerm rf)"
  using persisted_persist [of rf] by (simp add: storedLog_def persisted_def)

lemma storedLog_cong: "persister rf' = persister rf \<Longrightarrow> storedLog rf' = storedLog rf"
  by (simp add: storedLog_def)

lemma lastTermOf_take: "k < length x \<Longrightarrow> lastTermOf (take (Suc k) x) = Term (x ! k)"
  by (simp add: lastTermOf_def take_Suc_conv_app_nth)

end
