(* ===== verification/RaftSimulation.thy ===== *)
theory RaftSimulation
  imports RaftRefine
begin

text \<open>
  Every event of a cluster is a step of the protocol or leaves its state alone. The events that do
  not touch the log share one lemma; standing, voting, taking office, appending a command and
  accepting entries or a snapshot of the leader have one each.
\<close>

section \<open>What growing histories keep\<close>

lemma ae_ref_mono:
  assumes g: "evolves p p'" and a: "ae_ref p a"
  shows "ae_ref p' a"
proof -
  from a obtain l where l: "pLead p (aeTerm a) = Some l" "lastSent a \<le> length l" "-1 \<le> PrevLogIndex a"
    "Entries a = drop (nat (PrevLogIndex a + 1)) (take (lastSent a) l)"
    "PrevLogTerm a = lastTermOf (take (nat (PrevLogIndex a + 1)) l)"
    "LeaderCommit a < int (lastSent a)" "cprefix p (aeTerm a) (nat (LeaderCommit a + 1)) l"
    by (auto simp: ae_ref_def)
  obtain x where x: "pLead p' (aeTerm a) = Some (l @ x)" using evolves_lead [OF g l(1)] by blast
  have "nat (PrevLogIndex a + 1) \<le> length l" using l(2) by (simp add: lastSent_def)
  then show ?thesis
    using l x cprefix_append [OF cprefix_mono [OF l(7) g order_refl]] by (auto simp: ae_ref_def)
qed

lemma is_ref_mono:
  assumes g: "evolves p p'" and a: "is_ref p a"
  shows "is_ref p' a"
proof -
  from a obtain l where l: "pLead p (isTerm a) = Some l" "-1 \<le> LastIncludedIndex a"
    "LastIncludedTerm a = lastTermOf (take (nat (LastIncludedIndex a + 1)) l)"
    "cprefix p (isTerm a) (nat (LastIncludedIndex a + 1)) l"
    by (auto simp: is_ref_def)
  obtain x where x: "pLead p' (isTerm a) = Some (l @ x)" using evolves_lead [OF g l(1)] by blast
  show ?thesis
    using l x cprefix_append [OF cprefix_mono [OF l(4) g order_refl]] cprefix_length [OF l(4)] by (auto simp: is_ref_def)
qed

lemma msg_ref_mono: "evolves p p' \<Longrightarrow> msg_ref p c \<Longrightarrow> msg_ref p' c"
  by (auto simp: msg_ref_def evolves_N split: outgoing.splits
      intro: ae_ref_mono is_ref_mono evolves_led evolves_ack)

lemma delivered_mono: "evolves p p' \<Longrightarrow> delivered p m \<Longrightarrow> delivered p' m"
  by (auto simp: delivered_def intro: chosen_mono)

lemma delivers_mono: "evolves p p' \<Longrightarrow> delivers p rf \<Longrightarrow> delivers p' rf"
  by (auto simp: delivers_def intro: delivered_mono)

lemma commits_mono:
  "evolves p p' \<Longrightarrow> commits p j rf \<Longrightarrow> pLog p' j = pLog p j \<Longrightarrow> commits p' j rf"
  by (auto simp: commits_def intro: cprefix_mono evolves_term)

lemma matches_mono:
  "evolves p p' \<Longrightarrow> matches p j rf \<Longrightarrow> length (pLog p j) \<le> length (pLog p' j) \<Longrightarrow> matches p' j rf"
  by (fastforce simp: matches_def evolves_N intro: holds_mono)

text \<open>The step was another peer's.\<close>

definition untouched :: "'c proto \<Rightarrow> 'c proto \<Rightarrow> nat \<Rightarrow> bool" where
  "untouched p p' j = (pTerm p' j = pTerm p j \<and> pLog p' j = pLog p j \<and> (\<forall>u. pCand p' (u, j) = pCand p (u, j)) \<and>
     (\<forall>t. (t, j) \<in> pLed p' \<longleftrightarrow> (t, j) \<in> pLed p) \<and> (\<forall>t. (t, j) \<in> pLed p \<longrightarrow> pLead p' t = pLead p t))"

lemma node_ref_mono:
  assumes g: "evolves p p'" and n: "node_ref p j rf" and u: "untouched p p' j"
  shows "node_ref p' j rf"
proof -
  have "commits p' j rf" "delivers p' rf"
    using n u commits_mono [OF g] delivers_mono [OF g] by (auto simp: node_ref_def untouched_def)
  moreover have "in_office p' j rf"
    using n u matches_mono [OF g] by (auto simp: node_ref_def untouched_def in_office_def)
  moreover have "standing p' j rf"
    using n u evolves_lead [OF g] by (fastforce simp: node_ref_def untouched_def standing_def)
  ultimately show ?thesis using n u by (simp add: node_ref_def untouched_def)
qed

lemma cref_change:
  assumes R: "cref p s" and g: "evolves p p'"
    and s': "nodes s' = (nodes s)[i := rf']" "led s' = pLed p'" "votes s' = voteSet p'"
    and n: "node_ref p' i rf'" and o: "\<And>j. j < pN p \<Longrightarrow> j \<noteq> i \<Longrightarrow> untouched p p' j"
    and lead: "\<And>t l. pLead p' t = Some l \<Longrightarrow> contiguous (-1) l"
    and ae: "\<And>c. c \<in> set (aenet s') \<Longrightarrow> msg_ref p' c"
    and rv: "\<And>c. c \<in> set (rvnet s') \<Longrightarrow> rv_ref p' c"
  shows "cref p' s'"
proof -
  have "node_ref p' j (nodes s' ! j)" if "j < length (nodes s')" for j
  proof (cases "j = i")
    case False
    with that s'(1) have "node_ref p j (nodes s ! j)" "j < pN p" using ref_node [OF R] ref_N [OF R] by auto
    with False node_ref_mono [OF g _ o] s'(1) show ?thesis by auto
  qed (use n s' that in auto)
  then show ?thesis using s' lead ae rv ref_N [OF R] evolves_N [OF g] by (auto simp: cref_def)
qed

text \<open>The protocol can follow the cluster to the state \<open>s'\<close>.\<close>

definition follows :: "'c proto \<Rightarrow> 'c cluster \<Rightarrow> bool" where
  "follows p s' = (\<exists>p'. (pstep p p' \<or> p' = p) \<and> cref p' s')"

lemma followsI: "pstep p p' \<Longrightarrow> cref p' s' \<Longrightarrow> follows p s'"
  by (auto simp: follows_def)

section \<open>Events that keep the log\<close>

lemma follows_same:
  assumes R: "cref p s" and i: "i < length (nodes s)"
    and role: "role rf' = 0 \<or> role rf' = role (nodes s ! i) \<and> currentTerm rf' = currentTerm (nodes s ! i) \<and>
      fst (storedVote rf') \<in> {fst (storedVote (nodes s ! i)), currentTerm rf'}"
    and le: "fst (storedVote (nodes s ! i)) \<le> fst (storedVote rf')"
    and w: "whole rf' (pLog p i)" "storedLog rf' = (log rf', snapshotIndex rf', snapshotTerm rf')"
      "commits p i rf'" "delivers p rf'" "role rf' = 2 \<Longrightarrow> matches p i rf'"
    and s': "nodes s' = (nodes s)[i := rf']" "led s' = led s" "votes s' = votes s"
    and ae: "\<And>c. c \<in> set (aenet s') \<Longrightarrow> msg_ref p c" and rv: "\<And>c. c \<in> set (rvnet s') \<Longrightarrow> rv_ref p c"
  shows "follows p s'"
proof -
  let ?t = "fst (storedVote rf')"
  define p' where "p' = p\<lparr>pTerm := (pTerm p)(i := ?t)\<rparr>"
  note n = ref_node [OF R i]
  have st: "pstep p p'"
    unfolding p'_def using n i ref_N [OF R] le by (intro raise) (auto simp: node_ref_def)
  note g = pstep_evolves [OF st]
  have f: "pLog p' = pLog p" "pLed p' = pLed p" "pVotes p' = pVotes p" "pLead p' = pLead p" "pCand p' = pCand p"
    "pTerm p' i = ?t" "\<And>j. j \<noteq> i \<Longrightarrow> pTerm p' j = pTerm p j" by (auto simp: p'_def)
  have "in_office p' i rf'" "standing p' i rf'"
    using n role w(5) matches_mono [OF g] f by (auto simp: node_ref_def in_office_def standing_def)
  then have "node_ref p' i rf'"
    using w f commits_mono [OF g] delivers_mono [OF g] by (simp add: node_ref_def)
  then have "cref p' s'"
    using ref_lead [OF R] ref_led [OF R] ref_votes [OF R] s' f ae rv msg_ref_mono [OF g]
    by (intro cref_change [OF R g]) (auto simp: untouched_def voteSet_def rv_ref_def)
  with st show ?thesis by (rule followsI)
qed

text \<open>Sections that leave log, commit index and messages alone.\<close>

definition same_log :: "'c Raft \<Rightarrow> 'c Raft \<Rightarrow> bool" where
  "same_log rf rf' = (log rf' = log rf \<and> snapshotIndex rf' = snapshotIndex rf \<and> snapshotTerm rf' = snapshotTerm rf \<and>
     commitIndex rf' = commitIndex rf \<and> applyGo rf' = applyGo rf \<and>
     storedLog rf' \<in> {storedLog rf, (log rf', snapshotIndex rf', snapshotTerm rf')})"

lemma same_log_refl [simp]: "same_log rf rf"
  by (simp add: same_log_def)

lemma same_log_persist: "same_log rf rf' \<Longrightarrow> same_log rf (persist rf')"
  by (simp add: same_log_def)

lemma same_log_toFollower [simp]: "same_log rf (toFollower rf t)"
  by (simp add: same_log_def storedLog_def)

lemma follows_quiet:
  assumes R: "cref p s" and inv: "election_inv s" and i: "i < length (nodes s)"
    and v: "vote_step (nodes s ! i) rf'" and l: "same_log (nodes s ! i) rf'"
    and m: "role rf' = 2 \<Longrightarrow> matchIndex rf' = matchIndex (nodes s ! i) \<or> matches p i rf'"
    and s': "nodes s' = (nodes s)[i := rf']" "led s' = led s" "votes s' = votes s"
    and ae: "\<And>c. c \<in> set (aenet s') \<Longrightarrow> msg_ref p c" and rv: "\<And>c. c \<in> set (rvnet s') \<Longrightarrow> rv_ref p c"
  shows "follows p s'"
proof (rule follows_same [OF R i _ _ _ _ _ _ _ s' ae rv])
  note n = ref_node [OF R i]
  show "role rf' = 0 \<or> role rf' = role (nodes s ! i) \<and> currentTerm rf' = currentTerm (nodes s ! i) \<and>
      fst (storedVote rf') \<in> {fst (storedVote (nodes s ! i)), currentTerm rf'}"
    using v by (auto simp: vote_step_def)
  show "fst (storedVote (nodes s ! i)) \<le> fst (storedVote rf')" by (rule stored_mono [OF inv_node [OF inv i] v])
  show "whole rf' (pLog p i)" "storedLog rf' = (log rf', snapshotIndex rf', snapshotTerm rf')"
    "commits p i rf'" "delivers p rf'"
    using n l by (auto simp: node_ref_def same_log_def whole_def commits_def delivers_def)
  assume r: "role rf' = 2"
  with v have "role (nodes s ! i) = 2" "currentTerm rf' = currentTerm (nodes s ! i)" by (auto simp: vote_step_def)
  with n m [OF r] show "matches p i rf'" by (auto simp: node_ref_def in_office_def matches_def)
qed

text \<open>A change of the networks only.\<close>

lemma follows_net:
  assumes R: "cref p s" and s': "nodes s' = nodes s" "led s' = led s" "votes s' = votes s"
    and ae: "\<And>c. c \<in> set (aenet s') \<Longrightarrow> msg_ref p c" and rv: "\<And>c. c \<in> set (rvnet s') \<Longrightarrow> rv_ref p c"
  shows "follows p s'"
proof -
  have "cref p s'" using R s' ae rv by (simp add: cref_def)
  then show ?thesis by (auto simp: follows_def)
qed

lemma rv_ref_args: "rv_ref p c \<Longrightarrow> rvSrc c' = rvSrc c \<Longrightarrow> rvArgs c' = rvArgs c \<Longrightarrow> rv_ref p c'"
  by (simp add: rv_ref_def)

lemma update_elem: "c \<in> set (xs[k := y]) \<Longrightarrow> k < length xs \<Longrightarrow> c = y \<or> c \<in> set xs"
  using set_update_subset_insert by fastforce

lemma rv_update:
  assumes d: "d \<in> set ((rvnet s)[k := c'])" and k: "k < length (rvnet s)" and R: "cref p s"
    and c: "rvSrc c' = rvSrc (rvnet s ! k)" "rvArgs c' = rvArgs (rvnet s ! k)"
  shows "rv_ref p d"
  using update_elem [OF d k] ref_rv [OF R] nth_mem [OF k] rv_ref_args [OF _ c] by blast

lemma sim_LoseVote:
  assumes R: "cref p s" and e: "cexec s (EvLoseVote k) = Some s'"
  shows "follows p s'"
  using e rv_update [OF _ _ R] ref_msg [OF R]
  by (intro follows_net [OF R]) (auto split: if_splits)

lemma sim_LoseAppend:
  assumes R: "cref p s" and inv: "pinv p" and e: "cexec s (EvLoseAppend k) = Some s'"
  shows "follows p s'"
proof -
  let ?c = "(aenet s ! k)\<lparr>aeReply := Some (zeroReply (aeMsg (aenet s ! k)))\<rparr>"
  from e have k: "k < length (aenet s)" and s': "s' = s\<lparr>aenet := (aenet s)[k := ?c]\<rparr>"
    by (auto split: if_splits)
  have m: "msg_ref p (aenet s ! k)" using ref_msg [OF R] k by simp
  have "msg_ref p ?c"
    using m inv_leadlog [OF inv, of 0]
    by (auto simp: msg_ref_def zeroReply_def zeroAppendEntriesReply_def zeroInstallSnapshotReply_def is_ref_def
        split: outgoing.splits)
  then show ?thesis
    using s' ref_msg [OF R] ref_rv [OF R] update_elem [OF _ k] by (intro follows_net [OF R]) auto
qed

lemma sim_VoteReply:
  assumes R: "cref p s" and inv: "election_inv s" and e: "cexec s (EvVoteReply k) = Some s'"
  shows "follows p s'"
proof -
  let ?c = "rvnet s ! k"
  from e obtain r where k: "k < length (rvnet s)" and s': "s' = doVoteReply k r s"
    by (auto split: if_splits)
  obtain rf' won where h: "RequestVoteResponseHandler (nodes s ! rvSrc ?c) (rvArgs ?c) r = (rf', won)" by fastforce
  have i: "rvSrc ?c < length (nodes s)" using inv_call [OF inv nth_mem [OF k]] by (simp add: call_inv_def)
  have f: "persister rf' = persister (nodes s ! rvSrc ?c)" "log rf' = log (nodes s ! rvSrc ?c)"
    "snapshotIndex rf' = snapshotIndex (nodes s ! rvSrc ?c)" "snapshotTerm rf' = snapshotTerm (nodes s ! rvSrc ?c)"
    "commitIndex rf' = commitIndex (nodes s ! rvSrc ?c)" "applyGo rf' = applyGo (nodes s ! rvSrc ?c)"
    "matchIndex rf' = matchIndex (nodes s ! rvSrc ?c)"
    "role rf' = 0 \<or> role rf' = role (nodes s ! rvSrc ?c) \<and> currentTerm rf' = currentTerm (nodes s ! rvSrc ?c)"
    using h by (auto simp: RequestVoteResponseHandler_def Let_def split: if_splits)
  note st = storedVote_cong [OF f(1)] storedLog_cong [OF f(1)]
  show ?thesis
  proof (rule follows_same [OF R i, of rf'])
    show "c \<in> set (rvnet s') \<Longrightarrow> rv_ref p c" for c
      using s' h rv_update [OF _ k R] by (auto simp: doVoteReply_def Let_def)
  qed (use ref_node [OF R i] f st s' h ref_msg [OF R] in
      \<open>auto simp: doVoteReply_def Let_def node_ref_def in_office_def whole_def commits_def delivers_def matches_def\<close>)
qed

section \<open>Replies to a leader\<close>

lemma leaderHandleLog_same_log:
  assumes "leaderHandleLog rf args reply = Inr rf'"
  shows "same_log rf rf'"
proof -
  have "post (same_log rf) (leaderHandleLog rf args reply)"
    unfolding leaderHandleLog_def by (intro post_rules) (simp_all add: same_log_def storedLog_def)
  from postD [OF assms this] show ?thesis .
qed

lemma handleAppendReply_same_log: "handleAppendReply rf m r = Inr rf' \<Longrightarrow> same_log rf rf'"
  unfolding handleAppendReply_def AppendEntriesResponseHandler_def InstallSnapshotResponseHandler_def
  by (auto simp: rbind_splits split: outgoing.splits if_splits intro!: same_log_persist dest: leaderHandleLog_same_log)
    (simp_all add: same_log_def storedLog_def)

lemma leaderHandleLog_match:
  assumes "leaderHandleLog rf args reply = Inr rf'"
  shows "matchIndex rf' = matchIndex rf \<or>
    Success reply \<and> matchIndex rf' = (matchIndex rf)[nat (ServerId reply) := PrevLogIndex args + len (Entries args)]"
proof (cases "Success reply")
  case True
  let ?i = "ServerId reply" and ?v = "PrevLogIndex args + len (Entries args) + 1"
  have "leaderHandleLog rf args reply = rbind (go_nth (nextIndex rf) ?i) (\<lambda>nx.
      if PrevLogIndex args \<noteq> nx - 1 then Inr rf else
      rbind (go_upd (nextIndex rf) ?i ?v) (\<lambda>ni. rbind (go_nth ni ?i) (\<lambda>nx'.
      rbind (go_upd (matchIndex rf) ?i (nx' - 1)) (\<lambda>mi. Inr (rf\<lparr>nextIndex := ni, matchIndex := mi\<rparr>)))))"
    by (simp add: leaderHandleLog_def True)
  with assms have "rf' = rf \<or> (\<exists>ni nx' mi. go_upd (nextIndex rf) ?i ?v = Inr ni \<and> go_nth ni ?i = Inr nx' \<and>
      go_upd (matchIndex rf) ?i (nx' - 1) = Inr mi \<and> rf' = rf\<lparr>nextIndex := ni, matchIndex := mi\<rparr>)"
    by (simp only: rbind_eq_Inr) (auto simp: rbind_eq_Inr split: if_splits)
  then show ?thesis
  proof
    assume "\<exists>ni nx' mi. go_upd (nextIndex rf) ?i ?v = Inr ni \<and> go_nth ni ?i = Inr nx' \<and>
      go_upd (matchIndex rf) ?i (nx' - 1) = Inr mi \<and> rf' = rf\<lparr>nextIndex := ni, matchIndex := mi\<rparr>"
    then obtain ni nx' mi where u: "go_upd (nextIndex rf) ?i ?v = Inr ni" "go_nth ni ?i = Inr nx'"
      "go_upd (matchIndex rf) ?i (nx' - 1) = Inr mi" "rf' = rf\<lparr>nextIndex := ni, matchIndex := mi\<rparr>" by blast
    from go_upd_Inr [OF u(1)] go_nth_Inr [OF u(2)] have "nx' = ?v" by auto
    with go_upd_Inr [OF u(3)] u(4) True show ?thesis by simp
  qed simp
next
  case False
  then have "post (\<lambda>r. matchIndex r = matchIndex rf) (leaderHandleLog rf args reply)"
    unfolding leaderHandleLog_def by (simp only: not_False_eq_True simp_thms if_True) (intro post_rules; simp)
  from postD [OF assms this] show ?thesis by simp
qed

lemma InstallSnapshotResponse_match:
  assumes "InstallSnapshotResponseHandler rf args reply = Inr rf'"
  shows "matchIndex rf' = matchIndex rf \<or> isrTerm reply = isTerm args \<and> isTerm args = currentTerm rf \<and>
    matchIndex rf' = (matchIndex rf)[nat (isrServerId reply) := LastIncludedIndex args]"
proof (cases "currentTerm rf \<noteq> isTerm args \<or> currentTerm rf \<noteq> isrTerm reply")
  case True
  with assms show ?thesis by (auto simp: InstallSnapshotResponseHandler_def split: if_splits)
next
  case False
  with assms show ?thesis
    by (auto simp: InstallSnapshotResponseHandler_def elim!: rbind_ok_cases split: if_splits dest!: go_upd_Inr)
qed

lemma AppendEntriesResponse_match:
  assumes "AppendEntriesResponseHandler rf args reply = Inr rf'"
  shows "matchIndex rf' = matchIndex rf \<or> aerTerm reply = currentTerm rf \<and> currentTerm rf \<le> aeTerm args \<and> Success reply \<and>
    matchIndex rf' = (matchIndex rf)[nat (ServerId reply) := PrevLogIndex args + len (Entries args)]"
  using assms unfolding AppendEntriesResponseHandler_def
  by (auto elim!: rbind_ok_cases split: if_splits dest: leaderHandleLog_match)

lemma matches_update:
  assumes m: "matches p j rf" and f: "matchIndex rf' = (matchIndex rf)[i := v]" "currentTerm rf' = currentTerm rf"
    and v: "-1 \<le> v" "v < int (length (pLog p j))" "holdsUpTo p (currentTerm rf) i (nat (v + 1))"
  shows "matches p j rf'"
  unfolding matches_def f
proof (intro conjI allI impI)
  show "length ((matchIndex rf)[i := v]) = pN p" using m by (simp add: matches_def)
  fix k assume "k < pN p"
  with m v show "-1 \<le> (matchIndex rf)[i := v] ! k" "(matchIndex rf)[i := v] ! k < int (length (pLog p j))"
    "0 \<le> (matchIndex rf)[i := v] ! k \<Longrightarrow> holdsUpTo p (currentTerm rf) k (nat ((matchIndex rf)[i := v] ! k + 1))"
    by (cases "k = i"; simp add: matches_def)+
qed

lemma AppendReply_matches:
  assumes inv: "pinv p" and n: "node_ref p (aeSrc c) rf" and m: "msg_ref p c" and r: "aeReply c = Some r"
    and h: "handleAppendReply rf (aeMsg c) r = Inr rf'" and role: "role rf' = 2"
  shows "matchIndex rf' = matchIndex rf \<or> matches p (aeSrc c) rf'"
proof -
  have same: "role rf = 2" "currentTerm rf' = currentTerm rf"
    using handleAppendReply_vote_step [OF h] role by (auto simp: vote_step_def)
  then have L: "pLead p (currentTerm rf) = Some (pLog p (aeSrc c))" "pTerm p (aeSrc c) = currentTerm rf"
    "matches p (aeSrc c) rf" using n by (auto simp: node_ref_def in_office_def)
  show ?thesis
  proof (cases "aeMsg c")
    case (SendAppendEntries a)
    define q where "q = (case r of Inl x \<Rightarrow> x | Inr y \<Rightarrow> zeroAppendEntriesReply)"
    from h SendAppendEntries have h': "AppendEntriesResponseHandler rf a q = Inr rf'" by (simp add: handleAppendReply_def q_def)
    from m SendAppendEntries have a: "(aeTerm a, aeSrc c) \<in> pLed p" "ae_ref p a" by (auto simp: msg_ref_def)
    have le: "aeTerm a \<le> currentTerm rf" using inv_ledby [OF inv a(1)] L(2) by simp
    consider "matchIndex rf' = matchIndex rf" | "aerTerm q = currentTerm rf" "aeTerm a = currentTerm rf" "Success q"
      "matchIndex rf' = (matchIndex rf)[nat (ServerId q) := PrevLogIndex a + len (Entries a)]"
      using le AppendEntriesResponse_match [OF h'] by fastforce
    then show ?thesis
    proof cases
      case 2
      then have x: "r = Inl q" by (cases r) (auto simp: zeroAppendEntriesReply_def q_def)
      with 2 r m SendAppendEntries have ack: "ServerId q = int (aeDst c)" "(aeTerm a, aeDst c, lastSent a) \<in> pAck p"
        by (auto simp: msg_ref_def)
      have v: "PrevLogIndex a + len (Entries a) = int (lastSent a) - 1" "-1 \<le> PrevLogIndex a"
        "lastSent a \<le> length (pLog p (aeSrc c))"
        using a(2) L(1) 2(2) by (auto simp: ae_ref_def lastSent_def len_def)
      have "matches p (aeSrc c) rf'"
        using v 2 ack x by (intro matches_update [OF L(3), of _ "aeDst c" "int (lastSent a) - 1"])
          (auto simp: same holdsUpTo_def)
      then show ?thesis ..
    qed simp
  next
    case (SendInstallSnapshot a)
    define q where "q = (case r of Inl x \<Rightarrow> zeroInstallSnapshotReply | Inr y \<Rightarrow> y)"
    from h SendInstallSnapshot have h': "InstallSnapshotResponseHandler rf a q = Inr rf'" by (simp add: handleAppendReply_def q_def)
    from m SendInstallSnapshot have a: "is_ref p a" by (auto simp: msg_ref_def)
    consider "matchIndex rf' = matchIndex rf" | "isrTerm q = isTerm a" "isTerm a = currentTerm rf"
      "matchIndex rf' = (matchIndex rf)[nat (isrServerId q) := LastIncludedIndex a]"
      using InstallSnapshotResponse_match [OF h'] by blast
    then show ?thesis
    proof cases
      case 2
      have "0 < isTerm a" using a inv_leadlog [OF inv] by (auto simp: is_ref_def)
      with 2 have x: "r = Inr q" by (cases r) (auto simp: zeroInstallSnapshotReply_def q_def)
      with 2 r m SendInstallSnapshot have ack: "isrServerId q = int (aeDst c)"
        "(isTerm a, aeDst c, nat (LastIncludedIndex a + 1)) \<in> pAck p" by (auto simp: msg_ref_def)
      have v: "-1 \<le> LastIncludedIndex a" "LastIncludedIndex a < int (length (pLog p (aeSrc c)))"
        using a L(1) 2(2) by (auto simp: is_ref_def dest: cprefix_length)
      have "matches p (aeSrc c) rf'"
        using v 2 ack x by (intro matches_update [OF L(3), of _ "aeDst c" "LastIncludedIndex a"])
          (auto simp: same holdsUpTo_def)
      then show ?thesis ..
    qed simp
  qed
qed

lemma msg_ref_src: "pinv p \<Longrightarrow> msg_ref p c \<Longrightarrow> aeSrc c < pN p"
  by (auto simp: msg_ref_def split: outgoing.splits dest: inv_ledby)

lemma sim_AppendReply:
  assumes R: "cref p s" and inv: "election_inv s" "pinv p" and e: "cexec s (EvAppendReply k) = Some s'"
  shows "follows p s'"
proof -
  let ?c = "aenet s ! k"
  from e obtain r u where k: "k < length (aenet s)" and r: "aeReply ?c = Some r"
    and u: "update_ok s (aeSrc ?c) (handleAppendReply (nodes s ! aeSrc ?c) (aeMsg ?c) r) = Some u"
    and s': "s' = u\<lparr>aenet := (aenet s)[k := ?c\<lparr>aeHandled := True\<rparr>]\<rparr>"
    by (auto split: if_splits simp: Option.bind_eq_Some_conv)
  from u obtain rf' where h: "handleAppendReply (nodes s ! aeSrc ?c) (aeMsg ?c) r = Inr rf'" and u': "u = setNode (aeSrc ?c) rf' s"
    by (auto simp: update_ok_def split: sum.splits)
  have m: "msg_ref p ?c" using ref_msg [OF R] k by simp
  have i: "aeSrc ?c < length (nodes s)" using msg_ref_src [OF inv(2) m] ref_N [OF R] by simp
  have m': "msg_ref p (?c\<lparr>aeHandled := True\<rparr>)" using m by (simp add: msg_ref_def split: outgoing.splits)
  show ?thesis
  proof (rule follows_quiet [OF R inv(1) i handleAppendReply_vote_step [OF h] handleAppendReply_same_log [OF h]])
    show "msg_ref p c" if "c \<in> set (aenet s')" for c
      using that s' m' ref_msg [OF R] update_elem [OF _ k] by auto
  qed (use s' u' ref_rv [OF R] AppendReply_matches [OF inv(2) ref_node [OF R i] m r h] in auto)
qed

section \<open>Committing, compacting and restarting\<close>

lemma chosen_slice:
  assumes x: "contiguous (-1) x" and c: "cprefix p b (nat (n + 1)) x" and a: "-1 \<le> a"
    and e: "e \<in> set (take (nat (n - a)) (drop (nat (a + 1)) x))"
  shows "\<exists>k. Index e = int k \<and> chosen p k (Command e)"
proof -
  from e obtain q where q: "q < nat (n - a)" "nat (a + 1) + q < length x" "e = x ! (nat (a + 1) + q)"
    by (auto simp: in_set_conv_nth)
  then have "nat (a + 1) + q < nat (n + 1)" using a by simp
  from cprefix_chosen [OF c this] q(3) have "chosen p (nat (a + 1) + q) (Command e)" by simp
  moreover have "Index e = int (nat (a + 1) + q)" using contiguous_nth [OF x q(2)] q(3) by simp
  ultimately show ?thesis by blast
qed

lemma whole_cutLog: "whole rf x \<Longrightarrow> snapshotIndex rf \<le> a \<Longrightarrow> cutLog rf a = drop (nat (a + 1)) x"
  by (auto simp: cutLog_def whole_def nat_add_distrib [symmetric])

lemma delivers_append:
  "delivers p rf \<Longrightarrow> applyGo rf' = applyGo rf @ [ms] \<Longrightarrow> (\<And>m. m \<in> set ms \<Longrightarrow> delivered p m) \<Longrightarrow> delivers p rf'"
  by (auto simp: delivers_def)

lemma committedMsgs_delivered:
  assumes w: "whole rf x" and c: "cprefix p b (nat (n + 1)) x" and a: "snapshotIndex rf \<le> a"
    and m: "m \<in> set (committedMsgs rf a n)"
  shows "delivered p m"
proof -
  have "committedMsgs rf a n = map commandMsg (take (nat (n - a)) (drop (nat (a + 1)) x))"
    using whole_cutLog [OF w a] by (simp add: committedMsgs_def cutLog_def)
  with m obtain e where e: "e \<in> set (take (nat (n - a)) (drop (nat (a + 1)) x))" "m = commandMsg e" by auto
  from chosen_slice [OF whole_contiguous [OF w] c _ e(1)] whole_low [OF w] a e(2) show ?thesis
    by (auto simp: delivered_def commandMsg_def)
qed

lemma matches_committed:
  assumes m: "matches p j rf" and l: "pLead p (currentTerm rf) = Some (pLog p j)"
    and k: "0 \<le> k" "k < int (length (pLog p j))" "Term (pLog p j ! nat k) = currentTerm rf"
    and q: "pN p < 2 * reached (matchIndex rf) k"
  shows "committed p (currentTerm rf) (nat (k + 1))"
proof -
  let ?Q = "{i. i < length (matchIndex rf) \<and> k \<le> matchIndex rf ! i}"
  have "majority p ?Q" using q m by (auto simp: majority_def reached_card matches_def)
  moreover have "holdsUpTo p (currentTerm rf) i (nat (k + 1))" if "i \<in> ?Q" for i
  proof -
    from that m have i: "i < pN p" "k \<le> matchIndex rf ! i" by (auto simp: matches_def)
    then have "holdsUpTo p (currentTerm rf) i (nat (matchIndex rf ! i + 1))" using m k(1) by (auto simp: matches_def)
    moreover have "nat (k + 1) \<le> nat (matchIndex rf ! i + 1)" using i by simp
    ultimately show ?thesis unfolding holdsUpTo_def using le_trans by blast
  qed
  moreover have "own p (currentTerm rf) (nat (k + 1))"
    using l k by (auto simp: own_def nat_add_distrib)
  ultimately show ?thesis unfolding committed_def by blast
qed

lemma matches_ok:
  assumes m: "matches p j rf" and w: "whole rf (pLog p j)" and n: "peers rf = int (pN p)" "j < pN p"
  shows "match_ok rf"
proof -
  have "v \<le> lastIndex rf" if "v \<in> set (matchIndex rf)" for v
    using that m whole_last [OF w] by (fastforce simp: matches_def in_set_conv_nth)
  then show ?thesis using m n by (auto simp: match_ok_def matches_def)
qed

lemma sim_Commit:
  assumes R: "cref p s" and inv: "election_inv s" "pinv p" and e: "cexec s (EvCommit i) = Some s'"
    and role: "role (nodes s ! i) = 2"
  shows "follows p s'"
proof -
  let ?rf = "nodes s ! i" and ?x = "pLog p i"
  from e obtain rf' where i: "i < length (nodes s)" and h: "leaderUpdateCommitIndex ?rf = Inr rf'" and s': "s' = setNode i rf' s"
    by (auto simp: update_ok_def split: if_splits sum.splits)
  note n = ref_node [OF R i]
  have w: "whole ?rf ?x" and c: "commits p i ?rf" and d: "delivers p ?rf" using n by (simp_all add: node_ref_def)
  from n role have L: "pLead p (currentTerm ?rf) = Some ?x" "pTerm p i = currentTerm ?rf" "matches p i ?rf"
    by (auto simp: node_ref_def in_office_def)
  have N: "peers ?rf = int (pN p)" using inv_node [OF inv(1) i] ref_N [OF R] by (simp add: node_inv_def)
  have mo: "match_ok ?rf" using L(3) w N i ref_N [OF R] by (intro matches_ok) auto
  have b: "snapshotIndex ?rf \<le> commitIndex ?rf" "commitIndex ?rf \<le> lastIndex ?rf"
    using c whole_last [OF w] by (auto simp: commits_def)
  let ?m = "majorityIndex ?rf"
  consider "rf' = persist ?rf" | "commitIndex ?rf < ?m" "Term (the (entry_at ?rf ?m)) = currentTerm ?rf"
      "rf' = persist (?rf\<lparr>commitIndex := ?m, lastApplied := ?m, applyGo := applyGo ?rf @ [committedMsgs ?rf (commitIndex ?rf) ?m]\<rparr>)"
    using h leaderUpdateCommitIndex_ok [OF whole_log_ok [OF w] mo b] by (auto split: if_splits)
  then show ?thesis
  proof cases
    case 1
    show ?thesis
      using 1 s' ref_msg [OF R] ref_rv [OF R]
      by (intro follows_quiet [OF R inv(1) i leaderUpdate_vote_step [OF h]]) (auto simp: same_log_def)
  next
    case 2
    have m: "?m < int (length ?x)" "?m \<in> set (matchIndex ?rf)"
      using majorityIndex_in [OF mo] mo whole_last [OF w] by (auto simp: match_ok_def)
    have m0: "0 \<le> ?m" using 2(1) b whole_low [OF w] by simp
    have "Term (?x ! nat ?m) = currentTerm ?rf" using 2(1,2) m b by (simp add: whole_entry [OF w])
    moreover have "pN p < 2 * reached (matchIndex ?rf) ?m" using majorityIndex_iff [OF mo, of ?m] N by simp
    ultimately have "committed p (currentTerm ?rf) (nat (?m + 1))"
      using m0 m(1) by (intro matches_committed [OF L(3,1)])
    from committed_cprefix [OF this L(1) order_refl] have cp: "cprefix p (pTerm p i) (nat (?m + 1)) ?x" using L(2) by simp
    show ?thesis
    proof (rule follows_same [OF R i, of rf'])
      show "commits p i rf'" using 2 b m cp by (simp add: commits_def)
      show "delivers p rf'"
        by (rule delivers_append [OF d]) (use 2 committedMsgs_delivered [OF w cp b(1)] in auto)
      show "whole rf' ?x" by (rule whole_cong [OF w]) (simp_all add: 2(3))
      show "matches p i rf'" using L(3) by (simp add: 2(3) matches_def)
    qed (use 2 s' ref_msg [OF R] ref_rv [OF R] inv_node [OF inv(1) i] in \<open>auto simp: node_inv_def\<close>)
  qed
qed

lemma sim_Snapshot:
  assumes R: "cref p s" and inv: "election_inv s" and e: "cexec s (EvSnapshot i idx snap) = Some s'"
    and le: "idx - 1 \<le> commitIndex (nodes s ! i)"
  shows "follows p s'"
proof -
  let ?rf = "nodes s ! i" and ?x = "pLog p i" and ?k = "idx - 1"
  from e obtain rf' where i: "i < length (nodes s)" and h: "installCurRfSnapShot ?rf ?k snap = Inr rf'" and s': "s' = setNode i rf' s"
    by (auto simp: update_ok_def Raft_Snapshot_def split: if_splits sum.splits)
  note n = ref_node [OF R i]
  have w: "whole ?rf ?x" and c: "commits p i ?rf" and d: "delivers p ?rf" using n by (simp_all add: node_ref_def)
  have ok: "peer_ok ?rf" using c whole_last [OF w] whole_log_ok [OF w] by (auto simp: peer_ok_def commits_def)
  show ?thesis
  proof (cases "?k \<le> snapshotIndex ?rf")
    case True
    with h have "rf' = persist ?rf" using installCurRfSnapShot_done [OF whole_log_ok [OF w]] by simp
    then show ?thesis
      using s' ref_msg [OF R] ref_rv [OF R]
      by (intro follows_quiet [OF R inv i installCur_vote_step [OF h]]) (auto simp: same_log_def)
  next
    case False
    then have k: "snapshotIndex ?rf < ?k" "?k < int (length ?x)" "0 \<le> ?k"
      using le c whole_low [OF w] by (auto simp: commits_def)
    let ?ms = "map recommitMsg (take (nat (commitIndex ?rf - ?k)) (drop (nat (?k + 1)) ?x))"
    define rf1 where "rf1 = ?rf\<lparr>snapshot := snap, snapshotIndex := ?k, snapshotTerm := Term (?x ! nat ?k), log := drop (nat (?k + 1)) ?x\<rparr>"
    have rf': "rf' = persist (rf1\<lparr>applyGo := applyGo ?rf @ [snapshotMsg rf1 # ?ms]\<rparr>)"
      using installCurRfSnapShot_ok [OF ok k(1) le, of snap] h k whole_cutLog [OF w, of ?k]
      by (simp add: whole_entry [OF w] rf1_def)
    have f: "log rf' = drop (nat (?k + 1)) ?x" "snapshotIndex rf' = ?k" "snapshotTerm rf' = Term (?x ! nat ?k)"
      "commitIndex rf' = commitIndex ?rf" "matchIndex rf' = matchIndex ?rf" "currentTerm rf' = currentTerm ?rf" "role rf' = role ?rf"
      "applyGo rf' = applyGo ?rf @ [snapshotMsg rf1 # ?ms]" "storedLog rf' = (log rf', snapshotIndex rf', snapshotTerm rf')"
      "storedVote rf' = (currentTerm ?rf, votedFor ?rf)"
      unfolding rf' by (simp_all add: rf1_def)
    have cp: "cprefix p (pTerm p i) (nat (commitIndex ?rf + 1)) ?x" using c by (simp add: commits_def)
    show ?thesis
    proof (rule follows_same [OF R i, of rf'])
      show "commits p i rf'" using c le by (simp add: commits_def f)
      show "delivers p rf'"
      proof (rule delivers_append [OF d f(8)])
        fix m assume "m \<in> set (snapshotMsg rf1 # ?ms)"
        then consider "m = snapshotMsg rf1" | e where "m = recommitMsg e" "e \<in> set (take (nat (commitIndex ?rf - ?k)) (drop (nat (?k + 1)) ?x))"
          by auto
        then show "delivered p m"
        proof cases
          case 2
          from chosen_slice [OF whole_contiguous [OF w] cp _ 2(2)] k(3) 2(1) show ?thesis
            by (auto simp: delivered_def recommitMsg_def)
        qed (simp add: delivered_def snapshotMsg_def)
      qed
      show "whole rf' ?x"
        using k whole_contiguous [OF w] lastTermOf_take [of "nat ?k" ?x]
        by (simp add: whole_def f Suc_nat_eq_nat_zadd1 add.commute)
      show "matches p i rf'" if "role rf' = 2" using n that by (simp add: f node_ref_def in_office_def matches_def)
    qed (use f s' ref_msg [OF R] ref_rv [OF R] inv_node [OF inv i] in \<open>auto simp: node_inv_def\<close>)
  qed
qed

lemma replayLog_buffer: "replayLog es rf = Some rf' \<Longrightarrow> \<exists>b. rf' = rf\<lparr>applyChBuffer := b\<rparr>"
proof (induction es arbitrary: rf)
  case Nil
  then have "rf' = rf\<lparr>applyChBuffer := applyChBuffer rf\<rparr>" by simp
  then show ?case ..
next
  case (Cons e es)
  show ?case
  proof (cases "Index e > commitIndex rf")
    case True
    with Cons.prems have "rf' = rf\<lparr>applyChBuffer := applyChBuffer rf\<rparr>" by simp
    then show ?thesis ..
  next
    case False
    with Cons.prems obtain b where "replayLog es (rf\<lparr>applyChBuffer := b\<rparr>) = Some rf'"
      by (auto simp: putInMake_def split: if_splits bind_splits)
    from Cons.IH [OF this] show ?thesis by auto
  qed
qed

text \<open>A restart reads the stored log back and knows the snapshot to be committed.\<close>

lemma Make_log:
  assumes "Make n i (persister rf) now rnd = Some rf'"
  shows "storedLog rf = (log rf', snapshotIndex rf', snapshotTerm rf')" "storedLog rf' = storedLog rf"
    "commitIndex rf' = snapshotIndex rf'" "applyGo rf' = []"
proof -
  define rf2 where "rf2 = readPersistSnapshot (readPersist (newRaft n i (persister rf) now rnd)
       (ReadRaftState (persister rf))) (ReadSnapshot (persister rf))"
  define rf4 where "rf4 = rf2\<lparr>commitIndex := snapshotIndex rf2,
       lastApplied := commitIndex (rf2\<lparr>commitIndex := snapshotIndex rf2\<rparr>)\<rparr>"
  from assms obtain rf5 where r5: "(if snapshotIndex rf4 \<noteq> -1 then putInMake rf4 [snapshotMsg rf4] else Some rf4) = Some rf5"
    and "replayLog (log rf5) rf5 = Some rf'"
    unfolding Make_def Let_def rf2_def [symmetric] rf4_def [symmetric]
    by (auto simp: Option.bind_eq_Some_conv)
  then obtain b where b: "rf' = rf5\<lparr>applyChBuffer := b\<rparr>" using replayLog_buffer by blast
  have "\<exists>b. rf5 = rf4\<lparr>applyChBuffer := b\<rparr>"
  proof (cases "snapshotIndex rf4 \<noteq> -1")
    case False
    with r5 have "rf5 = rf4\<lparr>applyChBuffer := applyChBuffer rf4\<rparr>" by simp
    then show ?thesis ..
  qed (use r5 in \<open>auto simp: putInMake_def split: if_splits\<close>)
  then obtain b5 where b5: "rf5 = rf4\<lparr>applyChBuffer := b5\<rparr>" by blast
  have "storedLog rf = (log rf2, snapshotIndex rf2, snapshotTerm rf2)" "persister rf2 = persister rf" "applyGo rf2 = []"
    by (auto simp: rf2_def readPersistSnapshot_def readPersist_def storedLog_def newRaft_def decodeState_def
        split: option.splits prod.splits)
  then show "storedLog rf = (log rf', snapshotIndex rf', snapshotTerm rf')" "storedLog rf' = storedLog rf"
    "commitIndex rf' = snapshotIndex rf'" "applyGo rf' = []"
    unfolding b b5 rf4_def by (simp_all add: storedLog_def)
qed

lemma sim_Restart:
  assumes R: "cref p s" and inv: "election_inv s" and e: "cexec s (EvRestart i now rnd) = Some s'"
  shows "follows p s'"
proof -
  let ?rf = "nodes s ! i"
  from e obtain rf' where i: "i < length (nodes s)"
    and h: "Make (int (length (nodes s))) (int i) (persister ?rf) now rnd = Some rf'"
    and s': "nodes s' = (nodes s)[i := rf']" "led s' = led s" "votes s' = votes s" "aenet s' = aenet s" "rvnet s' = rvnet s"
    by (auto simp: doRestart_def split: if_splits option.splits)
  note n = ref_node [OF R i] and f = Make_log [OF h] and v = Make_vote [OF h]
  have l: "log rf' = log ?rf" "snapshotIndex rf' = snapshotIndex ?rf" "snapshotTerm rf' = snapshotTerm ?rf"
    using n f(1) by (auto simp: node_ref_def)
  have c: "commits p i ?rf" using n by (simp add: node_ref_def)
  have cp: "cprefix p (pTerm p i) (nat (snapshotIndex ?rf + 1)) (pLog p i)"
    using c by (auto simp: commits_def intro: cprefix_le)
  show ?thesis
  proof (rule follows_same [OF R i, of rf'])
    show "commits p i rf'" using c f(3) l cp by (auto simp: commits_def)
  qed (use n f l v s' ref_msg [OF R] ref_rv [OF R] in \<open>auto simp: node_ref_def whole_def delivers_def\<close>)
qed

section \<open>Sending\<close>

lemma prepareRPC_cases:
  assumes ok: "log_ok rf" and h: "prepareRPC rf i = Inr m"
  obtains (append) n where "snapshotIndex rf < n" "n \<le> lastIndex rf + 1"
    "m = SendAppendEntries \<lparr>aeTerm = currentTerm rf, LeaderId = me rf, PrevLogIndex = n - 1,
       PrevLogTerm = term_at rf (n - 1), Entries = cutLog rf (n - 1), LeaderCommit = commitIndex rf\<rparr>"
  | (install) "m = SendInstallSnapshot \<lparr>isTerm = currentTerm rf, isLeaderId = me rf,
       LastIncludedIndex = snapshotIndex rf, LastIncludedTerm = snapshotTerm rf, isSnapshot = snapshot rf\<rparr>"
proof -
  from h obtain n where n: "go_nth (nextIndex rf) i = Inr n"
    unfolding prepareRPC_def by (auto simp: rbind_eq_Inr)
  consider "n \<le> snapshotIndex rf" | "snapshotIndex rf < n" "n \<le> lastIndex rf + 1" | "snapshotIndex rf < n" "lastIndex rf + 1 < n"
    by linarith
  then show thesis
  proof cases
    case 1
    with prepareRPC_snapshot [OF n] h install show thesis by simp
  next
    case 2
    with prepareRPC_append [OF ok n] h append show thesis by simp
  next
    case 3
    have "for_break (indices 0 (len (log rf))) (len (log rf))
       (\<lambda>i. rbind (go_nth (log rf) i) (\<lambda>e. Inr (Index e = n - 1))) = Inr (len (log rf))"
      using 3 ok search_contiguous [of "snapshotIndex rf" "log rf" "len (log rf)" "n - 1"]
      by (simp add: log_ok_def lastIndex_def len_def)
    moreover have "n - 1 \<noteq> snapshotIndex rf" "\<not> n - 1 < snapshotIndex rf"
      using 3 snapshot_le_lastIndex [of rf] by auto
    ultimately have "prepareRPC rf i = Inl (GoPanic ''should found prevLogIndex'')"
      by (simp add: prepareRPC_def n)
    with h show thesis by simp
  qed
qed

lemma sent_elements:
  assumes "leaderSendAppendEntriesRPC rf = Inr out" "(j, m) \<in> set out"
  shows "prepareRPC rf j = Inr m" "j \<noteq> me rf" "0 \<le> j" "j < peers rf"
proof -
  have "\<forall>(j, m) \<in> set out. prepareRPC rf j = Inr m \<and> j \<noteq> me rf \<and> 0 \<le> j \<and> j < peers rf"
    by (rule for_each_inv [OF assms(1) [unfolded leaderSendAppendEntriesRPC_def]]) (auto simp: rbind_eq_Inr)
  with assms(2) show "prepareRPC rf j = Inr m" "j \<noteq> me rf" "0 \<le> j" "j < peers rf" by auto
qed

lemma sent_ref:
  assumes n: "node_ref p i rf" and role: "role rf = 2" and h: "prepareRPC rf j = Inr m"
    and c: "aeDst c < pN p" "aeDst c \<noteq> i" "aeSrc c = i" "aeMsg c = m" "aeReply c = None"
  shows "msg_ref p c"
proof -
  let ?x = "pLog p i"
  have w: "whole rf ?x" and cm: "commits p i rf" using n by (simp_all add: node_ref_def)
  from n role have L: "pLead p (currentTerm rf) = Some ?x" "pTerm p i = currentTerm rf" "(currentTerm rf, i) \<in> pLed p"
    by (auto simp: node_ref_def in_office_def)
  have cp: "cprefix p (currentTerm rf) (nat (commitIndex rf + 1)) ?x" using cm L(2) by (simp add: commits_def)
  from whole_log_ok [OF w] h show ?thesis
  proof (cases rule: prepareRPC_cases)
    case (append k)
    have k: "0 \<le> k" "k \<le> int (length ?x)" using append whole_low [OF w] whole_last [OF w] by auto
    have cut: "cutLog rf (k - 1) = drop (nat k) ?x" using whole_cutLog [OF w, of "k - 1"] append(1) by simp
    have "term_at rf (k - 1) = lastTermOf (take (nat k) ?x)"
    proof (cases "k - 1 = snapshotIndex rf")
      case True
      then have "k = snapshotIndex rf + 1" by simp
      with whole_snapTerm [OF w] show ?thesis by (simp add: term_at_def)
    next
      case False
      with append(1) whole_low [OF w] have "snapshotIndex rf < k - 1" "1 \<le> k" by auto
      moreover from this have "nat k = Suc (nat (k - 1))" by simp
      ultimately show ?thesis
        using False k whole_entry [OF w, of "k - 1"] lastTermOf_take [of "nat (k - 1)" ?x] by (simp add: term_at_def)
    qed
    moreover have "nat k + (length ?x - nat k) = length ?x" using k by simp
    ultimately show ?thesis
      using c append(3) L cut k cm cp by (simp add: msg_ref_def ae_ref_def lastSent_def commits_def)
  next
    case install
    have "cprefix p (currentTerm rf) (nat (snapshotIndex rf + 1)) ?x"
      using cm by (intro cprefix_le [OF cp]) (auto simp: commits_def)
    with c install L whole_low [OF w] whole_snapTerm [OF w] show ?thesis by (simp add: msg_ref_def is_ref_def)
  qed
qed

lemma sim_Send:
  assumes R: "cref p s" and inv: "election_inv s" and e: "cexec s (EvSend i) = Some s'" and role: "role (nodes s ! i) = 2"
  shows "follows p s'"
proof -
  let ?call = "\<lambda>(j, m). \<lparr>aeSrc = i, aeDst = nat j, aeEpoch = epoch s ! i, aeMsg = m,
                        aeDelivered = False, aeReply = None, aeHandled = False\<rparr>"
  from e obtain out where i: "i < length (nodes s)" and o: "leaderSendAppendEntriesRPC (nodes s ! i) = Inr out"
    and s': "s' = s\<lparr>aenet := aenet s @ map ?call out\<rparr>"
    by (auto simp: doSend_def split: if_splits sum.splits)
  have "msg_ref p (?call (j, m))" if "(j, m) \<in> set out" for j m
    using sent_elements [OF o that] inv_node [OF inv i] ref_N [OF R]
    by (intro sent_ref [OF ref_node [OF R i] role, of j m]) (auto simp: node_inv_def nat_less_iff)
  then show ?thesis
    using s' ref_msg [OF R] ref_rv [OF R] by (intro follows_net [OF R]) auto
qed

end
