(* ===== verification/RaftSimulationLog.thy ===== *)
theory RaftSimulationLog
  imports RaftSimulation
begin

text \<open>
  The events that stand for steps of the protocol: standing, voting, taking office, appending a
  command, and accepting what a leader sends. Together with the events that keep the log they give
  the simulation: every state a cluster reaches by careful and steady events corresponds to a
  state the protocol reaches.
\<close>

section \<open>Elections\<close>

lemma sim_Candidate:
  assumes R: "cref p s" and inv: "election_inv s" "pinv p" and e: "cexec s (EvCandidate i now rnd) = Some s'"
  shows "follows p s'"
proof -
  let ?rf = "nodes s ! i" and ?x = "pLog p i"
  let ?u = "currentTerm ?rf + 1"
  obtain rf' reqs where h: "toCandidate now rnd ?rf = (rf', reqs)" by fastforce
  from e h have i: "i < length (nodes s)" and s': "nodes s' = (nodes s)[i := rf']" "led s' = led s" "aenet s' = aenet s"
    "votes s' = insert (currentTerm rf', i, votedFor rf') (votes s)"
    "set (rvnet s') = set (rvnet s) \<union> (\<lambda>(j, a). \<lparr>rvSrc = i, rvDst = nat j, rvEpoch = epoch s ! i, rvArgs = a,
                       rvDelivered = False, rvReply = None, rvHandled = False\<rparr>) ` set reqs"
    by (auto simp: doCandidate_def split: if_splits)
  note n = ref_node [OF R i]
  have w: "whole ?rf ?x" and c: "commits p i ?rf" and d: "delivers p ?rf" using n by (simp_all add: node_ref_def)
  have me: "me ?rf = int i" and st: "fst (storedVote ?rf) \<le> currentTerm ?rf"
    using inv_node [OF inv(1) i] by (simp_all add: node_inv_def)
  have f: "log rf' = log ?rf" "snapshotIndex rf' = snapshotIndex ?rf" "snapshotTerm rf' = snapshotTerm ?rf"
    "commitIndex rf' = commitIndex ?rf" "applyGo rf' = applyGo ?rf" "role rf' = 1" "currentTerm rf' = ?u" "votedFor rf' = int i"
    "storedVote rf' = (?u, int i)" "storedLog rf' = (log ?rf, snapshotIndex ?rf, snapshotTerm ?rf)"
    using h me by (auto simp: toCandidate_def Let_def split: prod.splits)
  have g0: "getLastLogIndexAndTerm (?rf\<lparr>role := 1, currentTerm := ?u, votedFor := int i, voteCnt := 1,
      electionTimeout := 200 + rnd, lastHeartbeatTime := now\<rparr>) = (int (length ?x) - 1, lastTermOf ?x)"
    using whole_getLast [OF w] by (auto simp: getLastLogIndexAndTerm_def split: if_splits)
  have reqs: "a = \<lparr>rvTerm = ?u, CandidateId = int i, LastLogIndex = int (length ?x) - 1, LastLogTerm = lastTermOf ?x\<rparr>"
    if "(j, a) \<in> set reqs" for j a
    using h that me g0 by (auto simp: toCandidate_def Let_def)
  define p' where "p' = p\<lparr>pTerm := (pTerm p)(i := ?u), pVotes := insert (?u, i, i) (pVotes p), pCand := (pCand p)((?u, i) \<mapsto> ?x)\<rparr>"
  have step: "pstep p p'" unfolding p'_def using n st i ref_N [OF R] by (intro stand) (auto simp: node_ref_def)
  note g = pstep_evolves [OF step]
  have pf: "pLog p' = pLog p" "pLed p' = pLed p" "pLead p' = pLead p" "pTerm p' i = ?u" "pCand p' (?u, i) = Some ?x"
    "pVotes p' = insert (?u, i, i) (pVotes p)"
    by (simp_all add: p'_def)
  have new: "(?u, i) \<notin> pLed p" using inv_ledby [OF inv(2), of ?u i] st n by (auto simp: node_ref_def)
  have cand: "pCand p' v = Some y" if "pCand p v = Some y" for v y
    using that inv_cand [OF inv(2), of ?u i] st n by (auto simp: p'_def node_ref_def)
  have "node_ref p' i rf'"
    using w c d new commits_mono [OF g c] delivers_mono [OF g d]
    by (simp add: node_ref_def f pf whole_def commits_def delivers_def in_office_def standing_def)
  moreover have "rv_ref p' q" if "q \<in> set (rvnet s')" for q
  proof (cases "q \<in> set (rvnet s)")
    case True
    from ref_rv [OF R True] cand show ?thesis by (auto simp: rv_ref_def)
  next
    case False
    with that s'(5) reqs have "rvSrc q = i" "rvArgs q = \<lparr>rvTerm = ?u, CandidateId = int i, LastLogIndex = int (length ?x) - 1, LastLogTerm = lastTermOf ?x\<rparr>"
      by auto
    then show ?thesis by (simp add: rv_ref_def pf)
  qed
  moreover have "votes s' = voteSet p'" using s'(4) ref_votes [OF R] by (auto simp: f pf voteSet_def)
  moreover have "untouched p p' j" if "j \<noteq> i" for j using that by (simp add: untouched_def p'_def)
  ultimately have "cref p' s'"
    using s' ref_led [OF R] ref_lead [OF R] msg_ref_mono [OF g] ref_msg [OF R] pf
    by (intro cref_change [OF R g]) auto
  with step show ?thesis by (rule followsI)
qed

lemma sim_Vote:
  assumes R: "cref p s" and inv: "election_inv s" "election_inv s'" and e: "cexec s (EvVote k now) = Some s'"
  shows "follows p s'"
proof -
  let ?c = "rvnet s ! k"
  let ?a = "rvArgs ?c" and ?j = "rvDst ?c"
  let ?rf = "nodes s ! ?j"
  obtain rf' r where h: "RequestVoteRequestHandler now ?rf ?a zeroRequestVoteReply = (rf', r)" by fastforce
  from e h obtain c' where k: "k < length (rvnet s)" and s': "nodes s' = (nodes s)[?j := rf']" "led s' = led s" "aenet s' = aenet s"
    "rvnet s' = (rvnet s)[k := c']" "rvSrc c' = rvSrc ?c" "rvArgs c' = ?a"
    "votes s' = (if VoteGranted r then insert (rvTerm ?a, ?j, CandidateId ?a) (votes s) else votes s)"
    by (auto simp: doVote_def Let_def split: if_splits)
  have ci: "call_inv s ?c" using inv_call [OF inv(1)] k by simp
  then have j: "?j < length (nodes s)" and cid: "CandidateId ?a = int (rvSrc ?c)" by (auto simp: call_inv_def)
  note n = ref_node [OF R j]
  note f0 = RequestVote_fields [of now ?rf ?a zeroRequestVoteReply, unfolded h fst_conv]
  have st: "storedVote rf' = (currentTerm rf', votedFor rf')" "storedLog rf' = (log rf', snapshotIndex rf', snapshotTerm rf')"
    using f0(14) by (simp_all add: persisted_def storedVote_def storedLog_def)
  have le: "fst (storedVote ?rf) \<le> currentTerm ?rf" using inv_node [OF inv(1) j] by (simp add: node_inv_def)
  have w: "whole rf' (pLog p ?j)" "commits p ?j rf'" "delivers p rf'"
    using n f0 by (auto simp: node_ref_def commits_def delivers_def intro: whole_cong)
  have m: "matches p ?j rf'" if "role rf' = 2"
    using n f0 that by (auto simp: node_ref_def in_office_def matches_def max_def split: if_splits)
  have rv: "rv_ref p q" if "q \<in> set (rvnet s')" for q
    using that rv_update [OF _ k R s'(5,6)] by (simp add: s'(4))
  show ?thesis
  proof (cases "VoteGranted r")
    case False
    then show ?thesis
      using st le f0 w m s' ref_msg [OF R] rv by (intro follows_same [OF R j, of rf']) auto
  next
    case True
    let ?u = "rvTerm ?a" and ?i = "rvSrc ?c"
    have fr: "freeToVote ?rf ?a" "upToDate ?rf ?a"
      using True RequestVote_granted [of now ?rf ?a zeroRequestVoteReply] h by auto
    have ct: "currentTerm rf' = ?u" "currentTerm ?rf \<le> ?u" using fr(1) f0(1) by (auto simp: freeToVote_def)
    obtain x where x: "pCand p (?u, ?i) = Some x" "LastLogIndex ?a = int (length x) - 1" "LastLogTerm ?a = lastTermOf x"
      using ref_rv [OF R nth_mem [OF k]] by (auto simp: rv_ref_def)
    have nw: "newer x (pLog p ?j)"
      using fr(2) x n whole_getLast [of ?rf "pLog p ?j"] by (auto simp: upToDate_def newer_def node_ref_def)
    define p' where "p' = p\<lparr>pTerm := (pTerm p)(?j := ?u), pVotes := insert (?u, ?j, ?i) (pVotes p)\<rparr>"
    have vs: "votes s' = voteSet p'" using s'(7) True ref_votes [OF R] cid by (auto simp: voteSet_def p'_def)
    have once: "i' = ?i" if "(?u, ?j, i') \<in> pVotes p" for i'
    proof -
      have "(?u, ?j, int i') \<in> votes s'" "(?u, ?j, int ?i) \<in> votes s'" using that vs by (auto simp: voteSet_def p'_def)
      from inv_once [OF inv(2) this] show ?thesis by simp
    qed
    have step: "pstep p p'"
      unfolding p'_def using n le ct j ref_N [OF R] x(1) nw once by (intro vote) (auto simp: node_ref_def)
    note g = pstep_evolves [OF step]
    have pf: "pLog p' = pLog p" "pLed p' = pLed p" "pLead p' = pLead p" "pTerm p' ?j = ?u" "pCand p' = pCand p"
      by (simp_all add: p'_def)
    have "in_office p' ?j rf'" "standing p' ?j rf'"
      using n f0 ct m matches_mono [OF g] pf by (auto simp: node_ref_def in_office_def standing_def split: if_splits)
    then have "node_ref p' ?j rf'"
      using w st ct pf commits_mono [OF g] delivers_mono [OF g] by (simp add: node_ref_def)
    moreover have "untouched p p' q" if "q \<noteq> ?j" for q using that by (simp add: untouched_def p'_def)
    ultimately have "cref p' s'"
      using s' vs ref_led [OF R] ref_lead [OF R] msg_ref_mono [OF g] ref_msg [OF R] pf rv
      by (intro cref_change [OF R g]) (auto simp: rv_ref_def)
    with step show ?thesis by (rule followsI)
  qed
qed

lemma sim_Lead:
  assumes R: "cref p s" and inv: "election_inv s" "pinv p" and e: "cexec s (EvLead k) = Some s'" and care: "careful s (EvLead k)"
  shows "follows p s'"
proof -
  let ?i = "fst (winning s ! k)"
  let ?rf = "nodes s ! ?i" and ?x = "pLog p ?i"
  let ?u = "currentTerm ?rf"
  from e obtain rf' where k: "k < length (winning s)" and h: "toLeader ?rf = Inr rf'"
    and s': "nodes s' = (nodes s)[?i := rf']" "led s' = insert (currentTerm rf', ?i) (led s)" "aenet s' = aenet s"
      "rvnet s' = rvnet s" "votes s' = votes s"
    by (auto simp: doLead_def Let_def split: if_splits sum.splits)
  have "(?i, ?u) \<in> set (winning s)" using k care by simp
  then have el: "elected s ?u ?i" by (rule inv_winning [OF inv(1)])
  then have i: "?i < length (nodes s)" by (simp add: elected_def)
  note n = ref_node [OF R i]
  have ni: "me ?rf = int ?i" "peers ?rf = int (pN p)" using inv_node [OF inv(1) i] ref_N [OF R] by (simp_all add: node_inv_def)
  have w: "whole ?rf ?x" and c: "commits p ?i ?rf" and d: "delivers p ?rf" using n by (simp_all add: node_ref_def)
  have st: "(?u, ?i) \<notin> pLed p" "pTerm p ?i = ?u" "pCand p (?u, ?i) = Some ?x \<or> pLead p ?u \<noteq> None"
    using n care by (simp_all add: node_ref_def standing_def)
  have none: "pLead p ?u = None"
  proof (rule ccontr)
    assume "pLead p ?u \<noteq> None"
    then obtain i' where "(?u, i') \<in> pLed p" using inv_quorum [OF inv(2)] by blast
    moreover from this have "elected s ?u i'" using inv_led [OF inv(1)] ref_led [OF R] by simp
    from elected_unique [OF inv(1) el this] have "i' = ?i" by simp
    ultimately show False using st(1) by simp
  qed
  have "{j. (?u, j, ?i) \<in> pVotes p} = voters s ?u ?i" using ref_votes [OF R] by (auto simp: voters_def voteSet_def)
  then have maj: "pN p < 2 * card {j. (?u, j, ?i) \<in> pVotes p}" using el ref_N [OF R] by (simp add: elected_def)
  have bounds: "0 \<le> me ?rf" "me ?rf < peers ?rf" using ni i ref_N [OF R] by simp_all
  note rf' = toLeader_ok [OF bounds, unfolded h sum.inject whole_getLast [OF w] fst_conv ni nat_int]
  have f: "log rf' = log ?rf" "snapshotIndex rf' = snapshotIndex ?rf" "snapshotTerm rf' = snapshotTerm ?rf"
    "commitIndex rf' = commitIndex ?rf" "applyGo rf' = applyGo ?rf" "role rf' = 2" "currentTerm rf' = ?u"
    "storedVote rf' = (?u, -1)" "storedLog rf' = (log ?rf, snapshotIndex ?rf, snapshotTerm ?rf)"
    "matchIndex rf' = (replicate (pN p) (-1))[?i := int (length ?x) - 1]"
    unfolding rf' by simp_all
  define p' where "p' = p\<lparr>pLed := insert (?u, ?i) (pLed p), pLead := (pLead p)(?u \<mapsto> ?x)\<rparr>"
  have step: "pstep p p'" unfolding p'_def using st none maj i ref_N [OF R] by (intro lead) auto
  note g = pstep_evolves [OF step]
  have pf: "pLog p' = pLog p" "pTerm p' = pTerm p" "pN p' = pN p" "pLed p' = insert (?u, ?i) (pLed p)" "pLead p' ?u = Some ?x"
    by (simp_all add: p'_def)
  have "matches p' ?i rf'"
    using i ref_N [OF R] by (auto simp: matches_def f pf nth_list_update holdsUpTo_def)
  then have "node_ref p' ?i rf'"
    using w c d st(2) commits_mono [OF g c] delivers_mono [OF g d]
    by (simp add: node_ref_def f pf whole_def commits_def delivers_def in_office_def standing_def)
  moreover have "untouched p p' j" if "j \<noteq> ?i" for j
    using that none inv_ledby [OF inv(2), of ?u j] by (auto simp: untouched_def p'_def)
  ultimately have "cref p' s'"
    using s' ref_led [OF R] ref_lead [OF R] ref_votes [OF R] msg_ref_mono [OF g] ref_msg [OF R] ref_rv [OF R] whole_contiguous [OF w]
    by (intro cref_change [OF R g]) (auto simp: f p'_def voteSet_def rv_ref_def split: if_splits)
  with step show ?thesis by (rule followsI)
qed

section \<open>Appending a command\<close>

lemma Start_Inr:
  assumes "Start rf c = Inr (rf', r)" "role rf = 2" "log_ok rf"
  shows "\<exists>ni. rf' = persist (rf\<lparr>log := log rf @ [\<lparr>Term = currentTerm rf, Index = lastIndex rf + 1, Command = c\<rparr>],
      matchIndex := (matchIndex rf)[nat (me rf) := lastIndex rf + 1], nextIndex := ni\<rparr>)"
  using assms(1,2) unfolding Start_def Start_index [OF assms(3)]
  by (auto simp: Let_def rbind_eq_Inr dest!: go_upd_Inr)

lemma sim_Start:
  assumes R: "cref p s" and inv: "election_inv s" "pinv p" and e: "cexec s (EvStart i c) = Some s'"
  shows "follows p s'"
proof -
  let ?rf = "nodes s ! i" and ?x = "pLog p i"
  let ?u = "currentTerm ?rf"
  from e obtain rf' r where i: "i < length (nodes s)" and h: "Start ?rf c = Inr (rf', r)" and s': "s' = setNode i rf' s"
    by (auto simp: update_ok_def rbind_eq_Inr split: if_splits sum.splits)
  note n = ref_node [OF R i]
  have w: "whole ?rf ?x" and cm: "commits p i ?rf" and d: "delivers p ?rf" using n by (simp_all add: node_ref_def)
  show ?thesis
  proof (cases "role ?rf = 2")
    case False
    with h have "rf' = ?rf" by (simp add: Start_def)
    then show ?thesis
      using s' ref_msg [OF R] ref_rv [OF R] by (intro follows_quiet [OF R inv(1) i vote_step_refl same_log_refl]) auto
  next
    case True
    then have L: "pLead p ?u = Some ?x" "pTerm p i = ?u" "matches p i ?rf" "(?u, i) \<in> pLed p"
      using n by (auto simp: node_ref_def in_office_def)
    let ?e = "\<lparr>Term = ?u, Index = int (length ?x), Command = c\<rparr>"
    have me: "me ?rf = int i" using inv_node [OF inv(1) i] by (simp add: node_inv_def)
    obtain ni where rf': "rf' = persist (?rf\<lparr>log := log ?rf @ [?e], matchIndex := (matchIndex ?rf)[i := int (length ?x)], nextIndex := ni\<rparr>)"
      using Start_Inr [OF h True whole_log_ok [OF w]] me whole_last [OF w] by auto
    have f: "log rf' = log ?rf @ [?e]" "snapshotIndex rf' = snapshotIndex ?rf" "snapshotTerm rf' = snapshotTerm ?rf"
      "commitIndex rf' = commitIndex ?rf" "applyGo rf' = applyGo ?rf" "role rf' = 2" "currentTerm rf' = ?u"
      "storedVote rf' = (?u, votedFor ?rf)" "storedLog rf' = (log ?rf @ [?e], snapshotIndex ?rf, snapshotTerm ?rf)"
      "matchIndex rf' = (matchIndex ?rf)[i := int (length ?x)]"
      unfolding rf' using True by simp_all
    define p' where "p' = p\<lparr>pLog := (pLog p)(i := ?x @ [?e]), pLead := (pLead p)(?u \<mapsto> ?x @ [?e])\<rparr>"
    have step: "pstep p p'" unfolding p'_def using L start [of p i ?e] by simp
    note g = pstep_evolves [OF step]
    have pf: "pLog p' i = ?x @ [?e]" "pTerm p' = pTerm p" "pLed p' = pLed p" "pLead p' ?u = Some (?x @ [?e])"
      by (simp_all add: p'_def)
    have x': "contiguous (-1) (?x @ [?e])" using whole_contiguous [OF w] by (simp add: contiguous_append)
    have "matches p' i rf'"
    proof (rule matches_update [OF _ f(10)])
      show "matches p' i ?rf" by (rule matches_mono [OF g L(3)]) (simp add: pf)
    qed (use L(4) in \<open>auto simp: f pf holdsUpTo_def\<close>)
    moreover have "whole rf' (?x @ [?e])" using w x' by (auto simp: whole_def f)
    moreover have "commits p' i rf'"
      using cm cprefix_append [OF cprefix_mono [OF _ g order_refl]] by (auto simp: commits_def f pf)
    ultimately have "node_ref p' i rf'"
      using L delivers_mono [OF g d] by (simp add: node_ref_def f pf delivers_def in_office_def standing_def)
    moreover have "untouched p p' j" if "j \<noteq> i" for j
      using that L(4) inv_ledone [OF inv(2) L(4), of j] by (auto simp: untouched_def p'_def)
    ultimately have "cref p' s'"
      using s' ref_led [OF R] ref_lead [OF R] ref_votes [OF R] msg_ref_mono [OF g] ref_msg [OF R] ref_rv [OF R] x'
      by (intro cref_change [OF R g, of _ i rf']) (auto simp: p'_def voteSet_def rv_ref_def split: if_splits)
    with step show ?thesis by (rule followsI)
  qed
qed

section \<open>Accepting the leader's entries\<close>

lemma follows_accept:
  assumes R: "cref p s" and j: "j < length (nodes s)" and t: "pTerm p j \<le> t" "pLead p t = Some l"
    and tk: "takesOver (pLog p j) l m new" and w: "whole rf' new"
    and st: "fst (storedVote rf') = t" "storedLog rf' = (log rf', snapshotIndex rf', snapshotTerm rf')"
    and c: "snapshotIndex rf' \<le> commitIndex rf'" "cprefix p t (nat (commitIndex rf' + 1)) new" and d: "delivers p rf'"
    and role: "role rf' \<noteq> 2" "role rf' = 1 \<Longrightarrow> currentTerm rf' = t \<and> (t, j) \<notin> pLed p"
    and s': "nodes s' = (nodes s)[j := rf']" "led s' = led s" "votes s' = votes s" "rvnet s' = rvnet s"
    and ae: "\<And>q p'. q \<in> set (aenet s') \<Longrightarrow> evolves p p' \<Longrightarrow> (t, j, m) \<in> pAck p' \<Longrightarrow> msg_ref p' q"
  shows "follows p s'"
proof -
  define p' where "p' = p\<lparr>pTerm := (pTerm p)(j := t), pLog := (pLog p)(j := new), pAck := insert (t, j, m) (pAck p)\<rparr>"
  have step: "pstep p p'" unfolding p'_def using t tk j ref_N [OF R] by (intro accept) auto
  note g = pstep_evolves [OF step]
  have pf: "pLog p' j = new" "pTerm p' j = t" "pLed p' = pLed p" "pLead p' = pLead p" "(t, j, m) \<in> pAck p'" "pCand p' = pCand p"
    "pVotes p' = pVotes p"
    by (simp_all add: p'_def)
  have "commits p' j rf'"
    using c cprefix_mono [OF c(2) g order_refl] cprefix_length [OF c(2)] whole_snap [OF w] by (auto simp: commits_def pf)
  then have "node_ref p' j rf'"
    using w st d t role delivers_mono [OF g d] by (auto simp: node_ref_def pf in_office_def standing_def)
  moreover have "untouched p p' q" if "q \<noteq> j" for q using that by (simp add: untouched_def p'_def)
  ultimately have "cref p' s'"
    using s' ref_led [OF R] ref_lead [OF R] ref_votes [OF R] ref_rv [OF R] ae [OF _ g pf(5)] pf
    by (intro cref_change [OF R g, of _ j rf']) (auto simp: voteSet_def rv_ref_def)
  with step show ?thesis by (rule followsI)
qed

lemma follows_cut:
  assumes R: "cref p s" and j: "j < length (nodes s)" and t: "pTerm p j \<le> t" "pLead p t = Some l"
    and k: "k < length (pLog p j)" "k < length l" "Term (pLog p j ! k) \<noteq> Term (l ! k)" and w: "whole rf' (take k (pLog p j))"
    and st: "fst (storedVote rf') = t" "storedLog rf' = (log rf', snapshotIndex rf', snapshotTerm rf')"
    and c: "snapshotIndex rf' \<le> commitIndex rf'" "cprefix p t (nat (commitIndex rf' + 1)) (take k (pLog p j))" and d: "delivers p rf'"
    and role: "role rf' = 0"
    and s': "nodes s' = (nodes s)[j := rf']" "led s' = led s" "votes s' = votes s" "rvnet s' = rvnet s"
    and ae: "\<And>q. q \<in> set (aenet s') \<Longrightarrow> msg_ref p q"
  shows "follows p s'"
proof -
  define p' where "p' = p\<lparr>pTerm := (pTerm p)(j := t), pLog := (pLog p)(j := take k (pLog p j))\<rparr>"
  have step: "pstep p p'" unfolding p'_def using t k j ref_N [OF R] by (intro cut) auto
  note g = pstep_evolves [OF step]
  have pf: "pLog p' j = take k (pLog p j)" "pTerm p' j = t" "pLed p' = pLed p" "pLead p' = pLead p" "pCand p' = pCand p"
    "pVotes p' = pVotes p"
    by (simp_all add: p'_def)
  have "commits p' j rf'"
    using c cprefix_mono [OF c(2) g order_refl] cprefix_length [OF c(2)] whole_snap [OF w] by (auto simp: commits_def pf)
  then have "node_ref p' j rf'"
    using w st d role delivers_mono [OF g d] by (auto simp: node_ref_def pf in_office_def standing_def)
  moreover have "untouched p p' q" if "q \<noteq> j" for q using that by (simp add: untouched_def p'_def)
  ultimately have "cref p' s'"
    using s' ref_led [OF R] ref_lead [OF R] ref_votes [OF R] ref_rv [OF R] msg_ref_mono [OF g ae] pf
    by (intro cref_change [OF R g, of _ j rf']) (auto simp: voteSet_def rv_ref_def)
  with step show ?thesis by (rule followsI)
qed

text \<open>The log of a follower and the leader's log agree up to the follower's commit index.\<close>

lemma commits_lead:
  assumes inv: "pinv p" and n: "node_ref p j rf" and l: "pLead p t = Some l" "pTerm p j \<le> t"
  shows "nat (commitIndex rf + 1) \<le> length l" "take (nat (commitIndex rf + 1)) (pLog p j) = take (nat (commitIndex rf + 1)) l"
  using cprefix_lead [OF inv _ l] n by (auto simp: node_ref_def commits_def)

lemma takesOver_contiguous:
  "takesOver x l m new \<Longrightarrow> contiguous b x \<Longrightarrow> contiguous b l \<Longrightarrow> contiguous b new"
  by (auto simp: takesOver_def contiguous_take)

lemma ae_ref_args_ok:
  assumes "ae_ref p a" "pLead p (aeTerm a) = Some l" "contiguous (-1) l"
  shows "args_ok a"
proof -
  let ?b = "nat (PrevLogIndex a + 1)"
  have a: "-1 \<le> PrevLogIndex a" "Entries a = drop ?b (take (lastSent a) l)" "lastSent a \<le> length l"
    using assms(1,2) by (auto simp: ae_ref_def)
  have "?b \<le> length (take (lastSent a) l)" using a(3) by (simp add: lastSent_def)
  from contiguous_drop [OF contiguous_take [OF assms(3)] this] a show ?thesis by (simp add: args_ok_def)
qed

lemma accept_log:
  assumes inv: "pinv p" and j: "j < pN p" and n: "node_ref p j rf" and a: "ae_ref p a"
    and l: "pLead p (aeTerm a) = Some l" "pTerm p j \<le> aeTerm a" and acc: "accepts rf a"
    and y: "mergeResult (oldSuffix rf a) (newSuffix rf a) y"
  shows "takesOver (pLog p j) l (lastSent a) (take (nat (snapshotIndex rf + 1)) (pLog p j) @ keptLog rf a @ y)"
proof -
  let ?x = "pLog p j" and ?s = "nat (snapshotIndex rf + 1)" and ?q = "nat (PrevLogIndex a + 1)"
  let ?b = "max ?s ?q"
  have w: "whole rf ?x" and c: "commits p j rf" using n by (simp_all add: node_ref_def)
  have wf: "wfLog p (pTerm p j) ?x" "wfLog p (aeTerm a) l" using inv_log [OF inv j] inv_leadlog [OF inv l(1)] by auto
  have ar: "-1 \<le> PrevLogIndex a" "Entries a = drop ?q (take (lastSent a) l)" "lastSent a \<le> length l"
    "PrevLogTerm a = lastTermOf (take ?q l)" using a l(1) by (auto simp: ae_ref_def)
  have low: "-1 \<le> snapshotIndex rf" "snapshotIndex rf \<le> commitIndex rf" using whole_low [OF w] c by (auto simp: commits_def)
  have snap: "?s \<le> length l" "take ?s ?x = take ?s l" "?s \<le> length ?x"
    using commits_lead [OF inv n l] low w by (auto simp: whole_def dest: arg_cong [of _ _ "take ?s"])
  have b: "?b \<le> length ?x" "?b \<le> length l" "take ?b ?x = take ?b l"
  proof -
    have "?b \<le> length ?x \<and> ?b \<le> length l \<and> take ?b ?x = take ?b l"
    proof (cases "PrevLogIndex a \<le> snapshotIndex rf")
      case True
      then have "?b = ?s" by simp
      with snap show ?thesis by simp
    next
      case False
      with acc have p1: "PrevLogIndex a < int (length ?x)" "Term (log rf ! prevPos rf a) = PrevLogTerm a"
        using whole_last [OF w] by (auto simp: accepts_def)
      have q: "?q = Suc (nat (PrevLogIndex a))" "0 \<le> PrevLogIndex a" using False low by auto
      have ql: "nat (PrevLogIndex a) < length l" using ar(3) q by (simp add: lastSent_def)
      have "log rf ! prevPos rf a = ?x ! nat (PrevLogIndex a)"
        using whole_entry [OF w, of "PrevLogIndex a"] False p1 whole_last [OF w] by (auto simp: entry_at_def prevPos_def)
      then have "Term (?x ! nat (PrevLogIndex a)) = Term (l ! nat (PrevLogIndex a))"
        using p1(2) ar(4) q ql by (simp add: lastTermOf_take)
      from match_prefix [OF wf _ ql this] p1(1) q have "take ?q ?x = take ?q l" by simp
      moreover have "?b = ?q" using False by simp
      ultimately show ?thesis using p1(1) q ql by auto
    qed
    then show "?b \<le> length ?x" "?b \<le> length l" "take ?b ?x = take ?b l" by auto
  qed
  have sb: "?s + nat (PrevLogIndex a - snapshotIndex rf) = ?b" "nat (snapshotIndex rf - PrevLogIndex a) + ?q = ?b"
    using low ar(1) by auto
  have kept: "take ?s ?x @ keptLog rf a = take ?b ?x"
    unfolding keptLog_def whole_log [OF w] sb(1) [symmetric] by (simp add: take_add)
  have old: "oldSuffix rf a = drop ?b ?x"
    unfolding oldSuffix_def whole_log [OF w] drop_drop sb(1) [symmetric] by (simp add: add.commute)
  have new: "newSuffix rf a = drop ?b (take (lastSent a) l)"
    unfolding newSuffix_def ar(2) drop_drop sb(2) ..
  from takesOver_merge [OF wf b ar(3) y [unfolded old new]] show ?thesis by (simp add: kept flip: append_assoc)
qed

lemma whole_new:
  assumes w: "whole rf x" and l: "log rf' = lg" "snapshotIndex rf' = snapshotIndex rf" "snapshotTerm rf' = snapshotTerm rf"
    and c: "contiguous (-1) (take (nat (snapshotIndex rf + 1)) x @ lg)"
  shows "whole rf' (take (nat (snapshotIndex rf + 1)) x @ lg)"
  using w c by (auto simp: whole_def l min_absorb2)

lemma follower_commits:
  assumes w: "whole rf x" and b: "snapshotIndex rf \<le> commitIndex rf" and old: "cprefix p t (nat (commitIndex rf + 1)) x"
    and d: "delivers p rf" and new: "cprefix p t (nat (lc + 1)) x"
    and h: "followerUpdateCommitIndex rf lc = Inr rf'"
  shows "snapshotIndex rf' \<le> commitIndex rf'" "cprefix p t (nat (commitIndex rf' + 1)) x" "delivers p rf'" "whole rf' x"
    "role rf' = role rf" "currentTerm rf' = currentTerm rf" "votedFor rf' = votedFor rf"
proof -
  have "snapshotIndex rf' \<le> commitIndex rf' \<and> cprefix p t (nat (commitIndex rf' + 1)) x \<and> delivers p rf' \<and> whole rf' x \<and>
    role rf' = role rf \<and> currentTerm rf' = currentTerm rf \<and> votedFor rf' = votedFor rf"
  proof (cases "lc \<le> commitIndex rf")
    case True
    with h assms show ?thesis by (simp add: followerUpdateCommitIndex_stale)
  next
    case False
    let ?c = "min (lastIndex rf) lc"
    have last: "commitIndex rf \<le> lastIndex rf" "lc \<le> lastIndex rf"
      using cprefix_length [OF old] cprefix_length [OF new] whole_last [OF w] by auto
    then have c: "?c = lc" by simp
    have rf': "rf' = rf\<lparr>commitIndex := lc, lastApplied := lc, applyGo := applyGo rf @ [committedMsgs rf (commitIndex rf) lc]\<rparr>"
      using followerUpdateCommitIndex_ok [OF whole_log_ok [OF w] b last(1), of lc] False h unfolding c by simp
    have "delivers p rf'"
      by (rule delivers_append [OF d]) (use rf' committedMsgs_delivered [OF w new b] in auto)
    moreover have "whole rf' x" by (rule whole_cong [OF w]) (simp_all add: rf')
    ultimately show ?thesis using False b new by (simp add: rf')
  qed
  then show "snapshotIndex rf' \<le> commitIndex rf'" "cprefix p t (nat (commitIndex rf' + 1)) x" "delivers p rf'" "whole rf' x"
    "role rf' = role rf" "currentTerm rf' = currentTerm rf" "votedFor rf' = votedFor rf" by auto
qed

lemma AppendEntries_accepted:
  assumes inv: "pinv p" and j: "j < pN p" and n: "node_ref p j rf" and a: "ae_ref p a"
    and l: "pLead p (aeTerm a) = Some l" "contiguous (-1) l" and t: "pTerm p j \<le> currentTerm rf" "currentTerm rf \<le> aeTerm a"
    and fit: "prefix_fits rf a" and acc: "accepts rf a"
    and h: "AppendEntriesRequestHandler now rf a reply = Inr (rf', r)"
  obtains new where "takesOver (pLog p j) l (lastSent a) new" "whole rf' new" "fst (storedVote rf') = aeTerm a"
    "storedLog rf' = (log rf', snapshotIndex rf', snapshotTerm rf')" "snapshotIndex rf' \<le> commitIndex rf'"
    "cprefix p (aeTerm a) (nat (commitIndex rf' + 1)) new" "delivers p rf'" "role rf' = 0" "ServerId r = me rf"
proof -
  let ?x = "pLog p j" and ?rf1 = "(toFollower rf (aeTerm a))\<lparr>lastHeartbeatTime := now\<rparr>"
  let ?r1 = "reply\<lparr>aerTerm := aeTerm a, Success := True, ServerId := me ?rf1\<rparr>"
  have w: "whole rf ?x" and c: "commits p j rf" and d: "delivers p rf" using n by (simp_all add: node_ref_def)
  have same: "log_ok ?rf1" "prefix_fits ?rf1 a" "accepts ?rf1 a" "oldSuffix ?rf1 a = oldSuffix rf a"
    "newSuffix ?rf1 a = newSuffix rf a" "keptLog ?rf1 a = keptLog rf a"
    using whole_log_ok [OF w] fit acc
    by (simp_all add: log_ok_def lastIndex_def prefix_fits_def prevPos_def accepts_def oldSuffix_def newSuffix_def keptLog_def)
  obtain y r2 where f: "followerHandleLog ?rf1 a ?r1 = Inr (?rf1\<lparr>log := keptLog rf a @ y\<rparr>, r2)" "Success r2" "ServerId r2 = me rf"
    and y: "mergeResult (oldSuffix rf a) (newSuffix rf a) y"
    using followerHandleLog_accept_gen [OF same(1) ae_ref_args_ok [OF a l] same(2,3), of ?r1] unfolding same(4-6) by auto
  define rf2 where "rf2 = ?rf1\<lparr>log := keptLog rf a @ y\<rparr>"
  define new where "new = take (nat (snapshotIndex rf + 1)) ?x @ keptLog rf a @ y"
  have tk: "takesOver ?x l (lastSent a) new"
    unfolding new_def using accept_log [OF inv j n a l(1) _ acc y] t by simp
  have w2: "whole rf2 new"
    unfolding new_def
    by (rule whole_new [OF w]) (use takesOver_contiguous [OF tk whole_contiguous [OF w] l(2)] in \<open>simp_all add: rf2_def new_def\<close>)
  from h f t obtain rf3 where u: "followerUpdateCommitIndex rf2 (LeaderCommit a) = Inr rf3" and rf': "rf' = persist rf3" and r: "r = r2"
    by (auto simp: AppendEntriesRequestHandler_def Let_def rf2_def rbind_eq_Inr)
  have le: "pTerm p j \<le> aeTerm a" using t by simp
  have cp: "cprefix p (aeTerm a) (nat (commitIndex rf + 1)) ?x"
    using c cprefix_mono [of p "pTerm p j" _ ?x p "aeTerm a"] le by (auto simp: commits_def evolves_def)
  have old: "cprefix p (aeTerm a) (nat (commitIndex rf + 1)) new"
    using cprefix_cong [OF cp] takesOver_keep [OF tk] commits_lead [OF inv n l(1) le] by metis
  have lcl: "LeaderCommit a < int (lastSent a)" "cprefix p (aeTerm a) (nat (LeaderCommit a + 1)) l" using a l by (auto simp: ae_ref_def)
  have "take (nat (LeaderCommit a + 1)) new = take (nat (LeaderCommit a + 1)) l"
  proof -
    have "take (lastSent a) new = take (lastSent a) l" using tk by (simp add: takesOver_def)
    moreover have "nat (LeaderCommit a + 1) \<le> lastSent a" using lcl(1) by simp
    ultimately show ?thesis by (rule take_agree)
  qed
  with lcl(2) have lc: "cprefix p (aeTerm a) (nat (LeaderCommit a + 1)) new" by (rule cprefix_cong)
  have f2: "snapshotIndex rf2 = snapshotIndex rf" "commitIndex rf2 = commitIndex rf" "applyGo rf2 = applyGo rf" "role rf2 = 0"
    "currentTerm rf2 = aeTerm a" using t by (simp_all add: rf2_def)
  have d2: "delivers p rf2" using d by (simp add: delivers_def f2)
  have b2: "snapshotIndex rf2 \<le> commitIndex rf2" using c by (simp add: commits_def f2)
  note F = follower_commits [OF w2 b2 _ d2 lc u, unfolded f2, OF old]
  show thesis
  proof (rule that [OF tk])
    show "whole rf' new" by (rule whole_cong [OF F(4)]) (simp_all add: rf')
  qed (use F r f in \<open>simp_all add: rf' delivers_def\<close>)
qed

lemma AppendEntries_rejected:
  assumes ok: "log_ok rf" "args_ok a" and t: "currentTerm rf \<le> aeTerm a" and rej: "\<not> accepts rf a"
    and h: "AppendEntriesRequestHandler now rf a reply = Inr (rf', r)"
  shows "\<not> Success r" "log rf' = take (prevPos rf a) (log rf)" "snapshotIndex rf' = snapshotIndex rf"
    "snapshotTerm rf' = snapshotTerm rf" "commitIndex rf' = commitIndex rf" "applyGo rf' = applyGo rf" "role rf' = 0"
    "fst (storedVote rf') = aeTerm a" "storedLog rf' = (log rf', snapshotIndex rf', snapshotTerm rf')"
proof -
  let ?rf1 = "(toFollower rf (aeTerm a))\<lparr>lastHeartbeatTime := now\<rparr>"
  let ?r1 = "reply\<lparr>aerTerm := aeTerm a, Success := True, ServerId := me ?rf1\<rparr>"
  have same: "log_ok ?rf1" "\<not> accepts ?rf1 a" "prevPos ?rf1 a = prevPos rf a"
    using ok rej by (simp_all add: log_ok_def accepts_def prevPos_def lastIndex_def)
  obtain r2 where "followerHandleLog ?rf1 a ?r1 = Inr (?rf1\<lparr>log := take (prevPos rf a) (log ?rf1)\<rparr>, r2)" "\<not> Success r2"
    using followerHandleLog_reject [OF same(1) ok(2) same(2), of ?r1] unfolding same(3) by auto
  with h t have rf': "rf' = persist (?rf1\<lparr>log := take (prevPos rf a) (log rf)\<rparr>)" and "\<not> Success r"
    by (auto simp: AppendEntriesRequestHandler_def Let_def)
  then show "\<not> Success r" "log rf' = take (prevPos rf a) (log rf)" "snapshotIndex rf' = snapshotIndex rf"
    "snapshotTerm rf' = snapshotTerm rf" "commitIndex rf' = commitIndex rf" "applyGo rf' = applyGo rf" "role rf' = 0"
    "fst (storedVote rf') = aeTerm a" "storedLog rf' = (log rf', snapshotIndex rf', snapshotTerm rf')"
    using t by (simp_all add: rf')
qed

text \<open>A refused request that is not too far ahead shows where the logs part.\<close>

lemma AppendEntries_conflict:
  assumes inv: "pinv p" and n: "node_ref p j rf" and a: "ae_ref p a" and l: "pLead p (aeTerm a) = Some l"
    and t: "pTerm p j \<le> aeTerm a" and rej: "\<not> accepts rf a" "\<not> lastIndex rf < PrevLogIndex a"
    and f: "log rf' = take (prevPos rf a) (log rf)" "snapshotIndex rf' = snapshotIndex rf"
      "snapshotTerm rf' = snapshotTerm rf" "commitIndex rf' = commitIndex rf"
  obtains q where "q < length (pLog p j)" "q < length l" "Term (pLog p j ! q) \<noteq> Term (l ! q)"
    "whole rf' (take q (pLog p j))" "cprefix p (aeTerm a) (nat (commitIndex rf' + 1)) (take q (pLog p j))"
    "snapshotIndex rf' \<le> commitIndex rf'"
proof -
  let ?x = "pLog p j" and ?q = "nat (PrevLogIndex a)"
  have w: "whole rf ?x" and cm: "commits p j rf" using n by (simp_all add: node_ref_def)
  from rej have q: "snapshotIndex rf < PrevLogIndex a" "PrevLogIndex a < int (length ?x)"
    "Term (log rf ! prevPos rf a) \<noteq> PrevLogTerm a" using whole_last [OF w] by (auto simp: accepts_def)
  have q0: "0 \<le> PrevLogIndex a" "nat (PrevLogIndex a + 1) = Suc ?q" using q(1) whole_low [OF w] by auto
  from a l have "lastSent a \<le> length l" "PrevLogTerm a = lastTermOf (take (nat (PrevLogIndex a + 1)) l)" by (auto simp: ae_ref_def)
  then have ql: "?q < length l" "PrevLogTerm a = Term (l ! ?q)" using q0 by (simp_all add: lastSent_def lastTermOf_take)
  have "log rf ! prevPos rf a = ?x ! ?q"
    using whole_entry [OF w, of "PrevLogIndex a"] q whole_last [OF w] by (auto simp: entry_at_def prevPos_def)
  with q(3) ql(2) have conf: "Term (?x ! ?q) \<noteq> Term (l ! ?q)" by simp
  have cc: "nat (commitIndex rf + 1) \<le> ?q"
  proof (rule ccontr)
    assume "\<not> nat (commitIndex rf + 1) \<le> ?q"
    with commits_lead(2) [OF inv n l t] have "?x ! ?q = l ! ?q" by (metis not_le nth_take)
    with conf show False by simp
  qed
  have "cprefix p (aeTerm a) (nat (commitIndex rf + 1)) ?x"
    using cm cprefix_mono [of p "pTerm p j" _ ?x p "aeTerm a"] t by (auto simp: commits_def evolves_def)
  then have cp: "cprefix p (aeTerm a) (nat (commitIndex rf' + 1)) (take ?q ?x)"
    using cc f(4) by (auto intro: cprefix_cong simp: min_absorb1)
  have "prevPos rf a = ?q - nat (snapshotIndex rf + 1)" using q(1) whole_low [OF w] by (simp add: prevPos_def)
  then have "log rf' = drop (nat (snapshotIndex rf + 1)) (take ?q ?x)" using f(1) whole_log [OF w] by (simp add: drop_take)
  then have "whole rf' (take ?q ?x)"
    using w q f(2,3) contiguous_take [OF whole_contiguous [OF w]] by (auto simp: whole_def min_absorb1)
  with that [of ?q] q q0 ql conf cp cm f show thesis by (auto simp: commits_def)
qed

text \<open>A call after its delivery.\<close>

definition answered :: "'c aecall \<Rightarrow> AppendEntriesReply + InstallSnapshotReply \<Rightarrow> 'c aecall" where
  "answered c r = c\<lparr>aeDelivered := True, aeReply := (if aeReply c = None then Some r else aeReply c)\<rparr>"

lemma answered_ae:
  assumes "msg_ref p c" "aeMsg c = SendAppendEntries a"
    and "Success r \<Longrightarrow> aerTerm r = aeTerm a \<Longrightarrow> ServerId r = int (aeDst c) \<and> (aeTerm a, aeDst c, lastSent a) \<in> pAck p"
  shows "msg_ref p (answered c (Inl r))"
  using assms by (auto simp: msg_ref_def answered_def)

lemma answered_is:
  assumes "msg_ref p c" "aeMsg c = SendInstallSnapshot a"
    and "isrTerm r = isTerm a \<Longrightarrow> isrServerId r = int (aeDst c) \<and> (isTerm a, aeDst c, nat (LastIncludedIndex a + 1)) \<in> pAck p"
  shows "msg_ref p (answered c (Inr r))"
  using assms by (auto simp: msg_ref_def answered_def)

lemma sim_AppendEntries:
  assumes R: "cref p s" and inv: "election_inv s" "pinv p" and k: "k < length (aenet s)"
  defines "c \<equiv> aenet s ! k"
  assumes m: "aeMsg c = SendAppendEntries a"
    and h: "AppendEntriesRequestHandler now (nodes s ! aeDst c) a zeroAppendEntriesReply = Inr (rf', r)"
    and fit: "prefix_fits (nodes s ! aeDst c) a"
    and s': "nodes s' = (nodes s)[aeDst c := rf']" "led s' = led s" "votes s' = votes s" "rvnet s' = rvnet s"
      "aenet s' = (aenet s)[k := answered c (Inl r)]"
  shows "follows p s'"
proof -
  let ?j = "aeDst c"
  let ?rf = "nodes s ! ?j" and ?x = "pLog p ?j" and ?t = "aeTerm a"
  have mr: "msg_ref p c" using ref_msg [OF R] k by (simp add: c_def)
  then have j: "?j < length (nodes s)" "?j < pN p" and a: "ae_ref p a" using m ref_N [OF R] by (auto simp: msg_ref_def)
  obtain l where l: "pLead p ?t = Some l" using a by (auto simp: ae_ref_def)
  note cl = ref_lead [OF R l] and n = ref_node [OF R j(1)]
  have w: "whole ?rf ?x" and cm: "commits p ?j ?rf" and d: "delivers p ?rf" using n by (simp_all add: node_ref_def)
  have st: "pTerm p ?j \<le> currentTerm ?rf" using n inv_node [OF inv(1) j(1)] by (simp add: node_ref_def node_inv_def)
  have me: "me ?rf = int ?j" using inv_node [OF inv(1) j(1)] by (simp add: node_inv_def)
  have failed: "msg_ref p q" if "\<not> Success r" "q \<in> set (aenet s')" for q
  proof -
    have "msg_ref p (answered c (Inl r))" using answered_ae [OF mr m, of r] that(1) by simp
    with that(2) show ?thesis using ref_msg [OF R] update_elem [OF _ k] unfolding s'(5) by blast
  qed
  show ?thesis
  proof (cases "?t < currentTerm ?rf")
    case True
    with h have "rf' = persist ?rf" "\<not> Success r" by (auto simp: AppendEntriesRequestHandler_def)
    then show ?thesis
      using s' ref_rv [OF R] failed
      by (intro follows_quiet [OF R inv(1) j(1) AppendEntriesRequest_vote_step [OF h]]) (auto simp: same_log_def)
  next
    case False
    then have t: "currentTerm ?rf \<le> ?t" "pTerm p ?j \<le> ?t" using st by auto
    show ?thesis
    proof (cases "accepts ?rf a")
      case True
      from inv(2) j(2) n a l cl st t(1) fit True h show ?thesis
      proof (rule AppendEntries_accepted)
        fix new assume new: "takesOver ?x l (lastSent a) new" "whole rf' new" "fst (storedVote rf') = ?t"
          "storedLog rf' = (log rf', snapshotIndex rf', snapshotTerm rf')" "snapshotIndex rf' \<le> commitIndex rf'"
          "cprefix p ?t (nat (commitIndex rf' + 1)) new" "delivers p rf'" "role rf' = 0" "ServerId r = me ?rf"
        show ?thesis
        proof (rule follows_accept [OF R j(1) t(2) l new(1-7) _ _ s'(1-4)])
          fix q p' assume q: "q \<in> set (aenet s')" and g: "evolves p p'" and ack: "(?t, ?j, lastSent a) \<in> pAck p'"
          have "msg_ref p' (answered c (Inl r))"
            using ack new(9) me by (intro answered_ae [OF msg_ref_mono [OF g mr] m]) simp
          with q show "msg_ref p' q"
            using msg_ref_mono [OF g ref_msg [OF R]] update_elem [OF _ k] unfolding s'(5) by blast
        qed (use new in simp_all)
      qed
    next
      case False
      note rej = AppendEntries_rejected [OF whole_log_ok [OF w] ae_ref_args_ok [OF a l cl] t(1) False h]
      show ?thesis
      proof (cases "lastIndex ?rf < PrevLogIndex a")
        case True
        then have "take (prevPos ?rf a) (log ?rf) = log ?rf" by (simp add: prevPos_def lastIndex_def)
        with rej have "same_log ?rf rf'" by (simp add: same_log_def)
        then show ?thesis
          using s' ref_rv [OF R] failed [OF rej(1)] rej(7)
          by (intro follows_quiet [OF R inv(1) j(1) AppendEntriesRequest_vote_step [OF h]]) auto
      next
        case long: False
        from inv(2) n a l t(2) False long rej(2-5) show ?thesis
        proof (rule AppendEntries_conflict)
          fix q assume "q < length ?x" "q < length l" "Term (?x ! q) \<noteq> Term (l ! q)" "whole rf' (take q ?x)"
            "cprefix p ?t (nat (commitIndex rf' + 1)) (take q ?x)" "snapshotIndex rf' \<le> commitIndex rf'"
          then show ?thesis
            using rej d s' failed [OF rej(1)]
            by (intro follows_cut [OF R j(1) t(2) l, of q rf']) (auto simp: delivers_def)
        qed
      qed
    qed
  qed
qed

section \<open>Accepting a snapshot\<close>

lemma installed_log:
  assumes inv: "pinv p" and j: "j < pN p" and n: "node_ref p j rf" and a: "is_ref p a"
    and l: "pLead p (isTerm a) = Some l" "contiguous (-1) l" "pTerm p j \<le> isTerm a"
    and i: "snapshotIndex rf < LastIncludedIndex a" and ok: "\<not> conflicting rf a"
  obtains new where "takesOver (pLog p j) l (nat (LastIncludedIndex a + 1)) new"
    "drop (nat (LastIncludedIndex a + 1)) new = cutLog rf (LastIncludedIndex a)"
    "take (nat (LastIncludedIndex a + 1)) new = take (nat (LastIncludedIndex a + 1)) l" "contiguous (-1) new"
    "nat (LastIncludedIndex a + 1) \<le> length new"
proof -
  let ?x = "pLog p j" and ?m = "nat (LastIncludedIndex a + 1)" and ?q = "nat (LastIncludedIndex a)"
  have w: "whole rf ?x" using n by (simp add: node_ref_def)
  have wf: "wfLog p (pTerm p j) ?x" "wfLog p (isTerm a) l" using inv_log [OF inv j] inv_leadlog [OF inv l(1)] by auto
  have ar: "LastIncludedTerm a = lastTermOf (take ?m l)" "?m \<le> length l" using a l(1) by (auto simp: is_ref_def dest: cprefix_length)
  have m: "?m = Suc ?q" using i whole_low [OF w] by simp
  have cl: "cutLog rf (LastIncludedIndex a) = drop ?m ?x" using whole_cutLog [OF w, of "LastIncludedIndex a"] i by simp
  show thesis
  proof (cases "LastIncludedIndex a < int (length ?x)")
    case True
    then have q: "?q < length ?x" "?q < length l" using i whole_low [OF w] m ar(2) by auto
    have "Term (?x ! ?q) = Term (l ! ?q)"
      using ok i True whole_entry [OF w, of "LastIncludedIndex a"] ar(1) m q(2) by (simp add: conflicting_def lastTermOf_take)
    from match_prefix [OF wf q this] m have "take ?m ?x = take ?m l" by simp
    with that [of ?x] ar(2) cl q m whole_contiguous [OF w] show thesis by (simp add: takesOver_def)
  next
    case False
    then have "length ?x \<le> ?m" "drop ?m ?x = []" by auto
    moreover from this have "k \<le> ?m" if "k \<le> length l" "take k ?x = take k l" for k
      using arg_cong [OF that(2), of length] that(1) by simp
    ultimately show thesis using that [of "take ?m l"] ar(2) cl contiguous_take [OF l(2)] by (simp add: takesOver_def)
  qed
qed

lemma InstallSnapshot_installed:
  assumes inv: "pinv p" and j: "j < pN p" and n: "node_ref p j rf" and a: "is_ref p a"
    and l: "pLead p (isTerm a) = Some l" "contiguous (-1) l" and t: "pTerm p j \<le> currentTerm rf" "currentTerm rf \<le> isTerm a"
    and i: "snapshotIndex rf < LastIncludedIndex a"
    and h: "InstallSnapshotRequestHandler now rf a reply = Inr (rf', r)"
  obtains new where "takesOver (pLog p j) l (nat (LastIncludedIndex a + 1)) new" "whole rf' new" "fst (storedVote rf') = isTerm a"
    "storedLog rf' = (log rf', snapshotIndex rf', snapshotTerm rf')" "snapshotIndex rf' \<le> commitIndex rf'"
    "cprefix p (isTerm a) (nat (commitIndex rf' + 1)) new" "delivers p rf'"
    "role rf' = (if currentTerm rf < isTerm a then 0 else role rf)" "currentTerm rf' = isTerm a" "isrServerId r = me rf"
proof -
  let ?x = "pLog p j" and ?i = "LastIncludedIndex a" and ?rf2 = "stepDown now rf (isTerm a)"
  have w: "whole rf ?x" and cm: "commits p j rf" and d: "delivers p rf" using n by (simp_all add: node_ref_def)
  have ok: "peer_ok rf" using cm whole_last [OF w] whole_log_ok [OF w] by (auto simp: peer_ok_def commits_def)
  have le: "pTerm p j \<le> isTerm a" using t by simp
  from InstallSnapshot_ok [OF ok t(2) i, of now reply] h have nc: "\<not> conflicting rf a"
    and rf': "rf' = persist ((installed ?rf2 a)\<lparr>applyGo := applyGo rf @ [[snapshotMsg (installed ?rf2 a)]]\<rparr>)"
    and r: "isrServerId r = me rf" by (auto split: if_splits)
  obtain new where new: "takesOver ?x l (nat (?i + 1)) new" "drop (nat (?i + 1)) new = cutLog rf ?i"
    "take (nat (?i + 1)) new = take (nat (?i + 1)) l" "contiguous (-1) new" "nat (?i + 1) \<le> length new"
    using installed_log [OF inv j n a l le i nc] by blast
  have f: "log rf' = cutLog rf ?i" "snapshotIndex rf' = ?i" "snapshotTerm rf' = LastIncludedTerm a"
    "commitIndex rf' = max (commitIndex rf) ?i" "role rf' = (if currentTerm rf < isTerm a then 0 else role rf)"
    "currentTerm rf' = isTerm a" "applyGo rf' = applyGo rf @ [[snapshotMsg (installed ?rf2 a)]]" "fst (storedVote rf') = isTerm a"
    "storedLog rf' = (log rf', snapshotIndex rf', snapshotTerm rf')"
    unfolding rf' using t(2) by (simp_all add: installed_def cutLog_def stepDown_def)
  have cp: "cprefix p (isTerm a) (nat (commitIndex rf' + 1)) new"
  proof (cases "commitIndex rf \<le> ?i")
    case True
    have "cprefix p (isTerm a) (nat (?i + 1)) l" using a l(1) by (auto simp: is_ref_def)
    from cprefix_cong [OF this new(3)] True show ?thesis by (simp add: f max_def)
  next
    case False
    have cx: "cprefix p (isTerm a) (nat (commitIndex rf + 1)) ?x"
      using cm cprefix_mono [of p "pTerm p j" _ ?x p "isTerm a"] le by (auto simp: commits_def evolves_def)
    have "take (nat (commitIndex rf + 1)) new = take (nat (commitIndex rf + 1)) ?x"
      using takesOver_keep [OF new(1)] commits_lead [OF inv n l(1) le] by metis
    with False cprefix_cong [OF cx] show ?thesis by (simp add: f max_def)
  qed
  have d': "delivers p rf'" by (rule delivers_append [OF d f(7)]) (simp add: delivered_def snapshotMsg_def)
  have "whole rf' new" using new a l(1) by (auto simp: whole_def f is_ref_def)
  with that [OF new(1) _ f(8,9) _ cp d' f(5,6) r] f show thesis by simp
qed

lemma sim_InstallSnapshot:
  assumes R: "cref p s" and inv: "election_inv s" "pinv p" and k: "k < length (aenet s)"
  defines "c \<equiv> aenet s ! k"
  assumes m: "aeMsg c = SendInstallSnapshot a"
    and h: "InstallSnapshotRequestHandler now (nodes s ! aeDst c) a zeroInstallSnapshotReply = Inr (rf', r)"
    and s': "nodes s' = (nodes s)[aeDst c := rf']" "led s' = led s" "votes s' = votes s" "rvnet s' = rvnet s"
      "aenet s' = (aenet s)[k := answered c (Inr r)]"
  shows "follows p s'"
proof -
  let ?j = "aeDst c"
  let ?rf = "nodes s ! ?j" and ?x = "pLog p ?j" and ?t = "isTerm a" and ?i = "LastIncludedIndex a"
  have mr: "msg_ref p c" using ref_msg [OF R] k by (simp add: c_def)
  then have j: "?j < length (nodes s)" "?j < pN p" "?j \<noteq> aeSrc c" and a: "is_ref p a" and src: "(?t, aeSrc c) \<in> pLed p"
    using m ref_N [OF R] by (auto simp: msg_ref_def)
  obtain l where l: "pLead p ?t = Some l" "-1 \<le> ?i" "LastIncludedTerm a = lastTermOf (take (nat (?i + 1)) l)"
    "cprefix p ?t (nat (?i + 1)) l" using a by (auto simp: is_ref_def)
  note cl = ref_lead [OF R l(1)] and n = ref_node [OF R j(1)]
  have w: "whole ?rf ?x" and cm: "commits p ?j ?rf" and d: "delivers p ?rf" using n by (simp_all add: node_ref_def)
  have st: "pTerm p ?j \<le> currentTerm ?rf" using n inv_node [OF inv(1) j(1)] by (simp add: node_ref_def node_inv_def)
  have me: "me ?rf = int ?j" using inv_node [OF inv(1) j(1)] by (simp add: node_inv_def)
  have role: "role ?rf \<noteq> 2" "role ?rf = 1 \<Longrightarrow> (?t, ?j) \<notin> pLed p" if "currentTerm ?rf = ?t"
    using that n src j(3) inv_ledone [OF inv(2) src, of ?j] by (auto simp: node_ref_def in_office_def standing_def)
  have quiet: "follows p s'" if "rf' = persist ?rf \<or> rf' = persist (?rf\<lparr>lastHeartbeatTime := now\<rparr>)" "isrTerm r \<noteq> ?t"
  proof -
    have "msg_ref p (answered c (Inr r))" using answered_is [OF mr m, of r] that(2) by simp
    then have "msg_ref p q" if "q \<in> set (aenet s')" for q
      using that ref_msg [OF R] update_elem [OF _ k] unfolding s'(5) by blast
    then show ?thesis
      using that s' ref_rv [OF R]
      by (intro follows_quiet [OF R inv(1) j(1) InstallSnapshotRequest_vote_step [OF h]]) (auto simp: same_log_def)
  qed
  have ack: "msg_ref p' q" if "q \<in> set (aenet s')" "evolves p p'" "(?t, ?j, nat (?i + 1)) \<in> pAck p'" "isrServerId r = int ?j" for p' q
  proof -
    have "msg_ref p' (answered c (Inr r))" using that by (intro answered_is [OF msg_ref_mono [OF that(2) mr] m]) simp
    with that(1) show ?thesis using msg_ref_mono [OF that(2) ref_msg [OF R]] update_elem [OF _ k] unfolding s'(5) by blast
  qed
  have cpx: "cprefix p ?t (nat (commitIndex ?rf + 1)) ?x" if "pTerm p ?j \<le> ?t"
    using cm cprefix_mono [of p "pTerm p ?j" _ ?x p ?t] that by (auto simp: commits_def evolves_def)
  consider "?t < currentTerm ?rf" | "currentTerm ?rf < ?t" "?i \<le> snapshotIndex ?rf" | "currentTerm ?rf = ?t" "?i \<le> snapshotIndex ?rf"
    | "currentTerm ?rf \<le> ?t" "snapshotIndex ?rf < ?i" by linarith
  then show ?thesis
  proof cases
    case 1
    with h quiet show ?thesis by (auto simp: InstallSnapshotRequestHandler_def Let_def split: if_splits)
  next
    case 2
    with h quiet show ?thesis by (auto simp: InstallSnapshotRequestHandler_def Let_def split: if_splits)
  next
    case 3
    with h have rf': "rf' = persist (?rf\<lparr>lastHeartbeatTime := now\<rparr>)" and r: "isrServerId r = int ?j"
      using me by (auto simp: InstallSnapshotRequestHandler_def Let_def split: if_splits)
    have le: "pTerm p ?j \<le> ?t" using st 3 by simp
    have "nat (?i + 1) \<le> nat (commitIndex ?rf + 1)" using 3 cm by (auto simp: commits_def)
    with commits_lead [OF inv(2) n l(1) le] have "nat (?i + 1) \<le> length l" "take (nat (?i + 1)) ?x = take (nat (?i + 1)) l"
      by (auto intro: take_agree)
    then have tk: "takesOver ?x l (nat (?i + 1)) ?x" by (simp add: takesOver_def)
    show ?thesis
      using w cm d 3 role cpx [OF le] ack r s'
      by (intro follows_accept [OF R j(1) le l(1) tk, of rf'])
        (auto simp: rf' commits_def delivers_def intro: whole_cong)
  next
    case 4
    have le: "pTerm p ?j \<le> ?t" using st 4 by simp
    from inv(2) j(2) n a l(1) cl st 4 h show ?thesis
    proof (rule InstallSnapshot_installed)
      fix new assume new: "takesOver ?x l (nat (?i + 1)) new" "whole rf' new" "fst (storedVote rf') = ?t"
        "storedLog rf' = (log rf', snapshotIndex rf', snapshotTerm rf')" "snapshotIndex rf' \<le> commitIndex rf'"
        "cprefix p ?t (nat (commitIndex rf' + 1)) new" "delivers p rf'"
        and f: "role rf' = (if currentTerm ?rf < ?t then 0 else role ?rf)" "currentTerm rf' = ?t" "isrServerId r = me ?rf"
      show ?thesis
        using f role ack me s' 4 by (intro follows_accept [OF R j(1) le l(1) new]) (auto split: if_splits)
    qed
  qed
qed

section \<open>The simulation\<close>

text \<open>
  What the events have to respect besides \<open>careful\<close>: a peer sends and commits as a leader only
  while it leads (\<open>leaderTicker\<close> looks at the role and then releases the lock, and a late round
  finds a follower), a request for the very first entry does not reach a peer that has compacted
  its log, and the service compacts only what its peer has committed. The last is the contract of
  \<open>Snapshot\<close> with its service; the code does not ensure the others, and theory \<open>RaftSafety\<close> has a run for
  each of them in which two peers apply different commands under one index.
\<close>

fun steady :: "'c cluster \<Rightarrow> 'c event \<Rightarrow> bool" where
  "steady s (EvSend i) \<longleftrightarrow> role (nodes s ! i) = 2"
| "steady s (EvCommit i) \<longleftrightarrow> role (nodes s ! i) = 2"
| "steady s (EvSnapshot i idx snap) \<longleftrightarrow> idx - 1 \<le> commitIndex (nodes s ! i)"
| "steady s (EvAppend k now) \<longleftrightarrow> (case aeMsg (aenet s ! k) of
     SendAppendEntries a \<Rightarrow> prefix_fits (nodes s ! aeDst (aenet s ! k)) a | SendInstallSnapshot a \<Rightarrow> True)"
| "steady s _ \<longleftrightarrow> True"

definition orderly :: "'c cluster \<Rightarrow> 'c event \<Rightarrow> bool" where
  "orderly s e = (careful s e \<and> steady s e)"

definition sstep :: "'c cluster \<Rightarrow> 'c cluster \<Rightarrow> bool" where
  "sstep s t = (\<exists>e. cexec s e = Some t \<and> orderly s e)"

lemma sim_Append:
  assumes R: "cref p s" and inv: "election_inv s" "pinv p" and e: "cexec s (EvAppend k now) = Some s'"
    and st: "steady s (EvAppend k now)"
  shows "follows p s'"
proof -
  let ?c = "aenet s ! k"
  from e obtain rf' r where k: "k < length (aenet s)" and h: "handleAppend now (nodes s ! aeDst ?c) (aeMsg ?c) = Inr (rf', r)"
    and s': "s' = (setNode (aeDst ?c) rf' s)\<lparr>aenet := (aenet s)[k := answered ?c r]\<rparr>"
    by (auto simp: doAppend_def Let_def answered_def split: if_splits sum.splits prod.splits)
  show ?thesis
  proof (cases "aeMsg ?c")
    case (SendAppendEntries a)
    with h obtain r' where "AppendEntriesRequestHandler now (nodes s ! aeDst ?c) a zeroAppendEntriesReply = Inr (rf', r')" "r = Inl r'"
      by (auto simp: handleAppend_def rbind_eq_Inr)
    with SendAppendEntries st s' show ?thesis by (intro sim_AppendEntries [OF R inv k]) auto
  next
    case (SendInstallSnapshot a)
    with h obtain r' where "InstallSnapshotRequestHandler now (nodes s ! aeDst ?c) a zeroInstallSnapshotReply = Inr (rf', r')" "r = Inr r'"
      by (auto simp: handleAppend_def rbind_eq_Inr)
    with SendInstallSnapshot s' show ?thesis by (intro sim_InstallSnapshot [OF R inv k]) auto
  qed
qed

lemma simulation:
  assumes R: "cref p s" and inv: "election_inv s" "pinv p" and e: "cexec s ev = Some s'" and o: "orderly s ev"
  shows "follows p s'"
proof -
  have care: "careful s ev" and st: "steady s ev" using o by (simp_all add: orderly_def)
  note inv' = election_inv_step [OF inv(1) e care]
  show ?thesis
  proof (cases ev)
    case (EvCandidate i now rnd)
    with e show ?thesis using sim_Candidate [OF R inv] by blast
  next
    case (EvVote k now)
    with e show ?thesis using sim_Vote [OF R inv(1) inv'] by blast
  next
    case (EvLoseVote k)
    with e show ?thesis using sim_LoseVote [OF R] by blast
  next
    case (EvVoteReply k)
    with e show ?thesis using sim_VoteReply [OF R inv(1)] by blast
  next
    case (EvLead k)
    with e care show ?thesis using sim_Lead [OF R inv] by blast
  next
    case (EvAppend k now)
    with e st show ?thesis using sim_Append [OF R inv] by blast
  next
    case (EvLoseAppend k)
    with e show ?thesis using sim_LoseAppend [OF R inv(2)] by blast
  next
    case (EvAppendReply k)
    with e show ?thesis using sim_AppendReply [OF R inv] by blast
  next
    case (EvCommit i)
    with e st show ?thesis using sim_Commit [OF R inv] by simp
  next
    case (EvSend i)
    with e st show ?thesis using sim_Send [OF R inv(1)] by simp
  next
    case (EvStart i c)
    with e show ?thesis using sim_Start [OF R inv] by blast
  next
    case (EvSnapshot i idx snap)
    with e st show ?thesis using sim_Snapshot [OF R inv(1)] by simp
  next
    case (EvRestart i now rnd)
    with e show ?thesis using sim_Restart [OF R inv(1)] by blast
  qed
qed

end
