(* ===== verification/RaftSafety.thy ===== *)
theory RaftSafety
  imports RaftSimulationLog RaftCatchUp
begin

text \<open>
  The safety properties of Raft for the code: a cluster refines the protocol, so that logs match,
  leaders have what was committed before, and no two peers ever hand different commands to their
  services under the same index, with any delays, losses, crashes and snapshots.

  All this is about orderly events (\<open>orderly\<close>, the step relation \<open>sstep\<close>), which leave out: a request for a
  vote at a peer that has led the term of the request; a pending \<open>toLeader\<close> that runs when the
  candidacy it was called for is over; a peer that sends, or that commits, in a round of its ticker
  which it began as a leader, when it is no leader any more; a request for the very first entry at a
  peer that has compacted its log; and a service that compacts what its peer has not committed. The
  last is the contract of \<open>Snapshot\<close>. For each of the others there is a run of the model in which it
  alone happens and a term gets two leaders (theory \<open>RaftElectionSafety\<close>) or two peers apply different
  commands under one index (below).
\<close>

section \<open>Reachable clusters\<close>

definition safe_inv :: "'c cluster \<Rightarrow> bool" where
  "safe_inv s = (election_inv s \<and> (\<exists>p. reach (pinit (length (nodes s))) pstep p \<and> cref p s))"

lemma evolves_refl [simp]: "evolves p p"
  by (auto simp: evolves_def)

lemma evolves_trans:
  assumes a: "evolves p q" and b: "evolves q r"
  shows "evolves p r"
  unfolding evolves_def
proof (intro conjI allI impI subsetI)
  show "pN r = pN p" using evolves_N [OF a] evolves_N [OF b] by simp
  show "pTerm p j \<le> pTerm r j" for j using evolves_term [OF a, of j] evolves_term [OF b, of j] by simp
  show "\<exists>x. pLead r t = Some (l @ x)" if l: "pLead p t = Some l" for t l
    using evolves_lead [OF a l] evolves_lead [OF b] by fastforce
  show "holdsUpTo p t j m \<or> pTerm p j \<le> t" if "holdsUpTo r t j m" for t j m
    using evolves_holds [OF b that] evolves_holds [OF a, of t j m] evolves_term [OF a, of j] by auto
qed (use evolvesD [OF a] evolvesD [OF b] in blast)+

lemma cref_new: "cref \<lparr>pN = n, pTerm = (\<lambda>j. 0), pLog = (\<lambda>j. []), pVotes = {}, pLed = {}, pCand = Map.empty,
     pLead = Map.empty, pAck = {}\<rparr> (newCluster n)"
  by (auto simp: cref_def newCluster_def newNode_eq newRaft_def node_ref_def voteSet_def whole_def lastTermOf_def
      storedVote_def storedLog_def MakePersister_def ReadRaftState_def decodeState_def commits_def delivers_def
      in_office_def standing_def)

lemma safe_new: "safe_inv (newCluster n)"
  unfolding safe_inv_def
proof
  show "election_inv (newCluster n)" by (rule election_inv_new)
  let ?p = "\<lparr>pN = n, pTerm = (\<lambda>j. 0), pLog = (\<lambda>j. []), pVotes = {}, pLed = {}, pCand = Map.empty,
     pLead = Map.empty, pAck = {}\<rparr>"
  have "reach (pinit n) pstep ?p" by (rule reach_init) (simp add: pinit_def)
  then show "\<exists>p. reach (pinit (length (nodes (newCluster n)))) pstep p \<and> cref p (newCluster n)"
    using cref_new [of n] by (auto simp: newCluster_def)
qed

lemma safe_run:
  assumes s: "election_inv s" "reach (pinit (length (nodes s))) pstep p" "cref p s" and run: "sstep\<^sup>*\<^sup>* s t"
  shows "election_inv t \<and> (\<exists>q. evolves p q \<and> reach (pinit (length (nodes t))) pstep q \<and> cref q t)"
  using run
proof induction
  case base
  with s evolves_refl show ?case by blast
next
  case (step t u)
  then obtain q e where q: "election_inv t" "evolves p q" "reach (pinit (length (nodes t))) pstep q" "cref q t"
    and e: "cexec t e = Some u" "orderly t e" by (auto simp: sstep_def)
  have "pinv q" by (rule protocol.inv_reach [OF q(3)])
  from simulation [OF q(4,1) this e] obtain q' where q': "pstep q q' \<or> q' = q" "cref q' u" by (auto simp: follows_def)
  have g: "evolves q q'" using q'(1) pstep_evolves by auto
  have "length (nodes u) = length (nodes t)" using ref_N [OF q'(2)] ref_N [OF q(4)] evolves_N [OF g] by simp
  moreover have "reach (pinit (length (nodes t))) pstep q'" using q'(1) q(3) reach_step by auto
  moreover have "election_inv u" using election_inv_step [OF q(1) e(1)] e(2) by (simp add: orderly_def)
  ultimately show ?case using evolves_trans [OF q(2) g] q'(2) by auto
qed

interpretation safety: transition_system isNewCluster sstep safe_inv
proof
  show "isNewCluster s \<Longrightarrow> safe_inv s" for s :: "'c cluster"
    unfolding isNewCluster_def using safe_new by metis
  show "safe_inv s \<Longrightarrow> sstep s t \<Longrightarrow> safe_inv t" for s t :: "'c cluster"
    unfolding safe_inv_def using safe_run r_into_rtranclp [of sstep] by metis
qed

text \<open>Reachable clusters correspond to states of the protocol that satisfy its invariant.\<close>

lemma safe_ref:
  assumes "reach isNewCluster sstep s"
  obtains p where "pinv p" "cref p s" "election_inv s"
  using safety.inv_reach [OF assms] protocol.inv_reach by (auto simp: safe_inv_def)

lemma ref_whole: "cref p s \<Longrightarrow> i < length (nodes s) \<Longrightarrow> whole (nodes s ! i) (pLog p i)"
  using ref_node by (fastforce simp: node_ref_def)

lemma ref_commits:
  "cref p s \<Longrightarrow> i < length (nodes s) \<Longrightarrow> cprefix p (pTerm p i) (nat (commitIndex (nodes s ! i) + 1)) (pLog p i)"
  using ref_node by (fastforce simp: node_ref_def commits_def)

text \<open>The log of a leader begins with what a peer of its own or an earlier term knows to be committed.\<close>

lemma leader_prefix:
  assumes p: "pinv p" "cref p s" "election_inv s" and l: "leads s i t" and j: "j < length (nodes s)" "currentTerm (nodes s ! j) \<le> t"
  shows "nat (commitIndex (nodes s ! j) + 1) \<le> length (pLog p i)"
    "take (nat (commitIndex (nodes s ! j) + 1)) (pLog p j) = take (nat (commitIndex (nodes s ! j) + 1)) (pLog p i)"
proof -
  have i: "i < length (nodes s)" using l by (simp add: leads_def)
  have "pLead p t = Some (pLog p i)" using ref_node [OF p(2) i] l by (auto simp: leads_def node_ref_def in_office_def)
  moreover have "pTerm p j \<le> t" using ref_node [OF p(2) j(1)] inv_node [OF p(3) j(1)] j(2) by (simp add: node_ref_def node_inv_def)
  ultimately show "nat (commitIndex (nodes s ! j) + 1) \<le> length (pLog p i)"
    "take (nat (commitIndex (nodes s ! j) + 1)) (pLog p j) = take (nat (commitIndex (nodes s ! j) + 1)) (pLog p i)"
    using cprefix_lead [OF p(1) ref_commits [OF p(2) j(1)]] by auto
qed

section \<open>Leaders and followers are compatible\<close>

lemma chained_before:
  assumes "wfLog p b x" "wfLog p b' y" "k < length x" "m < length y" "k \<le> m" "Term (x ! k) = Term (y ! m)"
  shows "x ! k = y ! k"
proof -
  obtain z where z: "take (Suc k) x = take (Suc k) z" "take (Suc m) y = take (Suc m) z"
    using assms unfolding wfLog_def chained_def has_def by (metis option.inject)
  have "x ! k = z ! k" "y ! k = z ! k" using z assms(5) by (metis lessI nth_take, metis le_imp_less_Suc nth_take)
  then show ?thesis by simp
qed

lemma whole_term_at:
  assumes w: "whole rf x" and k: "snapshotIndex rf \<le> k" "0 \<le> k" "k < int (length x)"
  shows "term_at rf k = Term (x ! nat k)"
proof (cases "k = snapshotIndex rf")
  case True
  moreover have "nat (k + 1) = Suc (nat k)" "nat k < length x" using k by auto
  ultimately show ?thesis using w by (simp add: term_at_def whole_def lastTermOf_take)
next
  case False
  then show ?thesis using k by (simp add: term_at_def whole_entry [OF w])
qed

text \<open>Between a leader and a peer of its own or an earlier term the logs are related as the exchange of
  theory \<open>RaftCatchUp\<close> supposes.\<close>

lemma leader_compatible:
  assumes r: "reach isNewCluster sstep s" and l: "leads s i t" and j: "j < length (nodes s)" "currentTerm (nodes s ! j) \<le> t"
  shows "compatible (nodes s ! i) (nodes s ! j)"
proof -
  let ?l = "nodes s ! i" and ?f = "nodes s ! j"
  obtain p where p: "pinv p" "cref p s" "election_inv s" by (rule safe_ref [OF r])
  have i: "i < length (nodes s)" using l by (simp add: leads_def)
  note w = ref_whole [OF p(2) i] ref_whole [OF p(2) j(1)] and c = leader_prefix [OF p l j]
  have wf: "wfLog p (pTerm p i) (pLog p i)" "wfLog p (pTerm p j) (pLog p j)" using inv_log [OF p(1)] ref_N [OF p(2)] i j by auto
  have L: "0 \<le> k \<and> snapshotIndex ?l < k \<and> k < int (length (pLog p i)) \<and> e = pLog p i ! nat k" if "entry_at ?l k = Some e" for k e
    using that whole_low [OF w(1)] by (auto simp: whole_entry [OF w(1)] split: if_splits)
  have F: "0 \<le> k \<and> k < int (length (pLog p j)) \<and> e = pLog p j ! nat k" if "entry_at ?f k = Some e" for k e
    using that whole_low [OF w(2)] by (auto simp: whole_entry [OF w(2)] split: if_splits)
  have com: "pLog p i ! nat k = pLog p j ! nat k \<and> k < int (length (pLog p i))" if "0 \<le> k" "k \<le> commitIndex ?f" for k
  proof -
    have "nat k < nat (commitIndex ?f + 1)" using that by simp
    with c show ?thesis using that(1) by (metis nat_less_iff nth_take order_less_le_trans)
  qed
  show ?thesis
    unfolding compatible_def
  proof (intro conjI allI impI)
    show "e = e'" if "k \<le> commitIndex ?f" "entry_at ?l k = Some e" "entry_at ?f k = Some e'" for k e e'
      using L [OF that(2)] F [OF that(3)] com [of k] that(1) by simp
    show "Term e = snapshotTerm ?l" if "snapshotIndex ?l \<le> commitIndex ?f" "entry_at ?f (snapshotIndex ?l) = Some e" for e
      using F [OF that(2)] com [OF _ that(1)] whole_term_at [OF w(1), of "snapshotIndex ?l"] by (simp add: term_at_def)
    show "term_at ?l k = Term e" if "k < m" "snapshotIndex ?l \<le> k" "entry_at ?f k = Some e" "entry_at ?l m = Some e'" "Term e = Term e'" for k m e e'
    proof -
      note a = F [OF that(3)] L [OF that(4)]
      have "pLog p j ! nat k = pLog p i ! nat k"
        by (rule chained_before [OF wf(2,1), of _ "nat m"]) (use a that(1,5) in \<open>auto simp: nat_less_iff\<close>)
      with a that(1,2) show ?thesis using whole_term_at [OF w(1), of k] by simp
    qed
    show "d = d'" if "k \<le> m" "entry_at ?l m = Some e" "entry_at ?f m = Some e'" "Term e = Term e'"
      "entry_at ?l k = Some d" "entry_at ?f k = Some d'" for k m e e' d d'
      using match_entry [OF wf, of "nat m" "nat k"] L [OF that(2)] F [OF that(3)] L [OF that(5)] F [OF that(6)] that(1,4)
      by (simp add: nat_less_iff nat_mono)
  qed
qed

section \<open>Runs\<close>

lemma reach_run: "step\<^sup>*\<^sup>* s t \<Longrightarrow> reach init step s \<Longrightarrow> reach init step t"
  by (induction rule: rtranclp_induct) (auto intro: reach_step)

lemma crunP_orderly: "crunP orderly s es = Some t \<Longrightarrow> sstep\<^sup>*\<^sup>* s t"
proof (induction es arbitrary: s)
  case (Cons e es)
  then obtain u where "sstep s u" "crunP orderly u es = Some t"
    by (auto simp: sstep_def Option.bind_eq_Some_conv split: if_splits)
  with Cons.IH [of u] show ?case by (meson converse_rtranclp_into_rtranclp)
qed simp

lemma reach_orderly: "crunP orderly (newCluster n) es = Some s \<Longrightarrow> reach isNewCluster sstep s"
proof (rule reach_run [OF crunP_orderly])
  show "reach isNewCluster sstep (newCluster n)" by (rule reach_init) (simp add: isNewCluster_def newCluster_def)
qed

text \<open>Peer 0 is elected, replicates two commands to peer 1 and commits them.\<close>

definition commitRun :: "nat event list" where
  "commitRun = electionRun @ [EvStart 0 7, EvStart 0 8, EvSend 0, EvAppend 0 320, EvAppendReply 0, EvCommit 0]"

text \<open>It tells peer 1, whose service compacts its log, and restarts.\<close>

definition laterRun :: "nat event list" where
  "laterRun = [EvSend 0, EvAppend 2 330, EvSnapshot 1 1 [1], EvRestart 0 340 0]"

definition commandAt :: "'c cluster \<Rightarrow> nat \<Rightarrow> int \<Rightarrow> 'c option list" where
  "commandAt s i k = map aCommand (filter (\<lambda>m. CommandValid m \<and> CommandIndex m = k) (concat (applyGo (nodes s ! i))))"

lemma commandAt_in:
  "v \<in> set (commandAt s i k) \<Longrightarrow> \<exists>ms m. ms \<in> set (applyGo (nodes s ! i)) \<and> m \<in> set ms \<and> CommandValid m \<and> CommandIndex m = k \<and> aCommand m = v"
  by (auto simp: commandAt_def)

text \<open>Peer 1 wins the next term with the vote of peer 2.\<close>

definition nextLeaderRun :: "nat event list" where
  "nextLeaderRun = [EvCandidate 1 700 0, EvVote 3 710, EvVoteReply 3, EvLead 0]"

lemma commit_run:
  obtains s where "crunP orderly (newCluster 3) commitRun = Some s" "length (nodes s) = 3"
    "commitIndex (nodes s ! 0) = 1" "entry_at (nodes s ! 0) 0 = Some \<lparr>Term = 1, Index = 0, Command = 7\<rparr>"
    "entry_at (nodes s ! 0) 1 = Some \<lparr>Term = 1, Index = 1, Command = 8\<rparr>" "entry_at (nodes s ! 1) 0 \<noteq> None"
    "map_option Term (entry_at (nodes s ! 1) 1) = Some 1" "commandAt s 0 1 = [Some 7]"
proof -
  have "case crunP orderly (newCluster 3) commitRun of None \<Rightarrow> False | Some s \<Rightarrow> length (nodes s) = 3 \<and>
    commitIndex (nodes s ! 0) = 1 \<and> entry_at (nodes s ! 0) 0 = Some \<lparr>Term = 1, Index = 0, Command = 7\<rparr> \<and>
    entry_at (nodes s ! 0) 1 = Some \<lparr>Term = 1, Index = 1, Command = 8\<rparr> \<and> entry_at (nodes s ! 1) 0 \<noteq> None \<and>
    map_option Term (entry_at (nodes s ! 1) 1) = Some 1 \<and> commandAt s 0 1 = [Some 7]"
    by code_simp
  from case_option_ex [OF this] that show thesis by blast
qed

section \<open>The properties\<close>

text \<open>C3: Refinement. Every state a cluster reaches by orderly events (those that respect \<open>careful\<close> and
  \<open>steady\<close>, as listed at the head of this theory) corresponds to a state that the protocol of \<open>RaftProtocol\<close> reaches: the same terms, votes and led terms, the same logs with the
  entries a snapshot stands for, match indices that were acknowledged, commit indices that are
  committed, and messages in flight that quote the log of their leader.\<close>

theorem cluster_refines_protocol:
  assumes "reach isNewCluster sstep s"
  shows "\<exists>p. reach (pinit (length (nodes s))) pstep p \<and> cref p s"
  using safety.inv_reach [OF assms] by (simp add: safe_inv_def)

theorem cluster_refines_protocol_witness:
  "\<exists>s p. crunP orderly (newCluster 3) commitRun = Some s \<and> reach (pinit 3) pstep p \<and> cref p s"
proof -
  obtain s where s: "crunP orderly (newCluster 3) commitRun = Some s" "length (nodes s) = 3" by (rule commit_run)
  from cluster_refines_protocol [OF reach_orderly [OF s(1)]] s show ?thesis by auto
qed

text \<open>C6: Log matching. In every state a cluster reaches by orderly events, when two peers hold entries of the same term under the same index, they hold the
  same entries under every index up to it.\<close>

theorem log_matching:
  assumes r: "reach isNewCluster sstep s" and ij: "i < length (nodes s)" "j < length (nodes s)"
    and e: "entry_at (nodes s ! i) k = Some e" "entry_at (nodes s ! j) k = Some e'" "Term e = Term e'"
    and d: "k' \<le> k" "entry_at (nodes s ! i) k' = Some d" "entry_at (nodes s ! j) k' = Some d'"
  shows "d = d'"
proof -
  obtain p where p: "pinv p" "cref p s" by (rule safe_ref [OF r])
  note w = ref_whole [OF p(2) ij(1)] ref_whole [OF p(2) ij(2)]
  have "wfLog p (pTerm p i) (pLog p i)" "wfLog p (pTerm p j) (pLog p j)"
    using inv_log [OF p(1)] ref_N [OF p(2)] ij by auto
  from match_entry [OF this, of "nat k" "nat k'"] e d whole_low [OF w(1)] show ?thesis
    by (auto simp: whole_entry [OF w(1)] whole_entry [OF w(2)] split: if_splits)
qed

theorem log_matching_witness:
  "\<exists>s. crunP orderly (newCluster 3) commitRun = Some s \<and> entry_at (nodes s ! 1) 0 = Some \<lparr>Term = 1, Index = 0, Command = 7\<rparr>"
proof -
  obtain s where s: "crunP orderly (newCluster 3) commitRun = Some s" "length (nodes s) = 3"
    "entry_at (nodes s ! 0) 0 = Some \<lparr>Term = 1, Index = 0, Command = 7\<rparr>"
    "entry_at (nodes s ! 0) 1 = Some \<lparr>Term = 1, Index = 1, Command = 8\<rparr>" "entry_at (nodes s ! 1) 0 \<noteq> None"
    "map_option Term (entry_at (nodes s ! 1) 1) = Some 1" by (rule commit_run)
  then obtain e d where e: "entry_at (nodes s ! 1) 1 = Some e" "Term e = 1" "entry_at (nodes s ! 1) 0 = Some d" by auto
  have "d = \<lparr>Term = 1, Index = 0, Command = 7\<rparr>"
    using log_matching [OF reach_orderly [OF s(1)], of 1 0 1 e _ 0 d] s e by simp
  with s(1) e(3) show ?thesis by blast
qed

text \<open>C5: Leader completeness. In every state a cluster reaches by orderly events, a leader has every entry
  that a peer of its own or an earlier term knows to be committed: its log reaches that far, and unless it has compacted the entry it holds the same one.\<close>

theorem leader_completeness:
  assumes r: "reach isNewCluster sstep s" and l: "leads s i t" and j: "j < length (nodes s)" "currentTerm (nodes s ! j) \<le> t"
    and k: "k \<le> commitIndex (nodes s ! j)" "entry_at (nodes s ! j) k = Some e"
  shows "k \<le> lastIndex (nodes s ! i) \<and> (snapshotIndex (nodes s ! i) < k \<longrightarrow> entry_at (nodes s ! i) k = Some e)"
proof -
  obtain p where p: "pinv p" "cref p s" "election_inv s" by (rule safe_ref [OF r])
  have i: "i < length (nodes s)" using l by (simp add: leads_def)
  note w = ref_whole [OF p(2) i] ref_whole [OF p(2) j(1)] and c = leader_prefix [OF p l j]
  have e: "0 \<le> k" "e = pLog p j ! nat k" using k(2) whole_low [OF w(2)] by (auto simp: whole_entry [OF w(2)] split: if_splits)
  then have kc: "nat k < nat (commitIndex (nodes s ! j) + 1)" using k(1) by simp
  with c have "pLog p i ! nat k = e" using e(2) by (metis nth_take)
  with kc c(1) e(1) show ?thesis by (auto simp: whole_last [OF w(1)] whole_entry [OF w(1)])
qed

theorem leader_completeness_witness:
  "\<exists>s. crunP orderly (newCluster 3) (commitRun @ nextLeaderRun) = Some s \<and> leads s 1 2 \<and>
     entry_at (nodes s ! 1) 1 = Some \<lparr>Term = 1, Index = 1, Command = 8\<rparr>"
proof -
  have "case crunP orderly (newCluster 3) (commitRun @ nextLeaderRun) of None \<Rightarrow> False | Some s \<Rightarrow>
    leads s 1 2 \<and> length (nodes s) = 3 \<and> currentTerm (nodes s ! 0) = 1 \<and> commitIndex (nodes s ! 0) = 1 \<and>
    snapshotIndex (nodes s ! 1) = -1 \<and> entry_at (nodes s ! 0) 1 = Some \<lparr>Term = 1, Index = 1, Command = 8\<rparr>"
    by code_simp
  from case_option_ex [OF this] obtain s where s: "crunP orderly (newCluster 3) (commitRun @ nextLeaderRun) = Some s"
    "leads s 1 2" "length (nodes s) = 3" "currentTerm (nodes s ! 0) = 1" "commitIndex (nodes s ! 0) = 1"
    "snapshotIndex (nodes s ! 1) = -1" "entry_at (nodes s ! 0) 1 = Some \<lparr>Term = 1, Index = 1, Command = 8\<rparr>" by blast
  with leader_completeness [OF reach_orderly [OF s(1)] s(2), of 0 1] show ?thesis by auto
qed

text \<open>C1: State machine safety. In every run of orderly events: if one peer has handed a command to its service under an index, then
  neither now nor at any later time, and not after a restart either, does any peer hand over another
  command under this index.\<close>

theorem state_machine_safety:
  assumes r: "reach isNewCluster sstep s" and run: "sstep\<^sup>*\<^sup>* s t" and ij: "i < length (nodes s)" "j < length (nodes t)"
    and m: "ms \<in> set (applyGo (nodes s ! i))" "m \<in> set ms" "CommandValid m"
    and m': "ms' \<in> set (applyGo (nodes t ! j))" "m' \<in> set ms'" "CommandValid m'" and idx: "CommandIndex m = CommandIndex m'"
  shows "aCommand m = aCommand m'"
proof -
  from safety.inv_reach [OF r] obtain p where p: "election_inv s" "reach (pinit (length (nodes s))) pstep p" "cref p s"
    by (auto simp: safe_inv_def)
  from safe_run [OF p run] obtain q where q: "evolves p q" "reach (pinit (length (nodes t))) pstep q" "cref q t" by blast
  have "delivered p m" "delivered q m'"
    using ref_node [OF p(3) ij(1)] ref_node [OF q(3) ij(2)] m m' by (auto simp: node_ref_def delivers_def)
  with delivered_mono [OF q(1)] have "delivered q m" "delivered q m'" by auto
  with m(3) m'(3) idx obtain k c c' where "aCommand m = Some c" "aCommand m' = Some c'" "chosen q k c" "chosen q k c'"
    by (auto simp: delivered_def)
  with chosen_unique [OF protocol.inv_reach [OF q(2)]] show ?thesis by metis
qed

theorem state_machine_safety_witness:
  "\<exists>s t. crunP orderly (newCluster 3) commitRun = Some s \<and> crunP orderly s laterRun = Some t \<and>
     commandAt s 0 1 = [Some 7] \<and> commandAt t 1 1 = [Some 7]"
proof -
  obtain s where s: "crunP orderly (newCluster 3) commitRun = Some s" "length (nodes s) = 3" "commandAt s 0 1 = [Some 7]"
    by (rule commit_run)
  have "case crunP orderly (newCluster 3) commitRun of None \<Rightarrow> False | Some s \<Rightarrow>
    (case crunP orderly s laterRun of None \<Rightarrow> False | Some t \<Rightarrow> length (nodes t) = 3 \<and> length (commandAt t 1 1) = 1)"
    by code_simp
  with s have "case crunP orderly s laterRun of None \<Rightarrow> False | Some t \<Rightarrow> length (nodes t) = 3 \<and> length (commandAt t 1 1) = 1" by simp
  from case_option_ex [OF this] obtain t v where t: "crunP orderly s laterRun = Some t" "length (nodes t) = 3" "commandAt t 1 1 = [v]"
    by (auto simp: length_Suc_conv)
  obtain ms m where m: "ms \<in> set (applyGo (nodes s ! 0))" "m \<in> set ms" "CommandValid m" "CommandIndex m = 1" "aCommand m = Some 7"
    using commandAt_in [of "Some 7" s 0 1] s(3) by auto
  obtain ms' m' where m': "ms' \<in> set (applyGo (nodes t ! 1))" "m' \<in> set ms'" "CommandValid m'" "CommandIndex m' = 1" "aCommand m' = v"
    using commandAt_in [of v t 1 1] t(3) by auto
  have "v = Some 7"
    using state_machine_safety [OF reach_orderly [OF s(1)] crunP_orderly [OF t(1)] _ _ m(1-3) m'(1-3)] m(4,5) m'(4,5) s(2) t(2) by simp
  with s t show ?thesis by blast
qed

text \<open>Committed entries agree. Two peers that both know an index to be committed hold the same entry
  under it, if they still hold one.\<close>

theorem committed_entries_agree:
  assumes r: "reach isNewCluster sstep s" and ij: "i < length (nodes s)" "j < length (nodes s)"
    and k: "k \<le> commitIndex (nodes s ! i)" "k \<le> commitIndex (nodes s ! j)"
    and e: "entry_at (nodes s ! i) k = Some e" "entry_at (nodes s ! j) k = Some e'"
  shows "e = e'"
proof -
  obtain p where p: "pinv p" "cref p s" by (rule safe_ref [OF r])
  note w = ref_whole [OF p(2) ij(1)] ref_whole [OF p(2) ij(2)]
  have f: "0 \<le> k" "e = pLog p i ! nat k" "e' = pLog p j ! nat k"
    using e whole_low [OF w(1)] by (auto simp: whole_entry [OF w(1)] whole_entry [OF w(2)] split: if_splits)
  have "take (Suc (nat k)) (pLog p i) = take (Suc (nat k)) (pLog p j)"
    using k f(1) by (intro cprefix_agree [OF p(1) ref_commits [OF p(2) ij(1)] ref_commits [OF p(2) ij(2)]]) auto
  with f show ?thesis by (metis lessI nth_take)
qed

section \<open>Sending too late\<close>

text \<open>
  The role check of \<open>leaderTicker\<close> and the sending are two critical sections. In the run below
  peer 0 leads term 1, peer 1 wins term 2, commits command 8 with peer 2 and hands it over. Peer 0
  has learnt of term 2; the round of its ticker that it began as a leader now sends its old log
  with the new term, peer 2 takes it for the log of the leader of term 2 and drops command 8.
  Peer 0 then wins term 3 with the vote of peer 2 and commits its own command under the same index.
\<close>

fun orderly_but_send :: "'c cluster \<Rightarrow> 'c event \<Rightarrow> bool" where
  "orderly_but_send s (EvSend i) \<longleftrightarrow> True"
| "orderly_but_send s e \<longleftrightarrow> orderly s e"

definition lateSendRun :: "nat event list" where
  "lateSendRun = electionRun @ [EvStart 0 7,
     EvCandidate 1 600 0, EvVote 2 610, EvVote 3 610, EvVoteReply 3, EvLead 0,
     EvStart 1 8, EvSend 1, EvAppend 1 620, EvAppendReply 1, EvCommit 1,
     EvSend 0, EvAppend 3 630,
     EvCandidate 0 900 0, EvVote 5 910, EvVoteReply 5, EvLead 0,
     EvStart 0 9, EvSend 0, EvAppend 5 920, EvAppendReply 5, EvCommit 0]"

text \<open>C36: A leader that sends after it was overtaken breaks state machine safety: there is a run in which
  only the check of the role before sending is missing and two peers hand different commands to their
  services under the same index.\<close>

theorem late_send_breaks_safety:
  "\<exists>s. crunP orderly_but_send (newCluster 3) lateSendRun = Some s \<and> commandAt s 0 1 = [Some 7] \<and> commandAt s 1 1 = [Some 8]"
proof -
  have "case crunP orderly_but_send (newCluster 3) lateSendRun of None \<Rightarrow> False
      | Some s \<Rightarrow> commandAt s 0 1 = [Some 7] \<and> commandAt s 1 1 = [Some 8]"
    by code_simp
  then show ?thesis by (rule case_option_ex)
qed

section \<open>Committing too late\<close>

text \<open>
  \<open>leaderTicker\<close> calls \<open>leaderUpdateCommitIndex\<close> after the same check of the role. In the run below, of five
  peers, peer 0 leads terms 1 and 3 and replicates its two entries of term 1 to peers 1 and 2. Peer 4,
  which has led term 2, wins term 4 and replaces them at peer 0. The round that peer 0 began as the
  leader of term 3 now counts the old acknowledgements for the new entries and commits them, although
  peers 1, 2 and 3 elect a leader that does not have them and commits the old ones.
\<close>

fun orderly_but_commit :: "'c cluster \<Rightarrow> 'c event \<Rightarrow> bool" where
  "orderly_but_commit s (EvCommit i) \<longleftrightarrow> True"
| "orderly_but_commit s e \<longleftrightarrow> orderly s e"

definition lateCommitRun :: "nat event list" where
  "lateCommitRun = [EvCandidate 0 300 0, EvVote 0 310, EvVote 1 310, EvVoteReply 0, EvVoteReply 1, EvLead 0,
     EvStart 0 7, EvStart 0 8,
     EvCandidate 4 320 0, EvCandidate 4 900 0, EvVote 10 910, EvVote 11 910, EvVoteReply 10, EvVoteReply 11, EvLead 0,
     EvStart 4 9,
     EvVote 8 920, EvCandidate 0 1500 0, EvVote 12 1510, EvVote 13 1510, EvVoteReply 12, EvVoteReply 13, EvLead 0,
     EvSend 0, EvAppend 0 1520, EvAppend 1 1520, EvAppendReply 0, EvAppendReply 1,
     EvSend 0, EvAppend 4 1530, EvAppend 5 1530, EvAppendReply 4, EvAppendReply 5,
     EvVote 15 1540, EvCandidate 4 2100 0, EvVote 16 2110, EvVote 19 2110, EvVoteReply 16, EvVoteReply 19, EvLead 0,
     EvStart 4 10, EvSend 4, EvAppend 8 2120, EvAppendReply 8, EvSend 4, EvAppend 12 2130,
     EvCommit 0,
     EvCandidate 1 2700 0, EvCandidate 1 3300 0, EvVote 25 3310, EvVote 26 3310, EvVoteReply 25, EvVoteReply 26, EvLead 0,
     EvStart 1 11, EvSend 1, EvAppend 17 3320, EvAppendReply 17, EvAppend 18 3320, EvAppendReply 18,
     EvSend 1, EvAppend 22 3330, EvAppendReply 22, EvCommit 1]"

text \<open>A leader that commits after it was overtaken breaks state machine safety: there is a run in
  which only the check of the role before committing is missing and two peers hand different commands
  to their services under the same index.\<close>

theorem late_commit_breaks_safety:
  "\<exists>s. crunP orderly_but_commit (newCluster 5) lateCommitRun = Some s \<and> commandAt s 0 1 = [Some 9] \<and> commandAt s 1 1 = [Some 7]"
proof -
  have "case crunP orderly_but_commit (newCluster 5) lateCommitRun of None \<Rightarrow> False
      | Some s \<Rightarrow> commandAt s 0 1 = [Some 9] \<and> commandAt s 1 1 = [Some 7]"
    by code_simp
  then show ?thesis by (rule case_option_ex)
qed

section \<open>A late request for the first entry\<close>

text \<open>
  A request with \<open>PrevLogIndex\<close> -1 is taken as it is, whether or not the log still begins with the first
  entry. In the run below peer 0 leads term 1 and commits three commands, the third one with peer 1
  alone. Peer 1 compacts the first two; then an old request with these two arrives and replaces the
  rest of its log, so that the third entry is gone. Peer 2 wins term 2 with the vote of peer 1 and
  commits another command in its place.
\<close>

fun orderly_but_first :: "'c cluster \<Rightarrow> 'c event \<Rightarrow> bool" where
  "orderly_but_first s (EvAppend k now) \<longleftrightarrow> True"
| "orderly_but_first s e \<longleftrightarrow> orderly s e"

definition staleFirstRun :: "nat event list" where
  "staleFirstRun = electionRun @ [EvStart 0 5, EvStart 0 6, EvSend 0, EvSend 0,
     EvAppend 0 320, EvAppend 1 320, EvAppendReply 0, EvAppendReply 1, EvCommit 0,
     EvStart 0 9, EvSend 0, EvAppend 4 330, EvAppendReply 4, EvCommit 0,
     EvSnapshot 1 2 [1], EvAppend 2 340,
     EvCandidate 2 900 0, EvVote 3 910, EvVoteReply 3, EvLead 0,
     EvStart 2 10, EvSend 2, EvAppend 7 920, EvAppendReply 7, EvCommit 2]"

text \<open>C37: A request for the first entry that comes late breaks state machine safety: there is a run in
  which only this happens, at a peer that has compacted its log, and two peers hand different commands
  to their services under the same index.\<close>

theorem stale_request_breaks_safety:
  "\<exists>s. crunP orderly_but_first (newCluster 3) staleFirstRun = Some s \<and> commandAt s 0 3 = [Some 9] \<and> commandAt s 2 3 = [Some 10]"
proof -
  have "case crunP orderly_but_first (newCluster 3) staleFirstRun of None \<Rightarrow> False
      | Some s \<Rightarrow> commandAt s 0 3 = [Some 9] \<and> commandAt s 2 3 = [Some 10]"
    by code_simp
  then show ?thesis by (rule case_option_ex)
qed

end
