(* ===== verification/Daemons.thy ===== *)
theory Daemons
  imports MapReduce
begin

text \<open>
  The command-line programs of older labs in \<open>main/\<close>: a disk-backed server, a lock service and a
  primary/backup service. The packages they start are not in the repository: what they do is a
  parameter, a function on the state \<open>'w\<close> of the world. What is left is reading the arguments, which
  for \<open>diskvd.go\<close> is a small parser of its own, with the number parsers of \<open>strconv\<close>.
\<close>

section \<open>Parsing numbers\<close>

datatype numError = ErrSyntax | ErrRange

text \<open>
  \<open>strconv.ParseUint\<close> for base 10 and 64 bits: the value that is returned, and the error. Digits are
  read from the left; the largest value is returned as soon as the number is too large.
\<close>

fun parseDigits :: "string \<Rightarrow> int \<Rightarrow> int \<times> numError option" where
  "parseDigits [] n = (n, None)"
| "parseDigits (c # s) n =
    (if \<not> isDigit c then (0, Some ErrSyntax)
     else if n \<ge> (2 ^ 64 - 1) div 10 + 1 then (2 ^ 64 - 1, Some ErrRange)
     else let n1 = n * 10 + (of_char c - 48) in
       if n1 > 2 ^ 64 - 1 then (2 ^ 64 - 1, Some ErrRange) else parseDigits s n1)"

definition ParseUint :: "string \<Rightarrow> int \<times> numError option" where
  "ParseUint s = (if s = [] then (0, Some ErrSyntax) else parseDigits s 0)"

text \<open>\<open>strconv.ParseInt\<close> for base 10 and 64 bits, which \<open>strconv.Atoi\<close> agrees with.\<close>

definition ParseInt :: "string \<Rightarrow> int \<times> numError option" where
  "ParseInt s =
    (if s = [] then (0, Some ErrSyntax)
     else
     let neg = (hd s = CHR ''-'');
         s' = (if hd s = CHR ''-'' \<or> hd s = CHR ''+'' then tl s else s);
         (un, err) = ParseUint s' in
     if err = Some ErrSyntax then (0, err)
     else if \<not> neg \<and> un \<ge> 2 ^ 63 then (2 ^ 63 - 1, Some ErrRange)
     else if neg \<and> un > 2 ^ 63 then (- (2 ^ 63), Some ErrRange)
     else (if neg then - un else un, None))"

definition ParseBool :: "string \<Rightarrow> bool \<times> numError option" where
  "ParseBool s =
    (if s \<in> {''1'', ''t'', ''T'', ''true'', ''TRUE'', ''True''} then (True, None)
     else if s \<in> {''0'', ''f'', ''F'', ''false'', ''FALSE'', ''False''} then (False, None)
     else (False, Some ErrSyntax))"

section \<open>Programs\<close>

text \<open>How a process ends: with an exit code, killed by itself, or not at all.\<close>

datatype ending = Exited int | KilledItself | RunsOn

text \<open>The result of a program: what it printed, the world it leaves, and how it ends.\<close>

type_synonym 'w run = "string \<times> 'w \<times> ending"

record diskvFlags =
  gid :: int
  masters :: "string list"
  replicas :: "string list"
  mine :: int
  unreliable :: bool
  dir :: string
  restart :: bool

definition noFlags :: diskvFlags where
  "noFlags = \<lparr>gid = -1, masters = [], replicas = [], mine = -1, unreliable = False, dir = [], restart = False\<rparr>"

text \<open>One round of the loop; an unknown flag ends the program with the usage message (\<open>None\<close>).\<close>

definition oneFlag :: "string \<Rightarrow> string \<Rightarrow> diskvFlags \<Rightarrow> diskvFlags option" where
  "oneFlag a0 a1 f =
    (if a0 = ''-g'' then Some (f\<lparr>gid := fst (ParseInt a1)\<rparr>)
     else if a0 = ''-m'' then Some (f\<lparr>masters := masters f @ [a1]\<rparr>)
     else if a0 = ''-s'' then Some (f\<lparr>replicas := replicas f @ [a1]\<rparr>)
     else if a0 = ''-i'' then Some (f\<lparr>mine := fst (ParseInt a1)\<rparr>)
     else if a0 = ''-u'' then Some (f\<lparr>unreliable := fst (ParseBool a1)\<rparr>)
     else if a0 = ''-d'' then Some (f\<lparr>dir := a1\<rparr>)
     else if a0 = ''-r'' then Some (f\<lparr>restart := fst (ParseBool a1)\<rparr>)
     else None)"

text \<open>The loop over pairs of arguments; a single one at the end is not looked at.\<close>

fun readFlags :: "string list \<Rightarrow> diskvFlags \<Rightarrow> diskvFlags option" where
  "readFlags (a0 # a1 # rest) f = Option.bind (oneFlag a0 a1 f) (readFlags rest)"
| "readFlags _ f = Some f"

definition diskvUsage :: string where
  "diskvUsage = ''Usage: diskvd -g gid -m master... -s server... -i my-index -d dir'' @ newline"

definition diskvd :: "(int \<Rightarrow> string list \<Rightarrow> string list \<Rightarrow> int \<Rightarrow> string \<Rightarrow> bool \<Rightarrow> 'w \<Rightarrow> 'srv \<times> 'w) \<Rightarrow> ('srv \<Rightarrow> bool \<Rightarrow> 'w \<Rightarrow> 'w) \<Rightarrow>
    string list \<Rightarrow> 'w \<Rightarrow> 'w run" where
  "diskvd StartServer Setunreliable args w =
    (case readFlags (drop 1 args) noFlags of
       None \<Rightarrow> (diskvUsage, w, Exited 1)
     | Some f \<Rightarrow>
         if gid f < 0 \<or> mine f < 0 \<or> len (masters f) < 1 \<or> mine f \<ge> len (replicas f) \<or> dir f = [] then (diskvUsage, w, Exited 1)
         else let (srv, w1) = StartServer (gid f) (masters f) (replicas f) (mine f) (dir f) (restart f) w;
                  w2 = Setunreliable srv (unreliable f) w1 in
              ([], w2, KilledItself))"

text \<open>\<open>fmt.Printf\<close> with \<open>%v\<close> of a boolean.\<close>

definition boolStr :: "bool \<Rightarrow> string" where
  "boolStr b = (if b then ''true'' else ''false'')"

text \<open>\<open>usage\<close> ends the process, so that the line with the reply is printed only after a call.\<close>

definition lockc :: "(string \<Rightarrow> string \<Rightarrow> 'w \<Rightarrow> 'ck \<times> 'w) \<Rightarrow> ('ck \<Rightarrow> string \<Rightarrow> 'w \<Rightarrow> bool \<times> 'w) \<Rightarrow> ('ck \<Rightarrow> string \<Rightarrow> 'w \<Rightarrow> bool \<times> 'w) \<Rightarrow>
    string list \<Rightarrow> 'w \<Rightarrow> 'w run" where
  "lockc MakeClerk Lock Unlock args w =
    (let usage = ''Usage: lockc -l|-u primaryport backupport lockname'' @ newline in
     if length args = 5 then
       let (ck, w1) = MakeClerk (args ! 2) (args ! 3) w in
       if args ! 1 = ''-l'' then let (ok, w2) = Lock ck (args ! 4) w1 in (''reply: '' @ boolStr ok @ newline, w2, Exited 0)
       else if args ! 1 = ''-u'' then let (ok, w2) = Unlock ck (args ! 4) w1 in (''reply: '' @ boolStr ok @ newline, w2, Exited 0)
       else (usage, w1, Exited 1)
     else (usage, w, Exited 1))"

definition lockd :: "(string \<Rightarrow> string \<Rightarrow> bool \<Rightarrow> 'w \<Rightarrow> 'w) \<Rightarrow> string list \<Rightarrow> 'w \<Rightarrow> 'w run" where
  "lockd StartServer args w =
    (if length args = 4 \<and> args ! 1 = ''-p'' then ([], StartServer (args ! 2) (args ! 3) True w, RunsOn)
     else if length args = 4 \<and> args ! 1 = ''-b'' then ([], StartServer (args ! 2) (args ! 3) False w, RunsOn)
     else (''Usage: lockd -p|-b primaryport backupport'' @ newline, w, Exited 1))"

definition pbc :: "(string \<Rightarrow> string \<Rightarrow> 'w \<Rightarrow> 'ck \<times> 'w) \<Rightarrow> ('ck \<Rightarrow> string \<Rightarrow> 'w \<Rightarrow> string \<times> 'w) \<Rightarrow> ('ck \<Rightarrow> string \<Rightarrow> string \<Rightarrow> 'w \<Rightarrow> 'w) \<Rightarrow>
    string list \<Rightarrow> 'w \<Rightarrow> 'w run" where
  "pbc MakeClerk Get Put args w =
    (if length args = 3 then
       let (ck, w1) = MakeClerk (args ! 1) [] w; (v, w2) = Get ck (args ! 2) w1 in (v @ newline, w2, Exited 0)
     else if length args = 4 then
       let (ck, w1) = MakeClerk (args ! 1) [] w in ([], Put ck (args ! 2) (args ! 3) w1, Exited 0)
     else (''Usage: pbc viewport key'' @ newline @ ''       pbc viewport key value'' @ newline, w, Exited 1))"

definition pbd :: "(string \<Rightarrow> string \<Rightarrow> 'w \<Rightarrow> 'w) \<Rightarrow> string list \<Rightarrow> 'w \<Rightarrow> 'w run" where
  "pbd StartServer args w =
    (if length args \<noteq> 3 then (''Usage: pbd viewport myport'' @ newline, w, Exited 1)
     else ([], StartServer (args ! 1) (args ! 2) w, RunsOn))"

definition viewd :: "(string \<Rightarrow> 'w \<Rightarrow> 'w) \<Rightarrow> string list \<Rightarrow> 'w \<Rightarrow> 'w run" where
  "viewd StartServer args w =
    (if length args \<noteq> 2 then (''Usage: viewd port'' @ newline, w, Exited 1)
     else ([], StartServer (args ! 1) w, RunsOn))"

section \<open>What is read\<close>

text \<open>Reading a number that was printed gives the number back.\<close>

lemma parseDigits_append:
  assumes "\<And>c. c \<in> set ds \<Longrightarrow> isDigit c" "0 \<le> n" "foldl (\<lambda>a c. a * 10 + (of_char c - 48)) n ds \<le> 2 ^ 64 - 1"
  shows "parseDigits ds n = (foldl (\<lambda>a c. a * 10 + (of_char c - 48)) n ds, None)"
  using assms
proof (induction ds arbitrary: n)
  case (Cons c ds)
  let ?d = "of_char c - 48 :: int" and ?g = "\<lambda>a (c :: char). a * 10 + (of_char c - 48 :: int)"
  have dig: "isDigit x" if "x \<in> set (c # ds)" for x using that Cons.prems(1) by blast
  have pos: "0 \<le> (of_char x :: int) - 48" if "x \<in> set (c # ds)" for x
  proof -
    have "(48 :: nat) \<le> of_char x" using dig [OF that] by (simp add: isDigit_def)
    then have "int 48 \<le> int (of_char x)" by linarith
    then show ?thesis by (simp add: of_nat_of_char)
  qed
  have mono: "m \<le> foldl ?g m xs" if "0 \<le> m" "\<And>x. x \<in> set xs \<Longrightarrow> 0 \<le> (of_char x :: int) - 48" for m xs
    using that
  proof (induction xs arbitrary: m)
    case (Cons y ys)
    have "m \<le> ?g m y" "0 \<le> ?g m y" using Cons.prems by (auto simp: add.commute)
    with Cons.IH [of "?g m y"] Cons.prems(2) show ?case by fastforce
  qed simp
  have "n * 10 + ?d \<le> 2 ^ 64 - 1"
    using mono [of "n * 10 + ?d" ds] Cons.prems(2,3) pos by auto
  moreover from this have "n < (2 ^ 64 - 1) div 10 + 1" using pos [of c] by auto
  moreover have "parseDigits ds (n * 10 + ?d) = (foldl ?g (n * 10 + ?d) ds, None)"
    using Cons.prems(2,3) pos [of c] dig by (intro Cons.IH) auto
  ultimately show ?case using dig [of c] by (simp add: Let_def)
qed simp

lemma readDigits_int:
  assumes "\<And>c. c \<in> set ds \<Longrightarrow> isDigit c"
  shows "int (foldl (\<lambda>a c. 10 * a + (of_char c - 48)) n ds) = foldl (\<lambda>a c. a * 10 + (of_char c - 48)) (int n) ds"
  using assms
proof (induction ds arbitrary: n)
  case (Cons c ds)
  have "(48 :: nat) \<le> of_char c" using Cons.prems [of c] by (simp add: isDigit_def)
  then have "int (of_char c - 48) = of_char c - 48" by (simp add: of_nat_diff of_nat_of_char)
  with Cons.IH [of "10 * n + (of_char c - 48)"] Cons.prems show ?case by (simp add: algebra_simps)
qed simp

lemma parse_digitsOf: "int n \<le> 2 ^ 64 - 1 \<Longrightarrow> ParseUint (digitsOf n) = (int n, None)"
proof -
  assume n: "int n \<le> 2 ^ 64 - 1"
  have "int n = foldl (\<lambda>a c. a * 10 + (of_char c - 48)) 0 (digitsOf n)"
    using readDigits_int [of "digitsOf n" 0] digitsOf_digits [of _ n] readDigits_digitsOf [of n] by (simp add: readDigits_def)
  with n parseDigits_append [of "digitsOf n" 0] digitsOf_digits show ?thesis by (auto simp: ParseUint_def)
qed

lemma digitsOf_hd: "hd (digitsOf n) \<noteq> CHR ''-''" "hd (digitsOf n) \<noteq> CHR ''+''"
proof -
  have "isDigit (hd (digitsOf n))" by (rule digitsOf_digits) (rule hd_in_set, simp)
  then show "hd (digitsOf n) \<noteq> CHR ''-''" "hd (digitsOf n) \<noteq> CHR ''+''" by (auto simp: isDigit_def)
qed

theorem ParseInt_Itoa:
  assumes "- (2 ^ 63) \<le> n" "n < 2 ^ 63"
  shows "ParseInt (Itoa n) = (n, None)"
proof (cases "n < 0")
  case True
  then have "ParseUint (digitsOf (nat (- n))) = (- n, None)" using parse_digitsOf [of "nat (- n)"] assms by simp
  with True assms show ?thesis by (simp add: ParseInt_def Itoa_def)
next
  case False
  then have "ParseUint (digitsOf (nat n)) = (n, None)" using parse_digitsOf [of "nat n"] assms by simp
  with False assms show ?thesis by (simp add: ParseInt_def Itoa_def digitsOf_hd Let_def)
qed

lemma readFlags_masters:
  "readFlags (concat (map (\<lambda>m. [''-m'', m]) ms) @ rest) f = readFlags rest (f\<lparr>masters := masters f @ ms\<rparr>)"
  by (induction ms arbitrary: f) (simp_all add: oneFlag_def)

lemma readFlags_replicas:
  "readFlags (concat (map (\<lambda>m. [''-s'', m]) ss) @ rest) f = readFlags rest (f\<lparr>replicas := replicas f @ ss\<rparr>)"
  by (induction ss arbitrary: f) (simp_all add: oneFlag_def)

definition diskvArgs :: "string \<Rightarrow> string list \<Rightarrow> string list \<Rightarrow> string \<Rightarrow> string \<Rightarrow> string list" where
  "diskvArgs g ms ss i d = ''diskvd'' # ''-g'' # g # concat (map (\<lambda>m. [''-m'', m]) ms) @
     concat (map (\<lambda>x. [''-s'', x]) ss) @ [''-i'', i, ''-d'', d]"

lemma diskvd_run:
  assumes "0 \<le> fst (ParseInt g)" "0 \<le> fst (ParseInt i)" "fst (ParseInt i) < len ss" "ms \<noteq> []" "d \<noteq> []"
    and "StartServer (fst (ParseInt g)) ms ss (fst (ParseInt i)) d False w = (srv, w1)"
  shows "diskvd StartServer Setunreliable (diskvArgs g ms ss i d) w = ([], Setunreliable srv False w1, KilledItself)"
  using assms by (auto simp: diskvd_def diskvArgs_def oneFlag_def readFlags_masters readFlags_replicas noFlags_def len_def)

text \<open>Well-formed arguments reach the server as they were meant.\<close>

theorem diskvd_starts:
  assumes "0 \<le> g" "g < 2 ^ 63" "0 \<le> i" "i < len ss" "i < 2 ^ 63" "ms \<noteq> []" "d \<noteq> []" "StartServer g ms ss i d False w = (srv, w1)"
  shows "diskvd StartServer Setunreliable (diskvArgs (Itoa g) ms ss (Itoa i) d) w = ([], Setunreliable srv False w1, KilledItself)"
  using assms ParseInt_Itoa [of g] ParseInt_Itoa [of i] by (intro diskvd_run) auto

text \<open>A group number that is not a number is taken for group 0: the error of the parser is dropped.\<close>

theorem diskvd_bad_group:
  assumes "snd (ParseInt g) = Some ErrSyntax" "0 \<le> i" "i < len ss" "i < 2 ^ 63" "ms \<noteq> []" "d \<noteq> []"
    "StartServer 0 ms ss i d False w = (srv, w1)"
  shows "diskvd StartServer Setunreliable (diskvArgs g ms ss (Itoa i) d) w = ([], Setunreliable srv False w1, KilledItself)"
proof -
  have "fst (ParseInt g) = 0" using assms(1) by (auto simp: ParseInt_def Let_def split: if_splits prod.splits)
  with assms ParseInt_Itoa [of i] show ?thesis by (intro diskvd_run) auto
qed

end
