(* ===== verification/Spec2Isabelle.thy ===== *)
theory Spec2Isabelle
  imports RaftProperties RaftApply RaftHarnessProperties RaftHarnessNet PorcupineProperties Labgob KvClerk ShardClerk MapReduce
    ServiceHarnessProperties ShardHarnessRun PorcupineVisualProperties RaftTools RaftSafety Daemons
begin

text \<open>
  A verification development for the distributed systems labs of this repository: a
  Raft library in Go, the simulated network and the encoder it runs on, the linearizability
  checker that judges it, and the key/value, shard and MapReduce programs around it.

  \<^bold>\<open>The parts of the program and how they work together.\<close> A service starts one \<open>Raft\<close> peer per
  server (\<open>raft/raft.go\<close>). Peers elect a leader (\<open>requestVoteRPC.go\<close>, \<open>serverStateTrans.go\<close>),
  the leader replicates its log (\<open>appendEntriesRPC.go\<close>, \<open>logActivities.go\<close>) or sends a snapshot
  (\<open>installSnapshotRPC.go\<close>), what must survive a crash goes through a \<open>Persister\<close>
  (\<open>persister.go\<close>), and committed entries reach the service through a buffer of one place
  (\<open>putApplyChBuffer\<close>, \<open>getApplyChBuffer\<close>). Remote calls travel through \<open>labrpc/labrpc.go\<close>, which
  loses and delays them on demand, and are encoded by \<open>labgob/labgob.go\<close>. The checker
  \<open>porcupine/\<close> decides, with the model \<open>models/kv.go\<close>, whether a recorded history of a key/value
  service is linearizable. \<open>kvraft/\<close>, \<open>shardctrler/\<close> and \<open>shardkv/\<close> are clerks and (unfinished)
  servers on top of Raft; \<open>mr/\<close>, \<open>mrapps/\<close> and \<open>main/mrsequential.go\<close> are the MapReduce lab.

  \<^bold>\<open>Conventions.\<close> A Go panic or \<open>log.Fatalf\<close> is a value of \<open>go_error\<close>; an operation that can end
  the process returns \<open>go_error + 'a\<close> (\<open>res\<close>, in theory \<open>Prelude\<close>). Slices are lists with checked
  indices, maps are partial functions, structs are records with the fields of the source. Code
  that holds a peer's mutex throughout is one definition; where the source releases the lock in
  between, the pieces are definitions of their own and the state machines interleave them. Time,
  random numbers and the decisions of the scheduler are arguments or choices of a step relation.
  Go's \<open>int\<close> is unbounded in Raft, whose terms and indices grow by one; it has its width where
  the width matters: 64-bit words in bit sets, the 32- and 64-bit counters of the network,
  the 32-bit hash of MapReduce.

  \<^bold>\<open>Raft.\<close>
  \<^item> \<open>RaftState\<close>: the record \<open>Raft\<close>, log entries, \<open>Persister\<close>, \<open>persist\<close> and \<open>readPersist\<close> with the
    encoded fields, \<open>findIndex\<close>, \<open>getLastLogIndexAndTerm\<close>.
  \<^item> \<open>RaftLog\<close>, \<open>RaftCommit\<close>, \<open>RaftReplication\<close>: \<open>followerHandleLog\<close>, \<open>leaderHandleLog\<close>, the commit
    indices, both AppendEntries handlers and what a leader sends in one round.
  \<^item> \<open>RaftElection\<close>, \<open>RaftSnapshot\<close>, \<open>RaftPeer\<close>: vote handlers and role changes; snapshots; \<open>Start\<close>
    and \<open>Make\<close>.
  \<^item> \<open>RaftVoteStep\<close>, \<open>RaftCluster\<close>, \<open>RaftElectionSafety\<close>: what each handler does to term, vote and
    role, the cluster as a step relation over peers, messages in flight and stable storage, and
    election safety as an invariant of it. Two behaviours of the code break election safety;
    the step relation has a flag for each, the theorem leaves them out, and two concrete runs
    show what happens with them.
  \<^item> \<open>RaftProtocol\<close>, \<open>RaftProtocolInv\<close>: the abstract specification, Raft without messages. Its state has
    the stable term and log of every peer and the history of votes, candidacies, leaders' logs and
    acknowledgements; the invariant gives agreement on what is committed.
  \<^item> \<open>RaftRefine\<close>, \<open>RaftSimulation\<close>, \<open>RaftSimulationLog\<close>, \<open>RaftSafety\<close>: the cluster refines the protocol,
    with snapshots, restarts, and requests and replies that come late, twice answered or never.
    From this follow log matching, leader completeness and state machine safety, for runs of orderly
    events: \<open>careful\<close> as for election safety, and \<open>steady\<close>, which leaves out four more things: sending,
    and committing, after the role of a leader was lost between the check and the action; a late
    request for the first entry at a peer that has compacted its log; and a service that compacts
    what its peer has not committed. The code does not prevent the first three, and three concrete runs
    show that each lets two peers apply different commands under one index.
  \<^item> \<open>RaftCatchUp\<close>: leader and follower exchanging requests and replies; the exchange ends with the
    follower holding the leader's entries, or with the need of a snapshot. Its assumption on the two
    logs is shown for clusters in \<open>RaftSafety\<close>.
  \<^item> \<open>RaftApply\<close>: the goroutines around the one-place buffer as a step relation; messages are
    conserved, but a wake-up can be lost.
  \<^item> \<open>RaftProperties\<close>: the functional behaviour of the operations, invariants of a peer, the round
    trip through stable storage, and what late messages can do.
  \<^item> \<open>RaftTools\<close>: the lines that peers print (\<open>raft/tools.go\<close>, \<open>raft/util.go\<close>) and those of the key/value
    service (\<open>kvraft/utils.go\<close>). The lines of peers tell states apart up to the commands
    in the log.

  \<^bold>\<open>Porcupine.\<close>
  \<^item> \<open>Bitset\<close>: \<open>bitset.go\<close> on 64-bit words, refined to sets of positions.
  \<^item> \<open>PorcupineList\<close>: the doubly linked event list on an explicit heap; \<open>lift\<close> and \<open>unlift\<close>.
  \<^item> \<open>Porcupine\<close>: histories, models, the search of \<open>checkSingle\<close> as a loop over its state, the
    collection of the partitions' results in \<open>checkParallel\<close> in any order of arrival, and the
    entry points with and without timeout.
  \<^item> \<open>PorcupineSearch\<close>, \<open>PorcupineCorrect\<close>, \<open>PorcupineTop\<close>: the search simulates a backtracking
    search on lists, which ends and is right in both directions; partitions and conversions.
  \<^item> \<open>KvModel\<close>, \<open>PorcupineProperties\<close>: the key/value model, locality (a store with many keys is
    linearizable iff each key is), and the theorem that the check answers exactly whether a
    history is linearizable.
  \<^item> \<open>PorcupinePartials\<close>, \<open>PorcupineVisual\<close>, \<open>PorcupineVisualProperties\<close>: the partial linearizations
    that a verbose check reports, also when it was stopped, are runs of the model, as an invariant of
    the search; the data of the visualization (\<open>computeVisualizationData\<close>), which therefore never
    panics and shows what was checked.

  \<^bold>\<open>Network, encoder, services, MapReduce.\<close>
  \<^item> \<open>Labrpc\<close>: the network with its servers in a store, the life of one request, dispatch by
    name. A positive reply comes from the very server that is still registered; a working
    connection delivers.
  \<^item> \<open>Labgob\<close>: the checks for lower-case fields and for decoding into used variables, over a table
    of types that may be cyclic.
  \<^item> \<open>KvClerk\<close>, \<open>ShardClerk\<close>: the retry loops of the clerks, over a remote call that is a parameter.
    What they return is what a leader, or a server of the owning group, has said. The handlers of
    the servers have no body, with the consequence that the clerks never return.
  \<^item> \<open>MapReduce\<close>: the sequential driver, the coordinator and worker programs and all applications. With
    word count the output is the sorted table of word counts.
  \<^item> \<open>Daemons\<close>: the command-line programs of older labs in \<open>main/\<close>, whose packages the repository does
    not have and which are parameters; \<open>diskvd.go\<close> reads its flags with the number parsers of
    \<open>strconv\<close>, which read back what was printed.

  \<^bold>\<open>Test harnesses.\<close> The harnesses put the parts together, so their properties span components.
  \<^item> \<open>RaftHarness\<close>, \<open>RaftHarnessNet\<close>, \<open>RaftHarnessProperties\<close>: \<open>raft/config.go\<close>. Exactly the present end
    points between connected servers carry calls; the check of committed entries is exact; asking
    for the leader never finds two of one term in a cluster that keeps election safety.
  \<^item> \<open>ServiceHarness\<close>, \<open>KvHarness\<close>, \<open>CtrlHarness\<close>: \<open>kvraft/config.go\<close> and \<open>shardctrler/config.go\<close>, which share
    their code up to the type of the servers. \<open>ServiceHarnessNet\<close>, \<open>ServicePartition\<close> and
    \<open>ServiceHarnessProperties\<close> show what partitions do, that a restarted server has what it stored, and
    that shuffling gives all permutations.
  \<^item> \<open>ShardHarness\<close>, \<open>ShardHarnessProperties\<close>, \<open>ShardHarnessRun\<close>: \<open>shardkv/config.go\<close>. Whatever a test starts and
    shuts down, a name given to the controller is that of a registered server exactly if the
    harness has an instance of the server; if names do not repeat, the harness works for groups of three, and
    for no other size.

  \<^bold>\<open>Interfaces.\<close> The locale \<open>transition_system\<close> carries invariants over reachable states and is
  interpreted on the cluster (for election safety and, through the simulation, for the other safety
  properties), on the protocol, on the harness of Raft and on that of the sharded store; \<open>service_harness\<close> is what a service provides
  for its harness, gives an instance of \<open>transition_system\<close> and is interpreted on the key/value servers
  and on the controllers; \<open>set_impl\<close> is the set that a bit set implements; \<open>search_model\<close> is
  what the search needs of a model and is interpreted for every model that compares states
  with \<open>ShallowEqual\<close>; \<open>keyed_store\<close> proves locality of
  linearizability and is interpreted on the key/value model; \<open>round_robin\<close> proves what a clerk's
  turn over its servers finds, and is interpreted on its two loops.

  \<^bold>\<open>Bounds.\<close> Recursions that follow a loop which can run for ever have a bound on their
  rounds and give \<open>None\<close> when it is used up. For the search of the checker, the exchange of
  leader and follower and the check of types the theorems state a bound that is enough; for
  the clerks they say which answers of the servers let the loop return, and that it never
  does otherwise. All other recursions are shown to terminate.

  \<^bold>\<open>Not modelled.\<close> Of \<open>porcupine/visualization.go\<close> the encoding as JSON and the text of the
  web page with its script (a constant), which are arguments of \<open>Visualize\<close>. Of the test
  harnesses the seed of the random numbers, printed times and the tests themselves are left out.
  Files, sockets and plugins belong to the operating system and are parameters of the programs that
  use them. The contents of snapshots are the service's, and the encoding by
  \<open>encoding/gob\<close> is that of the standard library: stable storage holds the encoded fields as a
  list of values.
\<close>

end
